(* ===== verification/Prelude.thy ===== *)
theory Prelude
  imports Main
begin

text \<open>
  Shared ground of the development: byte strings and the parts of the C++ standard library
  the framework uses on them (\<open>std::string_view::find\<close>, \<open>substr\<close>, \<open>rfind(p, 0) == 0\<close>,
  \<open>std::tolower\<close>, \<open>std::isspace\<close>, \<open>std::stoul\<close>, \<open>std::stoll\<close>, \<open>std::stoi\<close>,
  \<open>std::to_string\<close>), with the lemmas the components share.

  A C++ string is a list of bytes (\<^typ>\<open>char\<close> is an 8-bit value); \<open>npos\<close> is \<^term>\<open>None\<close>.
  The position arithmetic of the callers stays in range, so \<open>substr\<close> is take after drop.
  \<open>size_t\<close> is a natural number, with the wrap-around at \<open>2^64\<close> written out by \<open>size_t_wrap\<close>
  where a computation of the source can overflow.
\<close>

named_theorems find_intros \<open>introduction rules for positions found by find\<close>
named_theorems consume_bounds \<open>a parsing step never returns more input than it was given\<close>

section \<open>Characters\<close>

abbreviation CR :: char where "CR \<equiv> CHR 0x0D"
abbreviation LF :: char where "LF \<equiv> CHR 0x0A"
abbreviation TAB :: char where "TAB \<equiv> CHR 0x09"
abbreviation crlf :: string where "crlf \<equiv> [CR, LF]"
abbreviation DQ :: char where "DQ \<equiv> CHR 0x22"
abbreviation SQ :: char where "SQ \<equiv> CHR 0x27"
abbreviation BSL :: char where "BSL \<equiv> CHR 0x5C"

text \<open>The code of a byte, as \<open>unsigned char\<close> reads it.\<close>

abbreviation ord :: "char \<Rightarrow> nat" where "ord c \<equiv> of_char c"

definition is_digit :: "char \<Rightarrow> bool" where
  "is_digit c \<longleftrightarrow> 48 \<le> ord c \<and> ord c \<le> 57"

definition isspace :: "char \<Rightarrow> bool" where
  "isspace c \<longleftrightarrow> ord c = 32 \<or> (9 \<le> ord c \<and> ord c \<le> 13)"

definition isalnum :: "char \<Rightarrow> bool" where
  "isalnum c \<longleftrightarrow> is_digit c \<or> (65 \<le> ord c \<and> ord c \<le> 90) \<or> (97 \<le> ord c \<and> ord c \<le> 122)"

definition to_lower :: "char \<Rightarrow> char" where
  "to_lower c = (if 65 \<le> ord c \<and> ord c \<le> 90 then char_of (ord c + 32) else c)"


section \<open>Searching\<close>

definition starts_with :: "'a list \<Rightarrow> 'a list \<Rightarrow> bool" where
  "starts_with p s \<longleftrightarrow> take (length p) s = p"

definition ends_with :: "'a list \<Rightarrow> 'a list \<Rightarrow> bool" where
  "ends_with p s \<longleftrightarrow> length p \<le> length s \<and> drop (length s - length p) s = p"

fun find_sub :: "'a list \<Rightarrow> 'a list \<Rightarrow> nat option" where
  "find_sub p [] = (if p = [] then Some 0 else None)"
| "find_sub p (x # xs) =
     (if starts_with p (x # xs) then Some 0 else map_option Suc (find_sub p xs))"

text \<open>\<open>s.find(p, pos)\<close>.\<close>

definition find_from :: "'a list \<Rightarrow> 'a list \<Rightarrow> nat \<Rightarrow> nat option" where
  "find_from p s pos =
     (if length s < pos then None else map_option (\<lambda>i. pos + i) (find_sub p (drop pos s)))"

text \<open>\<open>s.substr(pos, n)\<close> and \<open>s.substr(pos)\<close>, for \<open>pos\<close> within the string.\<close>

definition substr :: "'a list \<Rightarrow> nat \<Rightarrow> nat \<Rightarrow> 'a list" where
  "substr s pos n = take n (drop pos s)"

definition contains_sub :: "'a list \<Rightarrow> 'a list \<Rightarrow> bool" where
  "contains_sub p s \<longleftrightarrow> find_sub p s \<noteq> None"

lemma starts_with_Nil [simp]: "starts_with [] s"
  by (simp add: starts_with_def)

lemma starts_with_append [simp]: "starts_with p (p @ s)"
  by (simp add: starts_with_def)

lemma starts_with_appendI: "starts_with p s \<Longrightarrow> starts_with p (s @ t)"
  by (metis append_take_drop_id starts_with_append starts_with_def append_assoc)

lemma starts_with_length: "starts_with p s \<Longrightarrow> length p \<le> length s"
  by (metis starts_with_def length_take min.cobounded1 min_def)

lemma starts_with_iff: "starts_with p s \<longleftrightarrow> (\<exists>t. s = p @ t)"
  by (metis append_take_drop_id starts_with_append starts_with_def)

lemma starts_with_append_iff:
  "length p \<le> length s \<Longrightarrow> starts_with p (s @ t) \<longleftrightarrow> starts_with p s"
  by (simp add: starts_with_def)

lemma starts_with_Cons [simp]:
  "starts_with (a # p) (b # s) \<longleftrightarrow> a = b \<and> starts_with p s"
  "\<not> starts_with (a # p) []"
  by (auto simp: starts_with_def)

lemma starts_with_same [simp]: "starts_with (a @ p) (a @ s) \<longleftrightarrow> starts_with p s"
  by (simp add: starts_with_iff)

lemma find_sub_Nil [simp]: "find_sub [] s = Some 0"
  by (cases s) (simp_all add: starts_with_def)

lemma find_sub_SomeD:
  "find_sub p s = Some i \<Longrightarrow> i + length p \<le> length s \<and> starts_with p (drop i s)"
proof (induction p s arbitrary: i rule: find_sub.induct)
  case (1 p)
  then show ?case by (simp split: if_splits)
next
  case (2 p x xs)
  show ?case
  proof (cases "starts_with p (x # xs)")
    case True
    with "2.prems" show ?thesis using starts_with_length [OF True] by simp
  next
    case False
    with "2.prems" obtain j where "find_sub p xs = Some j" and "i = Suc j" by auto
    with "2.IH" [OF False] show ?thesis by simp
  qed
qed

lemma find_sub_bound: "find_sub p s = Some i \<Longrightarrow> i + length p \<le> length s"
  by (simp add: find_sub_SomeD)

lemma find_sub_least: "find_sub p s = Some i \<Longrightarrow> j < i \<Longrightarrow> \<not> starts_with p (drop j s)"
proof (induction p s arbitrary: i j rule: find_sub.induct)
  case (1 p)
  then show ?case by (simp split: if_splits)
next
  case (2 p x xs)
  from "2.prems" have ns: "\<not> starts_with p (x # xs)" by (auto split: if_splits)
  with "2.prems" obtain k where k: "find_sub p xs = Some k" "i = Suc k" by auto
  show ?case
  proof (cases j)
    case 0
    with ns show ?thesis by simp
  next
    case (Suc j')
    with k "2.prems" "2.IH" [OF ns k(1), of j'] show ?thesis by simp
  qed
qed

lemma find_sub_None: "find_sub p s = None \<Longrightarrow> \<not> starts_with p (drop j s)"
proof (induction p s arbitrary: j rule: find_sub.induct)
  case (1 p)
  then show ?case by (cases p) (auto split: if_splits)
next
  case (2 p x xs)
  then show ?case by (cases j) (auto split: if_splits)
qed

lemma find_sub_split: "find_sub p s = Some i \<Longrightarrow> s = take i s @ p @ drop (i + length p) s"
  by (metis append_take_drop_id find_sub_SomeD starts_with_def drop_drop add.commute)

lemma find_sub_append: "find_sub p s = Some i \<Longrightarrow> find_sub p (s @ t) = Some i"
proof (induction p s arbitrary: i rule: find_sub.induct)
  case (1 p)
  then show ?case by (simp split: if_splits)
next
  case (2 p x xs)
  show ?case
  proof (cases "starts_with p (x # xs)")
    case True
    with "2.prems" show ?thesis
      using starts_with_appendI [OF True, of t] by simp
  next
    case False
    with "2.prems" obtain j where j: "find_sub p xs = Some j" "i = Suc j" by auto
    from find_sub_bound [OF j(1)] have "length p \<le> length (x # xs)" by simp
    then have "\<not> starts_with p (x # xs @ t)"
      using False starts_with_append_iff [of p "x # xs" t] by simp
    with "2.IH" [OF False j(1)] j(2) show ?thesis by simp
  qed
qed

lemma find_subI [find_intros]:
  assumes "\<And>j. j < i \<Longrightarrow> \<not> starts_with p (drop j s)" "starts_with p (drop i s)" "i \<le> length s"
  shows "find_sub p s = Some i"
  using assms
proof (induction p s arbitrary: i rule: find_sub.induct)
  case (1 p)
  then show ?case by (cases p) auto
next
  case (2 p x xs)
  show ?case
  proof (cases i)
    case 0
    with "2.prems" show ?thesis by simp
  next
    case (Suc k)
    have ns: "\<not> starts_with p (x # xs)" using "2.prems"(1) [of 0] Suc by simp
    have "find_sub p xs = Some k"
    proof (rule "2.IH" [OF ns])
      show "\<not> starts_with p (drop j xs)" if "j < k" for j
        using "2.prems"(1) [of "Suc j"] that Suc by simp
      show "starts_with p (drop k xs)" using "2.prems"(2) Suc by simp
      show "k \<le> length xs" using "2.prems"(3) Suc by simp
    qed
    with ns Suc show ?thesis by simp
  qed
qed

text \<open>The first byte of the needle does not occur before it: the common case of a delimiter.\<close>

lemma find_sub_here [find_intros]: "a \<notin> set s \<Longrightarrow> find_sub (a # p) (s @ a # p @ t) = Some (length s)"
  by (induction s) auto

lemma find_sub_skip:
  "a \<notin> set s \<Longrightarrow> find_sub (a # p) (s @ t) = map_option ((+) (length s)) (find_sub (a # p) t)"
  by (induction s) (auto simp: option.map_comp comp_def map_option_case split: option.splits)

lemma find_sub_notin: "a \<notin> set s \<Longrightarrow> find_sub (a # p) s = None"
  by (induction s) auto

lemma find_sub_single: "find_sub [a] s = Some i \<Longrightarrow> i < length s \<and> s ! i = a \<and> a \<notin> set (take i s)"
proof (induction s arbitrary: i)
  case Nil
  then show ?case by simp
next
  case (Cons x s)
  then show ?case by (cases i) (auto split: if_splits)
qed

lemma find_sub_single_None: "find_sub [a] s = None \<longleftrightarrow> a \<notin> set s"
  by (induction s) auto

lemma find_sub_starts: "starts_with p s \<Longrightarrow> find_sub p s = Some 0"
  by (cases s) (auto simp: starts_with_def)

text \<open>The line in front of a CRLF.\<close>

lemma split_line:
  "CR \<notin> set l \<Longrightarrow> find_sub crlf (l @ crlf @ rest) = Some (length l)"
  "take (length l) (l @ crlf @ rest) = l"
  "drop (length l + 2) (l @ crlf @ rest) = rest"
  using find_sub_here [of CR l "[LF]" rest] by simp_all

text \<open>A suffix is known by its length.\<close>

lemma suffix_drop: "d = drop k s \<Longrightarrow> d = drop (length s - length d) s"
  by (cases "k \<le> length s") simp_all

lemma find_from_bound: "find_from p s pos = Some i \<Longrightarrow> pos \<le> i \<and> i + length p \<le> length s"
  by (auto simp: find_from_def split: if_splits dest!: find_sub_bound)

section \<open>Numbers as text\<close>

definition digit_char :: "nat \<Rightarrow> char" where
  "digit_char d = char_of (48 + d)"

definition digit_val :: "char \<Rightarrow> nat" where
  "digit_val c = ord c - 48"

definition dec_val :: "string \<Rightarrow> nat" where
  "dec_val s = foldl (\<lambda>n c. 10 * n + digit_val c) 0 s"

text \<open>\<open>std::to_string\<close> of an unsigned and of a signed integer.\<close>

fun dec :: "nat \<Rightarrow> string" where
  "dec n = (if n < 10 then [digit_char n] else dec (n div 10) @ [digit_char (n mod 10)])"

declare dec.simps [simp del]

definition dec_int :: "int \<Rightarrow> string" where
  "dec_int i = (if i < 0 then CHR ''-'' # dec (nat (- i)) else dec (nat i))"

definition size_t_wrap :: "nat \<Rightarrow> nat" where
  "size_t_wrap n = n mod 2 ^ 64"

text \<open>
  The common prefix of \<open>strtoul\<close>, \<open>strtoll\<close> and \<open>strtol\<close> in base 10: skip white space, an
  optional sign, then as many digits as there are; what follows them is ignored. No digit at
  all is \<open>std::invalid_argument\<close>, a value out of the range of the type \<open>std::out_of_range\<close>;
  the source catches both alike, so either is \<^term>\<open>None\<close>.
\<close>

definition strto_split :: "string \<Rightarrow> bool \<times> string" where
  "strto_split s =
     (let t = dropWhile isspace s in
      case t of
        [] \<Rightarrow> (False, [])
      | c # r \<Rightarrow> if c = CHR ''-'' then (True, takeWhile is_digit r)
                 else if c = CHR ''+'' then (False, takeWhile is_digit r)
                 else (False, takeWhile is_digit t))"

definition stoul :: "string \<Rightarrow> nat option" where
  "stoul s = (let (neg, ds) = strto_split s; v = dec_val ds in
     if ds = [] \<or> 2 ^ 64 \<le> v then None
     else Some (if neg then (2 ^ 64 - v) mod 2 ^ 64 else v))"

definition strto_signed :: "nat \<Rightarrow> string \<Rightarrow> int option" where
  "strto_signed w s = (let (neg, ds) = strto_split s;
       v = (if neg then - int (dec_val ds) else int (dec_val ds)) in
     if ds = [] \<or> v < - (2 ^ (w - 1)) \<or> 2 ^ (w - 1) \<le> v then None else Some v)"

definition stoll :: "string \<Rightarrow> int option" where "stoll = strto_signed 64"

definition stoi :: "string \<Rightarrow> int option" where "stoi = strto_signed 32"

lemma stoi_Nil [simp]: "stoi [] = None"
  by (simp add: stoi_def strto_signed_def strto_split_def)

text \<open>The digits as characters, to print numbers by simplification.\<close>

lemma digit_chars:
  "char_of (48::nat) = CHR ''0''"
  "char_of (49::nat) = CHR ''1''"
  "char_of (50::nat) = CHR ''2''"
  "char_of (51::nat) = CHR ''3''"
  "char_of (52::nat) = CHR ''4''"
  "char_of (53::nat) = CHR ''5''"
  "char_of (54::nat) = CHR ''6''"
  "char_of (55::nat) = CHR ''7''"
  "char_of (56::nat) = CHR ''8''"
  "char_of (57::nat) = CHR ''9''"
  by code_simp+

lemma ord_digit_char [simp]: "d < 10 \<Longrightarrow> ord (digit_char d) = 48 + d"
  by (simp add: digit_char_def)

lemma is_digit_digit_char [simp]: "d < 10 \<Longrightarrow> is_digit (digit_char d)"
  by (simp add: is_digit_def)

lemma digit_val_digit_char [simp]: "d < 10 \<Longrightarrow> digit_val (digit_char d) = d"
  by (simp add: digit_val_def)

lemma is_digit_not_space: "is_digit c \<Longrightarrow> \<not> isspace c"
  by (auto simp: is_digit_def isspace_def)

lemma is_digit_not_sign: "is_digit c \<Longrightarrow> c \<noteq> CHR ''-'' \<and> c \<noteq> CHR ''+''"
  by (auto simp: is_digit_def)

lemma dec_val_snoc [simp]: "dec_val (s @ [c]) = 10 * dec_val s + digit_val c"
  by (simp add: dec_val_def)

lemma dec_digits: "\<forall>c \<in> set (dec n). is_digit c"
proof (induction n rule: dec.induct)
  case (1 n)
  then show ?case by (subst dec.simps) auto
qed

lemma dec_nonempty [simp]: "dec n \<noteq> []"
  by (subst dec.simps) auto

lemma dec_val_dec [simp]: "dec_val (dec n) = n"
proof (induction n rule: dec.induct)
  case (1 n)
  show ?case
  proof (cases "n < 10")
    case True
    then show ?thesis by (subst dec.simps) (simp add: dec_val_def)
  next
    case False
    with 1 show ?thesis by (subst dec.simps) simp
  qed
qed

lemma dec_no_delim: "\<not> is_digit c \<Longrightarrow> c \<notin> set (dec n)"
  using dec_digits by blast

lemma dec_inject: "dec m = dec n \<Longrightarrow> m = n"
  by (metis dec_val_dec)

lemma strto_split_digits:
  assumes "ds \<noteq> []" "\<forall>c \<in> set ds. is_digit c" "rest = [] \<or> \<not> is_digit (hd rest)"
  shows "strto_split (ds @ rest) = (False, ds)"
proof -
  obtain c cs where ds: "ds = c # cs" using assms(1) by (cases ds) auto
  have "takeWhile is_digit (ds @ rest) = ds"
    using assms(2,3) by (cases rest) (auto simp: takeWhile_append)
  moreover have "dropWhile isspace (ds @ rest) = ds @ rest"
    using assms(2) ds by (simp add: is_digit_not_space)
  ultimately show ?thesis
    using ds assms(2) by (auto simp: strto_split_def Let_def dest: is_digit_not_sign)
qed

lemma strto_split_dec: "rest = [] \<or> \<not> is_digit (hd rest) \<Longrightarrow> strto_split (dec n @ rest) = (False, dec n)"
  using strto_split_digits [OF dec_nonempty dec_digits] by blast

text \<open>Printing and reading back a size: the text that follows does not matter.\<close>

lemma stoul_dec: "n < 2 ^ 64 \<Longrightarrow> rest = [] \<or> \<not> is_digit (hd rest) \<Longrightarrow> stoul (dec n @ rest) = Some n"
  by (simp add: stoul_def strto_split_dec)

lemma stoul_bound: "stoul s = Some n \<Longrightarrow> n < 2 ^ 64"
  by (auto simp: stoul_def Let_def split: prod.splits if_splits)

lemma stoi_dec: "n < 2 ^ 31 \<Longrightarrow> stoi (dec n) = Some (int n)"
  using strto_split_dec [of "[]" n] by (simp add: stoi_def strto_signed_def)

lemma stoll_dec: "n < 2 ^ 63 \<Longrightarrow> stoll (dec n) = Some (int n)"
  using strto_split_dec [of "[]" n] by (simp add: stoll_def strto_signed_def)

lemma strto_signed_range:
  "strto_signed w s = Some v \<Longrightarrow> - (2 ^ (w - 1)) \<le> v \<and> v < 2 ^ (w - 1)"
  by (auto simp: strto_signed_def Let_def split: prod.splits if_splits)

section \<open>Lists\<close>

lemma sum_list_map_update:
  fixes f :: "'b \<Rightarrow> 'c :: cancel_comm_monoid_add"
  assumes "i < length xs"
  shows "sum_list (map f (xs[i := x])) + f (xs ! i) = sum_list (map f xs) + f x"
  using assms
  by (induction xs arbitrary: i) (auto simp: algebra_simps split: nat.split)

section \<open>Tables\<close>

text \<open>
  The contract of a keyed store that is filled by insertions, each overwriting what was there for
  its key: what a lookup returns after an insertion. A store may be addressed by descriptions of
  keys (a route path for its pattern), which \<open>key\<close> reads.
\<close>

locale table =
  fixes empty :: 't
    and add :: "'d \<Rightarrow> 'v \<Rightarrow> 't \<Rightarrow> 't"
    and lookup :: "'t \<Rightarrow> 'k \<Rightarrow> 'v option"
    and key :: "'d \<Rightarrow> 'k"
  assumes lookup_empty: "lookup empty k = None"
    and lookup_add: "lookup (add d v t) k = (if k = key d then Some v else lookup t k)"
begin

lemma lookup_fold:
  "lookup (fold (\<lambda>(d, v). add d v) ds t) k =
     (case map_of (rev (map (\<lambda>(d, v). (key d, v)) ds)) k of
        Some v \<Rightarrow> Some v | None \<Rightarrow> lookup t k)"
  by (induction ds arbitrary: t)
    (auto simp: lookup_add map_add_def map_of_append split: option.splits)

lemma lookup_built:
  "lookup (fold (\<lambda>(d, v). add d v) ds empty) k = map_of (rev (map (\<lambda>(d, v). (key d, v)) ds)) k"
  by (simp add: lookup_fold lookup_empty split: option.splits)

lemma lookup_built_SomeD:
  "lookup (fold (\<lambda>(d, v). add d v) ds empty) k = Some v \<Longrightarrow> \<exists>d. (d, v) \<in> set ds \<and> key d = k"
  by (auto simp: lookup_built dest!: map_of_SomeD)

lemma lookup_built_registered:
  "(d, v) \<in> set ds \<Longrightarrow> lookup (fold (\<lambda>(d, v). add d v) ds empty) (key d) \<noteq> None"
  by (auto simp: lookup_built map_of_eq_None_iff intro!: rev_image_eqI)

end

section \<open>Results of fallible code\<close>

text \<open>
  Where the source can leave the defined behaviour of C++ (a read past the end of an array, a
  \<open>memmove\<close> outside its buffer) the model returns \<^term>\<open>None\<close> of an option, so that a theorem
  that a call is defined is a theorem about the code. Exceptions are values of a sum, \<^term>\<open>Inl\<close>
  for the exception.
\<close>

type_synonym 'a defined = "'a option"
type_synonym 'a throws = "string + 'a"

end
