(* ===== verification/Http_Enums.thy ===== *)
theory Http_Enums
  imports Prelude
begin

text \<open>
  \<open>include/oreshnek/http/HttpEnums.h\<close>: request methods, response status codes and their texts.
\<close>

datatype HttpMethod = GET | POST | PUT | DELETE | PATCH | HEAD | OPTIONS | UNKNOWN

datatype HttpStatus =
    CONTINUE | OK | CREATED | ACCEPTED | NO_CONTENT | PARTIAL_CONTENT | NOT_MODIFIED
  | BAD_REQUEST | UNAUTHORIZED | FORBIDDEN | NOT_FOUND | METHOD_NOT_ALLOWED | CONFLICT
  | PAYLOAD_TOO_LARGE | RANGE_NOT_SATISFIABLE | TOO_MANY_REQUESTS | INTERNAL_SERVER_ERROR
  | NOT_IMPLEMENTED | SERVICE_UNAVAILABLE

text \<open>The enumerators' values, as \<open>static_cast<int>(status)\<close> reads them.\<close>

fun status_code :: "HttpStatus \<Rightarrow> nat" where
  "status_code CONTINUE = 100"
| "status_code OK = 200"
| "status_code CREATED = 201"
| "status_code ACCEPTED = 202"
| "status_code NO_CONTENT = 204"
| "status_code PARTIAL_CONTENT = 206"
| "status_code NOT_MODIFIED = 304"
| "status_code BAD_REQUEST = 400"
| "status_code UNAUTHORIZED = 401"
| "status_code FORBIDDEN = 403"
| "status_code NOT_FOUND = 404"
| "status_code METHOD_NOT_ALLOWED = 405"
| "status_code CONFLICT = 409"
| "status_code PAYLOAD_TOO_LARGE = 413"
| "status_code RANGE_NOT_SATISFIABLE = 416"
| "status_code TOO_MANY_REQUESTS = 429"
| "status_code INTERNAL_SERVER_ERROR = 500"
| "status_code NOT_IMPLEMENTED = 501"
| "status_code SERVICE_UNAVAILABLE = 503"

fun http_method_to_string :: "HttpMethod \<Rightarrow> string" where
  "http_method_to_string GET = ''GET''"
| "http_method_to_string POST = ''POST''"
| "http_method_to_string PUT = ''PUT''"
| "http_method_to_string DELETE = ''DELETE''"
| "http_method_to_string PATCH = ''PATCH''"
| "http_method_to_string HEAD = ''HEAD''"
| "http_method_to_string OPTIONS = ''OPTIONS''"
| "http_method_to_string UNKNOWN = ''UNKNOWN''"

fun http_status_to_string :: "HttpStatus \<Rightarrow> string" where
  "http_status_to_string CONTINUE = ''Continue''"
| "http_status_to_string OK = ''OK''"
| "http_status_to_string CREATED = ''Created''"
| "http_status_to_string ACCEPTED = ''Accepted''"
| "http_status_to_string NO_CONTENT = ''No Content''"
| "http_status_to_string PARTIAL_CONTENT = ''Partial Content''"
| "http_status_to_string NOT_MODIFIED = ''Not Modified''"
| "http_status_to_string BAD_REQUEST = ''Bad Request''"
| "http_status_to_string UNAUTHORIZED = ''Unauthorized''"
| "http_status_to_string FORBIDDEN = ''Forbidden''"
| "http_status_to_string NOT_FOUND = ''Not Found''"
| "http_status_to_string METHOD_NOT_ALLOWED = ''Method Not Allowed''"
| "http_status_to_string CONFLICT = ''Conflict''"
| "http_status_to_string PAYLOAD_TOO_LARGE = ''Payload Too Large''"
| "http_status_to_string RANGE_NOT_SATISFIABLE = ''Range Not Satisfiable''"
| "http_status_to_string TOO_MANY_REQUESTS = ''Too Many Requests''"
| "http_status_to_string INTERNAL_SERVER_ERROR = ''Internal Server Error''"
| "http_status_to_string NOT_IMPLEMENTED = ''Not Implemented''"
| "http_status_to_string SERVICE_UNAVAILABLE = ''Service Unavailable''"

lemma status_code_inject: "status_code a = status_code b \<Longrightarrow> a = b"
  by (cases a; cases b) simp_all

lemma status_code_range: "100 \<le> status_code s \<and> status_code s < 600"
  by (cases s) simp_all

lemma http_method_to_string_inject:
  "http_method_to_string a = http_method_to_string b \<Longrightarrow> a = b"
  by (cases a; cases b) simp_all

end
