(* ===== verification/Http_Request.thy ===== *)
theory Http_Request
  imports Http_Enums
begin

text \<open>
  \<open>HttpRequest\<close> (\<open>include/oreshnek/http/HttpRequest.h\<close>, \<open>src/http/HttpRequest.cpp\<close>) at the
  level of values: a \<open>string_view\<close> is the bytes it denotes and the three unordered maps are
  partial maps. The views as addresses into a buffer, and the code that moves them
  (\<open>make_owned\<close>, \<open>rebase_views\<close>, the copy and the move), are the theory Request_Views.
\<close>

record http_request =
  rq_method :: HttpMethod
  rq_path :: string
  rq_version :: string
  rq_headers :: "string \<rightharpoonup> string"
  rq_query_params :: "string \<rightharpoonup> string"
  rq_path_params :: "string \<rightharpoonup> string"
  rq_body :: string

definition request_init :: http_request where
  "request_init = \<lparr>rq_method = UNKNOWN, rq_path = [], rq_version = [], rq_headers = Map.empty,
     rq_query_params = Map.empty, rq_path_params = Map.empty, rq_body = []\<rparr>"

definition header :: "http_request \<Rightarrow> string \<Rightarrow> string option" where
  "header r name = rq_headers r name"

definition query :: "http_request \<Rightarrow> string \<Rightarrow> string option" where
  "query r name = rq_query_params r name"

definition param :: "http_request \<Rightarrow> string \<Rightarrow> string option" where
  "param r name = rq_path_params r name"

text \<open>
  \<open>HttpRequest::json\<close>: the JSON parser (\<open>nlohmann::json::parse\<close>) is the parameter \<open>parse\<close>; an
  unexpected \<open>Content-Type\<close> is only logged, an empty body throws.
\<close>

definition request_json :: "(string \<Rightarrow> 'j throws) \<Rightarrow> http_request \<Rightarrow> 'j throws" where
  "request_json parse r =
     (if rq_body r = [] then Inl ''HTTP Request body is empty, cannot parse JSON.''
      else parse (rq_body r))"

text \<open>
  \<open>HttpRequest::to_string\<close>. The iteration order of an \<open>unordered_map\<close> is unspecified: \<open>iter\<close>
  stands for it.
\<close>

type_synonym map_iter = "(string \<rightharpoonup> string) \<Rightarrow> (string \<times> string) list"

definition iterates :: "map_iter \<Rightarrow> (string \<rightharpoonup> string) \<Rightarrow> bool" where
  "iterates iter m \<longleftrightarrow> distinct (map fst (iter m)) \<and> map_of (iter m) = m"

definition dump_pairs :: "(string \<times> string) list \<Rightarrow> string" where
  "dump_pairs kvs = concat (map (\<lambda>(k, v). ''  '' @ k @ '': '' @ v @ [LF]) kvs)"

definition request_to_string :: "map_iter \<Rightarrow> http_request \<Rightarrow> string" where
  "request_to_string iter r =
     ''Method: '' @ http_method_to_string (rq_method r) @ [LF] @
     ''Path: '' @ rq_path r @ [LF] @
     ''Version: '' @ rq_version r @ [LF] @
     ''Headers:'' @ [LF] @ dump_pairs (iter (rq_headers r)) @
     (if iter (rq_query_params r) = [] then []
      else ''Query Params:'' @ [LF] @ dump_pairs (iter (rq_query_params r))) @
     (if iter (rq_path_params r) = [] then []
      else ''Path Params:'' @ [LF] @ dump_pairs (iter (rq_path_params r))) @
     ''Body Size: '' @ dec (length (rq_body r)) @ '' bytes'' @ [LF] @
     (if rq_body r = [] then []
      else if length (rq_body r) < 512 then ''Body: '' @ rq_body r @ [LF]
      else ''Body: (too large to print, showing first 256 bytes) '' @ substr (rq_body r) 0 256 @
           ''...'' @ [LF])"

lemma request_init_simps [simp]:
  "rq_method request_init = UNKNOWN" "rq_path request_init = []" "rq_version request_init = []"
  "rq_headers request_init = Map.empty" "rq_query_params request_init = Map.empty"
  "rq_path_params request_init = Map.empty" "rq_body request_init = []"
  by (simp_all add: request_init_def)

lemma request_json_empty: "rq_body r = [] \<Longrightarrow> isl (request_json parse r)"
  by (simp add: request_json_def)

end
