(* ===== verification/Http_Response.thy ===== *)
theory Http_Response
  imports Http_Request
begin

text \<open>
  \<open>HttpResponse\<close> (\<open>include/oreshnek/http/HttpResponse.h\<close>, \<open>src/http/HttpResponse.cpp\<close>). The
  body is the source's variant of a string and a \<open>FilePath\<close>; \<open>rs_is_file\<close> is the flag the
  source keeps beside it. \<open>std::filesystem::file_size\<close> and the formatted date are parameters,
  and so is the JSON serialiser (\<open>json_val.dump()\<close> is the argument of \<open>res_json\<close>).
\<close>

datatype body_content = Text string | FilePath string

record http_response =
  rs_status :: HttpStatus
  rs_headers :: "string \<rightharpoonup> string"
  rs_body_content :: body_content
  rs_is_file :: bool
  rs_file_offset :: int
  rs_file_length :: int
  rs_head_only :: bool

definition res_header :: "string \<Rightarrow> string \<Rightarrow> http_response \<Rightarrow> http_response" where
  "res_header name value r = r\<lparr>rs_headers := (rs_headers r)(name \<mapsto> value)\<rparr>"

definition res_status :: "HttpStatus \<Rightarrow> http_response \<Rightarrow> http_response" where
  "res_status s r = r\<lparr>rs_status := s\<rparr>"

text \<open>The constructor: member initialisers, then the two default headers.\<close>

definition response_init :: http_response where
  "response_init =
     res_header ''Connection'' ''keep-alive''
       (res_header ''Server'' ''Oreshnek/1.0.0''
         \<lparr>rs_status = OK, rs_headers = Map.empty, rs_body_content = Text [], rs_is_file = False,
          rs_file_offset = 0, rs_file_length = -1, rs_head_only = False\<rparr>)"

definition res_body :: "string \<Rightarrow> http_response \<Rightarrow> http_response" where
  "res_body content r =
     res_header ''Content-Length'' (dec (length content))
       (r\<lparr>rs_body_content := Text content, rs_is_file := False\<rparr>)"

definition res_file ::
  "(string \<Rightarrow> nat option) \<Rightarrow> string \<Rightarrow> string \<Rightarrow> http_response \<Rightarrow> http_response" where
  "res_file file_size path content_type r =
     (let r1 = res_header ''Content-Type'' content_type
                 (r\<lparr>rs_body_content := FilePath path, rs_is_file := True\<rparr>)
      in case file_size path of
           Some n \<Rightarrow> res_header ''Content-Length'' (dec n) r1
         | None \<Rightarrow> r1)"

definition res_json :: "string \<Rightarrow> http_response \<Rightarrow> http_response" where
  "res_json dumped r = res_header ''Content-Type'' ''application/json'' (res_body dumped r)"

definition res_text :: "string \<Rightarrow> http_response \<Rightarrow> http_response" where
  "res_text content r = res_header ''Content-Type'' ''text/plain'' (res_body content r)"

definition res_html :: "string \<Rightarrow> http_response \<Rightarrow> http_response" where
  "res_html content r = res_header ''Content-Type'' ''text/html'' (res_body content r)"

definition res_file_path :: "http_response \<Rightarrow> string" where
  "res_file_path r =
     (if rs_is_file r then (case rs_body_content r of FilePath p \<Rightarrow> p | Text _ \<Rightarrow> []) else [])"

definition res_set_file_range :: "int \<Rightarrow> int \<Rightarrow> http_response \<Rightarrow> http_response" where
  "res_set_file_range off len r = r\<lparr>rs_file_offset := off, rs_file_length := len\<rparr>"

definition res_set_head_only :: "bool \<Rightarrow> http_response \<Rightarrow> http_response" where
  "res_set_head_only v r = r\<lparr>rs_head_only := v\<rparr>"

text \<open>
  \<open>build_headers_string\<close>: \<open>date\<close> is the time formatted by \<open>strftime\<close>, \<open>iter\<close> the iteration
  order of the header map.
\<close>

definition header_lines :: "(string \<times> string) list \<Rightarrow> string" where
  "header_lines kvs = concat (map (\<lambda>(k, v). k @ '': '' @ v @ crlf) kvs)"

definition build_headers_string :: "map_iter \<Rightarrow> string \<Rightarrow> http_response \<Rightarrow> string" where
  "build_headers_string iter date r =
     ''HTTP/1.1 '' @ dec (status_code (rs_status r)) @ '' '' @
     http_status_to_string (rs_status r) @ crlf @
     ''Date: '' @ date @ crlf @
     header_lines (iter (rs_headers r)) @ crlf"

definition res_reset :: "http_response \<Rightarrow> http_response" where
  "res_reset r =
     res_header ''Connection'' ''keep-alive''
       (res_header ''Server'' ''Oreshnek/1.0.0''
         (r\<lparr>rs_status := OK, rs_headers := Map.empty, rs_body_content := Text [],
            rs_is_file := False, rs_file_offset := 0, rs_file_length := -1,
            rs_head_only := False\<rparr>))"

section \<open>The flag and the variant agree\<close>

text \<open>
  The source keeps the alternative in the variant and again in \<open>is_file_response_\<close>; a reader
  that trusts one and takes the other (\<open>std::get\<close> throws on the wrong alternative) relies on
  this invariant, which the constructor establishes and every setter keeps.
\<close>

definition response_wf :: "http_response \<Rightarrow> bool" where
  "response_wf r \<longleftrightarrow> (rs_is_file r \<longleftrightarrow> (\<exists>p. rs_body_content r = FilePath p))"

definition text_of :: "http_response \<Rightarrow> string" where
  "text_of r = (case rs_body_content r of Text t \<Rightarrow> t | FilePath _ \<Rightarrow> [])"

text \<open>The length the client is told is the length of the body it will be sent.\<close>

definition length_declared :: "http_response \<Rightarrow> bool" where
  "length_declared r \<longleftrightarrow>
     (\<forall>t. rs_body_content r = Text t \<longrightarrow>
        rs_headers r ''Content-Length'' = Some (dec (length t)))"

lemmas response_setters = res_header_def res_status_def res_body_def res_file_def res_json_def
  res_text_def res_html_def res_set_file_range_def res_set_head_only_def

lemma response_init_simps [simp]:
  "rs_status response_init = OK" "rs_body_content response_init = Text []"
  "rs_is_file response_init = False" "rs_file_offset response_init = 0"
  "rs_file_length response_init = -1" "rs_head_only response_init = False"
  "rs_headers response_init = [''Server'' \<mapsto> ''Oreshnek/1.0.0'', ''Connection'' \<mapsto> ''keep-alive'']"
  by (simp_all add: response_init_def res_header_def)

lemma res_reset_is_init: "res_reset r = response_init"
  by (simp add: res_reset_def response_init_def res_header_def)

lemma response_wf_intros [intro!, simp]:
  "response_wf response_init"
  "response_wf (res_header n v r) \<longleftrightarrow> response_wf r"
  "response_wf (res_status s r) \<longleftrightarrow> response_wf r"
  "response_wf (res_body c r)"
  "response_wf (res_file fs p ct r)"
  "response_wf (res_json d r)" "response_wf (res_text d r)" "response_wf (res_html d r)"
  "response_wf (res_set_file_range off len r) \<longleftrightarrow> response_wf r"
  "response_wf (res_set_head_only b r) \<longleftrightarrow> response_wf r"
  by (auto simp: response_wf_def response_setters Let_def split: option.splits)

lemma res_body_simps [simp]:
  "rs_body_content (res_body c r) = Text c"
  "rs_is_file (res_body c r) = False"
  "rs_headers (res_body c r) = (rs_headers r)(''Content-Length'' \<mapsto> dec (length c))"
  "rs_status (res_body c r) = rs_status r"
  "rs_head_only (res_body c r) = rs_head_only r"
  by (simp_all add: res_body_def res_header_def)

lemma res_header_simps [simp]:
  "rs_headers (res_header n v r) = (rs_headers r)(n \<mapsto> v)"
  "rs_body_content (res_header n v r) = rs_body_content r"
  "rs_is_file (res_header n v r) = rs_is_file r"
  "rs_status (res_header n v r) = rs_status r"
  "rs_head_only (res_header n v r) = rs_head_only r"
  "rs_file_offset (res_header n v r) = rs_file_offset r"
  "rs_file_length (res_header n v r) = rs_file_length r"
  by (simp_all add: res_header_def)

lemma res_status_simps [simp]:
  "rs_headers (res_status s r) = rs_headers r"
  "rs_body_content (res_status s r) = rs_body_content r"
  "rs_is_file (res_status s r) = rs_is_file r"
  "rs_status (res_status s r) = s"
  "rs_head_only (res_status s r) = rs_head_only r"
  by (simp_all add: res_status_def)

lemma res_status_file_simps [simp]:
  "rs_file_offset (res_status s r) = rs_file_offset r"
  "rs_file_length (res_status s r) = rs_file_length r"
  by (simp_all add: res_status_def)

lemma res_set_file_range_simps [simp]:
  "rs_headers (res_set_file_range off len r) = rs_headers r"
  "rs_body_content (res_set_file_range off len r) = rs_body_content r"
  "rs_is_file (res_set_file_range off len r) = rs_is_file r"
  "rs_status (res_set_file_range off len r) = rs_status r"
  "rs_head_only (res_set_file_range off len r) = rs_head_only r"
  "rs_file_offset (res_set_file_range off len r) = off"
  "rs_file_length (res_set_file_range off len r) = len"
  by (simp_all add: res_set_file_range_def)

lemma res_set_head_only_simps [simp]:
  "rs_headers (res_set_head_only b r) = rs_headers r"
  "rs_body_content (res_set_head_only b r) = rs_body_content r"
  "rs_is_file (res_set_head_only b r) = rs_is_file r"
  "rs_status (res_set_head_only b r) = rs_status r"
  "rs_head_only (res_set_head_only b r) = b"
  "rs_file_offset (res_set_head_only b r) = rs_file_offset r"
  "rs_file_length (res_set_head_only b r) = rs_file_length r"
  by (simp_all add: res_set_head_only_def)

lemma res_file_path_simps [simp]:
  "res_file_path (res_header n v r) = res_file_path r"
  "res_file_path (res_status s r) = res_file_path r"
  "res_file_path (res_set_file_range off len r) = res_file_path r"
  "res_file_path (res_set_head_only b r) = res_file_path r"
  by (simp_all add: res_file_path_def)

lemma length_declared_body [simp]: "length_declared (res_body c r)"
  by (simp add: length_declared_def)

lemma length_declared_header:
  "length_declared r \<Longrightarrow> n \<noteq> ''Content-Length'' \<Longrightarrow> length_declared (res_header n v r)"
  by (auto simp: length_declared_def)

lemma res_json_simps [simp]:
  "rs_body_content (res_json d r) = Text d"
  "rs_is_file (res_json d r) = False"
  "rs_status (res_json d r) = rs_status r"
  "rs_head_only (res_json d r) = rs_head_only r"
  "rs_headers (res_json d r) =
     (rs_headers r)(''Content-Length'' \<mapsto> dec (length d), ''Content-Type'' \<mapsto> ''application/json'')"
  "length_declared (res_json d r)"
  by (simp_all add: res_json_def length_declared_def)

end
