(* ===== verification/Http_Parser.thy ===== *)
theory Http_Parser
  imports Http_Request
begin

text \<open>
  \<open>HttpParser\<close> (\<open>include/oreshnek/http/HttpParser.h\<close>, \<open>src/http/HttpParser.cpp\<close>): the
  incremental request parser. The parser's members are a record; each member function takes the
  parser and the remaining input (the \<open>string_view\& data\<close>) and returns its boolean with the
  parser, the input left and the request. The chunked body is decoded in place, so the buffer is
  explicit there: \<open>parse_chunked_body\<close> and the functions above it return the buffer as they
  leave it, and \<^term>\<open>None\<close> where a \<open>memmove\<close> would run outside it.
\<close>

datatype ParsingState = REQUEST_LINE | HEADERS | BODY | COMPLETE | ERROR

record http_parser =
  ps_state :: ParsingState
  ps_body_expected_length :: nat
  ps_is_chunked :: bool
  ps_error_message :: string

definition MAX_HEADER_BYTES :: nat where "MAX_HEADER_BYTES = 64 * 1024"

definition MAX_BODY_BYTES :: nat where "MAX_BODY_BYTES = 8 * 1024 * 1024"

definition parser_init :: http_parser where
  "parser_init = \<lparr>ps_state = REQUEST_LINE, ps_body_expected_length = 0, ps_is_chunked = False,
     ps_error_message = []\<rparr>"

definition parser_reset :: "http_parser \<Rightarrow> http_parser" where
  "parser_reset p = p\<lparr>ps_state := REQUEST_LINE, ps_body_expected_length := 0,
     ps_is_chunked := False, ps_error_message := []\<rparr>"

definition parser_error :: "string \<Rightarrow> http_parser \<Rightarrow> http_parser" where
  "parser_error msg p = p\<lparr>ps_state := ERROR, ps_error_message := msg\<rparr>"

section \<open>The request line\<close>

definition method_of_string :: "string \<Rightarrow> HttpMethod" where
  "method_of_string s =
     (if s = ''GET'' then GET
      else if s = ''POST'' then POST
      else if s = ''PUT'' then PUT
      else if s = ''DELETE'' then DELETE
      else if s = ''PATCH'' then PATCH
      else if s = ''HEAD'' then HEAD
      else if s = ''OPTIONS'' then OPTIONS
      else UNKNOWN)"

text \<open>The \<open>while (start < query_str.length())\<close> loop.\<close>

function parse_query_loop ::
  "string \<Rightarrow> nat \<Rightarrow> (string \<rightharpoonup> string) \<Rightarrow> (string \<rightharpoonup> string)" where
  "parse_query_loop q start m =
     (if start < length q then
        (case find_from ''='' q start of
           None \<Rightarrow> m(drop start q \<mapsto> [])
         | Some eq_pos \<Rightarrow>
             let key = substr q start (eq_pos - start) in
             (case find_from ''&'' q (eq_pos + 1) of
                None \<Rightarrow> m(key \<mapsto> drop (eq_pos + 1) q)
              | Some amp_pos \<Rightarrow>
                  parse_query_loop q (amp_pos + 1)
                    (m(key \<mapsto> substr q (eq_pos + 1) (amp_pos - (eq_pos + 1))))))
      else m)"
  by pat_completeness auto
termination
  by (relation "measure (\<lambda>(q, start, m). length q - start)") (auto dest!: find_from_bound)

declare parse_query_loop.simps [simp del]

definition parse_query_parameters :: "string \<Rightarrow> http_request \<Rightarrow> http_request" where
  "parse_query_parameters pq r =
     (case find_sub ''?'' pq of
        None \<Rightarrow> r\<lparr>rq_path := pq\<rparr>
      | Some query_start \<Rightarrow>
          r\<lparr>rq_path := take query_start pq,
            rq_query_params := parse_query_loop (drop (query_start + 1) pq) 0 (rq_query_params r)\<rparr>)"

definition parse_request_line ::
  "http_parser \<Rightarrow> string \<Rightarrow> http_request \<Rightarrow> bool \<times> http_parser \<times> string \<times> http_request" where
  "parse_request_line p data r =
     (case find_sub crlf data of
        None \<Rightarrow> (False, p, data, r)
      | Some eol_pos \<Rightarrow>
          let line = take eol_pos data;
              data' = drop (eol_pos + 2) data;
              bad = (False, parser_error (''Invalid request line format: '' @ line) p, data', r)
          in case find_sub '' '' line of
               None \<Rightarrow> bad
             | Some first_space \<Rightarrow>
                 (case find_from '' '' line (first_space + 1) of
                    None \<Rightarrow> bad
                  | Some second_space \<Rightarrow>
                      let method_str = take first_space line;
                          pq = substr line (first_space + 1) (second_space - (first_space + 1));
                          r1 = r\<lparr>rq_version := drop (second_space + 1) line,
                                 rq_method := method_of_string method_str\<rparr>
                      in if method_of_string method_str = UNKNOWN
                         then (False, parser_error (''Unsupported HTTP method: '' @ method_str) p,
                               data', r1)
                         else (True, p\<lparr>ps_state := HEADERS\<rparr>, data', parse_query_parameters pq r1)))"

section \<open>The header block\<close>

text \<open>The empty line: the framing of the body is decided from the headers read so far.\<close>

definition end_of_headers :: "http_parser \<Rightarrow> http_request \<Rightarrow> bool \<times> http_parser" where
  "end_of_headers p r =
     (let content_length = header r ''Content-Length'';
          chunked = (case header r ''Transfer-Encoding'' of
                       None \<Rightarrow> False | Some te \<Rightarrow> contains_sub ''chunked'' te)
      in if chunked \<and> content_length \<noteq> None then
           (False, parser_error ''Both Content-Length and Transfer-Encoding present'' p)
         else if chunked then (True, p\<lparr>ps_is_chunked := True, ps_state := BODY\<rparr>)
         else (case content_length of
             Some v \<Rightarrow>
               (case stoul v of
                  None \<Rightarrow> (False, parser_error (''Invalid Content-Length header: '' @ v) p)
                | Some n \<Rightarrow>
                    let p1 = p\<lparr>ps_body_expected_length := n\<rparr> in
                    if MAX_BODY_BYTES < n then
                      (False, parser_error ''Request body exceeds maximum allowed size'' p1)
                    else (True, p1\<lparr>ps_state := (if 0 < n then BODY else COMPLETE)\<rparr>))
           | None \<Rightarrow>
               (True, p\<lparr>ps_state := (if 0 < ps_body_expected_length p then BODY else COMPLETE)\<rparr>)))"

function parse_headers ::
  "http_parser \<Rightarrow> string \<Rightarrow> http_request \<Rightarrow> bool \<times> http_parser \<times> string \<times> http_request" where
  "parse_headers p data r =
     (case find_sub crlf data of
        None \<Rightarrow> (False, p, data, r)
      | Some eol_pos \<Rightarrow>
          let line = take eol_pos data;
              data' = drop (eol_pos + 2) data
          in if line = [] then (case end_of_headers p r of (ok, p') \<Rightarrow> (ok, p', data', r))
             else case find_sub '':'' line of
                 None \<Rightarrow> (False, parser_error (''Invalid header format: '' @ line) p, data', r)
               | Some colon_pos \<Rightarrow>
                   let key = take colon_pos line;
                       value = dropWhile isspace (drop (colon_pos + 1) line)
                   in parse_headers p data' (r\<lparr>rq_headers := (rq_headers r)(key \<mapsto> value)\<rparr>))"
  by pat_completeness auto
termination
  by (relation "measure (\<lambda>(p, data, r). length data)") (auto dest!: find_sub_bound)

declare parse_headers.simps [simp del]

section \<open>Chunked bodies\<close>

definition hex_digit :: "char \<Rightarrow> nat option" where
  "hex_digit c =
     (if 48 \<le> ord c \<and> ord c \<le> 57 then Some (ord c - 48)
      else if 97 \<le> ord c \<and> ord c \<le> 102 then Some (ord c - 97 + 10)
      else if 65 \<le> ord c \<and> ord c \<le> 70 then Some (ord c - 65 + 10)
      else None)"

text \<open>The digit loop: \<open>out = out * 16 + d\<close> in \<open>size_t\<close>; it stops with the value so far.\<close>

fun hex_loop :: "string \<Rightarrow> nat \<Rightarrow> bool \<times> nat" where
  "hex_loop [] out = (True, out)"
| "hex_loop (c # cs) out =
     (case hex_digit c of
        None \<Rightarrow> (False, out)
      | Some d \<Rightarrow> hex_loop cs (size_t_wrap (out * 16 + d)))"

definition parse_chunk_size :: "string \<Rightarrow> nat \<Rightarrow> bool \<times> nat" where
  "parse_chunk_size token out0 =
     (let t1 = (case find_sub '';'' token of None \<Rightarrow> token | Some semi \<Rightarrow> take semi token);
          t2 = rev (dropWhile (\<lambda>c. c = CHR '' '' \<or> c = TAB) (rev t1))
      in if t2 = [] then (False, out0) else hex_loop t2 0)"

text \<open>
  The trailer loop after the last chunk: the number of bytes up to and including the blank line,
  \<^term>\<open>None\<close> while it has not arrived.
\<close>

function skip_trailers :: "string \<Rightarrow> nat option" where
  "skip_trailers s =
     (case find_sub crlf s of
        None \<Rightarrow> None
      | Some e \<Rightarrow> if e = 0 then Some 2
                  else map_option (\<lambda>n. e + 2 + n) (skip_trailers (drop (e + 2) s)))"
  by pat_completeness auto
termination
  by (relation "measure length") (auto dest!: find_sub_bound)

declare skip_trailers.simps [simp del]

datatype chunk_scan = NeedMore | ScanError string | ScanComplete

text \<open>
  Pass 1 over the unchanged buffer. \<open>decoded_total += sz\<close>, \<open>sz + 2\<close> and the argument of
  \<open>remove_prefix\<close> are \<open>size_t\<close>.
\<close>

function scan_chunks :: "string \<Rightarrow> nat \<Rightarrow> chunk_scan" where
  "scan_chunks scan decoded_total =
     (case find_sub crlf scan of
        None \<Rightarrow> NeedMore
      | Some eol \<Rightarrow>
          (case parse_chunk_size (take eol scan) 0 of
             (False, _) \<Rightarrow> ScanError ''Invalid chunk size''
           | (True, sz) \<Rightarrow>
               let scan1 = drop (eol + 2) scan in
               if sz = 0 then (if skip_trailers scan1 = None then NeedMore else ScanComplete)
               else
                 let total = size_t_wrap (decoded_total + sz) in
                 if MAX_BODY_BYTES < total
                 then ScanError ''Chunked body exceeds maximum allowed size''
                 else if length scan1 < size_t_wrap (sz + 2) then NeedMore
                 else scan_chunks (drop (size_t_wrap (sz + 2)) scan1) total))"
  by pat_completeness auto
termination
  by (relation "measure (\<lambda>(scan, total). length scan)") (auto dest!: find_sub_bound)

declare scan_chunks.simps [simp del]

text \<open>\<open>std::memmove(buf + dst, buf + src, n)\<close> within the received bytes.\<close>

definition memmove :: "string \<Rightarrow> nat \<Rightarrow> nat \<Rightarrow> nat \<Rightarrow> string defined" where
  "memmove buf dst src n =
     (if src + n \<le> length buf \<and> dst + n \<le> length buf
      then Some (take dst buf @ take n (drop src buf) @ drop (dst + n) buf)
      else None)"

lemma memmove_length: "memmove buf dst src n = Some buf' \<Longrightarrow> length buf' = length buf"
  by (auto simp: memmove_def split: if_splits)

text \<open>
  Pass 2 over the buffer it writes: \<open>cur\<close> is the read position, \<open>out\<close> the number of decoded
  bytes already moved to the front. It returns the buffer with the final positions.
\<close>

function compact_chunks :: "string \<Rightarrow> nat \<Rightarrow> nat \<Rightarrow> (string \<times> nat \<times> nat) defined" where
  "compact_chunks buf cur out =
     (case find_sub crlf (drop cur buf) of
        None \<Rightarrow> None
      | Some eol \<Rightarrow>
          let sz = snd (parse_chunk_size (take eol (drop cur buf)) 0);
              cur1 = cur + (eol + 2)
          in if sz = 0 then
               (case skip_trailers (drop cur1 buf) of
                  None \<Rightarrow> None
                | Some n \<Rightarrow> Some (buf, cur1 + n, out))
             else
               (case memmove buf out cur1 sz of
                  None \<Rightarrow> None
                | Some buf' \<Rightarrow> compact_chunks buf' (cur1 + size_t_wrap (sz + 2)) (out + sz)))"
  by pat_completeness auto
termination
  by (relation "measure (\<lambda>(buf, cur, out). length buf - cur)")
     (auto dest!: find_sub_bound memmove_length)

declare compact_chunks.simps [simp del]

text \<open>
  The boolean, the parser, the view of the buffer as the call leaves it, the number of bytes the
  view advances, and the request.
\<close>

type_synonym body_step = "bool \<times> http_parser \<times> string \<times> nat \<times> http_request"

definition parse_chunked_body :: "http_parser \<Rightarrow> string \<Rightarrow> http_request \<Rightarrow> body_step defined" where
  "parse_chunked_body p data r =
     (case scan_chunks data 0 of
        NeedMore \<Rightarrow> Some (False, p, data, 0, r)
      | ScanError msg \<Rightarrow> Some (False, parser_error msg p, data, 0, r)
      | ScanComplete \<Rightarrow>
          (case compact_chunks data 0 0 of
             None \<Rightarrow> None
           | Some (buf, cur, out) \<Rightarrow>
               Some (True, p\<lparr>ps_state := COMPLETE\<rparr>, buf, cur, r\<lparr>rq_body := take out buf\<rparr>)))"

definition parse_body :: "http_parser \<Rightarrow> string \<Rightarrow> http_request \<Rightarrow> body_step defined" where
  "parse_body p data r =
     (if ps_is_chunked p then parse_chunked_body p data r
      else if 0 < ps_body_expected_length p then
        (if length data < ps_body_expected_length p then Some (False, p, data, 0, r)
         else Some (True, p\<lparr>ps_state := COMPLETE\<rparr>, data, ps_body_expected_length p,
                    r\<lparr>rq_body := take (ps_body_expected_length p) data\<rparr>))
      else Some (True, p\<lparr>ps_state := COMPLETE\<rparr>, data, 0, r))"

section \<open>The parser loop\<close>

text \<open>
  One iteration of the \<open>while\<close> of \<open>parse_request\<close>, on the buffer and the position of
  \<open>current_data\<close> in it: the \<open>switch\<close> over the state. The result is the step's boolean, the
  parser, the buffer, the new position and the request.
\<close>

type_synonym parse_state = "bool \<times> http_parser \<times> string \<times> nat \<times> http_request"

definition parse_step :: "http_parser \<Rightarrow> string \<Rightarrow> nat \<Rightarrow> http_request \<Rightarrow> parse_state defined" where
  "parse_step p buf pos r =
     (case ps_state p of
        REQUEST_LINE \<Rightarrow>
          (case parse_request_line p (drop pos buf) r of
             (ok, p', data', r') \<Rightarrow> Some (ok, p', buf, length buf - length data', r'))
      | HEADERS \<Rightarrow>
          (case parse_headers p (drop pos buf) r of
             (ok, p', data', r') \<Rightarrow> Some (ok, p', buf, length buf - length data', r'))
      | BODY \<Rightarrow>
          (case parse_body p (drop pos buf) r of
             None \<Rightarrow> None
           | Some (ok, p', data', n, r') \<Rightarrow> Some (ok, p', take pos buf @ data', pos + n, r'))
      | _ \<Rightarrow> Some (False, parser_error ''Invalid parser state.'' p, buf, pos, r))"

record parse_result =
  pr_ok :: bool
  pr_consumed :: nat
  pr_parser :: http_parser
  pr_buffer :: string
  pr_request :: http_request

lemma parse_request_line_data:
  "parse_request_line p d r = (ok, p', d', r') \<Longrightarrow>
     (\<not> ok \<and> p' = p \<and> d' = d \<and> r' = r \<and> find_sub crlf d = None) \<or>
     (\<exists>eol. find_sub crlf d = Some eol \<and> d' = drop (eol + 2) d \<and> length d' + 2 \<le> length d \<and>
        (ok \<longrightarrow> ps_state p' = HEADERS) \<and> (\<not> ok \<longrightarrow> ps_state p' = ERROR))"
  by (auto simp: parse_request_line_def parser_error_def Let_def split: option.splits if_splits
      dest: find_sub_bound)

lemma end_of_headers_state:
  "end_of_headers p r = (ok, p') \<Longrightarrow>
     (ok \<longrightarrow> ps_state p' = BODY \<or> ps_state p' = COMPLETE) \<and> (\<not> ok \<longrightarrow> ps_state p' = ERROR)"
  by (auto simp: end_of_headers_def parser_error_def Let_def split: option.splits if_splits)

lemma parse_headers_data:
  "parse_headers p d r = (ok, p', d', r') \<Longrightarrow>
     length d' \<le> length d \<and> d' = drop (length d - length d') d \<and>
     (ok \<longrightarrow> length d' + 2 \<le> length d \<and> (ps_state p' = BODY \<or> ps_state p' = COMPLETE)) \<and>
     (\<not> ok \<longrightarrow> ps_state p' = ERROR \<or> (p' = p \<and> find_sub crlf d' = None))"
proof (induction p d r arbitrary: ok p' d' r' rule: parse_headers.induct)
  case (1 p d r)
  show ?case
  proof (cases "find_sub crlf d")
    case None
    with "1.prems" show ?thesis by (simp add: parse_headers.simps [of p d r])
  next
    case (Some eol)
    let ?line = "take eol d" and ?d = "drop (eol + 2) d"
    from find_sub_bound [OF Some] have eol: "eol + 2 \<le> length d" by simp
    show ?thesis
    proof (cases "?line = [] \<or> find_sub '':'' ?line = None")
      case True
      with "1.prems" Some eol show ?thesis
        by (auto simp: parse_headers.simps [of p d r] parser_error_def Let_def numeral_2_eq_2
            split: prod.splits option.splits if_splits dest: end_of_headers_state)
    next
      case False
      then obtain c where c: "find_sub '':'' ?line = Some c" and ne: "?line \<noteq> []" by auto
      let ?r = "r\<lparr>rq_headers := (rq_headers r)(take c ?line \<mapsto>
                  dropWhile isspace (drop (c + 1) ?line))\<rparr>"
      from "1.prems" Some ne c have rec: "parse_headers p ?d ?r = (ok, p', d', r')"
        by (simp add: parse_headers.simps [of p d r] Let_def)
      note ih = "1.IH" [OF Some refl refl ne c refl refl rec]
      have l: "length d' \<le> length ?d" "ok \<longrightarrow> length d' + 2 \<le> length ?d" using ih by blast+
      from l(1) eol have "length ?d - length d' + (eol + 2) = length d - length d'" by simp
      with ih have "d' = drop (length d - length d') d" by (metis drop_drop)
      moreover have "length d' \<le> length d" "ok \<longrightarrow> length d' + 2 \<le> length d" using l eol by auto
      ultimately show ?thesis using ih by blast
    qed
  qed
qed

lemma skip_trailers_bound: "skip_trailers s = Some n \<Longrightarrow> 2 \<le> n \<and> n \<le> length s"
proof (induction s arbitrary: n rule: skip_trailers.induct)
  case (1 s)
  show ?case
  proof (cases "find_sub crlf s")
    case None
    with "1.prems" show ?thesis by (simp add: skip_trailers.simps [of s])
  next
    case (Some e)
    note eb = find_sub_bound [OF Some]
    show ?thesis
    proof (cases "e = 0")
      case True
      with "1.prems" Some eb show ?thesis by (simp add: skip_trailers.simps [of s])
    next
      case False
      with "1.prems" Some obtain m where "skip_trailers (drop (e + 2) s) = Some m" "n = e + 2 + m"
        by (auto simp: skip_trailers.simps [of s])
      with "1.IH" [OF Some False] eb show ?thesis by fastforce
    qed
  qed
qed

lemma compact_chunks_bound:
  "compact_chunks buf cur out = Some (buf', cur', out') \<Longrightarrow>
     length buf' = length buf \<and> cur < cur' \<and> cur' \<le> length buf"
proof (induction buf cur out rule: compact_chunks.induct)
  case (1 buf cur out)
  show ?case
  proof (cases "find_sub crlf (drop cur buf)")
    case None
    with "1.prems" show ?thesis by (simp add: compact_chunks.simps [of buf cur out])
  next
    case (Some eol)
    let ?sz = "snd (parse_chunk_size (take eol (drop cur buf)) 0)"
    note eb = find_sub_bound [OF Some]
    show ?thesis
    proof (cases "?sz = 0")
      case True
      with "1.prems" Some eb show ?thesis
        by (auto simp: compact_chunks.simps [of buf cur out] Let_def
            split: option.splits dest!: skip_trailers_bound)
    next
      case False
      with "1.prems" Some obtain b where
        b: "memmove buf out (cur + (eol + 2)) ?sz = Some b" and
        rec: "compact_chunks b (cur + (eol + 2) + size_t_wrap (?sz + 2)) (out + ?sz) =
          Some (buf', cur', out')"
        by (auto simp: compact_chunks.simps [of buf cur out] Let_def split: option.splits)
      have "length buf' = length b \<and> cur + (eol + 2) + size_t_wrap (?sz + 2) < cur' \<and>
          cur' \<le> length b"
        by (rule "1.IH" [OF Some refl refl False b rec])
      then show ?thesis using memmove_length [OF b] by simp
    qed
  qed
qed

lemma parse_body_data:
  "parse_body p d r = Some (ok, p', d', n, r') \<Longrightarrow>
     length d' = length d \<and> n \<le> length d \<and> (ok \<longrightarrow> ps_state p' = COMPLETE) \<and>
     (\<not> ok \<longrightarrow> n = 0 \<and> d' = d)"
  by (auto simp: parse_body_def parse_chunked_body_def
      split: if_splits chunk_scan.splits option.splits dest: compact_chunks_bound)

text \<open>A step that neither fails nor stalls makes progress or completes the request.\<close>

definition parse_rank :: "http_parser \<Rightarrow> string \<Rightarrow> nat \<Rightarrow> nat" where
  "parse_rank p buf pos = 2 * (length buf - pos) + (if ps_state p = COMPLETE then 0 else 1)"

lemma parse_step_bound [consume_bounds]:
  assumes "parse_step p buf pos r = Some (ok, p', buf', pos', r')" "pos \<le> length buf"
  shows "length buf' = length buf" "pos \<le> pos'" "pos' \<le> length buf"
  using assms
  by (auto simp: parse_step_def split: ParsingState.splits prod.splits option.splits
      dest!: parse_request_line_data parse_headers_data parse_body_data find_sub_bound)

lemma parse_step_progress:
  assumes "parse_step p buf pos r = Some (ok, p', buf', pos', r')" "pos < length buf"
    "ps_state p' \<noteq> ERROR" "\<not> (\<not> ok \<and> pos' = pos)"
  shows "parse_rank p' buf' pos' < parse_rank p buf pos"
proof -
  have len: "length buf' = length buf" "pos \<le> pos'" "pos' \<le> length buf"
    using parse_step_bound [OF assms(1)] assms(2) by auto
  show ?thesis
  proof (cases "pos < pos'")
    case True
    with len show ?thesis by (auto simp: parse_rank_def)
  next
    case False
    with len have pos': "pos' = pos" by simp
    with assms have ok: ok by simp
    have "ps_state p = BODY \<and> ps_state p' = COMPLETE"
    proof (cases "ps_state p")
      case REQUEST_LINE
      with assms(1,2) ok pos' show ?thesis
        by (auto simp: parse_step_def split: prod.splits
            dest!: parse_request_line_data find_sub_bound)
    next
      case HEADERS
      with assms(1,2) ok pos' show ?thesis
        by (auto simp: parse_step_def split: prod.splits dest!: parse_headers_data)
    next
      case BODY
      with assms(1) ok show ?thesis
        by (auto simp: parse_step_def split: prod.splits option.splits dest!: parse_body_data)
    qed (use assms ok in \<open>auto simp: parse_step_def parser_error_def\<close>)
    with len pos' show ?thesis by (simp add: parse_rank_def)
  qed
qed

function parse_loop ::
  "http_parser \<Rightarrow> string \<Rightarrow> nat \<Rightarrow> http_request \<Rightarrow> parse_result defined" where
  "parse_loop p buf pos r =
     (if ps_state p = COMPLETE \<or> ps_state p = ERROR \<or> length buf \<le> pos
      then Some \<lparr>pr_ok = (ps_state p = COMPLETE), pr_consumed = pos, pr_parser = p,
                 pr_buffer = buf, pr_request = r\<rparr>
      else case parse_step p buf pos r of
        None \<Rightarrow> None
      | Some (ok, p', buf', pos', r') \<Rightarrow>
          if ps_state p' = ERROR
          then Some \<lparr>pr_ok = False, pr_consumed = pos, pr_parser = p', pr_buffer = buf',
                     pr_request = r'\<rparr>
          else if \<not> ok \<and> pos' = pos
          then Some \<lparr>pr_ok = False, pr_consumed = pos, pr_parser = p', pr_buffer = buf',
                     pr_request = r'\<rparr>
          else parse_loop p' buf' pos' r')"
  by pat_completeness auto
termination
  by (relation "measure (\<lambda>(p, buf, pos, r). parse_rank p buf pos)") (auto intro: parse_step_progress)

declare parse_loop.simps [simp del]

text \<open>\<open>HttpParser::parse_request\<close>, with the guard on the header block.\<close>

definition header_span :: "string \<Rightarrow> nat" where
  "header_span buf =
     (case find_sub (crlf @ crlf) buf of None \<Rightarrow> length buf | Some header_end \<Rightarrow> header_end)"

definition parse_request :: "http_parser \<Rightarrow> string \<Rightarrow> http_request \<Rightarrow> parse_result defined" where
  "parse_request p buf r =
     (if (ps_state p = REQUEST_LINE \<or> ps_state p = HEADERS) \<and> MAX_HEADER_BYTES < header_span buf
      then Some \<lparr>pr_ok = False, pr_consumed = 0,
                 pr_parser = parser_error ''Header block exceeds maximum allowed size'' p,
                 pr_buffer = buf, pr_request = r\<rparr>
      else parse_loop p buf 0 r)"

end
