(* ===== verification/Http_Chunked.thy ===== *)
theory Http_Chunked
  imports Http_Parser
begin

text \<open>
  The chunked body: a specification of the decoding as a function of the input alone, with
  unbounded arithmetic, and the proof that the two passes of \<open>parse_chunked_body\<close>, the second of
  which overwrites its own input, compute it. The two can differ only where the \<open>size_t\<close>
  arithmetic of pass 1 wraps, and there the code leaves the defined behaviour of C++.
\<close>

section \<open>Specification\<close>

function dechunk :: "string \<Rightarrow> (string \<times> nat) option" where
  "dechunk d =
     (case find_sub crlf d of
        None \<Rightarrow> None
      | Some eol \<Rightarrow>
          (case parse_chunk_size (take eol d) 0 of
             (False, _) \<Rightarrow> None
           | (True, sz) \<Rightarrow>
               let d1 = drop (eol + 2) d in
               if sz = 0 then map_option (\<lambda>n. ([], eol + 2 + n)) (skip_trailers d1)
               else if length d1 < sz + 2 then None
               else map_option (\<lambda>(b, n). (take sz d1 @ b, eol + 2 + (sz + 2) + n))
                      (dechunk (drop (sz + 2) d1))))"
  by pat_completeness auto
termination
  by (relation "measure length") (auto dest!: find_sub_bound)

declare dechunk.simps [simp del]

lemma dechunk_step:
  "find_sub crlf d = None \<Longrightarrow> dechunk d = None"
  "find_sub crlf d = Some eol \<Longrightarrow> parse_chunk_size (take eol d) 0 = (False, sz) \<Longrightarrow> dechunk d = None"
  "find_sub crlf d = Some eol \<Longrightarrow> parse_chunk_size (take eol d) 0 = (True, 0) \<Longrightarrow>
     dechunk d = map_option (\<lambda>n. ([], eol + 2 + n)) (skip_trailers (drop (eol + 2) d))"
  "find_sub crlf d = Some eol \<Longrightarrow> parse_chunk_size (take eol d) 0 = (True, sz) \<Longrightarrow> sz \<noteq> 0 \<Longrightarrow>
     dechunk d =
       (if length (drop (eol + 2) d) < sz + 2 then None
        else map_option (\<lambda>(b, n). (take sz (drop (eol + 2) d) @ b, eol + 2 + (sz + 2) + n))
               (dechunk (drop (sz + 2) (drop (eol + 2) d))))"
  by (simp_all add: dechunk.simps [of d] Let_def)

lemma scan_step:
  "find_sub crlf d = None \<Longrightarrow> scan_chunks d t = NeedMore"
  "find_sub crlf d = Some eol \<Longrightarrow> parse_chunk_size (take eol d) 0 = (False, sz) \<Longrightarrow>
     scan_chunks d t = ScanError ''Invalid chunk size''"
  "find_sub crlf d = Some eol \<Longrightarrow> parse_chunk_size (take eol d) 0 = (True, 0) \<Longrightarrow>
     scan_chunks d t = (if skip_trailers (drop (eol + 2) d) = None then NeedMore else ScanComplete)"
  "find_sub crlf d = Some eol \<Longrightarrow> parse_chunk_size (take eol d) 0 = (True, sz) \<Longrightarrow> sz \<noteq> 0 \<Longrightarrow>
     scan_chunks d t =
       (if MAX_BODY_BYTES < size_t_wrap (t + sz)
        then ScanError ''Chunked body exceeds maximum allowed size''
        else if length (drop (eol + 2) d) < size_t_wrap (sz + 2) then NeedMore
        else scan_chunks (drop (size_t_wrap (sz + 2)) (drop (eol + 2) d)) (size_t_wrap (t + sz)))"
  by (simp_all add: scan_chunks.simps [of d] Let_def)

lemma compact_step:
  "find_sub crlf (drop cur buf) = Some eol \<Longrightarrow>
     parse_chunk_size (take eol (drop cur buf)) 0 = (ok, 0) \<Longrightarrow>
     compact_chunks buf cur out =
       map_option (\<lambda>n. (buf, cur + (eol + 2) + n, out)) (skip_trailers (drop (cur + (eol + 2)) buf))"
  "find_sub crlf (drop cur buf) = Some eol \<Longrightarrow>
     parse_chunk_size (take eol (drop cur buf)) 0 = (ok, sz) \<Longrightarrow> sz \<noteq> 0 \<Longrightarrow>
     compact_chunks buf cur out =
       (case memmove buf out (cur + (eol + 2)) sz of
          None \<Rightarrow> None
        | Some buf' \<Rightarrow> compact_chunks buf' (cur + (eol + 2) + size_t_wrap (sz + 2)) (out + sz))"
  by (simp_all add: compact_chunks.simps [of buf cur out] Let_def map_option_case
      split: option.splits)

text \<open>The three ways a chunk header reads, for the case analyses below.\<close>

lemma chunk_header_cases:
  obtains (none) "find_sub crlf d = None"
  | (bad) eol sz where "find_sub crlf d = Some eol" "parse_chunk_size (take eol d) 0 = (False, sz)"
  | (last) eol where "find_sub crlf d = Some eol" "parse_chunk_size (take eol d) 0 = (True, 0)"
  | (chunk) eol sz where "find_sub crlf d = Some eol"
      "parse_chunk_size (take eol d) 0 = (True, sz)" "sz \<noteq> 0"
proof (cases "find_sub crlf d")
  case (Some eol)
  obtain ok sz where "parse_chunk_size (take eol d) 0 = (ok, sz)" by fastforce
  with Some that show thesis by (cases ok; cases "sz = 0") auto
qed (rule that)

lemma hex_loop_bound: "n < 2 ^ 64 \<Longrightarrow> snd (hex_loop cs n) < 2 ^ 64"
proof (induction cs n rule: hex_loop.induct)
  case (2 c cs out)
  then show ?case by (cases "hex_digit c") (simp_all only: hex_loop.simps option.case snd_conv, simp add: size_t_wrap_def)
qed simp

lemma size_t_wrap_id [simp]: "n < 2 ^ 64 \<Longrightarrow> size_t_wrap n = n"
  by (simp add: size_t_wrap_def)

section \<open>Pass 2 decodes in place\<close>

lemma memmove_drop:
  "memmove buf dst src n = Some buf' \<Longrightarrow> dst \<le> src \<Longrightarrow> src + n \<le> k \<Longrightarrow> drop k buf' = drop k buf"
  by (auto simp: memmove_def split: if_splits)

lemma memmove_take:
  "memmove buf dst src n = Some buf' \<Longrightarrow> take (dst + n) buf' = take dst buf @ take n (drop src buf)"
  by (auto simp: memmove_def split: if_splits)

lemma compact_chunks_dechunk:
  assumes "dechunk (drop cur buf) = Some (b, n)" "out \<le> cur" "length buf < 2 ^ 63"
  shows "\<exists>buf'. compact_chunks buf cur out = Some (buf', cur + n, out + length b) \<and>
     take (out + length b) buf' = take out buf @ b \<and>
     drop (cur + n) buf' = drop (cur + n) buf"
  using assms
proof (induction buf cur out arbitrary: b n rule: compact_chunks.induct)
  case (1 buf cur out)
  show ?case
  proof (cases rule: chunk_header_cases [of "drop cur buf"])
    case (last eol)
    with "1.prems"(1) obtain m where "skip_trailers (drop (cur + (eol + 2)) buf) = Some m"
      "b = []" "n = eol + 2 + m"
      by (auto simp: dechunk_step(3) ac_simps)
    with last show ?thesis by (simp add: compact_step(1))
  next
    case (chunk eol sz)
    let ?cur1 = "cur + (eol + 2)"
    have d1: "drop (eol + 2) (drop cur buf) = drop ?cur1 buf" by (simp add: ac_simps)
    from "1.prems"(1) obtain b1 n1 where
      rec: "dechunk (drop (sz + 2) (drop ?cur1 buf)) = Some (b1, n1)" and
      len: "sz + 2 \<le> length (drop ?cur1 buf)" and
      b: "b = take sz (drop ?cur1 buf) @ b1" and n: "n = eol + 2 + (sz + 2) + n1"
      unfolding dechunk_step(4) [OF chunk] d1 by (auto split: if_splits)
    have inb: "?cur1 + sz + 2 \<le> length buf" using len by simp
    have w: "size_t_wrap (sz + 2) = sz + 2" using inb "1.prems"(3) by simp
    obtain buf1 where mm: "memmove buf out ?cur1 sz = Some buf1"
      using inb "1.prems"(2) by (simp add: memmove_def)
    have same: "drop k buf1 = drop k buf" if "?cur1 + sz \<le> k" for k
      using memmove_drop [OF mm _ that] "1.prems"(2) by simp
    let ?cur2 = "?cur1 + (sz + 2)"
    have "dechunk (drop ?cur2 buf1) = Some (b1, n1)"
      using rec same [of ?cur2] by (simp add: ac_simps)
    then have "\<exists>buf'. compact_chunks buf1 ?cur2 (out + sz) =
          Some (buf', ?cur2 + n1, out + sz + length b1) \<and>
        take (out + sz + length b1) buf' = take (out + sz) buf1 @ b1 \<and>
        drop (?cur2 + n1) buf' = drop (?cur2 + n1) buf1"
      using "1.IH" [OF chunk(1) refl refl, unfolded chunk(2) snd_conv w, OF chunk(3) mm]
        "1.prems"(2,3) memmove_length [OF mm] by simp
    then obtain buf' where buf': "compact_chunks buf1 ?cur2 (out + sz) =
          Some (buf', ?cur2 + n1, out + sz + length b1)"
        "take (out + sz + length b1) buf' = take (out + sz) buf1 @ b1"
        "drop (?cur2 + n1) buf' = drop (?cur2 + n1) buf1"
      by blast
    have "compact_chunks buf cur out = Some (buf', ?cur2 + n1, out + sz + length b1)"
      unfolding compact_step(2) [OF chunk] by (simp only: mm option.case w buf'(1))
    moreover have "take (out + sz + length b1) buf' = take out buf @ b"
      using buf'(2) b memmove_take [OF mm] by simp
    moreover have "drop (?cur2 + n1) buf' = drop (?cur2 + n1) buf"
      using buf'(3) same [of "?cur2 + n1"] by simp
    moreover have "cur + n = ?cur2 + n1" "out + length b = out + sz + length b1"
      using b n inb by simp_all
    ultimately show ?thesis by metis
  qed (use "1.prems" in \<open>simp_all add: dechunk_step\<close>)
qed

section \<open>Pass 1\<close>

lemma scan_chunks_total:
  assumes "scan_chunks d t = ScanComplete" "dechunk d = Some (b, n)" "t \<le> MAX_BODY_BYTES"
    "length d < 2 ^ 63"
  shows "t + length b \<le> MAX_BODY_BYTES"
  using assms
proof (induction d t arbitrary: b n rule: scan_chunks.induct)
  case (1 d t)
  show ?case
  proof (cases rule: chunk_header_cases [of d])
    case (last eol)
    with "1.prems" show ?thesis by (auto simp: dechunk_step(3))
  next
    case (chunk eol sz)
    let ?d1 = "drop (eol + 2) d"
    from "1.prems"(2) obtain b1 n1 where
      rec: "dechunk (drop (sz + 2) ?d1) = Some (b1, n1)" and len: "sz + 2 \<le> length ?d1" and
      b: "b = take sz ?d1 @ b1"
      unfolding dechunk_step(4) [OF chunk] by (auto split: if_splits)
    have w: "size_t_wrap (sz + 2) = sz + 2" "size_t_wrap (t + sz) = t + sz"
      using len "1.prems"(3,4) by (simp_all add: MAX_BODY_BYTES_def)
    from "1.prems"(1) len have
      le: "\<not> MAX_BODY_BYTES < t + sz" and rs: "scan_chunks (drop (sz + 2) ?d1) (t + sz) = ScanComplete"
      unfolding scan_step(4) [OF chunk] w by (auto split: if_splits)
    have "t + sz + length b1 \<le> MAX_BODY_BYTES"
      using "1.IH" [OF chunk(1) chunk(2) [symmetric] refl refl chunk(3) refl] le rs rec len "1.prems"(4)
      unfolding w by simp
    with b len show ?thesis by simp
  qed (use "1.prems" in \<open>simp_all add: dechunk_step\<close>)
qed

text \<open>
  Where pass 1 accepts what the specification rejects, an addition of pass 1 wrapped, and pass 2
  asks \<open>memmove\<close> for bytes outside the buffer.
\<close>

lemma compact_chunks_undefined:
  assumes "scan_chunks (drop cur buf) t = ScanComplete" "dechunk (drop cur buf) = None"
    "out \<le> cur" "length buf < 2 ^ 63"
  shows "compact_chunks buf cur out = None"
  using assms
proof (induction buf cur out arbitrary: t rule: compact_chunks.induct)
  case (1 buf cur out)
  show ?case
  proof (cases rule: chunk_header_cases [of "drop cur buf"])
    case (last eol)
    with "1.prems" show ?thesis by (auto simp: dechunk_step(3) scan_step(3) split: if_splits)
  next
    case (chunk eol sz)
    let ?cur1 = "cur + (eol + 2)"
    have d1: "drop (eol + 2) (drop cur buf) = drop ?cur1 buf" by (simp add: ac_simps)
    from "1.prems"(1) have
      enough: "size_t_wrap (sz + 2) \<le> length (drop ?cur1 buf)" and
      rs: "scan_chunks (drop (size_t_wrap (sz + 2)) (drop ?cur1 buf)) (size_t_wrap (t + sz)) =
        ScanComplete"
      unfolding scan_step(4) [OF chunk] d1 by (auto split: if_splits)
    show ?thesis
    proof (cases "memmove buf out ?cur1 sz")
      case None
      then show ?thesis unfolding compact_step(2) [OF chunk] by (simp only: option.case)
    next
      case (Some buf1)
      then have inb: "?cur1 + sz \<le> length buf" by (auto simp: memmove_def split: if_splits)
      then have w: "size_t_wrap (sz + 2) = sz + 2" using "1.prems"(4) by simp
      have same: "drop k buf1 = drop k buf" if "?cur1 + sz \<le> k" for k
        using memmove_drop [OF Some _ that] "1.prems"(3) by simp
      let ?cur2 = "?cur1 + (sz + 2)"
      have nd: "dechunk (drop ?cur2 buf) = None"
        using "1.prems"(2) enough unfolding dechunk_step(4) [OF chunk] d1 w
        by (auto simp: ac_simps split: if_splits)
      have "compact_chunks buf1 ?cur2 (out + sz) = None"
        using "1.IH" [OF chunk(1) refl refl, unfolded chunk(2) snd_conv w, OF chunk(3) Some,
            of "size_t_wrap (t + sz)"]
          rs nd same [of ?cur2] "1.prems"(3,4) memmove_length [OF Some] unfolding w
        by (simp add: ac_simps)
      then show ?thesis unfolding compact_step(2) [OF chunk] by (simp only: Some option.case w)
    qed
  qed (use "1.prems" in \<open>simp_all add: scan_step\<close>)
qed

text \<open>The two passes together.\<close>

lemma parse_chunked_body_complete:
  assumes "scan_chunks d 0 = ScanComplete" "length d < 2 ^ 63"
  shows "case dechunk d of
     None \<Rightarrow> parse_chunked_body p d r = None
   | Some (b, n) \<Rightarrow> length b \<le> MAX_BODY_BYTES \<and>
       (\<exists>d'. parse_chunked_body p d r =
               Some (True, p\<lparr>ps_state := COMPLETE\<rparr>, d', n, r\<lparr>rq_body := b\<rparr>) \<and>
             drop n d' = drop n d \<and> length d' = length d)"
proof (cases "dechunk d")
  case None
  with compact_chunks_undefined [of 0 d 0 0] assms show ?thesis
    by (simp add: parse_chunked_body_def)
next
  case (Some bn)
  then obtain b n where bn: "dechunk d = Some (b, n)" by (cases bn) auto
  from compact_chunks_dechunk [of 0 d b n 0] bn assms(2) obtain d' where
    "compact_chunks d 0 0 = Some (d', n, length b)" "take (length b) d' = b"
    "drop n d' = drop n d" "length d' = length d"
    by (auto dest: compact_chunks_bound)
  with assms bn scan_chunks_total [OF assms(1) bn] show ?thesis
    by (auto simp: parse_chunked_body_def)
qed

section \<open>A chunked encoder, and the round trip\<close>

definition hex_char :: "nat \<Rightarrow> char" where
  "hex_char d = (if d < 10 then char_of (48 + d) else char_of (87 + d))"

fun hex :: "nat \<Rightarrow> string" where
  "hex n = (if n < 16 then [hex_char n] else hex (n div 16) @ [hex_char (n mod 16)])"

declare hex.simps [simp del]

definition chunk_of :: "string \<Rightarrow> string" where
  "chunk_of c = hex (length c) @ crlf @ c @ crlf"

definition encode_chunked :: "string list \<Rightarrow> string" where
  "encode_chunked cs = concat (map chunk_of cs) @ ''0'' @ crlf @ crlf"

definition is_hex_lower :: "char \<Rightarrow> bool" where
  "is_hex_lower c \<longleftrightarrow> is_digit c \<or> (97 \<le> ord c \<and> ord c \<le> 102)"

lemma hex_digit_hex_char [simp]: "d < 16 \<Longrightarrow> hex_digit (hex_char d) = Some d"
  by (auto simp: hex_char_def hex_digit_def)

lemma hex_nonempty [simp]: "hex n \<noteq> []"
  by (subst hex.simps) auto

lemma hex_lower: "\<forall>c \<in> set (hex n). is_hex_lower c"
proof (induction n rule: hex.induct)
  case (1 n)
  then show ?case
    by (subst hex.simps) (auto simp: is_hex_lower_def hex_char_def is_digit_def)
qed

lemma hex_loop_append:
  "hex_loop cs n = (True, m) \<Longrightarrow> hex_loop (cs @ ds) n = hex_loop ds m"
  by (induction cs n rule: hex_loop.induct) (auto split: option.splits)

text \<open>The size read back is the size modulo \<open>2^64\<close>: a longer number is not rejected.\<close>

lemma hex_loop_hex: "hex_loop (hex n) 0 = (True, size_t_wrap n)"
proof (induction n rule: hex.induct)
  case (1 n)
  show ?case
  proof (cases "n < 16")
    case True
    then show ?thesis by (subst hex.simps) simp
  next
    case False
    then have "hex_loop (hex (n div 16)) 0 = (True, size_t_wrap (n div 16))" using 1 by simp
    moreover have "size_t_wrap (size_t_wrap (n div 16) * 16 + n mod 16) = size_t_wrap n"
      unfolding size_t_wrap_def by (metis div_mult_mod_eq mod_add_left_eq mod_mult_left_eq)
    ultimately show ?thesis using False by (subst hex.simps) (simp add: hex_loop_append)
  qed
qed

lemma parse_chunk_size_hex: "parse_chunk_size (hex n) x = (True, size_t_wrap n)"
proof -
  have no: "c \<notin> set (hex n)" if "\<not> is_hex_lower c" for c using hex_lower that by blast
  have semi: "find_sub '';'' (hex n) = None"
    by (rule find_sub_notin) (rule no, simp add: is_hex_lower_def is_digit_def)
  obtain c cs where rc: "rev (hex n) = c # cs" by (cases "rev (hex n)") auto
  then have "c \<in> set (hex n)" by (metis list.set_intros(1) set_rev)
  then have "c \<noteq> CHR '' ''" "c \<noteq> TAB" using no by (auto simp: is_hex_lower_def is_digit_def)
  then have "dropWhile (\<lambda>c. c = CHR '' '' \<or> c = TAB) (rev (hex n)) = rev (hex n)"
    using rc by simp
  then have "rev (dropWhile (\<lambda>c. c = CHR '' '' \<or> c = TAB) (rev (hex n))) = hex n"
    by (simp only: rev_rev_ident)
  with semi show ?thesis
    unfolding parse_chunk_size_def Let_def semi option.case
    by (simp only: hex_nonempty if_False hex_loop_hex)
qed

lemma hex_no_cr: "CR \<notin> set (hex n)"
  using hex_lower [of n] by (auto simp: is_hex_lower_def is_digit_def)

lemma encode_chunked_simps:
  "encode_chunked [] = ''0'' @ crlf @ crlf"
  "encode_chunked (c # cs) = hex (length c) @ crlf @ c @ crlf @ encode_chunked cs"
  by (simp_all add: encode_chunked_def chunk_of_def)

text \<open>
  Chunked texts in general: a size may be spelled in any way the parser reads, with either case,
  leading zeros and an extension, and lines of trailers may stand behind the last chunk.
\<close>

definition spells :: "string \<Rightarrow> nat \<Rightarrow> bool" where
  "spells h n \<longleftrightarrow> CR \<notin> set h \<and> parse_chunk_size h 0 = (True, n)"

definition render_chunks :: "(string \<times> string) list \<Rightarrow> string \<Rightarrow> string list \<Rightarrow> string" where
  "render_chunks hcs fin ts =
     concat (map (\<lambda>(h, c). h @ crlf @ c @ crlf) hcs) @ fin @ crlf @ concat (map (\<lambda>t. t @ crlf) ts) @ crlf"

definition chunks_ok :: "(string \<times> string) list \<Rightarrow> string \<Rightarrow> string list \<Rightarrow> bool" where
  "chunks_ok hcs fin ts \<longleftrightarrow>
     (\<forall>(h, c) \<in> set hcs. c \<noteq> [] \<and> spells h (length c)) \<and> spells fin 0 \<and> (\<forall>t \<in> set ts. t \<noteq> [] \<and> CR \<notin> set t)"

lemma encode_chunked_render: "encode_chunked cs = render_chunks (map (\<lambda>c. (hex (length c), c)) cs) ''0'' []"
  by (simp add: encode_chunked_def render_chunks_def chunk_of_def [abs_def] comp_def)

lemma spells_hex: "n < 2 ^ 64 \<Longrightarrow> spells (hex n) n"
  by (simp add: spells_def hex_no_cr parse_chunk_size_hex size_t_wrap_def)

lemma encode_chunked_ok:
  assumes "[] \<notin> set cs" "length (concat cs) < 2 ^ 64"
  shows "chunks_ok (map (\<lambda>c. (hex (length c), c)) cs) ''0'' []"
proof -
  have "\<forall>c \<in> set cs. length c \<le> length (concat cs)" by (induction cs) auto
  then have "\<forall>c \<in> set cs. c \<noteq> [] \<and> spells (hex (length c)) (length c)"
    using assms by (fastforce intro: spells_hex)
  moreover have "spells ''0'' 0" by (simp add: spells_def parse_chunk_size_def hex_digit_def)
  ultimately show ?thesis by (simp add: chunks_ok_def)
qed

lemma find_crlf_line: "CR \<notin> set h \<Longrightarrow> find_sub crlf (h @ crlf @ d) = Some (length h)"
  using find_sub_here [of CR h "[LF]" d] by simp

lemma skip_trailer_lines:
  "\<forall>t \<in> set ts. t \<noteq> [] \<and> CR \<notin> set t \<Longrightarrow>
     skip_trailers (concat (map (\<lambda>t. t @ crlf) ts) @ crlf @ rest) = Some (length (concat (map (\<lambda>t. t @ crlf) ts)) + 2)"
proof (induction ts)
  case Nil
  then show ?case by (simp add: skip_trailers.simps [of "CR # _"])
next
  case (Cons t ts)
  let ?d = "t @ crlf @ concat (map (\<lambda>t. t @ crlf) ts) @ crlf @ rest"
  have "find_sub crlf ?d = Some (length t)" by (rule find_crlf_line) (use Cons.prems in simp)
  moreover have "length t \<noteq> 0" using Cons.prems by simp
  moreover have "drop (length t + 2) ?d = concat (map (\<lambda>t. t @ crlf) ts) @ crlf @ rest" by simp
  ultimately have "skip_trailers ?d = map_option (\<lambda>n. length t + 2 + n)
      (skip_trailers (concat (map (\<lambda>t. t @ crlf) ts) @ crlf @ rest))"
    by (subst skip_trailers.simps) (simp only: option.case if_False)
  then show ?case using Cons by simp
qed

lemma dechunk_render:
  "chunks_ok hcs fin ts \<Longrightarrow>
     dechunk (render_chunks hcs fin ts @ rest) = Some (concat (map snd hcs), length (render_chunks hcs fin ts))"
proof (induction hcs)
  case Nil
  then have "CR \<notin> set fin" "parse_chunk_size fin 0 = (True, 0)" and ts: "\<forall>t \<in> set ts. t \<noteq> [] \<and> CR \<notin> set t"
    by (simp_all add: chunks_ok_def spells_def)
  then show ?case
    using dechunk_step(3) [OF find_crlf_line [of fin]] skip_trailer_lines [OF ts] by (simp add: render_chunks_def)
next
  case (Cons hc hcs)
  obtain h c where hc: "hc = (h, c)" by (cases hc)
  let ?tail = "render_chunks hcs fin ts @ rest" and ?d = "h @ crlf @ c @ crlf @ render_chunks hcs fin ts @ rest"
  have h: "CR \<notin> set h" "parse_chunk_size h 0 = (True, length c)" "length c \<noteq> 0" and ok: "chunks_ok hcs fin ts"
    using Cons.prems by (auto simp: chunks_ok_def spells_def hc)
  have sz: "parse_chunk_size (take (length h) ?d) 0 = (True, length c)" using h(2) by simp
  have d: "drop (length h + 2) ?d = c @ crlf @ ?tail" "drop (length c + 2) (c @ crlf @ ?tail) = ?tail" by simp_all
  have "render_chunks (hc # hcs) fin ts @ rest = ?d" by (simp add: render_chunks_def hc)
  then show ?case
    using dechunk_step(4) [OF find_crlf_line [OF h(1)] sz h(3)] Cons.IH [OF ok]
    unfolding d by (simp add: render_chunks_def hc)
qed

end
