(* ===== verification/Http_Parser_Correct.thy ===== *)
theory Http_Parser_Correct
  imports Http_Chunked
begin

text \<open>
  What \<open>HttpParser::parse_request\<close> guarantees to its caller: bytes that arrive after a complete
  request do not change how it was read, the bytes behind it survive the decoding in place, the
  accepted bodies obey the limits, a request never carries both framings, and a rendered request
  reads back as itself.
\<close>

section \<open>Appending to the buffer\<close>

lemma parse_request_line_extend:
  "parse_request_line p d r = (True, p', d', r') \<Longrightarrow>
     parse_request_line p (d @ s) r = (True, p', d' @ s, r')"
  by (auto simp: parse_request_line_def Let_def find_sub_append split: option.splits if_splits
      dest: find_sub_bound)

lemma parse_headers_extend:
  "parse_headers p d r = (True, p', d', r') \<Longrightarrow>
     parse_headers p (d @ s) r = (True, p', d' @ s, r')"
proof (induction p d r rule: parse_headers.induct)
  case (1 p d r)
  show ?case
  proof (cases "find_sub crlf d")
    case None
    with "1.prems" show ?thesis by (simp add: parse_headers.simps [of p d r])
  next
    case (Some eol)
    let ?line = "take eol d"
    from find_sub_bound [OF Some] have eol: "eol + 2 \<le> length d" by simp
    then have line: "take eol (d @ s) = ?line" "drop (eol + 2) (d @ s) = drop (eol + 2) d @ s"
      by simp_all
    show ?thesis
    proof (cases "?line = [] \<or> find_sub '':'' ?line = None")
      case True
      with "1.prems" Some show ?thesis
        unfolding parse_headers.simps [of p "d @ s" r] parse_headers.simps [of p d r]
          find_sub_append [OF Some] Some option.case Let_def line
        by (auto split: prod.splits option.splits if_splits)
    next
      case False
      then obtain c where c: "find_sub '':'' ?line = Some c" and ne: "?line \<noteq> []" by auto
      let ?r = "r\<lparr>rq_headers := (rq_headers r)(take c ?line \<mapsto>
                  dropWhile isspace (drop (c + 1) ?line))\<rparr>"
      from "1.prems" Some ne c have rec: "parse_headers p (drop (eol + 2) d) ?r = (True, p', d', r')"
        by (simp add: parse_headers.simps [of p d r] Let_def)
      note ih = "1.IH" [OF Some refl refl ne c refl refl rec]
      show ?thesis
        unfolding parse_headers.simps [of p "d @ s" r] find_sub_append [OF Some] option.case Let_def
          line c if_not_P [OF ne]
        using ih by simp
    qed
  qed
qed

lemma skip_trailers_extend: "skip_trailers d = Some n \<Longrightarrow> skip_trailers (d @ s) = Some n"
proof (induction d arbitrary: n rule: skip_trailers.induct)
  case (1 d)
  show ?case
  proof (cases "find_sub crlf d")
    case None
    with "1.prems" show ?thesis by (simp add: skip_trailers.simps [of d])
  next
    case (Some e)
    from find_sub_bound [OF Some] have eb: "e + 2 \<le> length d" by simp
    show ?thesis
    proof (cases "e = 0")
      case True
      with "1.prems" Some show ?thesis
        by (simp add: skip_trailers.simps [of d] skip_trailers.simps [of "d @ s"]
            find_sub_append [OF Some])
    next
      case False
      with "1.prems" Some obtain m where m: "skip_trailers (drop (e + 2) d) = Some m" "n = e + 2 + m"
        by (auto simp: skip_trailers.simps [of d])
      from "1.IH" [OF Some False m(1)] eb m(2) False show ?thesis
        by (simp add: skip_trailers.simps [of "d @ s"] find_sub_append [OF Some])
    qed
  qed
qed

lemma scan_chunks_extend: "scan_chunks d t = ScanComplete \<Longrightarrow> scan_chunks (d @ s) t = ScanComplete"
proof (induction d t rule: scan_chunks.induct)
  case (1 d t)
  show ?case
  proof (cases rule: chunk_header_cases [of d])
    case (last eol)
    note f = find_sub_append [OF last(1), of s]
    have line: "take eol (d @ s) = take eol d" using find_sub_bound [OF last(1)] by simp
    have rest: "drop (eol + 2) (d @ s) = drop (eol + 2) d @ s" using find_sub_bound [OF last(1)] by simp
    have "skip_trailers (drop (eol + 2) d) \<noteq> None"
      using "1.prems" unfolding scan_step(3) [OF last] by (rule contrapos_pn) simp
    then show ?thesis
      using scan_step(3) [OF f] last(2) line rest skip_trailers_extend by auto
  next
    case (chunk eol sz)
    note f = find_sub_append [OF chunk(1), of s]
    have line: "take eol (d @ s) = take eol d" using find_sub_bound [OF chunk(1)] by simp
    have rest: "drop (eol + 2) (d @ s) = drop (eol + 2) d @ s" using find_sub_bound [OF chunk(1)] by simp
    let ?t = "size_t_wrap (t + sz)" and ?n = "size_t_wrap (sz + 2)" and ?d = "drop (eol + 2) d"
    from "1.prems" have c: "\<not> MAX_BODY_BYTES < ?t" "\<not> length ?d < ?n"
      and rec: "scan_chunks (drop ?n ?d) ?t = ScanComplete"
      unfolding scan_step(4) [OF chunk] by (auto split: if_splits)
    from "1.IH" [OF chunk(1) chunk(2) [symmetric] refl refl chunk(3) refl c rec]
    have "scan_chunks (drop ?n (?d @ s)) ?t = ScanComplete" using c by simp
    then show ?thesis
      using c scan_step(4) [OF f, unfolded line rest, OF chunk(2,3)] by simp
  qed (use "1.prems" in \<open>simp_all add: scan_step\<close>)
qed

lemma memmove_extend: "memmove b i j n = Some b' \<Longrightarrow> memmove (b @ s) i j n = Some (b' @ s)"
  by (auto simp: memmove_def split: if_splits)

lemma compact_chunks_extend:
  "compact_chunks b cur out = Some (b', cur', out') \<Longrightarrow>
     compact_chunks (b @ s) cur out = Some (b' @ s, cur', out')"
proof (induction b cur out rule: compact_chunks.induct)
  case (1 b cur out)
  let ?d = "drop cur b"
  from "1.prems" obtain eol where f: "find_sub crlf ?d = Some eol"
    by (auto simp: compact_chunks.simps [of b cur out] split: option.splits)
  obtain ok sz where sz: "parse_chunk_size (take eol ?d) 0 = (ok, sz)" by fastforce
  from find_sub_bound [OF f] have eb: "eol + 2 \<le> length ?d" by simp
  then have cur: "drop cur (b @ s) = ?d @ s" by simp
  have f': "find_sub crlf (drop cur (b @ s)) = Some eol" unfolding cur by (rule find_sub_append [OF f])
  have sz': "parse_chunk_size (take eol (drop cur (b @ s))) 0 = (ok, sz)" using sz eb cur by simp
  have rest: "drop (cur + (eol + 2)) (b @ s) = drop (cur + (eol + 2)) b @ s" using eb by simp
  show ?case
  proof (cases "sz = 0")
    case True
    from "1.prems" sz obtain n where "skip_trailers (drop (cur + (eol + 2)) b) = Some n"
      "b' = b" "cur' = cur + (eol + 2) + n" "out' = out"
      by (auto simp: compact_step(1) [OF f] True)
    with skip_trailers_extend [of "drop (cur + (eol + 2)) b" n s] show ?thesis
      by (simp only: compact_step(1) [OF f' sz' [unfolded True]] rest option.map)
  next
    case False
    from "1.prems" obtain b1 where mm: "memmove b out (cur + (eol + 2)) sz = Some b1"
      and rec: "compact_chunks b1 (cur + (eol + 2) + size_t_wrap (sz + 2)) (out + sz) = Some (b', cur', out')"
      by (auto simp: compact_step(2) [OF f sz False] split: option.splits)
    from "1.IH" [OF f refl refl, unfolded sz snd_conv, OF False mm rec] show ?thesis
      by (simp only: compact_step(2) [OF f' sz' False] memmove_extend [OF mm] option.case)
  qed
qed

lemma compact_chunks_out:
  "compact_chunks b cur out = Some (b', cur', out') \<Longrightarrow> out \<le> length b \<Longrightarrow> out' \<le> length b"
proof (induction b cur out rule: compact_chunks.induct)
  case (1 b cur out)
  from "1.prems" obtain eol where f: "find_sub crlf (drop cur b) = Some eol"
    by (auto simp: compact_chunks.simps [of b cur out] split: option.splits)
  obtain ok sz where sz: "parse_chunk_size (take eol (drop cur b)) 0 = (ok, sz)" by fastforce
  show ?case
  proof (cases "sz = 0")
    case True
    with "1.prems" show ?thesis by (auto simp: compact_step(1) [OF f sz [unfolded True]])
  next
    case False
    from "1.prems" obtain b1 where mm: "memmove b out (cur + (eol + 2)) sz = Some b1"
      and rec: "compact_chunks b1 (cur + (eol + 2) + size_t_wrap (sz + 2)) (out + sz) = Some (b', cur', out')"
      by (auto simp: compact_step(2) [OF f sz False] split: option.splits)
    have "out + sz \<le> length b1" using mm memmove_length [OF mm] by (auto simp: memmove_def split: if_splits)
    from "1.IH" [OF f refl refl, unfolded sz snd_conv, OF False mm rec this] memmove_length [OF mm]
    show ?thesis by simp
  qed
qed

lemma parse_chunked_body_extend:
  assumes "parse_chunked_body p d r = Some (True, p', d', n, r')"
  shows "parse_chunked_body p (d @ s) r = Some (True, p', d' @ s, n, r')"
proof -
  from assms obtain out where sc: "scan_chunks d 0 = ScanComplete" and
    c: "compact_chunks d 0 0 = Some (d', n, out)" and
    res: "p' = p\<lparr>ps_state := COMPLETE\<rparr>" "r' = r\<lparr>rq_body := take out d'\<rparr>"
    by (auto simp: parse_chunked_body_def split: chunk_scan.splits option.splits)
  have "out \<le> length d'" using compact_chunks_out [OF c] compact_chunks_bound [OF c] by simp
  with res show ?thesis
    by (simp add: parse_chunked_body_def scan_chunks_extend [OF sc] compact_chunks_extend [OF c])
qed

lemma parse_body_extend:
  "parse_body p d r = Some (True, p', d', n, r') \<Longrightarrow>
     parse_body p (d @ s) r = Some (True, p', d' @ s, n, r')"
  by (auto simp: parse_body_def parse_chunked_body_extend split: if_splits)

lemma parse_step_extend:
  assumes "parse_step p buf pos r = Some (True, p', buf', pos', r')" "pos \<le> length buf"
  shows "parse_step p (buf @ s) pos r = Some (True, p', buf' @ s, pos', r')"
proof (cases "ps_state p")
  case REQUEST_LINE
  with assms(1) obtain d' where d': "parse_request_line p (drop pos buf) r = (True, p', d', r')"
    "buf' = buf" "pos' = length buf - length d'"
    by (auto simp: parse_step_def split: prod.splits)
  have "length d' \<le> length buf" using parse_request_line_data [OF d'(1)] by auto
  with REQUEST_LINE d' assms(2) parse_request_line_extend [OF d'(1), of s] show ?thesis
    by (simp add: parse_step_def)
next
  case HEADERS
  with assms(1) obtain d' where d': "parse_headers p (drop pos buf) r = (True, p', d', r')"
    "buf' = buf" "pos' = length buf - length d'"
    by (auto simp: parse_step_def split: prod.splits)
  have "length d' \<le> length buf" using parse_headers_data [OF d'(1)] by auto
  with HEADERS d' assms(2) parse_headers_extend [OF d'(1), of s] show ?thesis
    by (simp add: parse_step_def)
next
  case BODY
  with assms(1) obtain d' n where d': "parse_body p (drop pos buf) r = Some (True, p', d', n, r')"
    "buf' = take pos buf @ d'" "pos' = pos + n"
    by (auto simp: parse_step_def split: prod.splits option.splits)
  with BODY assms(2) parse_body_extend [OF d'(1), of s] show ?thesis
    by (simp add: parse_step_def)
qed (use assms in \<open>auto simp: parse_step_def\<close>)

text \<open>
  A step that consumes input without finishing its part (a header block cut after some of its
  lines) ends the call without a request: the rest holds no further line.
\<close>

lemma parse_loop_unfinished_step:
  assumes "parse_step p buf pos r = Some (False, p', buf', pos', r')" "pos < length buf"
    "ps_state p' \<noteq> ERROR" "pos' \<noteq> pos"
  shows "buf' = buf \<and> (\<exists>res. parse_loop p' buf' pos' r' = Some res \<and> \<not> pr_ok res \<and>
    ps_state (pr_parser res) = HEADERS \<and> pr_buffer res = buf)"
proof -
  have H: "ps_state p = HEADERS"
    using assms
    by (cases "ps_state p")
      (auto simp: parse_step_def parser_error_def split: prod.splits option.splits
        dest!: parse_request_line_data parse_body_data)
  with assms obtain d' where d': "parse_headers p (drop pos buf) r = (False, p', d', r')"
    "buf' = buf" "pos' = length buf - length d'"
    by (auto simp: parse_step_def split: prod.splits)
  from parse_headers_data [OF d'(1)] assms(3) have
    p': "p' = p" and no: "find_sub crlf d' = None" and
    len: "length d' \<le> length buf - pos" and suf: "d' = drop (length (drop pos buf) - length d') (drop pos buf)"
    by auto
  have "length buf - pos - length d' + pos = pos'" using d'(3) len assms(2) by simp
  then have "drop pos' buf = d'" using suf by (metis drop_drop length_drop)
  then have "parse_step p' buf pos' r' = Some (False, p', buf, pos', r')"
    using H p' no d'(3) len assms(2) by (simp add: parse_step_def parse_headers.simps [of p d'])
  then show ?thesis
    using H p' d'(2) by (simp add: parse_loop.simps [of p buf])
qed

lemma parse_loop_extend:
  "parse_loop p buf pos r = Some res \<Longrightarrow> pr_ok res \<Longrightarrow>
     parse_loop p (buf @ s) pos r = Some (res\<lparr>pr_buffer := pr_buffer res @ s\<rparr>)"
proof (induction p buf pos r rule: parse_loop.induct)
  case (1 p buf pos r)
  show ?case
  proof (cases "ps_state p = COMPLETE \<or> ps_state p = ERROR \<or> length buf \<le> pos")
    case True
    with "1.prems" show ?thesis
      by (auto simp: parse_loop.simps [of p buf] parse_loop.simps [of p "buf @ s"])
  next
    case False
    with "1.prems"(1) obtain ok p' buf' pos' r' where
      st: "parse_step p buf pos r = Some (ok, p', buf', pos', r')"
      by (auto simp: parse_loop.simps [of p buf] split: option.splits)
    have ne: "ps_state p' \<noteq> ERROR" and np: "\<not> (\<not> ok \<and> pos' = pos)"
      using "1.prems" False st by (auto simp: parse_loop.simps [of p buf] split: if_splits)
    with "1.prems"(1) False st have rec: "parse_loop p' buf' pos' r' = Some res"
      by (auto simp: parse_loop.simps [of p buf])
    have ok: "ok = True"
      using parse_loop_unfinished_step [of p buf pos r p' buf' pos' r'] st False ne np rec "1.prems"(2)
      by auto
    have "parse_step p (buf @ s) pos r = Some (True, p', buf' @ s, pos', r')"
      using parse_step_extend [OF st [unfolded ok]] False by simp
    moreover have "parse_loop p' (buf' @ s) pos' r' = Some (res\<lparr>pr_buffer := pr_buffer res @ s\<rparr>)"
      using "1.IH" [OF False st refl refl refl refl ne np rec "1.prems"(2)] .
    ultimately show ?thesis
      using False ne by (simp add: parse_loop.simps [of p "buf @ s"])
  qed
qed

section \<open>The three phases\<close>

lemma end_of_headers_cases:
  "end_of_headers p r = (True, p') \<Longrightarrow>
     (ps_is_chunked p' \<and> ps_state p' = BODY \<and> header r ''Content-Length'' = None \<and>
        (\<exists>te. header r ''Transfer-Encoding'' = Some te \<and> contains_sub ''chunked'' te)) \<or>
     (ps_is_chunked p' = ps_is_chunked p \<and>
        (\<forall>te. header r ''Transfer-Encoding'' = Some te \<longrightarrow> \<not> contains_sub ''chunked'' te) \<and>
        ps_state p' = (if 0 < ps_body_expected_length p' then BODY else COMPLETE) \<and>
        (case header r ''Content-Length'' of
           None \<Rightarrow> ps_body_expected_length p' = ps_body_expected_length p
         | Some v \<Rightarrow> stoul v = Some (ps_body_expected_length p') \<and>
                      ps_body_expected_length p' \<le> MAX_BODY_BYTES))"
  by (auto simp: end_of_headers_def Let_def split: option.splits if_splits)

lemma parse_headers_end:
  "parse_headers p d r = (True, p', d', r') \<Longrightarrow> end_of_headers p r' = (True, p')"
proof (induction p d r rule: parse_headers.induct)
  case (1 p d r)
  show ?case
  proof (cases "find_sub crlf d")
    case None
    with "1.prems" show ?thesis by (simp add: parse_headers.simps [of p d r])
  next
    case (Some eol)
    let ?line = "take eol d"
    show ?thesis
    proof (cases "?line = [] \<or> find_sub '':'' ?line = None")
      case True
      with "1.prems" Some show ?thesis
        unfolding parse_headers.simps [of p d r] Some option.case Let_def
        by (auto split: prod.splits option.splits if_splits)
    next
      case False
      then obtain c where c: "find_sub '':'' ?line = Some c" and ne: "?line \<noteq> []" by auto
      let ?r = "r\<lparr>rq_headers := (rq_headers r)(take c ?line \<mapsto>
                  dropWhile isspace (drop (c + 1) ?line))\<rparr>"
      from "1.prems" Some ne c have "parse_headers p (drop (eol + 2) d) ?r = (True, p', d', r')"
        by (simp add: parse_headers.simps [of p d r] Let_def)
      from "1.IH" [OF Some refl refl ne c refl refl this] show ?thesis .
    qed
  qed
qed

lemma contains_sub_drop: "find_sub p (drop k s) \<noteq> None \<Longrightarrow> find_sub p s \<noteq> None"
  by (metis drop_drop find_sub_None find_sub_SomeD not_None_eq)

lemma parse_headers_blank_line:
  "parse_headers p d r = (True, p', d', r') \<Longrightarrow> find_sub (crlf @ crlf) (crlf @ d) \<noteq> None"
proof (induction p d r rule: parse_headers.induct)
  case (1 p d r)
  show ?case
  proof (cases "find_sub crlf d")
    case None
    with "1.prems" show ?thesis by (simp add: parse_headers.simps [of p d r])
  next
    case (Some eol)
    let ?line = "take eol d"
    have d: "d = ?line @ crlf @ drop (eol + 2) d" using find_sub_split [OF Some] by simp
    show ?thesis
    proof (cases "?line = []")
      case True
      with d have "d = crlf @ drop (eol + 2) d" by (metis append_Nil)
      then have "starts_with crlf d" by (metis starts_with_append)
      then show ?thesis by (simp add: find_sub_starts)
    next
      case ne: False
      with "1.prems" Some obtain c where c: "find_sub '':'' ?line = Some c"
        by (auto simp: parse_headers.simps [of p d r] Let_def split: option.splits)
      let ?r = "r\<lparr>rq_headers := (rq_headers r)(take c ?line \<mapsto>
                  dropWhile isspace (drop (c + 1) ?line))\<rparr>"
      from "1.prems" Some ne c have "parse_headers p (drop (eol + 2) d) ?r = (True, p', d', r')"
        by (simp add: parse_headers.simps [of p d r] Let_def)
      from "1.IH" [OF Some refl refl ne c refl refl this]
      have ih: "find_sub (crlf @ crlf) (crlf @ drop (eol + 2) d) \<noteq> None" .
      have "drop (2 + length ?line) (crlf @ d) = crlf @ drop (eol + 2) d"
        by (subst d) simp
      with ih contains_sub_drop [of "crlf @ crlf" "2 + length ?line" "crlf @ d"]
      show ?thesis by simp
    qed
  qed
qed

text \<open>
  A complete request is a request line, a header block and, where the headers announce one, a
  body: the loop runs each phase once.
\<close>

definition complete_parse ::
  "http_parser \<Rightarrow> string \<Rightarrow> http_request \<Rightarrow> parse_result \<Rightarrow> bool" where
  "complete_parse p buf r res \<longleftrightarrow>
     (\<exists>p1 d1 r1 p2 d2 r2.
        parse_request_line p buf r = (True, p1, d1, r1) \<and>
        parse_headers p1 d1 r1 = (True, p2, d2, r2) \<and>
        (if ps_state p2 = COMPLETE
         then res = \<lparr>pr_ok = True, pr_consumed = length buf - length d2, pr_parser = p2,
                     pr_buffer = buf, pr_request = r2\<rparr>
         else \<exists>p3 d3 n r3. parse_body p2 d2 r2 = Some (True, p3, d3, n, r3) \<and>
                res = \<lparr>pr_ok = True, pr_consumed = length buf - length d2 + n, pr_parser = p3,
                       pr_buffer = take (length buf - length d2) buf @ d3, pr_request = r3\<rparr>))"

lemma parse_request_line_nonempty: "parse_request_line p [] r = (ok, p', d', r') \<Longrightarrow> \<not> ok"
  by (simp add: parse_request_line_def)

lemma parse_headers_nonempty: "parse_headers p [] r = (ok, p', d', r') \<Longrightarrow> \<not> ok"
  by (simp add: parse_headers.simps [of p "[]"])

lemma parse_body_nonempty:
  "parse_body p [] r = Some (ok, p', d', n, r') \<Longrightarrow>
     ps_is_chunked p \<or> 0 < ps_body_expected_length p \<Longrightarrow> \<not> ok"
  by (auto simp: parse_body_def parse_chunked_body_def scan_step(1) split: if_splits)

lemma parse_request_line_suffix:
  assumes "parse_request_line p buf r = (True, p1, d1, r1)"
  shows "ps_state p1 = HEADERS" "d1 = drop (length buf - length d1) buf" "length d1 \<le> length buf"
    "d1 \<noteq> buf"
proof -
  from parse_request_line_data [OF assms] obtain eol where
    d1: "d1 = drop (eol + 2) buf" and le: "length d1 + 2 \<le> length buf" and s: "ps_state p1 = HEADERS"
    by auto
  show "d1 = drop (length buf - length d1) buf" by (rule suffix_drop [OF d1])
  show "ps_state p1 = HEADERS" "length d1 \<le> length buf" "d1 \<noteq> buf" using s le by auto
qed

lemma parse_headers_suffix:
  assumes "parse_headers p1 d1 r1 = (True, p2, d2, r2)" "d1 = drop (length buf - length d1) buf"
    "length d1 \<le> length buf"
  shows "ps_state p2 = BODY \<or> ps_state p2 = COMPLETE"
    "d2 = drop (length buf - length d2) buf" "length d2 \<le> length buf" "length d2 < length d1"
proof -
  note hd = parse_headers_data [OF assms(1)]
  have "d2 = drop (length d1 - length d2) (drop (length buf - length d1) buf)"
    using hd assms(2) by metis
  then show "d2 = drop (length buf - length d2) buf"
    by (intro suffix_drop) (simp only: drop_drop)
  show "ps_state p2 = BODY \<or> ps_state p2 = COMPLETE" "length d2 \<le> length buf" "length d2 < length d1"
    using hd assms(3) by auto
qed

lemma parse_headers_body:
  assumes "parse_headers p1 d1 r1 = (True, p2, d2, r2)" "ps_state p2 = BODY"
  shows "ps_is_chunked p2 \<or> 0 < ps_body_expected_length p2"
  using end_of_headers_cases [OF parse_headers_end [OF assms(1)]] assms(2)
  by (auto split: if_splits)

text \<open>A loop that ends with a request takes a successful step while the request is not complete.\<close>

lemma parse_loop_advance:
  assumes "parse_loop p buf pos r = Some res" "pr_ok res" "ps_state p \<noteq> COMPLETE"
  shows "\<exists>p' buf' pos' r'. parse_step p buf pos r = Some (True, p', buf', pos', r') \<and>
     parse_loop p' buf' pos' r' = Some res"
proof -
  from assms have c: "\<not> (ps_state p = COMPLETE \<or> ps_state p = ERROR \<or> length buf \<le> pos)"
    by (auto simp: parse_loop.simps [of p buf pos r])
  with assms(1) obtain ok' p' buf' pos' r' where
    st: "parse_step p buf pos r = Some (ok', p', buf', pos', r')"
    by (auto simp: parse_loop.simps [of p buf] split: option.splits)
  have ne: "ps_state p' \<noteq> ERROR" and np: "\<not> (\<not> ok' \<and> pos' = pos)"
    using assms(1,2) c st by (auto simp: parse_loop.simps [of p buf] split: if_splits)
  with assms(1) c st have rec: "parse_loop p' buf' pos' r' = Some res"
    by (auto simp: parse_loop.simps [of p buf])
  have "ok' = True"
    using parse_loop_unfinished_step [of p buf pos r p' buf' pos' r'] st c ne np rec assms(2) by auto
  with st rec show ?thesis by auto
qed

lemma parse_request_completes:
  assumes "ps_state p = REQUEST_LINE" "parse_request p buf r = Some res" "pr_ok res"
  shows "header_span buf \<le> MAX_HEADER_BYTES" "complete_parse p buf r res"
proof -
  show "header_span buf \<le> MAX_HEADER_BYTES" using assms by (auto simp: parse_request_def split: if_splits)
  have lp: "parse_loop p buf 0 r = Some res" using assms by (auto simp: parse_request_def split: if_splits)
  from parse_loop_advance [OF lp assms(3)] assms(1) obtain p1 d1 r1 where
    rl: "parse_request_line p buf r = (True, p1, d1, r1)" and
    lp1: "parse_loop p1 buf (length buf - length d1) r1 = Some res"
    by (auto simp: parse_step_def split: prod.splits)
  have s1: "ps_state p1 = HEADERS" and d1: "d1 = drop (length buf - length d1) buf" "length d1 \<le> length buf"
    using parse_request_line_suffix [OF rl] by simp_all
  from parse_loop_advance [OF lp1 assms(3)] s1 d1 obtain p2 d2 r2 where
    hd: "parse_headers p1 d1 r1 = (True, p2, d2, r2)" and
    lp2: "parse_loop p2 buf (length buf - length d2) r2 = Some res"
    by (auto simp: parse_step_def split: prod.splits)
  have s2: "ps_state p2 = BODY \<or> ps_state p2 = COMPLETE" and
    d2: "d2 = drop (length buf - length d2) buf" "length d2 \<le> length buf"
    using parse_headers_suffix [OF hd d1] by simp_all
  show "complete_parse p buf r res"
  proof (cases "ps_state p2 = COMPLETE")
    case True
    with lp2 have "res = \<lparr>pr_ok = True, pr_consumed = length buf - length d2, pr_parser = p2,
        pr_buffer = buf, pr_request = r2\<rparr>"
      by (simp add: parse_loop.simps [of p2])
    with rl hd True show ?thesis unfolding complete_parse_def by auto
  next
    case False
    from parse_loop_advance [OF lp2 assms(3) False] s2 d2 False obtain p3 d3 n r3 where
      bd: "parse_body p2 d2 r2 = Some (True, p3, d3, n, r3)" and
      lp3: "parse_loop p3 (take (length buf - length d2) buf @ d3) (length buf - length d2 + n) r3 = Some res"
      by (auto simp: parse_step_def split: prod.splits option.splits)
    from parse_body_data [OF bd] lp3 have "res = \<lparr>pr_ok = True,
        pr_consumed = length buf - length d2 + n, pr_parser = p3,
        pr_buffer = take (length buf - length d2) buf @ d3, pr_request = r3\<rparr>"
      by (simp add: parse_loop.simps [of p3])
    with rl hd False bd show ?thesis unfolding complete_parse_def by auto
  qed
qed

text \<open>The loop reaches the end of the headers in two steps.\<close>

lemma parse_loop_headers:
  assumes "ps_state p = REQUEST_LINE" "parse_request_line p buf r = (True, p1, d1, r1)"
    "parse_headers p1 d1 r1 = (True, p2, d2, r2)"
  shows "parse_loop p buf 0 r = parse_loop p2 buf (length buf - length d2) r2"
proof -
  note d1 = parse_request_line_suffix [OF assms(2)]
  note d2 = parse_headers_suffix [OF assms(3) d1(2,3)]
  have ne: "buf \<noteq> []" using d1 d2(4) by auto
  have st1: "parse_step p buf 0 r = Some (True, p1, buf, length buf - length d1, r1)"
    using assms(1,2) by (simp add: parse_step_def)
  have st2: "parse_step p1 buf (length buf - length d1) r1 =
      Some (True, p2, buf, length buf - length d2, r2)"
    using d1(1,2) assms(3) by (simp add: parse_step_def)
  have lt1: "length buf - length d1 < length buf" using d1(3) d2(4) by simp
  have e2: "ps_state p2 \<noteq> ERROR" using d2(1) by auto
  have "parse_loop p buf 0 r = parse_loop p1 buf (length buf - length d1) r1"
    using assms(1) ne st1 d1(1) by (simp add: parse_loop.simps [of p])
  also have "\<dots> = parse_loop p2 buf (length buf - length d2) r2"
    using lt1 st2 d1(1) e2 by (simp add: parse_loop.simps [of p1])
  finally show ?thesis .
qed

lemma complete_parse_request:
  assumes "ps_state p = REQUEST_LINE" "header_span buf \<le> MAX_HEADER_BYTES" "complete_parse p buf r res"
  shows "parse_request p buf r = Some res \<and> pr_ok res"
proof -
  from assms(3) obtain p1 d1 r1 p2 d2 r2 where
    rl: "parse_request_line p buf r = (True, p1, d1, r1)" and
    hd: "parse_headers p1 d1 r1 = (True, p2, d2, r2)" and
    fin: "if ps_state p2 = COMPLETE
         then res = \<lparr>pr_ok = True, pr_consumed = length buf - length d2, pr_parser = p2,
                     pr_buffer = buf, pr_request = r2\<rparr>
         else \<exists>p3 d3 n r3. parse_body p2 d2 r2 = Some (True, p3, d3, n, r3) \<and>
                res = \<lparr>pr_ok = True, pr_consumed = length buf - length d2 + n, pr_parser = p3,
                       pr_buffer = take (length buf - length d2) buf @ d3, pr_request = r3\<rparr>"
    unfolding complete_parse_def by auto
  note d2 = parse_headers_suffix [OF hd parse_request_line_suffix(2,3) [OF rl]]
  have lp: "parse_request p buf r = parse_loop p2 buf (length buf - length d2) r2"
    using assms(1,2) parse_loop_headers [OF assms(1) rl hd] by (simp add: parse_request_def)
  show ?thesis
  proof (cases "ps_state p2 = COMPLETE")
    case True
    with fin lp show ?thesis by (simp add: parse_loop.simps [of p2])
  next
    case False
    with d2(1) have b: "ps_state p2 = BODY" by simp
    from fin False obtain p3 d3 n r3 where bd: "parse_body p2 d2 r2 = Some (True, p3, d3, n, r3)" and
      res: "res = \<lparr>pr_ok = True, pr_consumed = length buf - length d2 + n, pr_parser = p3,
                       pr_buffer = take (length buf - length d2) buf @ d3, pr_request = r3\<rparr>"
      by auto
    have s3: "ps_state p3 = COMPLETE" using parse_body_data [OF bd] by simp
    have "d2 \<noteq> []" using parse_body_nonempty [OF _ parse_headers_body [OF hd b]] bd by blast
    then have lt2: "length buf - length d2 < length buf" using d2(3) by (cases d2) auto
    have "parse_step p2 buf (length buf - length d2) r2 =
        Some (True, p3, take (length buf - length d2) buf @ d3, length buf - length d2 + n, r3)"
      using d2(2) b bd by (simp add: parse_step_def)
    with lp lt2 b s3 res show ?thesis
      by (simp add: parse_loop.simps [of p2] parse_loop.simps [of p3])
  qed
qed

lemma parse_request_complete:
  assumes "ps_state p = REQUEST_LINE"
  shows "(parse_request p buf r = Some res \<and> pr_ok res) \<longleftrightarrow>
     header_span buf \<le> MAX_HEADER_BYTES \<and> complete_parse p buf r res"
  using parse_request_completes [OF assms] complete_parse_request [OF assms] by blast

section \<open>The decoder accepts what the specification decodes\<close>

lemma dechunk_scan:
  assumes "dechunk d = Some (b, n)" "t + length b \<le> MAX_BODY_BYTES" "length d < 2 ^ 63"
  shows "scan_chunks d t = ScanComplete"
  using assms
proof (induction d t arbitrary: b n rule: scan_chunks.induct)
  case (1 d t)
  show ?case
  proof (cases rule: chunk_header_cases [of d])
    case (last eol)
    with "1.prems" show ?thesis by (auto simp: dechunk_step(3) scan_step(3))
  next
    case (chunk eol sz)
    let ?d1 = "drop (eol + 2) d"
    from "1.prems"(1) obtain b1 n1 where
      rec: "dechunk (drop (sz + 2) ?d1) = Some (b1, n1)" and len: "sz + 2 \<le> length ?d1" and
      b: "b = take sz ?d1 @ b1"
      unfolding dechunk_step(4) [OF chunk] by (auto split: if_splits)
    have tb: "t + sz + length b1 \<le> MAX_BODY_BYTES" using b len "1.prems"(2) by simp
    have w: "size_t_wrap (sz + 2) = sz + 2" "size_t_wrap (t + sz) = t + sz"
      using len tb "1.prems"(3) by (simp_all add: MAX_BODY_BYTES_def)
    have "scan_chunks (drop (sz + 2) ?d1) (t + sz) = ScanComplete"
      using "1.IH" [OF chunk(1) chunk(2) [symmetric] refl refl chunk(3) refl] tb rec len "1.prems"(3)
      unfolding w by simp
    then show ?thesis unfolding scan_step(4) [OF chunk] w using len tb by simp
  qed (use "1.prems" in \<open>simp_all add: dechunk_step\<close>)
qed

lemma dechunk_bound: "dechunk d = Some (b, n) \<Longrightarrow> n \<le> length d"
proof (induction d arbitrary: b n rule: dechunk.induct)
  case (1 d)
  show ?case
  proof (cases rule: chunk_header_cases [of d])
    case (last eol)
    with "1.prems" skip_trailers_bound [of "drop (eol + 2) d"] find_sub_bound [OF last(1)]
    show ?thesis by (auto simp: dechunk_step(3) dest!: skip_trailers_bound)
  next
    case (chunk eol sz)
    from "1.prems" obtain b1 n1 where
      rec: "dechunk (drop (sz + 2) (drop (eol + 2) d)) = Some (b1, n1)" and
      len: "\<not> length (drop (eol + 2) d) < sz + 2" and n: "n = eol + 2 + (sz + 2) + n1"
      unfolding dechunk_step(4) [OF chunk] by (auto split: if_splits)
    from "1.IH" [OF chunk(1) chunk(2) [symmetric] refl refl chunk(3) len rec] len n show ?thesis by simp
  qed (use "1.prems" in \<open>simp_all add: dechunk_step\<close>)
qed

lemma parse_chunked_body_ok:
  assumes "parse_chunked_body p d r = Some (True, p', d', n, r')" "length d < 2 ^ 63"
  shows "dechunk d = Some (rq_body r', n)" "length (rq_body r') \<le> MAX_BODY_BYTES"
    "drop n d' = drop n d" "length d' = length d" "n \<le> length d" "r' = r\<lparr>rq_body := rq_body r'\<rparr>"
proof -
  have sc: "scan_chunks d 0 = ScanComplete"
    using assms(1) by (auto simp: parse_chunked_body_def split: chunk_scan.splits)
  from parse_chunked_body_complete [OF sc assms(2), of p r] assms(1)
  obtain b where "dechunk d = Some (b, n)" "r' = r\<lparr>rq_body := b\<rparr>" "length b \<le> MAX_BODY_BYTES"
    "drop n d' = drop n d" "length d' = length d"
    by (auto split: option.splits)
  then show "dechunk d = Some (rq_body r', n)" "length (rq_body r') \<le> MAX_BODY_BYTES"
    "drop n d' = drop n d" "length d' = length d" "n \<le> length d" "r' = r\<lparr>rq_body := rq_body r'\<rparr>"
    by (auto dest: dechunk_bound)
qed

section \<open>Rendering a request\<close>

definition render_headers :: "(string \<times> string) list \<Rightarrow> string" where
  "render_headers hs = concat (map (\<lambda>(k, v). k @ '': '' @ v @ crlf) hs)"

definition valid_header :: "string \<times> string \<Rightarrow> bool" where
  "valid_header h \<longleftrightarrow> CR \<notin> set (fst h) \<and> CHR '':'' \<notin> set (fst h) \<and> CR \<notin> set (snd h) \<and>
     (snd h = [] \<or> \<not> isspace (hd (snd h)))"

definition add_headers :: "(string \<times> string) list \<Rightarrow> http_request \<Rightarrow> http_request" where
  "add_headers hs r = r\<lparr>rq_headers := rq_headers r ++ map_of (rev hs)\<rparr>"

lemma add_headers_Nil [simp]: "add_headers [] r = r"
  by (simp add: add_headers_def)

lemma add_headers_Cons:
  "add_headers (h # hs) r = add_headers hs (r\<lparr>rq_headers := (rq_headers r)(fst h \<mapsto> snd h)\<rparr>)"
  by (cases h) (simp add: add_headers_def map_add_def fun_eq_iff split: option.splits)

lemma parse_headers_render:
  "\<forall>h \<in> set hs. valid_header h \<Longrightarrow>
     parse_headers p (render_headers hs @ crlf @ rest) r =
       (case end_of_headers p (add_headers hs r) of
          (ok, p') \<Rightarrow> (ok, p', rest, add_headers hs r))"
proof (induction hs arbitrary: r)
  case Nil
  have "find_sub crlf (crlf @ rest) = Some 0" by (simp add: find_sub_starts)
  then show ?case by (simp add: render_headers_def parse_headers.simps [of p "CR # _"] del: find_sub.simps)
next
  case (Cons h hs)
  obtain k v where h: "h = (k, v)" by (cases h)
  let ?line = "k @ '': '' @ v" and ?tail = "render_headers hs @ crlf @ rest"
  have v: "CR \<notin> set k" "CHR '':'' \<notin> set k" "CR \<notin> set v" "v = [] \<or> \<not> isspace (hd v)"
    using Cons.prems h by (auto simp: valid_header_def)
  then have nocr: "CR \<notin> set ?line" by simp
  have d: "render_headers (h # hs) @ crlf @ rest = ?line @ crlf @ ?tail"
    by (simp add: render_headers_def h)
  have c: "find_sub '':'' ?line = Some (length k)"
    using find_sub_here [OF v(2), of "[]" "'' '' @ v"] by simp
  have val: "dropWhile isspace (drop (length k + 1) ?line) = v"
    using v(4) by (cases v) (auto simp: isspace_def)
  have "parse_headers p (?line @ crlf @ ?tail) r =
      parse_headers p ?tail (r\<lparr>rq_headers := (rq_headers r)(k \<mapsto> v)\<rparr>)"
    unfolding parse_headers.simps [of p "?line @ crlf @ ?tail"] split_line(1) [OF nocr]
      option.case Let_def split_line(2,3) c val
    by simp
  then show ?case
    unfolding d using Cons.IH [of "r\<lparr>rq_headers := (rq_headers r)(k \<mapsto> v)\<rparr>"] Cons.prems
    by (simp add: add_headers_Cons h)
qed

lemma method_of_string_print: "m \<noteq> UNKNOWN \<Longrightarrow> method_of_string (http_method_to_string m) = m"
  by (cases m) (simp_all add: method_of_string_def)

lemma method_no_delim: "CHR '' '' \<notin> set (http_method_to_string m)" "CR \<notin> set (http_method_to_string m)"
  by (cases m; simp)+

lemma parse_request_line_render:
  assumes "m \<noteq> UNKNOWN" "CHR '' '' \<notin> set target" "CR \<notin> set target" "CR \<notin> set version"
  shows "parse_request_line p (http_method_to_string m @ '' '' @ target @ '' '' @ version @ crlf @ rest) r =
     (True, p\<lparr>ps_state := HEADERS\<rparr>, rest,
      parse_query_parameters target (r\<lparr>rq_version := version, rq_method := m\<rparr>))"
proof -
  let ?m = "http_method_to_string m"
  let ?line = "?m @ '' '' @ target @ '' '' @ version"
  have nocr: "CR \<notin> set ?line" using assms method_no_delim by simp
  have s1: "find_sub '' '' ?line = Some (length ?m)"
    using find_sub_here [OF method_no_delim(1), of "[]" m "target @ '' '' @ version"] by simp
  have s2: "find_from '' '' ?line (length ?m + 1) = Some (length ?m + 1 + length target)"
    using find_sub_here [OF assms(2), of "[]" version] by (simp add: find_from_def)
  have "parse_request_line p (?line @ crlf @ rest) r =
     (True, p\<lparr>ps_state := HEADERS\<rparr>, rest,
      parse_query_parameters target (r\<lparr>rq_version := version, rq_method := m\<rparr>))"
    unfolding parse_request_line_def split_line(1) [OF nocr] option.case Let_def split_line(2,3)
    using s1 s2 method_of_string_print [OF assms(1)] assms(1) by (simp add: substr_def)
  then show ?thesis by simp
qed

end
