(* ===== verification/Http_Parser_Props.thy ===== *)
theory Http_Parser_Props
  imports Http_Parser_Correct
begin

text \<open>
  The properties of the request parser: stability under appended bytes, the decoding in place,
  the limits, the framing rules and the round trips, with the inputs on which the code leaves its
  contract.
\<close>

lemma complete_parse_extend:
  assumes "complete_parse p buf r res"
  shows "complete_parse p (buf @ s) r (res\<lparr>pr_buffer := pr_buffer res @ s\<rparr>)"
proof -
  from assms obtain p1 d1 r1 p2 d2 r2 where
    rl: "parse_request_line p buf r = (True, p1, d1, r1)" and
    hd: "parse_headers p1 d1 r1 = (True, p2, d2, r2)" and
    fin: "if ps_state p2 = COMPLETE
         then res = \<lparr>pr_ok = True, pr_consumed = length buf - length d2, pr_parser = p2,
                     pr_buffer = buf, pr_request = r2\<rparr>
         else \<exists>p3 d3 n r3. parse_body p2 d2 r2 = Some (True, p3, d3, n, r3) \<and>
                res = \<lparr>pr_ok = True, pr_consumed = length buf - length d2 + n, pr_parser = p3,
                       pr_buffer = take (length buf - length d2) buf @ d3, pr_request = r3\<rparr>"
    unfolding complete_parse_def by auto
  note d1 = parse_request_line_suffix [OF rl]
  note d2 = parse_headers_suffix [OF hd d1(2,3)]
  note rl' = parse_request_line_extend [OF rl, of s] and hd' = parse_headers_extend [OF hd, of s]
  have len: "length (buf @ s) - length (d2 @ s) = length buf - length d2" by simp
  show ?thesis
  proof (cases "ps_state p2 = COMPLETE")
    case True
    with fin have "res = \<lparr>pr_ok = True, pr_consumed = length buf - length d2, pr_parser = p2,
                     pr_buffer = buf, pr_request = r2\<rparr>" by simp
    then show ?thesis unfolding complete_parse_def using rl' hd' True len by fastforce
  next
    case False
    with fin obtain p3 d3 n r3 where bd: "parse_body p2 d2 r2 = Some (True, p3, d3, n, r3)" and
      res: "res = \<lparr>pr_ok = True, pr_consumed = length buf - length d2 + n, pr_parser = p3,
                       pr_buffer = take (length buf - length d2) buf @ d3, pr_request = r3\<rparr>"
      by auto
    have "take (length buf - length d2) (buf @ s) = take (length buf - length d2) buf" by simp
    with parse_body_extend [OF bd, of s] res False rl' hd' len show ?thesis
      unfolding complete_parse_def by fastforce
  qed
qed

lemma complete_parse_header_span:
  assumes "complete_parse p buf r res"
  shows "find_sub (crlf @ crlf) buf \<noteq> None"
proof -
  from assms obtain p1 d1 r1 p2 d2 r2 where
    rl: "parse_request_line p buf r = (True, p1, d1, r1)" and
    hd: "parse_headers p1 d1 r1 = (True, p2, d2, r2)"
    unfolding complete_parse_def by auto
  from parse_request_line_data [OF rl] obtain eol where
    eol: "find_sub crlf buf = Some eol" "d1 = drop (eol + 2) buf" by auto
  have "drop eol buf = crlf @ drop (eol + 2) buf"
    using find_sub_split [OF eol(1)] find_sub_bound [OF eol(1)]
    by (metis (no_types, lifting) add_diff_cancel_left' append_eq_append_conv append_take_drop_id
        length_Cons list.size(3) numeral_2_eq_2)
  with parse_headers_blank_line [OF hd] eol(2) show ?thesis
    by (metis contains_sub_drop)
qed

lemma header_span_extend:
  "find_sub (crlf @ crlf) buf \<noteq> None \<Longrightarrow> header_span (buf @ s) = header_span buf"
  by (auto simp: header_span_def find_sub_append)

lemma parse_request_extend:
  assumes "ps_state p = REQUEST_LINE" "parse_request p buf r = Some res" "pr_ok res"
  shows "parse_request p (buf @ s) r = Some (res\<lparr>pr_buffer := pr_buffer res @ s\<rparr>)"
proof -
  have c: "header_span buf \<le> MAX_HEADER_BYTES" "complete_parse p buf r res"
    using parse_request_complete [OF assms(1), of buf r res] assms(2,3) by auto
  then have "header_span (buf @ s) \<le> MAX_HEADER_BYTES"
    using header_span_extend [OF complete_parse_header_span] by simp
  with parse_request_complete [OF assms(1), of "buf @ s"] complete_parse_extend [OF c(2)]
  show ?thesis by blast
qed

text \<open>
  C16: bytes that arrive behind a complete request do not change how it is parsed: the same request
  with the same number of bytes consumed is read from the longer buffer, and the appended bytes
  are left as they came (pipelined requests, and the re-parse of a growing buffer by
  \<open>Connection::parse_next\<close>).
\<close>

theorem parse_request_stable:
  assumes "ps_state p = REQUEST_LINE" "parse_request p buf r = Some res" "pr_ok res"
  shows "parse_request p (buf @ s) r = Some (res\<lparr>pr_buffer := pr_buffer res @ s\<rparr>)"
  by (rule parse_request_extend [OF assms])

text \<open>
  C15: pass 2 of the chunked decoding, which overwrites the buffer it reads, returns exactly what
  the specification decodes from the untouched input, and leaves the bytes behind the body alone.
\<close>

theorem chunked_decode_in_place:
  assumes "dechunk d = Some (b, n)" "length b \<le> MAX_BODY_BYTES" "length d < 2 ^ 63"
  shows "\<exists>d'. parse_chunked_body p d r =
                Some (True, p\<lparr>ps_state := COMPLETE\<rparr>, d', n, r\<lparr>rq_body := b\<rparr>) \<and>
              drop n d' = drop n d \<and> length d' = length d"
proof -
  have "scan_chunks d 0 = ScanComplete" using dechunk_scan [OF assms(1) _ assms(3)] assms(2) by simp
  from parse_chunked_body_complete [OF this assms(3), of p r] assms(1) show ?thesis by simp
qed

text \<open>
  C20: the only way the decoder leaves the defined behaviour of C++ is that the size arithmetic of
  pass 1 wraps: it accepts a body that the specification rejects, and pass 2 then moves bytes
  from outside the buffer.
\<close>

theorem chunked_undefined_iff:
  assumes "length d < 2 ^ 63"
  shows "parse_chunked_body p d r = None \<longleftrightarrow> scan_chunks d 0 = ScanComplete \<and> dechunk d = None"
proof (cases "scan_chunks d 0 = ScanComplete")
  case True
  from parse_chunked_body_complete [OF True assms, of p r] show ?thesis
    using True by (auto split: option.splits)
next
  case False
  then show ?thesis by (auto simp: parse_chunked_body_def split: chunk_scan.splits)
qed

text \<open>Two chunks of sizes 1 and \<open>2^64 - 1\<close>, and the last chunk.\<close>

definition overflow_body :: string where
  "overflow_body =
     ''1'' @ crlf @ ''A'' @ crlf @ ''FFFFFFFFFFFFFFFF'' @ crlf @ ''X0'' @ crlf @ crlf"

text \<open>
  Such a body exists and is short: the sizes 1 and \<open>2^64 - 1\<close> add up to 0 in \<open>size_t\<close>, so
  the body limit and the bounds check of pass 1 pass and \<open>memmove\<close> is called with \<open>2^64 - 1\<close>.
\<close>

lemma chunked_overflow: "parse_chunked_body p overflow_body r = None"
proof -
  let ?d = "''FFFFFFFFFFFFFFFF'' @ crlf @ ''X0'' @ crlf @ crlf"
  have o: "overflow_body = ''1'' @ crlf @ ''A'' @ crlf @ ?d" by (simp add: overflow_body_def)
  have f1: "find_sub crlf overflow_body = Some (length ''1'')"
    "take (length ''1'') overflow_body = ''1''"
    "drop (length ''1'' + 2) overflow_body = ''A'' @ crlf @ ?d"
    unfolding o using split_line [of "''1''" "''A'' @ crlf @ ?d"] by simp_all
  have s1: "parse_chunk_size (take (length ''1'') overflow_body) 0 = (True, 1)"
    unfolding f1 by (simp add: parse_chunk_size_def hex_digit_def size_t_wrap_def)
  let ?F = "''FFFFFFFFFFFFFFFF''"
  have f2: "find_sub crlf ?d = Some (length ?F)" "take (length ?F) ?d = ?F"
    "drop (length ?F + 2) ?d = ''X0'' @ crlf @ crlf"
    using split_line [of ?F "''X0'' @ crlf @ crlf"] by simp_all
  have s2: "parse_chunk_size (take (length ?F) ?d) 0 = (True, 2 ^ 64 - 1)"
    unfolding f2 by (simp add: parse_chunk_size_def hex_digit_def size_t_wrap_def)
  let ?e = "''0'' @ crlf @ crlf"
  have f3: "find_sub crlf ?e = Some (length ''0'')" "take (length ''0'') ?e = ''0''"
    "drop (length ''0'' + 2) ?e = crlf"
    using split_line [of "''0''" crlf] by simp_all
  have s3: "parse_chunk_size (take (length ''0'') ?e) 0 = (True, 0)"
    unfolding f3 by (simp add: parse_chunk_size_def hex_digit_def)
  have "scan_chunks ?e 0 = ScanComplete"
    using scan_step(3) [OF f3(1) s3] unfolding f3(3) by (simp add: skip_trailers.simps [of crlf])
  then have "scan_chunks ?d 1 = ScanComplete"
    using scan_step(4) [OF f2(1) s2] unfolding f2(3)
    by (simp add: size_t_wrap_def MAX_BODY_BYTES_def)
  then have sc: "scan_chunks overflow_body 0 = ScanComplete"
    using scan_step(4) [OF f1(1) s1] unfolding f1(3)
    by (simp add: MAX_BODY_BYTES_def)
  have "dechunk ?d = None"
    using dechunk_step(4) [OF f2(1) s2] unfolding f2(3) by simp
  then have "dechunk overflow_body = None"
    using dechunk_step(4) [OF f1(1) s1] unfolding f1(3) by simp
  moreover have "length overflow_body < 2 ^ 63" by (simp add: overflow_body_def)
  ultimately show ?thesis
    using parse_chunked_body_complete [OF sc, of p r] by simp
qed

section \<open>Limits and framing\<close>

lemma parse_body_ok:
  assumes "parse_body p d r = Some (True, p', d', n, r')" "length d < 2 ^ 63"
    "rq_body r = []" "ps_body_expected_length p \<le> MAX_BODY_BYTES \<or> ps_is_chunked p"
  shows "length (rq_body r') \<le> MAX_BODY_BYTES" "drop n d' = drop n d" "length d' = length d"
    "n \<le> length d" "rq_headers r' = rq_headers r"
proof -
  have "length (rq_body r') \<le> MAX_BODY_BYTES \<and> drop n d' = drop n d \<and> length d' = length d \<and>
      n \<le> length d \<and> rq_headers r' = rq_headers r"
  proof (cases "ps_is_chunked p")
    case True
    with assms(1) have "parse_chunked_body p d r = Some (True, p', d', n, r')"
      by (simp add: parse_body_def)
    from parse_chunked_body_ok [OF this assms(2)] show ?thesis
      by (metis http_request.select_convs(4) http_request.update_convs(7) http_request.surjective)
  next
    case False
    with assms show ?thesis by (auto simp: parse_body_def split: if_splits)
  qed
  then show "length (rq_body r') \<le> MAX_BODY_BYTES" "drop n d' = drop n d" "length d' = length d"
    "n \<le> length d" "rq_headers r' = rq_headers r"
    by auto
qed

lemma parse_query_parameters_keeps [simp]:
  "rq_body (parse_query_parameters pq r) = rq_body r"
  "rq_headers (parse_query_parameters pq r) = rq_headers r"
  by (auto simp: parse_query_parameters_def split: option.splits)

lemma parse_request_line_body:
  "parse_request_line p d r = (True, p', d', r') \<Longrightarrow>
     rq_body r' = rq_body r \<and> p' = p\<lparr>ps_state := HEADERS\<rparr> \<and> rq_headers r' = rq_headers r"
  by (auto simp: parse_request_line_def Let_def split: option.splits if_splits)

lemma parse_headers_keeps_body: "parse_headers p d r = (ok, p', d', r') \<Longrightarrow> rq_body r' = rq_body r"
proof (induction p d r rule: parse_headers.induct)
  case (1 p d r)
  show ?case
  proof (cases "find_sub crlf d = None \<or> take (the (find_sub crlf d)) d = [] \<or>
      find_sub '':'' (take (the (find_sub crlf d)) d) = None")
    case True
    with "1.prems" show ?thesis
      by (auto simp: parse_headers.simps [of p d r] Let_def
          split: option.splits prod.splits if_splits)
  next
    case False
    then obtain eol c where f: "find_sub crlf d = Some eol" and ne: "take eol d \<noteq> []" and
      c: "find_sub '':'' (take eol d) = Some c"
      by auto
    let ?r = "r\<lparr>rq_headers := (rq_headers r)(take c (take eol d) \<mapsto>
                  dropWhile isspace (drop (c + 1) (take eol d)))\<rparr>"
    from "1.prems" f ne c have "parse_headers p (drop (eol + 2) d) ?r = (ok, p', d', r')"
      by (simp add: parse_headers.simps [of p d r] Let_def)
    from "1.IH" [OF f refl refl ne c refl refl this] show ?thesis by simp
  qed
qed

text \<open>What the phases of a complete parse leave, for a parser and a request in their initial state.\<close>

text \<open>The last phase of a complete parse: nothing behind the headers, or a body.\<close>

lemma complete_parse_tail:
  assumes "if ps_state p2 = COMPLETE
      then res = \<lparr>pr_ok = True, pr_consumed = length buf - length d2, pr_parser = p2,
                  pr_buffer = buf, pr_request = r2\<rparr>
      else \<exists>p3 d3 n r3. parse_body p2 d2 r2 = Some (True, p3, d3, n, r3) \<and>
             res = \<lparr>pr_ok = True, pr_consumed = length buf - length d2 + n, pr_parser = p3,
                    pr_buffer = take (length buf - length d2) buf @ d3, pr_request = r3\<rparr>"
    "d2 = drop (length buf - length d2) buf" "length d2 \<le> length buf" "length buf < 2 ^ 63" "rq_body r2 = []"
    "ps_body_expected_length p2 \<le> MAX_BODY_BYTES \<or> ps_is_chunked p2"
    "ps_state p2 = COMPLETE \<Longrightarrow> \<not> ps_is_chunked p2 \<Longrightarrow> ps_body_expected_length p2 = 0"
  shows "length (rq_body (pr_request res)) \<le> MAX_BODY_BYTES \<and> pr_consumed res \<le> length buf \<and>
     length (pr_buffer res) = length buf \<and>
     drop (pr_consumed res) (pr_buffer res) = drop (pr_consumed res) buf \<and>
     rq_headers (pr_request res) = rq_headers r2 \<and>
     (\<not> ps_is_chunked p2 \<longrightarrow> length (rq_body (pr_request res)) = ps_body_expected_length p2)"
proof (cases "ps_state p2 = COMPLETE")
  case True
  with assms(1,5,7) show ?thesis by auto
next
  case False
  with assms(1) obtain p3 d3 n r3 where bd: "parse_body p2 d2 r2 = Some (True, p3, d3, n, r3)" and
    res: "res = \<lparr>pr_ok = True, pr_consumed = length buf - length d2 + n, pr_parser = p3,
                     pr_buffer = take (length buf - length d2) buf @ d3, pr_request = r3\<rparr>"
    by auto
  have l2: "length d2 < 2 ^ 63" using assms(3,4) by simp
  note bo = parse_body_ok [OF bd l2 assms(5,6)]
  let ?k = "length buf - length d2"
  have "drop (?k + n) (take ?k buf @ d3) = drop n d3" using assms(3) by simp
  moreover have "drop (?k + n) buf = drop n d2" using assms(2) by (metis add.commute drop_drop)
  moreover have "\<not> ps_is_chunked p2 \<longrightarrow> length (rq_body r3) = ps_body_expected_length p2"
    using bd assms(5) by (auto simp: parse_body_def split: if_splits)
  ultimately show ?thesis using bo res assms(3) by simp
qed

lemma complete_parse_facts:
  assumes "complete_parse (parser_reset p) buf request_init res" "length buf < 2 ^ 63"
  shows "length (rq_body (pr_request res)) \<le> MAX_BODY_BYTES"
    "pr_consumed res \<le> length buf" "length (pr_buffer res) = length buf"
    "drop (pr_consumed res) (pr_buffer res) = drop (pr_consumed res) buf"
    "\<not> (\<exists>te. header (pr_request res) ''Transfer-Encoding'' = Some te \<and> contains_sub ''chunked'' te \<and>
          header (pr_request res) ''Content-Length'' \<noteq> None)"
    "\<forall>v. header (pr_request res) ''Content-Length'' = Some v \<longrightarrow>
          stoul v = Some (length (rq_body (pr_request res)))"
proof -
  let ?p = "parser_reset p" and ?rs = "pr_request res"
  from assms(1) obtain p1 d1 r1 p2 d2 r2 where
    rl: "parse_request_line ?p buf request_init = (True, p1, d1, r1)" and
    hd: "parse_headers p1 d1 r1 = (True, p2, d2, r2)" and
    fin: "if ps_state p2 = COMPLETE
         then res = \<lparr>pr_ok = True, pr_consumed = length buf - length d2, pr_parser = p2,
                     pr_buffer = buf, pr_request = r2\<rparr>
         else \<exists>p3 d3 n r3. parse_body p2 d2 r2 = Some (True, p3, d3, n, r3) \<and>
                res = \<lparr>pr_ok = True, pr_consumed = length buf - length d2 + n, pr_parser = p3,
                       pr_buffer = take (length buf - length d2) buf @ d3, pr_request = r3\<rparr>"
    unfolding complete_parse_def by auto
  note d2 = parse_headers_suffix [OF hd parse_request_line_suffix(2,3) [OF rl]]
  have p1: "\<not> ps_is_chunked p1" "ps_body_expected_length p1 = 0" and b2: "rq_body r2 = []"
    using parse_request_line_body [OF rl] parse_headers_keeps_body [OF hd]
    by (auto simp: parser_reset_def request_init_def)
  note e = end_of_headers_cases [OF parse_headers_end [OF hd]]
  have lim: "ps_body_expected_length p2 \<le> MAX_BODY_BYTES \<or> ps_is_chunked p2"
    using e p1 by (auto split: option.splits)
  have none: "ps_state p2 = COMPLETE \<Longrightarrow> \<not> ps_is_chunked p2 \<Longrightarrow> ps_body_expected_length p2 = 0"
    using e p1 by (auto split: if_splits)
  from complete_parse_tail [OF fin d2(2,3) assms(2) b2 lim none] e p1
  show "length (rq_body ?rs) \<le> MAX_BODY_BYTES"
    "pr_consumed res \<le> length buf" "length (pr_buffer res) = length buf"
    "drop (pr_consumed res) (pr_buffer res) = drop (pr_consumed res) buf"
    "\<not> (\<exists>te. header ?rs ''Transfer-Encoding'' = Some te \<and> contains_sub ''chunked'' te \<and>
          header ?rs ''Content-Length'' \<noteq> None)"
    "\<forall>v. header ?rs ''Content-Length'' = Some v \<longrightarrow> stoul v = Some (length (rq_body ?rs))"
    by (auto simp: header_def)
qed

text \<open>
  A request that is accepted has a body of at most \<open>MAX_BODY_BYTES\<close>, and whatever the decoding
  in place did to the buffer, the bytes behind the request are the bytes that were received.
\<close>

lemma parse_request_limits:
  assumes "parse_request (parser_reset p) buf request_init = Some res" "pr_ok res"
    "length buf < 2 ^ 63"
  shows "length (rq_body (pr_request res)) \<le> MAX_BODY_BYTES \<and>
     pr_consumed res \<le> length buf \<and> length (pr_buffer res) = length buf \<and>
     drop (pr_consumed res) (pr_buffer res) = drop (pr_consumed res) buf"
proof -
  have "complete_parse (parser_reset p) buf request_init res"
    using parse_request_complete [of "parser_reset p"] assms(1,2) by (auto simp: parser_reset_def)
  from complete_parse_facts [OF this assms(3)] show ?thesis by simp
qed

text \<open>
  C19: an accepted request is framed in one way: it does not carry both a chunked
  \<open>Transfer-Encoding\<close> and a \<open>Content-Length\<close>, and where it has a \<open>Content-Length\<close> its body is as
  long as that header reads.
\<close>

theorem parse_request_framing:
  assumes "parse_request (parser_reset p) buf request_init = Some res" "pr_ok res"
    "length buf < 2 ^ 63"
  shows "\<not> (\<exists>te. header (pr_request res) ''Transfer-Encoding'' = Some te \<and>
            contains_sub ''chunked'' te \<and> header (pr_request res) ''Content-Length'' \<noteq> None) \<and>
     (\<forall>v. header (pr_request res) ''Content-Length'' = Some v \<longrightarrow>
        stoul v = Some (length (rq_body (pr_request res))))"
proof -
  have "complete_parse (parser_reset p) buf request_init res"
    using parse_request_complete [of "parser_reset p"] assms(1,2) by (auto simp: parser_reset_def)
  from complete_parse_facts [OF this assms(3)] show ?thesis by simp
qed

section \<open>Round trips\<close>

lemma header_span_le:
  assumes "starts_with (crlf @ crlf) (drop k buf)" "k \<le> length buf"
  shows "header_span buf \<le> k"
proof (cases "find_sub (crlf @ crlf) buf")
  case None
  with assms(1) show ?thesis using find_sub_None by blast
next
  case (Some i)
  then have "\<not> k < i" using assms(1) find_sub_least by blast
  with Some show ?thesis by (simp add: header_span_def)
qed

lemma parse_request_init:
  "header_span buf \<le> MAX_HEADER_BYTES \<Longrightarrow> complete_parse parser_init buf r res \<Longrightarrow>
     parse_request parser_init buf r = Some res"
  using parse_request_complete [of parser_init buf r res] by (auto simp: parser_init_def)

definition request_head ::
  "HttpMethod \<Rightarrow> string \<Rightarrow> string \<Rightarrow> (string \<times> string) list \<Rightarrow> string" where
  "request_head m target version hs =
     http_method_to_string m @ '' '' @ target @ '' '' @ version @ crlf @ render_headers hs"

definition well_formed_head ::
  "HttpMethod \<Rightarrow> string \<Rightarrow> string \<Rightarrow> (string \<times> string) list \<Rightarrow> bool" where
  "well_formed_head m target version hs \<longleftrightarrow>
     m \<noteq> UNKNOWN \<and> CHR '' '' \<notin> set target \<and> CR \<notin> set target \<and> CR \<notin> set version \<and>
     (\<forall>h \<in> set hs. valid_header h) \<and> length (request_head m target version hs) \<le> MAX_HEADER_BYTES + 2"

definition read_head :: "HttpMethod \<Rightarrow> string \<Rightarrow> string \<Rightarrow> (string \<times> string) list \<Rightarrow> http_request" where
  "read_head m target version hs =
     add_headers hs (parse_query_parameters target
       (request_init\<lparr>rq_version := version, rq_method := m\<rparr>))"

lemma render_headers_ends: "hs \<noteq> [] \<Longrightarrow> \<exists>t. render_headers hs = t @ crlf"
  by (cases hs rule: rev_cases) (auto simp: render_headers_def)

lemma request_head_ends: "\<exists>t. request_head m target version hs = t @ crlf"
proof (cases "hs = []")
  case True
  then have "request_head m target version hs = (http_method_to_string m @ '' '' @ target @ '' '' @ version) @ crlf"
    by (simp add: request_head_def render_headers_def)
  then show ?thesis by blast
next
  case False
  then obtain t where "render_headers hs = t @ crlf" using render_headers_ends by blast
  then have "request_head m target version hs =
      (http_method_to_string m @ '' '' @ target @ '' '' @ version @ crlf @ t) @ crlf"
    by (simp add: request_head_def)
  then show ?thesis by blast
qed

lemma request_head_span:
  assumes "well_formed_head m target version hs"
  shows "header_span (request_head m target version hs @ crlf @ rest) \<le> MAX_HEADER_BYTES"
proof -
  obtain t where t: "request_head m target version hs = t @ crlf" using request_head_ends by blast
  have "starts_with (crlf @ crlf) (drop (length t) (t @ crlf @ crlf @ rest))" by simp
  then have "header_span (t @ crlf @ crlf @ rest) \<le> length t" by (rule header_span_le) simp
  moreover have "length t \<le> MAX_HEADER_BYTES" using assms t by (simp add: well_formed_head_def)
  ultimately show ?thesis using t by simp
qed

lemma parse_head_render:
  assumes "well_formed_head m target version hs"
  shows "\<exists>p1 d1 r1. parse_request_line parser_init (request_head m target version hs @ crlf @ rest) request_init =
       (True, p1, d1, r1) \<and>
     parse_headers p1 d1 r1 =
       (case end_of_headers (parser_init\<lparr>ps_state := HEADERS\<rparr>) (read_head m target version hs) of
          (ok, p') \<Rightarrow> (ok, p', rest, read_head m target version hs))"
proof -
  note wf = assms [unfolded well_formed_head_def]
  have "request_head m target version hs @ crlf @ rest =
      http_method_to_string m @ '' '' @ target @ '' '' @ version @ crlf @ (render_headers hs @ crlf @ rest)"
    by (simp add: request_head_def)
  then show ?thesis
    using parse_request_line_render [of m target version parser_init "render_headers hs @ crlf @ rest" request_init]
      parse_headers_render [of hs "parser_init\<lparr>ps_state := HEADERS\<rparr>" rest
        "parse_query_parameters target (request_init\<lparr>rq_version := version, rq_method := m\<rparr>)"] wf
    by (simp add: read_head_def)
qed

lemma read_head_header:
  "header (read_head m target version (hs @ [(k, v)])) k = Some v"
  "k \<notin> fst ` set hs \<Longrightarrow> header (read_head m target version hs) k = None"
  by (auto simp: read_head_def add_headers_def header_def request_init_def map_add_def
      map_of_eq_None_iff split: option.splits)

lemma read_head_body [simp]: "rq_body (read_head m target version hs) = []"
  by (simp add: read_head_def add_headers_def request_init_def)

lemma parse_render_bodyless:
  assumes "well_formed_head m target version hs" "''Transfer-Encoding'' \<notin> fst ` set hs"
    "''Content-Length'' \<notin> fst ` set hs"
  shows "parse_request parser_init (request_head m target version hs @ crlf @ rest) request_init =
     Some \<lparr>pr_ok = True, pr_consumed = length (request_head m target version hs @ crlf),
           pr_parser = parser_init\<lparr>ps_state := COMPLETE\<rparr>,
           pr_buffer = request_head m target version hs @ crlf @ rest,
           pr_request = read_head m target version hs\<rparr>" (is "_ = Some ?res")
proof -
  let ?h = "request_head m target version hs" and ?r = "read_head m target version hs"
  have "header ?r ''Content-Length'' = None" "header ?r ''Transfer-Encoding'' = None"
    using assms(2,3) by (auto intro: read_head_header)
  then have "end_of_headers (parser_init\<lparr>ps_state := HEADERS\<rparr>) ?r =
      (True, parser_init\<lparr>ps_state := COMPLETE\<rparr>)"
    by (simp add: end_of_headers_def parser_init_def)
  with parse_head_render [OF assms(1), of rest] obtain p1 d1 r1 where
    "parse_request_line parser_init (?h @ crlf @ rest) request_init = (True, p1, d1, r1)"
    "parse_headers p1 d1 r1 = (True, parser_init\<lparr>ps_state := COMPLETE\<rparr>, rest, ?r)"
    by auto
  then have "complete_parse parser_init (?h @ crlf @ rest) request_init ?res"
    unfolding complete_parse_def by fastforce
  with request_head_span [OF assms(1)] show ?thesis by (rule parse_request_init)
qed

lemma parse_sized_request:
  assumes "well_formed_head m target version hs" "''Transfer-Encoding'' \<notin> fst ` set hs"
    "header (read_head m target version hs) ''Content-Length'' = Some (dec (length body))"
    "length body \<le> MAX_BODY_BYTES"
  shows "parse_request parser_init (request_head m target version hs @ crlf @ body @ rest) request_init =
     Some \<lparr>pr_ok = True, pr_consumed = length (request_head m target version hs @ crlf @ body),
           pr_parser = parser_init\<lparr>ps_state := COMPLETE, ps_body_expected_length := length body\<rparr>,
           pr_buffer = request_head m target version hs @ crlf @ body @ rest,
           pr_request = (read_head m target version hs)\<lparr>rq_body := body\<rparr>\<rparr>" (is "_ = Some ?res")
proof -
  let ?h = "request_head m target version hs" and ?r = "read_head m target version hs"
  have te: "header ?r ''Transfer-Encoding'' = None" using assms(2) by (rule read_head_header)
  have "stoul (dec (length body)) = Some (length body)"
    using stoul_dec [of "length body" "[]"] assms(4) by (simp add: MAX_BODY_BYTES_def)
  with te assms(3,4) have e: "end_of_headers (parser_init\<lparr>ps_state := HEADERS\<rparr>) ?r =
      (True, parser_init\<lparr>ps_body_expected_length := length body,
               ps_state := (if 0 < length body then BODY else COMPLETE)\<rparr>)"
    by (simp add: end_of_headers_def parser_init_def)
  from parse_head_render [OF assms(1), of "body @ rest"] e obtain p1 d1 r1 where
    ph: "parse_request_line parser_init (?h @ crlf @ body @ rest) request_init = (True, p1, d1, r1)"
    "parse_headers p1 d1 r1 = (True, parser_init\<lparr>ps_body_expected_length := length body,
               ps_state := (if 0 < length body then BODY else COMPLETE)\<rparr>, body @ rest, ?r)"
    by auto
  have "complete_parse parser_init (?h @ crlf @ body @ rest) request_init ?res"
  proof (cases "body = []")
    case True
    then have "?r = ?r\<lparr>rq_body := body\<rparr>" by simp
    with True ph show ?thesis
      unfolding complete_parse_def by (auto simp: parser_init_def)
  next
    case False
    then have "parse_body (parser_init\<lparr>ps_body_expected_length := length body, ps_state := BODY\<rparr>)
         (body @ rest) ?r =
       Some (True, parser_init\<lparr>ps_body_expected_length := length body, ps_state := COMPLETE\<rparr>,
             body @ rest, length body, ?r\<lparr>rq_body := body\<rparr>)"
      by (simp add: parse_body_def parser_init_def)
    with False ph show ?thesis
      unfolding complete_parse_def by (auto simp: parser_init_def)
  qed
  with request_head_span [OF assms(1)] show ?thesis by (rule parse_request_init)
qed

text \<open>
  A request with a \<open>Content-Length\<close> reads back as itself, whatever follows it in the buffer:
  method, target, version, headers and body, and exactly its bytes are consumed.
\<close>

lemma parse_render_request:
  assumes "hs' = hs @ [(''Content-Length'', dec (length body))]"
    "well_formed_head m target version hs'" "''Transfer-Encoding'' \<notin> fst ` set hs"
    "length body \<le> MAX_BODY_BYTES"
  shows "parse_request parser_init (request_head m target version hs' @ crlf @ body @ rest) request_init =
     Some \<lparr>pr_ok = True, pr_consumed = length (request_head m target version hs' @ crlf @ body),
           pr_parser = parser_init\<lparr>ps_state := COMPLETE, ps_body_expected_length := length body\<rparr>,
           pr_buffer = request_head m target version hs' @ crlf @ body @ rest,
           pr_request = (read_head m target version hs')\<lparr>rq_body := body\<rparr>\<rparr>"
proof -
  have "header (read_head m target version hs') ''Content-Length'' = Some (dec (length body))"
    using assms(1) read_head_header(1) by simp
  moreover have "''Transfer-Encoding'' \<notin> fst ` set hs'" using assms(1,3) by auto
  ultimately show ?thesis using parse_sized_request [OF assms(2) _ _ assms(4)] by simp
qed

text \<open>A body sent in chunks, with the parser and the buffer it leaves.\<close>

lemma parse_chunked_request:
  assumes "hs' = hs @ [(''Transfer-Encoding'', ''chunked'')]"
    "well_formed_head m target version hs'" "''Content-Length'' \<notin> fst ` set hs"
    "dechunk (text @ rest) = Some (body, length text)" "length body \<le> MAX_BODY_BYTES"
    "length (text @ rest) < 2 ^ 63"
  shows "\<exists>p buf. ps_state p = COMPLETE \<and>
     drop (length (request_head m target version hs' @ crlf @ text)) buf = rest \<and>
     parse_request parser_init (request_head m target version hs' @ crlf @ text @ rest) request_init =
       Some \<lparr>pr_ok = True, pr_consumed = length (request_head m target version hs' @ crlf @ text),
             pr_parser = p, pr_buffer = buf, pr_request = (read_head m target version hs')\<lparr>rq_body := body\<rparr>\<rparr>"
proof -
  let ?h = "request_head m target version hs'" and ?r = "read_head m target version hs'"
  let ?d = "text @ rest" and ?p = "parser_init\<lparr>ps_is_chunked := True, ps_state := BODY\<rparr>"
  have cl: "header ?r ''Content-Length'' = None"
    using assms(1,3) by (intro read_head_header) auto
  have te: "header ?r ''Transfer-Encoding'' = Some ''chunked''"
    using assms(1) read_head_header(1) by simp
  have "contains_sub ''chunked'' ''chunked''"
    by (simp add: contains_sub_def find_sub_starts)
  with te cl have e: "end_of_headers (parser_init\<lparr>ps_state := HEADERS\<rparr>) ?r = (True, ?p)"
    by (simp add: end_of_headers_def parser_init_def)
  from parse_head_render [OF assms(2), of ?d] e obtain p1 d1 r1 where
    ph: "parse_request_line parser_init (?h @ crlf @ ?d) request_init = (True, p1, d1, r1)"
    "parse_headers p1 d1 r1 = (True, ?p, ?d, ?r)"
    by auto
  have "scan_chunks ?d 0 = ScanComplete"
    using dechunk_scan [OF assms(4), of 0] assms(5,6) by simp
  with assms(4) obtain d' where bd: "parse_body ?p ?d ?r = Some (True, ?p\<lparr>ps_state := COMPLETE\<rparr>, d',
      length text, ?r\<lparr>rq_body := body\<rparr>)"
    and d': "drop (length text) d' = drop (length text) ?d"
    using parse_chunked_body_complete [of ?d ?p ?r] assms(6) by (auto simp: parse_body_def)
  let ?k = "length (?h @ crlf)"
  let ?res = "\<lparr>pr_ok = True, pr_consumed = ?k + length text,
      pr_parser = ?p\<lparr>ps_state := COMPLETE\<rparr>, pr_buffer = (?h @ crlf) @ d',
      pr_request = ?r\<lparr>rq_body := body\<rparr>\<rparr>"
  have "complete_parse parser_init (?h @ crlf @ ?d) request_init ?res"
    unfolding complete_parse_def using ph bd by (auto simp: parser_init_def)
  with request_head_span [OF assms(2)]
  have "parse_request parser_init (?h @ crlf @ ?d) request_init = Some ?res" by (rule parse_request_init)
  moreover have "drop (?k + length text) ((?h @ crlf) @ d') = rest"
    using d' by simp
  ultimately show ?thesis
    by (intro exI [of _ "?p\<lparr>ps_state := COMPLETE\<rparr>"] exI [of _ "(?h @ crlf) @ d'"]) simp
qed

text \<open>
  C21: a body sent in chunks reads back as the concatenation of the chunks, however the sizes are
  spelled, with or without extensions and trailers, and whatever follows it.
\<close>

theorem parse_render_chunked:
  assumes "hs' = hs @ [(''Transfer-Encoding'', ''chunked'')]"
    "well_formed_head m target version hs'" "''Content-Length'' \<notin> fst ` set hs"
    "chunks_ok hcs fin ts" "length (concat (map snd hcs)) \<le> MAX_BODY_BYTES"
    "length (render_chunks hcs fin ts @ rest) < 2 ^ 63"
  shows "\<exists>res. parse_request parser_init
       (request_head m target version hs' @ crlf @ render_chunks hcs fin ts @ rest) request_init = Some res \<and>
     pr_ok res \<and> pr_request res = (read_head m target version hs')\<lparr>rq_body := concat (map snd hcs)\<rparr> \<and>
     drop (pr_consumed res) (pr_buffer res) = rest"
  using parse_chunked_request [OF assms(1-3) dechunk_render [OF assms(4)] assms(5,6)] by auto

text \<open>The query string of a list of pairs.\<close>

fun render_query :: "(string \<times> string) list \<Rightarrow> string" where
  "render_query [] = []"
| "render_query [(k, v)] = k @ ''='' @ v"
| "render_query ((k, v) # kvs) = k @ ''='' @ v @ ''&'' @ render_query kvs"

lemma parse_query_loop_step:
  assumes "CHR ''='' \<notin> set k" "CHR ''&'' \<notin> set v"
  shows "parse_query_loop (pre @ k @ ''='' @ v) (length pre) m = m(k \<mapsto> v)"
    "parse_query_loop (pre @ k @ ''='' @ v @ ''&'' @ t) (length pre) m =
       parse_query_loop (pre @ k @ ''='' @ v @ ''&'' @ t) (length (pre @ k @ ''='' @ v @ ''&'')) (m(k \<mapsto> v))"
proof -
  have eq: "find_from ''='' (pre @ k @ ''='' @ t') (length pre) = Some (length pre + length k)" for t'
    using find_sub_here [OF assms(1), of "[]" t'] by (simp add: find_from_def)
  have am: "find_from ''&'' (pre @ k @ ''='' @ v @ ''&'' @ t) (length pre + length k + 1) =
      Some (length pre + length k + 1 + length v)"
    using find_sub_here [OF assms(2), of "[]" t] by (simp add: find_from_def)
  have am': "find_from ''&'' (pre @ k @ ''='' @ v) (length pre + length k + 1) = None"
    using find_sub_notin [OF assms(2), of "[]"] by (simp add: find_from_def)
  show "parse_query_loop (pre @ k @ ''='' @ v) (length pre) m = m(k \<mapsto> v)"
    using eq [of v] am' by (simp add: parse_query_loop.simps [of _ "length pre"] substr_def)
  show "parse_query_loop (pre @ k @ ''='' @ v @ ''&'' @ t) (length pre) m =
       parse_query_loop (pre @ k @ ''='' @ v @ ''&'' @ t) (length (pre @ k @ ''='' @ v @ ''&'')) (m(k \<mapsto> v))"
    using eq [of "v @ ''&'' @ t"] am
    by (simp add: parse_query_loop.simps [of _ "length pre"] substr_def add.assoc)
qed

lemma parse_query_loop_render:
  "\<forall>(k, v) \<in> set kvs. CHR ''='' \<notin> set k \<and> CHR ''&'' \<notin> set v \<Longrightarrow>
     parse_query_loop (pre @ render_query kvs) (length pre) m = m ++ map_of (rev kvs)"
proof (induction kvs arbitrary: pre m rule: render_query.induct)
  case 1
  then show ?case by (simp add: parse_query_loop.simps)
next
  case (2 k v)
  then show ?case using parse_query_loop_step(1) [of k v pre m]
    by (simp add: map_add_def fun_eq_iff)
next
  case (3 k v kv kvs)
  let ?pre = "pre @ k @ ''='' @ v @ ''&''" and ?t = "render_query (kv # kvs)"
  have "parse_query_loop (?pre @ ?t) (length ?pre) (m(k \<mapsto> v)) = m(k \<mapsto> v) ++ map_of (rev (kv # kvs))"
    by (rule "3.IH") (use "3.prems" in auto)
  with "3.prems" parse_query_loop_step(2) [of k v pre ?t m] show ?case
    by (simp add: map_add_def fun_eq_iff split: option.splits)
qed

text \<open>
  The query string of a list of pairs reads back as the map of the pairs, a later pair winning,
  and the path is what stands before it.
\<close>

lemma parse_query_render:
  assumes "CHR ''?'' \<notin> set path" "\<forall>(k, v) \<in> set kvs. CHR ''='' \<notin> set k \<and> CHR ''&'' \<notin> set v"
  shows "parse_query_parameters (path @ ''?'' @ render_query kvs) r =
     r\<lparr>rq_path := path, rq_query_params := rq_query_params r ++ map_of (rev kvs)\<rparr>"
proof -
  have "find_sub ''?'' (path @ ''?'' @ render_query kvs) = Some (length path)"
    using find_sub_here [OF assms(1), of "[]"] by simp
  with parse_query_loop_render [OF assms(2), of "[]"] show ?thesis
    by (simp add: parse_query_parameters_def)
qed

section \<open>Where the parser is lenient, and where it depends on the segmentation\<close>

text \<open>
  \<open>std::stoul\<close> stops at the first byte that is not a digit: a \<open>Content-Length\<close> with anything
  behind its number is framed like the number alone, not refused.
\<close>

lemma content_length_trailing:
  assumes "n < 2 ^ 64" "rest = [] \<or> \<not> is_digit (hd rest)"
  shows "end_of_headers p (r\<lparr>rq_headers := hs(''Content-Length'' \<mapsto> dec n @ rest)\<rparr>) =
     end_of_headers p (r\<lparr>rq_headers := hs(''Content-Length'' \<mapsto> dec n)\<rparr>)"
proof -
  have "stoul (dec n @ rest) = Some n" "stoul (dec n) = Some n"
    using stoul_dec [OF assms] stoul_dec [of n "[]"] assms(1) by simp_all
  then show ?thesis by (simp add: end_of_headers_def header_def Let_def)
qed

text \<open>A request whose header block is exactly as long as the limit allows.\<close>

definition edge_headers :: "(string \<times> string) list" where
  "edge_headers = [(''a'', replicate 65517 CHR ''x'')]"

definition edge_request :: string where
  "edge_request = request_head GET ''/'' ''HTTP/1.1'' edge_headers @ crlf"

lemma edge_headers_wf: "well_formed_head GET ''/'' ''HTTP/1.1'' edge_headers"
  by (simp add: well_formed_head_def edge_headers_def valid_header_def request_head_def
      render_headers_def MAX_HEADER_BYTES_def isspace_def hd_replicate)

lemma edge_request_prefix_span:
  "take 65537 edge_request =
     ''GET / HTTP/1.1'' @ crlf @ (''a: '' @ replicate 65517 CHR ''x'') @ [CR]"
  by (simp add: edge_request_def request_head_def edge_headers_def render_headers_def)

text \<open>
  The limit on the header block counts the whole buffer while the blank line has not arrived,
  so a block of exactly \<open>MAX_HEADER_BYTES\<close> is accepted when it arrives in one piece and refused
  when a read ends inside its last CRLF CRLF.
\<close>

lemma header_limit_segmentation:
  "(\<exists>res. parse_request parser_init edge_request request_init = Some res \<and> pr_ok res) \<and>
   (\<exists>res. parse_request parser_init (take 65537 edge_request) request_init = Some res \<and>
      ps_state (pr_parser res) = ERROR)"
proof
  show "\<exists>res. parse_request parser_init edge_request request_init = Some res \<and> pr_ok res"
    using parse_render_bodyless [OF edge_headers_wf, of "[]"]
    by (simp add: edge_request_def edge_headers_def)
next
  let ?a = "''GET / HTTP/1.1''" and ?b = "''a: '' @ replicate 65517 CHR ''x''"
  have "CR \<notin> set ?a" "CR \<notin> set ?b" by simp_all
  then have "find_sub (crlf @ crlf) (?a @ crlf @ ?b @ [CR]) = None"
    using find_sub_skip [of CR ?a "LF # crlf" "crlf @ ?b @ [CR]"]
      find_sub_skip [of CR ?b "LF # crlf" "[CR]"]
    by simp
  then have "header_span (take 65537 edge_request) = length (?a @ crlf @ ?b @ [CR])"
    by (simp only: edge_request_prefix_span header_span_def option.case)
  then have "MAX_HEADER_BYTES < header_span (take 65537 edge_request)"
    by (simp add: MAX_HEADER_BYTES_def)
  then show "\<exists>res. parse_request parser_init (take 65537 edge_request) request_init = Some res \<and>
      ps_state (pr_parser res) = ERROR"
    by (simp add: parse_request_def parser_init_def parser_error_def)
qed

section \<open>The properties at concrete inputs\<close>

definition get_example :: string where
  "get_example = request_head GET ''/a'' ''HTTP/1.1'' [] @ crlf"

lemma get_example_parse:
  "parse_request parser_init get_example request_init =
     Some \<lparr>pr_ok = True, pr_consumed = 19, pr_parser = parser_init\<lparr>ps_state := COMPLETE\<rparr>,
           pr_buffer = get_example, pr_request = read_head GET ''/a'' ''HTTP/1.1'' []\<rparr>"
  using parse_render_bodyless [of GET "''/a''" "''HTTP/1.1''" "[]" "[]"]
  by (simp add: get_example_def well_formed_head_def request_head_def render_headers_def
      MAX_HEADER_BYTES_def)

definition chunked_example :: string where
  "chunked_example = ''3'' @ crlf @ ''abc'' @ crlf @ ''0'' @ crlf @ crlf @ ''GET''"

lemma chunked_example_dechunk: "dechunk chunked_example = Some (''abc'', 13)"
  by (simp add: chunked_example_def dechunk.simps parse_chunk_size_def hex_digit_def
      skip_trailers.simps size_t_wrap_def)

lemma dec_2: "dec (length ''hi'') = ''2''"
  by code_simp

lemma parse_request_stable_witness:
  "\<exists>res. parse_request parser_init (get_example @ ''GET /b'') request_init = Some res \<and>
     pr_consumed res = 19"
  using parse_request_stable [OF _ get_example_parse, of "''GET /b''"] by (simp add: parser_init_def)

lemma chunked_decode_in_place_witness:
  "\<exists>d'. parse_chunked_body parser_init chunked_example request_init =
      Some (True, parser_init\<lparr>ps_state := COMPLETE\<rparr>, d', 13, request_init\<lparr>rq_body := ''abc''\<rparr>) \<and>
      drop 13 d' = ''GET''"
  using chunked_decode_in_place [OF chunked_example_dechunk, of parser_init request_init]
  by (auto simp: MAX_BODY_BYTES_def chunked_example_def)

lemma chunked_undefined_iff_witness:
  "parse_chunked_body parser_init chunked_example request_init \<noteq> None"
  using chunked_undefined_iff [of chunked_example parser_init request_init] chunked_example_dechunk
  by (simp add: chunked_example_def)

lemma parser_reset_init: "parser_reset parser_init = parser_init"
  by (simp add: parser_reset_def parser_init_def)

lemma parse_request_limits_example:
  "\<exists>res. parse_request (parser_reset parser_init) get_example request_init = Some res \<and>
     length (rq_body (pr_request res)) \<le> MAX_BODY_BYTES"
  using parse_request_limits [of parser_init get_example, unfolded parser_reset_init, OF get_example_parse]
    get_example_parse
  by (simp add: parser_reset_init get_example_def request_head_def render_headers_def)

lemma parse_request_framing_witness:
  "\<exists>res. parse_request (parser_reset parser_init) get_example request_init = Some res \<and>
     \<not> (\<exists>te. header (pr_request res) ''Transfer-Encoding'' = Some te \<and>
          contains_sub ''chunked'' te \<and> header (pr_request res) ''Content-Length'' \<noteq> None)"
  using parse_request_framing [of parser_init get_example, unfolded parser_reset_init, OF get_example_parse]
    get_example_parse
  by (simp add: parser_reset_init get_example_def request_head_def render_headers_def)

lemma parse_render_request_example:
  "\<exists>res. parse_request parser_init (request_head POST ''/a'' ''HTTP/1.1''
        [(''Host'', ''h''), (''Content-Length'', ''2'')] @ crlf @ ''hi'' @ ''GET'') request_init = Some res \<and>
     rq_body (pr_request res) = ''hi''"
proof -
  let ?hs = "[(''Host'', ''h''), (''Content-Length'', ''2'')]"
  have hs: "?hs = [(''Host'', ''h'')] @ [(''Content-Length'', dec (length ''hi''))]"
    unfolding dec_2 by simp
  have wf: "well_formed_head POST ''/a'' ''HTTP/1.1'' ?hs"
    by (simp add: well_formed_head_def valid_header_def request_head_def render_headers_def
        MAX_HEADER_BYTES_def isspace_def)
  have te: "''Transfer-Encoding'' \<notin> fst ` set [(''Host'', ''h'')]" by simp
  have len: "length ''hi'' \<le> MAX_BODY_BYTES" by (simp add: MAX_BODY_BYTES_def)
  from parse_render_request [OF hs wf te len, of "''GET''"] show ?thesis by fastforce
qed

lemma parse_render_chunked_witness:
  "\<exists>res. parse_request parser_init (request_head POST ''/a'' ''HTTP/1.1''
        [(''Transfer-Encoding'', ''chunked'')] @ crlf @
        render_chunks [(''003;x=y'', ''abc''), (''A'', ''defghijklm'')] ''0'' [''T: v''] @ ''GET'') request_init = Some res \<and>
     rq_body (pr_request res) = ''abcdefghijklm'' \<and> drop (pr_consumed res) (pr_buffer res) = ''GET''"
proof -
  have "chunks_ok [(''003;x=y'', ''abc''), (''A'', ''defghijklm'')] ''0'' [''T: v'']"
    by (simp add: chunks_ok_def spells_def parse_chunk_size_def hex_digit_def size_t_wrap_def Let_def)
  then show ?thesis
    using parse_render_chunked [of "[(''Transfer-Encoding'', ''chunked'')]" "[]" POST "''/a''"
        "''HTTP/1.1''" "[(''003;x=y'', ''abc''), (''A'', ''defghijklm'')]" "''0''" "[''T: v'']" "''GET''"]
    by (auto simp: well_formed_head_def valid_header_def request_head_def render_headers_def
        MAX_HEADER_BYTES_def MAX_BODY_BYTES_def isspace_def render_chunks_def)
qed

lemma parse_query_render_example:
  "parse_query_parameters ''/v?a=1&b=2'' request_init =
     request_init\<lparr>rq_path := ''/v'', rq_query_params := [''a'' \<mapsto> ''1'', ''b'' \<mapsto> ''2'']\<rparr>"
  using parse_query_render [of "''/v''" "[(''a'', ''1''), (''b'', ''2'')]" request_init]
  by (simp add: request_init_def fun_upd_twist)

lemma content_length_trailing_example:
  "end_of_headers parser_init (request_init\<lparr>rq_headers := [''Content-Length'' \<mapsto> dec 2 @ ''abc'']\<rparr>) =
     end_of_headers parser_init (request_init\<lparr>rq_headers := [''Content-Length'' \<mapsto> dec 2]\<rparr>)"
  using content_length_trailing [where n = 2 and rest = "''abc''" and p = parser_init
      and r = request_init and hs = Map.empty]
  by (simp add: is_digit_def)

end
