(* ===== verification/Router.thy ===== *)
theory Router
  imports Http_Enums Prelude
begin

text \<open>
  \<open>Router\<close> (\<open>include/oreshnek/server/Router.h\<close>, \<open>src/server/Router.cpp\<close>): the routing tree, the
  registration of a route and the search. A handler is a value of the type parameter. The
  iterators of the search are the segments left; the code's iterator is a local copy that it
  increments before each of its two recursive calls, so a search that comes back from the static
  child goes on behind the next segment, and incrementing the end iterator is \<^term>\<open>None\<close>.

  The abstract view is a table from patterns to handlers: \<open>node_lookup\<close>. The registration
  implements its insertion, and \<open>search\<close> is the matching the comments of the code describe.
\<close>

datatype 'h node = Node
  (children: "string \<rightharpoonup> 'h node")
  (param_child: "'h node option")
  (param_name: string)
  (handlers: "HttpMethod \<rightharpoonup> 'h")

definition empty_node :: "'h node" where
  "empty_node = Node Map.empty None [] Map.empty"

section \<open>Paths\<close>

text \<open>The \<open>while\<close> loop of \<open>split_path_to_segments\<close>, from \<open>start\<close> with the next slash at \<open>end\<close>.\<close>

function split_loop :: "string \<Rightarrow> nat \<Rightarrow> string list" where
  "split_loop path start =
     (case find_from ''/'' path start of
        Some e \<Rightarrow>
          (if start < e then [substr path start (e - start)] else []) @ split_loop path (e + 1)
      | None \<Rightarrow> if start < length path then [drop start path] else [])"
  by pat_completeness auto
termination
  by (relation "measure (\<lambda>(path, start). length path + 1 - start)") (auto dest!: find_from_bound)

declare split_loop.simps [simp del]

definition split_path_to_segments :: "string \<Rightarrow> string list" where
  "split_path_to_segments path = split_loop path 0"

section \<open>Registration\<close>

definition is_param :: "string \<Rightarrow> bool" where
  "is_param s \<longleftrightarrow> s \<noteq> [] \<and> hd s = CHR '':''"

fun add_route_recursive :: "'h node \<Rightarrow> HttpMethod \<Rightarrow> string list \<Rightarrow> 'h \<Rightarrow> 'h node" where
  "add_route_recursive (Node ch pc pn hs) m [] h = Node ch pc pn (hs(m \<mapsto> h))"
| "add_route_recursive (Node ch pc pn hs) m (s # segs) h =
     (if is_param s then
        (case pc of
           None \<Rightarrow> Node ch (Some (add_route_recursive empty_node m segs h)) (tl s) hs
         | Some p \<Rightarrow> Node ch (Some (add_route_recursive p m segs h)) pn hs)
      else
        (let c = (case ch s of None \<Rightarrow> empty_node | Some c \<Rightarrow> c)
         in Node (ch(s \<mapsto> add_route_recursive c m segs h)) pc pn hs))"

definition add_route :: "'h node \<Rightarrow> HttpMethod \<Rightarrow> string \<Rightarrow> 'h \<Rightarrow> 'h node throws" where
  "add_route root m path h =
     (if path = [] \<or> hd path \<noteq> CHR ''/'' then Inl (''Invalid route path: Must start with '' @ [SQ, CHR ''/'', SQ])
      else if path = ''/'' then
        Inr (Node (children root) (param_child root) (param_name root) ((handlers root)(m \<mapsto> h)))
      else Inr (add_route_recursive root m (split_path_to_segments (tl path)) h))"

section \<open>The search of the code\<close>

type_synonym params = "string \<rightharpoonup> string"

text \<open>
  The handler found, if any, with \<open>path_params_out\<close>. The second \<open>++path_segment_it\<close> acts on the
  iterator the static attempt has already moved.
\<close>

function match_route ::
  "'h node \<Rightarrow> string list \<Rightarrow> HttpMethod \<Rightarrow> params \<Rightarrow> ('h option \<times> params) defined" where
  "match_route n [] m ps = Some (handlers n m, ps)"
| "match_route n (s # rest) m ps =
     (case children n s of
        Some c \<Rightarrow>
          (case match_route c rest m ps of
             None \<Rightarrow> None
           | Some (Some h, ps1) \<Rightarrow> Some (Some h, ps1)
           | Some (None, ps1) \<Rightarrow>
               (case param_child n of
                  None \<Rightarrow> Some (None, ps1)
                | Some p \<Rightarrow>
                    (case rest of
                       [] \<Rightarrow> None
                     | _ # rest' \<Rightarrow>
                         (case match_route p rest' m (ps1(param_name n \<mapsto> s)) of
                            None \<Rightarrow> None
                          | Some (Some h, ps2) \<Rightarrow> Some (Some h, ps2)
                          | Some (None, ps2) \<Rightarrow> Some (None, ps2(param_name n := None))))))
      | None \<Rightarrow>
          (case param_child n of
             None \<Rightarrow> Some (None, ps)
           | Some p \<Rightarrow>
               (case match_route p rest m (ps(param_name n \<mapsto> s)) of
                  None \<Rightarrow> None
                | Some (Some h, ps2) \<Rightarrow> Some (Some h, ps2)
                | Some (None, ps2) \<Rightarrow> Some (None, ps2(param_name n := None)))))"
  by pat_completeness auto
termination
  by (relation "measure (\<lambda>(n, segs, m, ps). length segs)") auto

definition find_route ::
  "'h node \<Rightarrow> HttpMethod \<Rightarrow> string \<Rightarrow> params \<Rightarrow> ('h option \<times> params) defined" where
  "find_route root m path ps =
     (if path = [] \<or> hd path \<noteq> CHR ''/'' then Some (None, ps)
      else if path = ''/'' then Some (handlers root m, ps)
      else match_route root (split_path_to_segments (tl path)) m ps)"

section \<open>The intended search\<close>

fun search :: "'h node \<Rightarrow> string list \<Rightarrow> HttpMethod \<Rightarrow> params \<Rightarrow> ('h \<times> params) option" where
  "search n [] m ps = map_option (\<lambda>h. (h, ps)) (handlers n m)"
| "search n (s # rest) m ps =
     (case (case children n s of None \<Rightarrow> None | Some c \<Rightarrow> search c rest m ps) of
        Some r \<Rightarrow> Some r
      | None \<Rightarrow> (case param_child n of
                   None \<Rightarrow> None
                 | Some p \<Rightarrow> search p rest m (ps(param_name n \<mapsto> s))))"

text \<open>The search never goes to a parameter child after a static one.\<close>

fun no_fallback :: "'h node \<Rightarrow> string list \<Rightarrow> HttpMethod \<Rightarrow> bool" where
  "no_fallback n [] m = True"
| "no_fallback n (s # rest) m =
     (case children n s of
        Some c \<Rightarrow> no_fallback c rest m \<and>
          (param_child n = None \<or> search c rest m Map.empty \<noteq> None)
      | None \<Rightarrow> (case param_child n of None \<Rightarrow> True | Some p \<Rightarrow> no_fallback p rest m))"

lemma search_handler: "map_option fst (search n segs m ps) = map_option fst (search n segs m ps')"
proof (induction segs arbitrary: n ps ps')
  case Nil
  then show ?case by (simp add: option.map_comp comp_def)
next
  case (Cons s rest)
  let ?sub = "\<lambda>ps. case children n s of None \<Rightarrow> None | Some c \<Rightarrow> search c rest m ps"
  have sub: "map_option fst (?sub ps) = map_option fst (?sub ps')"
    using Cons.IH [of _ ps ps'] by (simp split: option.split)
  have par: "map_option fst (search p rest m (ps(param_name n \<mapsto> s))) =
      map_option fst (search p rest m (ps'(param_name n \<mapsto> s)))"
    for p :: "'a node"
    by (rule Cons.IH)
  show ?case
  proof (cases "?sub ps")
    case None
    with sub have "?sub ps' = None" by simp
    with None par show ?thesis by (simp split: option.split)
  next
    case (Some r)
    with sub obtain r' where "?sub ps' = Some r'" "fst r = fst r'" by (cases "?sub ps'") auto
    with Some show ?thesis by simp
  qed
qed

lemma search_None: "search n segs m ps = None \<longleftrightarrow> search n segs m ps' = None"
proof -
  from search_handler [of n segs m ps ps'] show ?thesis
    by (cases "search n segs m ps"; cases "search n segs m ps'") simp_all
qed

text \<open>Where the search never falls back, the code's search is the intended one.\<close>

lemma match_route_search:
  "no_fallback n segs m \<Longrightarrow>
     (case search n segs m ps of
        Some (h, ps') \<Rightarrow> match_route n segs m ps = Some (Some h, ps')
      | None \<Rightarrow> \<exists>ps'. match_route n segs m ps = Some (None, ps'))"
proof (induction n segs m arbitrary: ps rule: no_fallback.induct)
  case (1 n m)
  then show ?case by (simp split: option.splits)
next
  case (2 n s rest m)
  show ?case
  proof (cases "children n s")
    case None
    show ?thesis
    proof (cases "param_child n")
      case n: None
      with None show ?thesis by simp
    next
      case p: (Some p)
      with None "2.prems" have "no_fallback p rest m" by simp
      note ih = "2.IH"(1) [OF None p this, of "ps(param_name n \<mapsto> s)"]
      show ?thesis
      proof (cases "search p rest m (ps(param_name n \<mapsto> s))")
        case n: None
        with ih obtain ps' where "match_route p rest m (ps(param_name n \<mapsto> s)) = Some (None, ps')"
          by (auto simp del: fun_upd_apply)
        with n None p show ?thesis by (simp del: fun_upd_apply)
      next
        case (Some r)
        with ih None p show ?thesis by (cases r) (simp del: fun_upd_apply)
      qed
    qed
  next
    case (Some c)
    with "2.prems" have nf: "no_fallback c rest m" "param_child n = None \<or> search c rest m Map.empty \<noteq> None"
      by auto
    note ih = "2.IH"(2) [OF Some nf(1), of ps]
    show ?thesis
    proof (cases "search c rest m ps")
      case n: None
      with nf(2) have "param_child n = None" using search_None [of c rest m ps Map.empty] by simp
      with n ih Some show ?thesis by auto
    next
      case r: (Some r)
      with ih Some show ?thesis by (cases r) simp
    qed
  qed
qed

section \<open>The table of patterns\<close>

datatype seg_pattern = Lit string | Par

definition pattern_of :: "string list \<Rightarrow> seg_pattern list" where
  "pattern_of segs = map (\<lambda>s. if is_param s then Par else Lit s) segs"

fun node_lookup :: "'h node \<Rightarrow> seg_pattern list \<Rightarrow> HttpMethod \<Rightarrow> 'h option" where
  "node_lookup n [] m = handlers n m"
| "node_lookup n (Lit s # p) m = (case children n s of None \<Rightarrow> None | Some c \<Rightarrow> node_lookup c p m)"
| "node_lookup n (Par # p) m = (case param_child n of None \<Rightarrow> None | Some c \<Rightarrow> node_lookup c p m)"

fun matches :: "seg_pattern list \<Rightarrow> string list \<Rightarrow> bool" where
  "matches [] [] = True"
| "matches (Lit l # p) (s # segs) = (l = s \<and> matches p segs)"
| "matches (Par # p) (s # segs) = matches p segs"
| "matches _ _ = False"

text \<open>At the first segment where two patterns differ, the literal one comes first.\<close>

fun prefers :: "seg_pattern list \<Rightarrow> seg_pattern list \<Rightarrow> bool" where
  "prefers (Lit l # p) (Par # q) = True"
| "prefers (Par # p) (Lit l # q) = False"
| "prefers (x # p) (y # q) = prefers p q"
| "prefers p q = True"

lemma node_lookup_empty [simp]: "node_lookup empty_node p m = None"
  by (induction "empty_node :: 'h node" p m rule: node_lookup.induct) (simp_all add: empty_node_def)

lemma node_lookup_add:
  "node_lookup (add_route_recursive n m segs h) p m' =
     (if p = pattern_of segs \<and> m' = m then Some h else node_lookup n p m')"
proof (induction n m segs h arbitrary: p rule: add_route_recursive.induct)
  case (1 ch pc pn hs m h)
  have "p = [] \<or> (\<exists>l q. p = Lit l # q) \<or> (\<exists>q. p = Par # q)"
    by (metis list.exhaust seg_pattern.exhaust)
  then show ?case by (auto simp: pattern_of_def)
next
  case (2 ch pc pn hs m s segs h)
  show ?case
  proof (cases p)
    case Nil
    then show ?thesis by (auto simp: pattern_of_def Let_def split: option.splits)
  next
    case (Cons x q)
    show ?thesis
      by (cases x; cases "is_param s")
        (use "2.IH" Cons in \<open>auto simp: pattern_of_def Let_def split: option.splits\<close>)
  qed
qed

text \<open>The registration implements the insertion into the table.\<close>

interpretation routes: table empty_node "\<lambda>(m, segs) h n. add_route_recursive n m segs h"
  "\<lambda>n (p, m). node_lookup n p m" "\<lambda>(m, segs). (pattern_of segs, m)"
  by unfold_locales (auto simp: node_lookup_add split: if_splits)

text \<open>Routes as \<open>add_route\<close> registers them one after the other: the split path and the handler.\<close>

definition build_router :: "((HttpMethod \<times> string list) \<times> 'h) list \<Rightarrow> 'h node" where
  "build_router rs = fold (\<lambda>(d, h). (\<lambda>(m, segs) h n. add_route_recursive n m segs h) d h) rs empty_node"

lemma build_router_lookup_SomeD:
  "node_lookup (build_router rs) p m = Some h \<Longrightarrow>
     \<exists>segs. ((m, segs), h) \<in> set rs \<and> pattern_of segs = p"
  using routes.lookup_built_SomeD [of rs "(p, m)" h] by (auto simp: build_router_def)

lemma build_router_registered:
  "((m, segs), h) \<in> set rs \<Longrightarrow> node_lookup (build_router rs) (pattern_of segs) m \<noteq> None"
  using routes.lookup_built_registered [of "(m, segs)" h rs] by (auto simp: build_router_def)

section \<open>The intended search on the table\<close>

lemma search_complete:
  "matches p segs \<Longrightarrow> node_lookup n p m \<noteq> None \<Longrightarrow> search n segs m ps \<noteq> None"
proof (induction p segs arbitrary: n ps rule: matches.induct)
  case (2 l p s segs)
  then obtain c where c: "children n s = Some c" "node_lookup c p m \<noteq> None"
    by (auto split: option.splits)
  from 2 c(2) have "search c segs m ps \<noteq> None" by simp
  then obtain r where "search c segs m ps = Some r" by blast
  with c(1) show ?case by simp
next
  case (3 p s segs)
  then obtain c where c: "param_child n = Some c" "node_lookup c p m \<noteq> None"
    by (auto split: option.splits)
  with 3 have "search c segs m (ps(param_name n \<mapsto> s)) \<noteq> None" by simp
  with c show ?case by (auto split: option.splits)
qed auto

lemma search_best:
  "search n segs m ps = Some (h, ps') \<Longrightarrow>
     \<exists>p. matches p segs \<and> node_lookup n p m = Some h \<and>
       (\<forall>q. matches q segs \<and> node_lookup n q m \<noteq> None \<longrightarrow> prefers p q)"
proof (induction segs arbitrary: n ps)
  case Nil
  have "q = []" if "matches q []" for q using that by (cases "(q, [] :: string list)" rule: matches.cases) auto
  with Nil show ?case by (intro exI [of _ "[]"]) auto
next
  case (Cons s rest)
  have shape: "(\<exists>q'. q = Lit s # q' \<and> matches q' rest) \<or> (\<exists>q'. q = Par # q' \<and> matches q' rest)"
    if "matches q (s # rest)" for q
    using that by (cases "(q, s # rest)" rule: matches.cases) auto
  show ?case
  proof (cases "case children n s of None \<Rightarrow> None | Some c \<Rightarrow> search c rest m ps")
    case (Some r)
    with Cons.prems obtain c where c: "children n s = Some c" "search c rest m ps = Some (h, ps')"
      by (auto split: option.splits)
    from Cons.IH [OF c(2)] obtain p where "matches p rest" "node_lookup c p m = Some h"
      and best: "\<And>q. matches q rest \<and> node_lookup c q m \<noteq> None \<Longrightarrow> prefers p q"
      by blast
    moreover have "prefers (Lit s # p) q"
      if "matches q (s # rest)" "node_lookup n q m \<noteq> None" for q
      using shape [OF that(1)] that(2) c(1) best by (auto split: option.splits)
    ultimately show ?thesis using c(1) by (intro exI [of _ "Lit s # p"]) auto
  next
    case None
    with Cons.prems obtain c where c: "param_child n = Some c"
      "search c rest m (ps(param_name n \<mapsto> s)) = Some (h, ps')"
      by (auto split: option.splits)
    from Cons.IH [OF c(2)] obtain p where "matches p rest" "node_lookup c p m = Some h"
      and best: "\<And>q. matches q rest \<and> node_lookup c q m \<noteq> None \<Longrightarrow> prefers p q"
      by blast
    moreover have "prefers (Par # p) q"
      if q: "matches q (s # rest)" "node_lookup n q m \<noteq> None" for q
    proof -
      have "\<not> (\<exists>q'. q = Lit s # q' \<and> matches q' rest)"
      proof
        assume "\<exists>q'. q = Lit s # q' \<and> matches q' rest"
        then obtain q' d where q': "matches q' rest" "children n s = Some d" "node_lookup d q' m \<noteq> None"
          using q(2) by (auto split: option.splits)
        with None have "search d rest m ps = None" by simp
        then show False using search_complete [OF q'(1,3)] by simp
      qed
      with shape [OF q(1)] q(2) c(1) best show ?thesis by (auto split: option.splits)
    qed
    ultimately show ?thesis using c(1) by (intro exI [of _ "Par # p"]) auto
  qed
qed

section \<open>Route sets without a literal and a parameter at the same place\<close>

fun compatible :: "seg_pattern list \<Rightarrow> seg_pattern list \<Rightarrow> bool" where
  "compatible (Lit a # p) (Par # q) = False"
| "compatible (Par # p) (Lit a # q) = False"
| "compatible (Lit a # p) (Lit b # q) = (a = b \<longrightarrow> compatible p q)"
| "compatible (Par # p) (Par # q) = compatible p q"
| "compatible p q = True"

text \<open>Every node below the root leads to a handler.\<close>

inductive full :: "'h node \<Rightarrow> bool" where
  full: "(\<And>s c. children n s = Some c \<Longrightarrow> full c \<and> (\<exists>p m. node_lookup c p m \<noteq> None)) \<Longrightarrow>
     (\<And>c. param_child n = Some c \<Longrightarrow> full c \<and> (\<exists>p m. node_lookup c p m \<noteq> None)) \<Longrightarrow> full n"

inductive_cases fullE: "full n"

lemma full_empty: "full empty_node"
  by (rule full) (simp_all add: empty_node_def)

lemma full_Node:
  "(\<And>s c. ch s = Some c \<Longrightarrow> full c \<and> (\<exists>p m. node_lookup c p m \<noteq> None)) \<Longrightarrow>
   (\<And>c. pc = Some c \<Longrightarrow> full c \<and> (\<exists>p m. node_lookup c p m \<noteq> None)) \<Longrightarrow> full (Node ch pc pn hs)"
  by (rule full) simp_all

lemma full_add: "full n \<Longrightarrow> full (add_route_recursive n m segs h)"
proof (induction n m segs h rule: add_route_recursive.induct)
  case (1 ch pc pn hs m h)
  show ?case by (rule full) (use "1.prems" in \<open>auto elim: fullE\<close>)
next
  case (2 ch pc pn hs m s segs h)
  have pop: "\<exists>p m'. node_lookup (add_route_recursive c m segs h) p m' \<noteq> None" for c
    using node_lookup_add [of c m segs h "pattern_of segs" m] by auto
  from "2.prems" have
    ch: "\<And>t c. ch t = Some c \<Longrightarrow> full c \<and> (\<exists>p m. node_lookup c p m \<noteq> None)" and
    pc: "\<And>c. pc = Some c \<Longrightarrow> full c \<and> (\<exists>p m. node_lookup c p m \<noteq> None)"
    by (auto elim: fullE)
  show ?case
  proof (cases "is_param s")
    case True
    show ?thesis
    proof (cases pc)
      case None
      have "full (Node ch (Some (add_route_recursive empty_node m segs h)) (tl s) hs)"
        by (rule full_Node) (use "2.IH"(1) [OF True None full_empty] ch pop [of empty_node] in auto)
      with True None show ?thesis by simp
    next
      case (Some p)
      have "full (Node ch (Some (add_route_recursive p m segs h)) pn hs)"
        by (rule full_Node) (use "2.IH"(2) [OF True Some] pc [OF Some] ch pop [of p] in auto)
      with True Some show ?thesis by simp
    qed
  next
    case False
    let ?c = "case ch s of None \<Rightarrow> empty_node | Some c \<Rightarrow> c"
    have "full ?c" using ch full_empty by (auto split: option.splits)
    have "full (Node (ch(s \<mapsto> add_route_recursive ?c m segs h)) pc pn hs)"
      by (rule full_Node)
        (use "2.IH"(3) [OF False refl \<open>full ?c\<close>] ch pc pop [of ?c] in \<open>auto split: if_splits\<close>)
    with False show ?thesis by (simp add: Let_def)
  qed
qed

lemma full_fold:
  "full n \<Longrightarrow> full (fold (\<lambda>(d, h). (\<lambda>(m, segs) h n. add_route_recursive n m segs h) d h) rs n)"
  by (induction rs arbitrary: n) (auto simp: full_add)

lemma full_build: "full (build_router rs)"
  by (simp add: build_router_def full_fold full_empty)

definition node_compatible :: "'h node \<Rightarrow> bool" where
  "node_compatible n \<longleftrightarrow> (\<forall>p q m m'. node_lookup n p m \<noteq> None \<and> node_lookup n q m' \<noteq> None \<longrightarrow> compatible p q)"

lemma no_fallback_compatible: "full n \<Longrightarrow> node_compatible n \<Longrightarrow> no_fallback n segs m"
proof (induction n segs m rule: no_fallback.induct)
  case (1 n m)
  then show ?case by simp
next
  case (2 n s rest m)
  from "2.prems"(1) have
    ch: "\<And>t c. children n t = Some c \<Longrightarrow> full c \<and> (\<exists>p m. node_lookup c p m \<noteq> None)" and
    pc: "\<And>c. param_child n = Some c \<Longrightarrow> full c \<and> (\<exists>p m. node_lookup c p m \<noteq> None)"
    by (auto elim: fullE)
  have comp: "compatible p q" if "node_lookup n p m1 \<noteq> None" "node_lookup n q m2 \<noteq> None" for p q m1 m2
    using "2.prems"(2) that unfolding node_compatible_def by blast
  show ?case
  proof (cases "children n s")
    case None
    show ?thesis
    proof (cases "param_child n")
      case (Some c)
      have "node_compatible c"
        unfolding node_compatible_def
      proof (intro allI impI)
        fix p q m m' assume "node_lookup c p m \<noteq> None \<and> node_lookup c q m' \<noteq> None"
        with Some comp [of "Par # p" m "Par # q" m'] show "compatible p q" by simp
      qed
      with "2.IH"(1) [OF None Some] pc [OF Some] None Some show ?thesis by simp
    qed (simp add: None)
  next
    case (Some c)
    have "node_compatible c"
      unfolding node_compatible_def
    proof (intro allI impI)
      fix p q m m' assume "node_lookup c p m \<noteq> None \<and> node_lookup c q m' \<noteq> None"
      with Some comp [of "Lit s # p" m "Lit s # q" m'] show "compatible p q" by simp
    qed
    moreover have "param_child n = None"
    proof (rule ccontr)
      assume "param_child n \<noteq> None"
      then obtain d where d: "param_child n = Some d" by blast
      from ch [OF Some] pc [OF d] obtain p q m1 m2 where
        "node_lookup c p m1 \<noteq> None" "node_lookup d q m2 \<noteq> None" by blast
      with Some d comp [of "Lit s # p" m1 "Par # q" m2] show False by simp
    qed
    ultimately show ?thesis using "2.IH"(2) [OF Some] ch [OF Some] Some by simp
  qed
qed

section \<open>The loop that splits a path\<close>

fun pieces :: "string \<Rightarrow> string list" where
  "pieces [] = [[]]"
| "pieces (c # cs) =
     (if c = CHR ''/'' then [] # pieces cs
      else (case pieces cs of [] \<Rightarrow> [[c]] | p # ps \<Rightarrow> (c # p) # ps))"

definition path_segments :: "string \<Rightarrow> string list" where
  "path_segments path = filter (\<lambda>s. s \<noteq> []) (pieces path)"

lemma pieces_no_slash: "CHR ''/'' \<notin> set a \<Longrightarrow> pieces a = [a]"
  by (induction a) auto

lemma pieces_slash: "CHR ''/'' \<notin> set a \<Longrightarrow> pieces (a @ CHR ''/'' # b) = a # pieces b"
  by (induction a) auto

lemma path_segments_simps [simp]:
  "path_segments [] = []"
  "path_segments (CHR ''/'' # b) = path_segments b"
  by (simp_all add: path_segments_def)

lemma path_segments_slash:
  "path_segments (a @ CHR ''/'' # b) = path_segments a @ path_segments b"
proof (cases "CHR ''/'' \<in> set a")
  case False
  then show ?thesis by (auto simp: path_segments_def pieces_slash pieces_no_slash)
next
  case True
  then show ?thesis
  proof (induction a rule: length_induct)
    case (1 a)
    then obtain a1 a2 where a: "a = a1 @ CHR ''/'' # a2" "CHR ''/'' \<notin> set a1"
      by (meson split_list_first)
    have "path_segments (a2 @ CHR ''/'' # b) = path_segments a2 @ path_segments b"
      using 1 a by (cases "CHR ''/'' \<in> set a2")
        (auto simp: path_segments_def pieces_slash pieces_no_slash)
    then show ?case using a by (simp add: path_segments_def pieces_slash)
  qed
qed

lemma split_loop_path_segments:
  "start \<le> length path \<Longrightarrow> split_loop path start = path_segments (drop start path)"
proof (induction path start rule: split_loop.induct)
  case (1 path start)
  show ?case
  proof (cases "find_from ''/'' path start")
    case None
    then have "CHR ''/'' \<notin> set (drop start path)"
      using "1.prems" by (auto simp: find_from_def find_sub_single_None split: if_splits)
    with None show ?thesis
      by (simp add: split_loop.simps [of path start] path_segments_def pieces_no_slash)
  next
    case (Some e)
    then obtain i where i: "find_sub ''/'' (drop start path) = Some i" "e = start + i"
      by (auto simp: find_from_def split: if_splits)
    note sgl = find_sub_single [OF i(1)]
    have d: "drop start path = substr path start (e - start) @ CHR ''/'' # drop (e + 1) path"
    proof -
      have "drop start path = take i (drop start path) @ drop start path ! i # drop (Suc i) (drop start path)"
        by (rule id_take_nth_drop) (use sgl in blast)
      also have "\<dots> = substr path start (e - start) @ CHR ''/'' # drop (e + 1) path"
        using sgl i(2) by (simp add: substr_def add.commute)
      finally show ?thesis .
    qed
    have "CHR ''/'' \<notin> set (substr path start (e - start))"
      using sgl i(2) by (simp add: substr_def)
    then have "path_segments (drop start path) =
        (if substr path start (e - start) = [] then [] else [substr path start (e - start)]) @
        path_segments (drop (e + 1) path)"
      unfolding d path_segments_slash by (simp add: path_segments_def pieces_no_slash)
    moreover have "substr path start (e - start) = [] \<longleftrightarrow> \<not> start < e"
      using sgl i(2) by (auto simp: substr_def)
    moreover have "e + 1 \<le> length path" using find_from_bound [OF Some] by simp
    ultimately show ?thesis
      using "1.IH" [OF Some] Some by (simp add: split_loop.simps [of path start])
  qed
qed

lemma split_path_pieces: "split_path_to_segments path = path_segments path"
  by (simp add: split_path_to_segments_def split_loop_path_segments)

lemma find_route_segments:
  "find_route root m path ps =
     (if path = [] \<or> hd path \<noteq> CHR ''/'' then Some (None, ps)
      else match_route root (path_segments path) m ps)"
proof (cases path)
  case (Cons c cs)
  then show ?thesis by (auto simp: find_route_def split_path_pieces)
qed (simp add: find_route_def)

end
