(* ===== verification/Router_Props.thy ===== *)
theory Router_Props
  imports Router
begin

text \<open>
  The properties of the router: what it guarantees for route sets that do not mix a literal and a
  parameter at the same place, and what its search does for those that do.
\<close>

text \<open>
  C22: for a set of registered routes in which no two have a literal and a parameter at the same
  place, the search is defined, it finds only handlers of registered routes whose pattern the
  request path matches, and it finds one whenever there is one.
\<close>

theorem match_route_registered:
  assumes "\<forall>r \<in> set rs. \<forall>r' \<in> set rs. compatible (pattern_of (snd (fst r))) (pattern_of (snd (fst r')))"
  shows "case match_route (build_router rs) segs m ps of
       None \<Rightarrow> False
     | Some (Some h, ps') \<Rightarrow> \<exists>r. ((m, r), h) \<in> set rs \<and> matches (pattern_of r) segs
     | Some (None, ps') \<Rightarrow> \<forall>r h. ((m, r), h) \<in> set rs \<longrightarrow> \<not> matches (pattern_of r) segs"
proof -
  let ?n = "build_router rs"
  have "node_compatible ?n"
    unfolding node_compatible_def
  proof (intro allI impI)
    fix p q m m' assume "node_lookup ?n p m \<noteq> None \<and> node_lookup ?n q m' \<noteq> None"
    then obtain h h' where "node_lookup ?n p m = Some h" "node_lookup ?n q m' = Some h'" by blast
    from build_router_lookup_SomeD [OF this(1)] build_router_lookup_SomeD [OF this(2)]
    show "compatible p q" using assms by fastforce
  qed
  from match_route_search [OF no_fallback_compatible [OF full_build this], of segs m ps]
  have mr: "case search ?n segs m ps of
      Some (h, ps') \<Rightarrow> match_route ?n segs m ps = Some (Some h, ps')
    | None \<Rightarrow> \<exists>ps'. match_route ?n segs m ps = Some (None, ps')" .
  show ?thesis
  proof (cases "search ?n segs m ps")
    case None
    have "\<not> matches (pattern_of r) segs" if "((m, r), h) \<in> set rs" for r h
      using search_complete [OF _ build_router_registered [OF that]] None by blast
    with None mr show ?thesis by auto
  next
    case (Some hp)
    obtain h ps' where hp: "hp = (h, ps')" by (cases hp)
    from search_best [OF Some [unfolded hp]] obtain p where
      p: "matches p segs" "node_lookup ?n p m = Some h" by blast
    from build_router_lookup_SomeD [OF p(2)] p(1) Some hp mr show ?thesis by auto
  qed
qed

definition example_routes :: "((HttpMethod \<times> string list) \<times> nat) list" where
  "example_routes = [((GET, [''users'', '':id'']), 1), ((GET, [''jobs'']), 2)]"

lemma match_route_registered_witness:
  "match_route (build_router example_routes) [''users'', ''7''] GET Map.empty \<noteq> None"
proof -
  have "\<forall>r \<in> set example_routes. \<forall>r' \<in> set example_routes.
      compatible (pattern_of (snd (fst r))) (pattern_of (snd (fst r')))"
    by (simp add: example_routes_def pattern_of_def is_param_def)
  from match_route_registered [OF this, of GET "[''users'', ''7'']" Map.empty] show ?thesis
    by (cases "match_route (build_router example_routes) [''users'', ''7''] GET Map.empty")
      (simp_all only: option.case option.distinct not_False_eq_True)
qed

text \<open>
  Where the search does not fall back from a literal child to a parameter child, it returns
  the handler of the most specific registered pattern: at the first segment where another matching
  pattern differs, the one chosen has the literal.
\<close>

lemma match_route_most_specific:
  assumes "no_fallback n segs m" "match_route n segs m ps = Some (Some h, ps')"
  shows "\<exists>p. matches p segs \<and> node_lookup n p m = Some h \<and>
     (\<forall>q. matches q segs \<and> node_lookup n q m \<noteq> None \<longrightarrow> prefers p q)"
proof -
  from match_route_search [OF assms(1), of ps] assms(2) have "search n segs m ps = Some (h, ps')"
    by (auto split: option.splits)
  then show ?thesis by (rule search_best)
qed

lemma match_route_most_specific_example:
  "\<exists>p. matches p [''a''] \<and>
     node_lookup (build_router [((GET, [''a'']), 1 :: nat), ((GET, ['':x'']), 2)]) p GET = Some 1"
proof -
  let ?n = "build_router [((GET, [''a'']), 1 :: nat), ((GET, ['':x'']), 2)]"
  have "match_route ?n [''a''] GET Map.empty = Some (Some 1, Map.empty)"
    by (simp add: build_router_def is_param_def empty_node_def)
  moreover have "no_fallback ?n [''a''] GET"
    by (simp add: build_router_def is_param_def empty_node_def)
  ultimately show ?thesis using match_route_most_specific [of ?n "[''a'']" GET Map.empty 1 Map.empty] by blast
qed

text \<open>
  C23: registering routes one after the other gives the table of their patterns: a pattern and a
  method look up the handler registered last for them, and nothing else.
\<close>

theorem build_router_table:
  "node_lookup (build_router rs) p m =
     map_of (rev (map (\<lambda>((m, segs), h). ((pattern_of segs, m), h)) rs)) (p, m)"
proof -
  have "map (\<lambda>(d, v). ((\<lambda>(m, segs). (pattern_of segs, m)) d, v)) rs =
      map (\<lambda>((m, segs), h). ((pattern_of segs, m), h)) rs" by auto
  with routes.lookup_built [of rs "(p, m)"] show ?thesis by (simp add: build_router_def)
qed

text \<open>
  The loop over slash positions returns the nonempty pieces between the slashes.
\<close>

lemma split_path_spec: "split_path_to_segments path = filter (\<lambda>s. s \<noteq> []) (pieces path)"
  by (simp add: split_path_pieces path_segments_def)

text \<open>
  Repeating a slash anywhere in the path makes no difference to the route found.
\<close>

lemma find_route_double_slash:
  assumes "a = [] \<or> hd a = CHR ''/''"
  shows "find_route root m (a @ ''//'' @ b) ps = find_route root m (a @ ''/'' @ b) ps"
proof -
  have "path_segments (a @ ''//'' @ b) = path_segments (a @ ''/'' @ b)"
    using path_segments_slash [of a "CHR ''/'' # b"] path_segments_slash [of a b] by simp
  then show ?thesis using assms by (cases a) (auto simp: find_route_segments)
qed

lemma find_route_double_slash_example:
  "find_route (build_router [((GET, [''a'']), 1 :: nat)]) GET ''//a'' Map.empty =
     find_route (build_router [((GET, [''a'']), 1 :: nat)]) GET ''/a'' Map.empty"
  using find_route_double_slash [of "[]" _ GET "''a''"] by simp

text \<open>Two routes that part at the first segment, one with a literal and one with a parameter.\<close>

definition fallback_routes :: "((HttpMethod \<times> string list) \<times> nat) list" where
  "fallback_routes = [((GET, [''a'', ''x'', ''y'']), 1), ((GET, ['':p'', ''z'']), 2)]"

text \<open>
  When the literal branch fails, the search of the parameter branch skips a segment: the
  request \<open>/a/q/z\<close> of three segments is dispatched to the handler of \<open>/:p/z\<close>, whose pattern it
  does not match and which the intended search does not return.
\<close>

lemma find_route_wrong_handler:
  "find_route (build_router fallback_routes) GET ''/a/q/z'' Map.empty =
     Some (Some 2, [''p'' \<mapsto> ''a'']) \<and>
   \<not> matches (pattern_of ['':p'', ''z'']) [''a'', ''q'', ''z''] \<and>
   search (build_router fallback_routes) [''a'', ''q'', ''z''] GET Map.empty = None"
  by (simp add: find_route_def split_path_pieces path_segments_def build_router_def
      fallback_routes_def is_param_def empty_node_def pattern_of_def)

text \<open>
  When the literal branch fails at the last segment, the search increments the end iterator:
  with the routes \<open>/users/me/x\<close> and \<open>/users/:id\<close>, the request \<open>/users/me\<close> is undefined behaviour,
  though the second route matches it.
\<close>

lemma find_route_past_the_end:
  "find_route (build_router [((GET, [''users'', ''me'', ''x'']), 1 :: nat),
       ((GET, [''users'', '':id'']), 2)]) GET ''/users/me'' Map.empty = None \<and>
   matches (pattern_of [''users'', '':id'']) [''users'', ''me'']"
  by (simp add: find_route_def split_path_pieces path_segments_def build_router_def
      is_param_def empty_node_def pattern_of_def)

end
