(* ===== verification/Rate_Limiter.thy ===== *)
theory Rate_Limiter
  imports Prelude Complex_Main
begin

text \<open>
  \<open>TokenBucketLimiter\<close> (\<open>include/oreshnek/server/RateLimiter.h\<close>, \<open>src/server/RateLimiter.cpp\<close>).
  The clock is an argument of the operations, as the time the call reads. Tokens and times are
  rationals: the rounding of \<open>double\<close> is not modelled.
\<close>

record bucket =
  bk_tokens :: rat
  bk_last_refill :: rat

record limiter =
  rl_rate :: rat
  rl_burst :: rat
  rl_buckets :: "string \<rightharpoonup> bucket"

definition limiter_init :: "rat \<Rightarrow> rat \<Rightarrow> limiter" where
  "limiter_init rate_per_sec burst =
     \<lparr>rl_rate = (if 0 < rate_per_sec then rate_per_sec else 1),
      rl_burst = (if 0 < burst then burst else 1), rl_buckets = Map.empty\<rparr>"

definition refilled :: "limiter \<Rightarrow> rat \<Rightarrow> bucket \<Rightarrow> rat" where
  "refilled l now b = bk_tokens b + (now - bk_last_refill b) * rl_rate l"

definition allow :: "rat \<Rightarrow> string \<Rightarrow> limiter \<Rightarrow> bool \<times> limiter" where
  "allow now k l =
     (case rl_buckets l k of
        None \<Rightarrow> (True, l\<lparr>rl_buckets := (rl_buckets l)(k \<mapsto> \<lparr>bk_tokens = rl_burst l - 1, bk_last_refill = now\<rparr>)\<rparr>)
      | Some b \<Rightarrow>
          let tokens = min (rl_burst l) (refilled l now b) in
          if 1 \<le> tokens
          then (True, l\<lparr>rl_buckets := (rl_buckets l)(k \<mapsto> \<lparr>bk_tokens = tokens - 1, bk_last_refill = now\<rparr>)\<rparr>)
          else (False, l\<lparr>rl_buckets := (rl_buckets l)(k \<mapsto> \<lparr>bk_tokens = tokens, bk_last_refill = now\<rparr>)\<rparr>))"

definition evict_idle :: "rat \<Rightarrow> limiter \<Rightarrow> limiter" where
  "evict_idle now l =
     l\<lparr>rl_buckets := (\<lambda>k. case rl_buckets l k of
          None \<Rightarrow> None
        | Some b \<Rightarrow> if rl_burst l \<le> refilled l now b then None else Some b)\<rparr>"

section \<open>Sequences of calls\<close>

datatype limiter_op = Allow rat string | Evict rat

fun op_time :: "limiter_op \<Rightarrow> rat" where
  "op_time (Allow t k) = t"
| "op_time (Evict t) = t"

fun limiter_step :: "limiter_op \<Rightarrow> limiter \<Rightarrow> bool option \<times> limiter" where
  "limiter_step (Allow t k) l = (case allow t k l of (ok, l') \<Rightarrow> (Some ok, l'))"
| "limiter_step (Evict t) l = (None, evict_idle t l)"

text \<open>The decisions of the calls of \<open>allow\<close>, in their order, with their keys.\<close>

fun decisions :: "limiter_op list \<Rightarrow> limiter \<Rightarrow> (string \<times> bool) list" where
  "decisions [] l = []"
| "decisions (Allow t k # ops) l = (case allow t k l of (ok, l') \<Rightarrow> (k, ok) # decisions ops l')"
| "decisions (Evict t # ops) l = decisions ops (evict_idle t l)"

definition admitted :: "string \<Rightarrow> (string \<times> bool) list \<Rightarrow> nat" where
  "admitted k ds = length (filter (\<lambda>d. d = (k, True)) ds)"

section \<open>The tokens a key has\<close>

text \<open>A key without a bucket has a full one.\<close>

definition tokens_at :: "limiter \<Rightarrow> rat \<Rightarrow> string \<Rightarrow> rat" where
  "tokens_at l t k =
     (case rl_buckets l k of None \<Rightarrow> rl_burst l | Some b \<Rightarrow> min (rl_burst l) (refilled l t b))"

definition limiter_ok :: "limiter \<Rightarrow> rat \<Rightarrow> bool" where
  "limiter_ok l t \<longleftrightarrow> 0 < rl_rate l \<and> 0 < rl_burst l \<and>
     (\<forall>k b. rl_buckets l k = Some b \<longrightarrow>
        bk_last_refill b \<le> t \<and> bk_tokens b \<le> rl_burst l \<and> min 0 (rl_burst l - 1) \<le> bk_tokens b)"

lemma limiter_ok_init: "limiter_ok (limiter_init r b) t"
  by (simp add: limiter_ok_def limiter_init_def)

lemma allow_params [simp]:
  "allow t k l = (ok, l') \<Longrightarrow> rl_rate l' = rl_rate l \<and> rl_burst l' = rl_burst l"
  by (auto simp: allow_def Let_def split: option.splits if_splits)

lemma evict_params [simp]: "rl_rate (evict_idle t l) = rl_rate l" "rl_burst (evict_idle t l) = rl_burst l"
  by (simp_all add: evict_idle_def)

lemma refilled_ge:
  "limiter_ok l t \<Longrightarrow> rl_buckets l k = Some b \<Longrightarrow> t \<le> t' \<Longrightarrow> bk_tokens b \<le> refilled l t' b"
  unfolding limiter_ok_def refilled_def
  by (smt (verit) diff_ge_0_iff_ge le_add_same_cancel1 mult_nonneg_nonneg order_less_imp_le order_trans)

lemma limiter_ok_mono: "limiter_ok l t \<Longrightarrow> t \<le> t' \<Longrightarrow> limiter_ok l t'"
  by (fastforce simp: limiter_ok_def)

lemma limiter_ok_allow:
  assumes "limiter_ok l t" "t \<le> t'" "allow t' k l = (ok, l')"
  shows "limiter_ok l' t'"
proof -
  have r: "0 < rl_rate l" "0 < rl_burst l" using assms(1) by (auto simp: limiter_ok_def)
  have old: "bk_last_refill b \<le> t' \<and> bk_tokens b \<le> rl_burst l \<and> min 0 (rl_burst l - 1) \<le> bk_tokens b"
    if "rl_buckets l j = Some b" for j b
    using assms(1,2) that by (fastforce simp: limiter_ok_def)
  show ?thesis
  proof (cases "rl_buckets l k")
    case None
    with assms(3) have "l' = l\<lparr>rl_buckets := (rl_buckets l)(k \<mapsto> \<lparr>bk_tokens = rl_burst l - 1, bk_last_refill = t'\<rparr>)\<rparr>"
      by (simp add: allow_def)
    with r old show ?thesis by (auto simp: limiter_ok_def)
  next
    case (Some b)
    have "min 0 (rl_burst l - 1) \<le> refilled l t' b"
      using refilled_ge [OF assms(1) Some assms(2)] old [OF Some] by simp
    then have lo: "min 0 (rl_burst l - 1) \<le> min (rl_burst l) (refilled l t' b)"
      using r by (simp add: min_le_iff_disj)
    from assms(3) Some r old lo show ?thesis
      by (auto simp: allow_def Let_def limiter_ok_def split: if_splits)
  qed
qed

lemma limiter_ok_evict: "limiter_ok l t \<Longrightarrow> t \<le> t' \<Longrightarrow> limiter_ok (evict_idle t' l) t'"
  by (fastforce simp: limiter_ok_def evict_idle_def split: option.splits if_splits)

lemma tokens_at_bounds:
  assumes "limiter_ok l t" "t \<le> t'"
  shows "tokens_at l t' k \<le> rl_burst l" "min 0 (rl_burst l - 1) \<le> tokens_at l t' k"
proof -
  have r: "0 < rl_burst l" using assms(1) by (simp add: limiter_ok_def)
  show "tokens_at l t' k \<le> rl_burst l" by (simp add: tokens_at_def split: option.split)
  show "min 0 (rl_burst l - 1) \<le> tokens_at l t' k"
  proof (cases "rl_buckets l k")
    case (Some b)
    have "min 0 (rl_burst l - 1) \<le> bk_tokens b" using assms(1) Some by (auto simp: limiter_ok_def)
    with refilled_ge [OF assms(1) Some assms(2)] r Some show ?thesis
      by (auto simp: tokens_at_def min_def)
  qed (use r in \<open>simp add: tokens_at_def\<close>)
qed

lemma tokens_at_elapse:
  assumes "limiter_ok l t" "t \<le> t'"
  shows "tokens_at l t' k \<le> tokens_at l t k + rl_rate l * (t' - t)"
proof -
  have r: "0 \<le> rl_rate l * (t' - t)" using assms by (simp add: limiter_ok_def)
  show ?thesis
  proof (cases "rl_buckets l k")
    case (Some b)
    have "refilled l t' b = refilled l t b + rl_rate l * (t' - t)"
      by (simp add: refilled_def algebra_simps)
    with r Some show ?thesis by (auto simp: tokens_at_def min_def)
  qed (use r in \<open>simp add: tokens_at_def\<close>)
qed

lemma allow_bucket:
  assumes "allow t k l = (ok, l')"
  shows "l' = l\<lparr>rl_buckets := (rl_buckets l)(k \<mapsto>
       \<lparr>bk_tokens = tokens_at l t k - (if ok then 1 else 0), bk_last_refill = t\<rparr>)\<rparr> \<and>
     (ok \<longleftrightarrow> rl_buckets l k = None \<or> 1 \<le> tokens_at l t k)"
proof (cases "rl_buckets l k")
  case None
  with assms show ?thesis by (auto simp: allow_def tokens_at_def)
next
  case (Some b)
  then have "tokens_at l t k = min (rl_burst l) (refilled l t b)" by (simp add: tokens_at_def)
  with assms Some show ?thesis
    by (cases "1 \<le> tokens_at l t k") (auto simp: allow_def Let_def)
qed

lemma allow_tokens:
  assumes "allow t k l = (ok, l')"
  shows "tokens_at l' t j = tokens_at l t j - (if j = k \<and> ok then 1 else 0)"
    "j \<noteq> k \<Longrightarrow> tokens_at l' s j = tokens_at l s j"
proof -
  define x where "x = tokens_at l t k - (if ok then 1 else 0)"
  from allow_bucket [OF assms] have
    l': "l' = l\<lparr>rl_buckets := (rl_buckets l)(k \<mapsto> \<lparr>bk_tokens = x, bk_last_refill = t\<rparr>)\<rparr>"
    by (simp add: x_def)
  have "tokens_at l t k \<le> rl_burst l" by (simp add: tokens_at_def split: option.split)
  then have "x \<le> rl_burst l" by (auto simp: x_def)
  then have k: "tokens_at l' t k = x" by (simp add: l' tokens_at_def refilled_def)
  have other: "tokens_at l' s j = tokens_at l s j" if "j \<noteq> k" for s
    using that by (simp add: l' tokens_at_def refilled_def split: option.split)
  from k other [of t] show "tokens_at l' t j = tokens_at l t j - (if j = k \<and> ok then 1 else 0)"
    by (cases "j = k") (simp_all add: x_def)
  show "j \<noteq> k \<Longrightarrow> tokens_at l' s j = tokens_at l s j" by (rule other)
qed

lemma allow_iff:
  assumes "1 \<le> rl_burst l" "allow t k l = (ok, l')"
  shows "ok \<longleftrightarrow> 1 \<le> tokens_at l t k"
    "rl_buckets l' k = Some \<lparr>bk_tokens = tokens_at l t k - (if ok then 1 else 0), bk_last_refill = t\<rparr>"
proof -
  have "rl_buckets l k = None \<Longrightarrow> 1 \<le> tokens_at l t k" using assms(1) by (simp add: tokens_at_def)
  with allow_bucket [OF assms(2)] show "ok \<longleftrightarrow> 1 \<le> tokens_at l t k" by blast
  from allow_bucket [OF assms(2)]
  have "rl_buckets l' = (rl_buckets l)(k \<mapsto>
      \<lparr>bk_tokens = tokens_at l t k - (if ok then 1 else 0), bk_last_refill = t\<rparr>)"
    by (metis limiter.select_convs(3) limiter.surjective limiter.update_convs(3))
  then show "rl_buckets l' k = Some \<lparr>bk_tokens = tokens_at l t k - (if ok then 1 else 0), bk_last_refill = t\<rparr>"
    by simp
qed

lemma evict_tokens:
  assumes "limiter_ok l t" "t \<le> t'" "t' \<le> t''"
  shows "tokens_at (evict_idle t' l) t'' k = tokens_at l t'' k"
proof (cases "rl_buckets l k")
  case (Some b)
  have "refilled l t' b \<le> refilled l t'' b"
    using assms by (simp add: refilled_def limiter_ok_def)
  with Some show ?thesis
    by (auto simp: tokens_at_def evict_idle_def refilled_def min_def)
qed (simp add: tokens_at_def evict_idle_def)

fun in_time :: "rat \<Rightarrow> limiter_op list \<Rightarrow> bool" where
  "in_time t [] = True"
| "in_time t (op # ops) = (t \<le> op_time op \<and> in_time (op_time op) ops)"

fun end_time :: "rat \<Rightarrow> limiter_op list \<Rightarrow> rat" where
  "end_time t [] = t"
| "end_time t (op # ops) = end_time (op_time op) ops"

lemma admitted_Nil [simp]: "admitted k [] = 0"
  by (simp add: admitted_def)

lemma admitted_Cons: "admitted k ((j, ok) # ds) = admitted k ds + (if j = k \<and> ok then 1 else 0)"
  by (auto simp: admitted_def)

lemma admitted_potential:
  "limiter_ok l t \<Longrightarrow> in_time t ops \<Longrightarrow>
     of_nat (admitted k (decisions ops l)) + min 0 (rl_burst l - 1) \<le>
       tokens_at l t k + rl_rate l * (end_time t ops - t)"
proof (induction ops l arbitrary: t rule: decisions.induct)
  case (1 l)
  then show ?case using tokens_at_bounds(2) [OF "1.prems"(1) order_refl, of k] by simp
next
  case (2 s j ops l)
  obtain ok l' where a: "allow s j l = (ok, l')" by fastforce
  from "2.prems" have s: "t \<le> s" "in_time s ops" by simp_all
  let ?e = "end_time s ops" and ?one = "if j = k \<and> ok then 1 else 0 :: rat"
  have split: "rl_rate l * (?e - t) = rl_rate l * (?e - s) + rl_rate l * (s - t)"
    by (simp add: algebra_simps)
  have adm: "of_nat (admitted k (decisions (Allow s j # ops) l)) =
      of_nat (admitted k (decisions ops l')) + ?one"
    using a by (auto simp: admitted_Cons)
  have "of_nat (admitted k (decisions ops l')) + min 0 (rl_burst l - 1) \<le>
      tokens_at l' s k + rl_rate l * (?e - s)"
    using "2.IH" [OF a [symmetric] limiter_ok_allow [OF "2.prems"(1) s(1) a] s(2)] allow_params [OF a]
    by simp
  with allow_tokens(1) [OF a, of k] tokens_at_elapse [OF "2.prems"(1) s(1), of k] split adm
  show ?case by (cases "j = k \<and> ok") auto
next
  case (3 s ops l)
  from "3.prems" have s: "t \<le> s" "in_time s ops" by simp_all
  have "rl_rate l * (end_time s ops - t) = rl_rate l * (end_time s ops - s) + rl_rate l * (s - t)"
    by (simp add: algebra_simps)
  with "3.IH" [OF limiter_ok_evict [OF "3.prems"(1) s(1)] s(2)]
    evict_tokens [OF "3.prems"(1) s(1) order_refl, of k] tokens_at_elapse [OF "3.prems"(1) s(1), of k]
  show ?case by simp
qed

text \<open>Two limiters that give every key the same tokens from now on.\<close>

definition same_tokens :: "limiter \<Rightarrow> limiter \<Rightarrow> rat \<Rightarrow> bool" where
  "same_tokens l1 l2 t \<longleftrightarrow> rl_rate l1 = rl_rate l2 \<and> rl_burst l1 = rl_burst l2 \<and>
     (\<forall>k s. t \<le> s \<longrightarrow> tokens_at l1 s k = tokens_at l2 s k)"

lemma same_tokens_allow:
  assumes "same_tokens l1 l2 t" "1 \<le> rl_burst l1" "t \<le> s"
    "allow s k l1 = (ok1, l1')" "allow s k l2 = (ok2, l2')"
  shows "ok1 = ok2" "same_tokens l1' l2' s"
proof -
  have eq: "tokens_at l1 s k = tokens_at l2 s k" and p: "rl_rate l1 = rl_rate l2" "rl_burst l1 = rl_burst l2"
    using assms(1,3) by (auto simp: same_tokens_def)
  have b2: "1 \<le> rl_burst l2" using assms(2) p by simp
  show ok: "ok1 = ok2" using allow_iff(1) [OF assms(2,4)] allow_iff(1) [OF b2 assms(5)] eq by simp
  have k: "rl_buckets l1' k = rl_buckets l2' k"
    using allow_iff(2) [OF assms(2,4)] allow_iff(2) [OF b2 assms(5)] eq ok by simp
  have "tokens_at l1' u j = tokens_at l2' u j" if "s \<le> u" for u j
  proof (cases "j = k")
    case True
    with k p assms(4,5) show ?thesis by (auto simp: tokens_at_def refilled_def split: option.splits)
  next
    case False
    have "tokens_at l1 u j = tokens_at l2 u j" using assms(1,3) that by (auto simp: same_tokens_def)
    with allow_tokens(2) [OF assms(4) False] allow_tokens(2) [OF assms(5) False] show ?thesis by simp
  qed
  with p assms(4,5) show "same_tokens l1' l2' s" by (simp add: same_tokens_def)
qed

definition is_allow :: "limiter_op \<Rightarrow> bool" where
  "is_allow op = (case op of Allow t k \<Rightarrow> True | Evict t \<Rightarrow> False)"

lemma decisions_evict:
  "same_tokens l1 l2 t \<Longrightarrow> limiter_ok l1 t \<Longrightarrow> 1 \<le> rl_burst l1 \<Longrightarrow> in_time t ops \<Longrightarrow>
     decisions ops l1 = decisions (filter is_allow ops) l2"
proof (induction ops l1 arbitrary: l2 t rule: decisions.induct)
  case (1 l)
  then show ?case by simp
next
  case (2 s k ops l)
  obtain ok1 l1' ok2 l2' where a: "allow s k l = (ok1, l1')" "allow s k l2 = (ok2, l2')" by fastforce
  have s: "t \<le> s" "in_time s ops" using "2.prems"(4) by simp_all
  note st = same_tokens_allow [OF "2.prems"(1,3) s(1) a]
  have "1 \<le> rl_burst l1'" using "2.prems"(3) a(1) by simp
  from "2.IH" [OF a(1) [symmetric] st(2) limiter_ok_allow [OF "2.prems"(2) s(1) a(1)] this s(2)]
    st(1) a show ?case by (simp add: is_allow_def)
next
  case (3 s ops l)
  have s: "t \<le> s" "in_time s ops" using "3.prems"(4) by simp_all
  have "same_tokens (evict_idle s l) l2 s"
    using "3.prems"(1) s(1) evict_tokens [OF "3.prems"(2) s(1)] by (auto simp: same_tokens_def)
  from "3.IH" [OF this limiter_ok_evict [OF "3.prems"(2) s(1)] _ s(2)] "3.prems"(3)
  show ?case by (simp add: is_allow_def)
qed

section \<open>Properties\<close>

text \<open>
  C33: whatever the calls for other keys and the evictions in between, the calls of one key that
  are admitted from time \<open>t\<close> on are at most \<open>max(1, burst)\<close> and the rate times the time elapsed. The
  one is needed: the first call of a key is admitted whatever the burst, also when the burst, which
  the constructor takes as it is, is less than the one token a call costs.
\<close>

theorem rate_limit_bound:
  assumes "in_time t ops" "0 < rate" "0 < burst"
  shows "of_nat (admitted k (decisions ops (limiter_init rate burst))) \<le>
     max 1 burst + rate * (end_time t ops - t)"
proof -
  let ?l = "limiter_init rate burst"
  have p: "rl_rate ?l = rate" "rl_burst ?l = burst" "tokens_at ?l t k = burst"
    using assms(2,3) by (simp_all add: limiter_init_def tokens_at_def)
  from admitted_potential [OF limiter_ok_init assms(1), of k rate burst] show ?thesis
    unfolding p by (auto simp: min_def max_def split: if_splits)
qed

lemma rate_limit_bound_witness:
  "of_nat (admitted ''a'' (decisions [Allow 0 ''a'', Allow 0 ''b'', Allow 0 ''a'', Allow 1 ''a'']
       (limiter_init 1 1))) \<le> (2 :: rat)"
  using rate_limit_bound [of 0 "[Allow 0 ''a'', Allow 0 ''b'', Allow 0 ''a'', Allow 1 ''a'']" 1 1 "''a''"]
  by simp

text \<open>
  With a burst of at least one token the eviction of idle buckets cannot be observed: the
  decisions of any sequence of calls are those of the same calls without the evictions.
\<close>

lemma evict_idle_transparent:
  assumes "in_time t ops" "1 \<le> burst"
  shows "decisions ops (limiter_init rate burst) =
     decisions (filter is_allow ops) (limiter_init rate burst)"
  by (rule decisions_evict [OF _ limiter_ok_init _ assms(1)])
    (use assms(2) in \<open>simp_all add: same_tokens_def limiter_init_def\<close>)

lemma evict_idle_transparent_example:
  "decisions [Allow 0 ''a'', Evict 2, Allow 2 ''a''] (limiter_init 1 1) =
     decisions [Allow 0 ''a'', Allow 2 ''a''] (limiter_init 1 1)"
  using evict_idle_transparent [of 0 "[Allow 0 ''a'', Evict 2, Allow 2 ''a'']" 1 1]
  by (simp add: is_allow_def)

text \<open>
  A key that has made no call for the time one token takes to refill is admitted, for a burst
  of at least one.
\<close>

lemma allow_after_refill:
  assumes "limiter_ok l t" "1 \<le> rl_burst l" "1 \<le> rl_rate l * (t' - t)" "t \<le> t'"
  shows "fst (allow t' k l)"
proof -
  obtain ok l' where a: "allow t' k l = (ok, l')" by fastforce
  have "1 \<le> tokens_at l t' k"
  proof (cases "rl_buckets l k")
    case (Some b)
    have b: "bk_last_refill b \<le> t" "min 0 (rl_burst l - 1) \<le> bk_tokens b" "0 < rl_rate l"
      using assms(1) Some by (auto simp: limiter_ok_def)
    then have "rl_rate l * (t' - t) \<le> rl_rate l * (t' - bk_last_refill b)" by simp
    moreover have "0 \<le> bk_tokens b" using b(2) assms(2) by simp
    ultimately have "1 \<le> refilled l t' b" using assms(3) by (simp add: refilled_def mult.commute)
    with Some assms(2) show ?thesis by (simp add: tokens_at_def)
  qed (use assms(2) in \<open>simp add: tokens_at_def\<close>)
  with allow_iff(1) [OF assms(2) a] a show ?thesis by simp
qed

lemma allow_after_refill_example: "fst (allow 1 ''a'' (snd (allow 0 ''a'' (limiter_init 1 1))))"
proof -
  obtain ok l where a: "allow 0 ''a'' (limiter_init 1 1) = (ok, l)" by fastforce
  have "limiter_ok l 0" by (rule limiter_ok_allow [OF limiter_ok_init [of _ _ 0] _ a]) simp
  with allow_after_refill [of l 0 1 "''a''"] allow_params [OF a] a show ?thesis
    by (simp add: limiter_init_def)
qed

text \<open>
  With a burst below one token, which the constructor accepts, a known key is never admitted
  while its bucket is kept, however long it waits; the eviction of the bucket admits it again.
\<close>

lemma burst_below_one:
  assumes "rl_burst l < 1" "rl_buckets l k = Some b"
  shows "\<not> fst (allow t k l) \<and>
     (rl_burst l \<le> refilled l t b \<longrightarrow> fst (allow t k (evict_idle t l)))"
  using assms by (auto simp: allow_def evict_idle_def Let_def)

lemma burst_below_one_example:
  "\<not> fst (allow 10 ''a'' (snd (allow 0 ''a'' (limiter_init 1 (1 / 2)))))"
proof -
  let ?l = "snd (allow 0 ''a'' (limiter_init 1 (1 / 2)))"
  have "rl_burst ?l < 1" "rl_buckets ?l ''a'' = Some \<lparr>bk_tokens = 1 / 2 - 1, bk_last_refill = 0\<rparr>"
    by (simp_all add: allow_def limiter_init_def)
  from burst_below_one [OF this] show ?thesis by blast
qed

end
