(* ===== verification/Base64url.thy ===== *)
theory Base64url
  imports Prelude "HOL-Library.Word"
begin

text \<open>
  \<open>SecurityUtils::base64url_encode\<close> and \<open>base64url_decode\<close>
  (\<open>src/platform/SecurityUtils.cpp\<close>). The accumulator \<open>val\<close> is an \<open>int\<close> whose high bits the
  shifts push out: a 32-bit word, read with the arithmetic shift. \<open>valb\<close> is the number of bits
  pending, less one symbol.
\<close>

unbundle bit_operations_syntax

definition b64_alphabet :: string where
  "b64_alphabet = ''ABCDEFGHIJKLMNOPQRSTUVWXYZabcdefghijklmnopqrstuvwxyz0123456789-_''"

definition b64_symbol :: "32 word \<Rightarrow> int \<Rightarrow> char" where
  "b64_symbol val n = b64_alphabet ! unat (signed_drop_bit (nat n) val AND 0x3F)"

text \<open>The inner loop \<open>while (valb >= 0)\<close>: the symbols it appends and \<open>valb\<close> after it.\<close>

function b64_flush :: "32 word \<Rightarrow> int \<Rightarrow> string \<times> int" where
  "b64_flush val valb =
     (if 0 \<le> valb
      then (case b64_flush val (valb - 6) of (cs, vb) \<Rightarrow> (b64_symbol val valb # cs, vb))
      else ([], valb))"
  by pat_completeness auto
termination
  by (relation "measure (\<lambda>(val, valb). nat (valb + 1))") auto

declare b64_flush.simps [simp del]

fun b64_encode_loop :: "32 word \<Rightarrow> int \<Rightarrow> string \<Rightarrow> string \<times> 32 word \<times> int" where
  "b64_encode_loop val valb [] = ([], val, valb)"
| "b64_encode_loop val valb (c # cs) =
     (let val' = push_bit 8 val + of_nat (ord c) in
      case b64_flush val' (valb + 8) of
        (out, valb') \<Rightarrow>
          (case b64_encode_loop val' valb' cs of (rest, v, vb) \<Rightarrow> (out @ rest, v, vb)))"

definition base64url_encode :: "string \<Rightarrow> string" where
  "base64url_encode input =
     (case b64_encode_loop 0 (- 6) input of
        (enc, val, valb) \<Rightarrow>
          if - 6 < valb then enc @ [b64_symbol (push_bit 8 val) (valb + 8)] else enc)"

text \<open>The table of the decoder: the position of a byte in the alphabet.\<close>

definition b64_table :: "char \<Rightarrow> nat option" where
  "b64_table c = find_sub [c] b64_alphabet"

fun b64_decode_loop :: "32 word \<Rightarrow> int \<Rightarrow> string \<Rightarrow> string" where
  "b64_decode_loop val valb [] = []"
| "b64_decode_loop val valb (c # cs) =
     (if c = CHR ''='' then []
      else case b64_table c of
        None \<Rightarrow> []
      | Some d \<Rightarrow>
          let val' = push_bit 6 val + of_nat d; valb' = valb + 6 in
          if 0 \<le> valb'
          then char_of (unat (signed_drop_bit (nat valb') val' AND 0xFF)) #
               b64_decode_loop val' (valb' - 8) cs
          else b64_decode_loop val' valb' cs)"

definition base64url_decode :: "string \<Rightarrow> string" where
  "base64url_decode input = b64_decode_loop 0 (- 8) input"

section \<open>The accumulator\<close>

text \<open>Of the accumulator only the bits that a symbol or a byte reads matter.\<close>

lemma signed_shift_mask:
  fixes v :: "32 word"
  assumes "n + k \<le> 32"
  shows "unat (take_bit k (signed_drop_bit n v)) = unat v div 2 ^ n mod 2 ^ k"
proof -
  have "take_bit k (signed_drop_bit n v) = take_bit k (drop_bit n v)"
    by (rule bit_eqI) (use assms in \<open>auto simp: bit_take_bit_iff bit_signed_drop_bit_iff bit_drop_bit_eq\<close>)
  moreover have "take_bit LENGTH(32) (unat v) = unat v"
    by (rule take_bit_nat_eq_self) (rule unsigned_less)
  ultimately have "unat (take_bit k (signed_drop_bit n v)) = take_bit k (drop_bit n (unat v))"
    by (simp only: unsigned_take_bit_eq unsigned_drop_bit_eq)
  then show ?thesis by (simp only: take_bit_eq_mod drop_bit_eq_div)
qed

lemma low_bits: "(x :: 32 word) AND 0x3F = take_bit 6 x" "x AND 0xFF = take_bit 8 x"
  by (simp_all only: take_bit_eq_mask mask_eq_exp_minus_1) simp_all

lemma b64_symbol_value:
  "0 \<le> n \<Longrightarrow> n \<le> 26 \<Longrightarrow> b64_symbol v n = b64_alphabet ! (unat v div 2 ^ nat n mod 64)"
  using signed_shift_mask [of "nat n" 6 v] by (simp only: b64_symbol_def low_bits) simp

lemma b64_byte_value:
  "0 \<le> n \<Longrightarrow> n \<le> 24 \<Longrightarrow>
     unat (signed_drop_bit (nat n) (v :: 32 word) AND 0xFF) = unat v div 2 ^ nat n mod 256"
  using signed_shift_mask [of "nat n" 8 v] by (simp only: low_bits) simp

definition wrap32 :: "nat \<Rightarrow> nat" where "wrap32 n = n mod 2 ^ 32"

lemma unat_push8: "unat (push_bit 8 (v :: 32 word) + of_nat n) = wrap32 (unat v * 256 + n)"
proof -
  have "push_bit 8 v + of_nat n = of_nat (unat v * 256 + n)"
    by (simp add: push_bit_eq_mult)
  then show ?thesis by (simp only: unat_of_nat wrap32_def) simp
qed

lemma unat_push6: "unat (push_bit 6 (v :: 32 word) + of_nat n) = wrap32 (unat v * 64 + n)"
proof -
  have "push_bit 6 v + of_nat n = of_nat (unat v * 64 + n)"
    by (simp add: push_bit_eq_mult)
  then show ?thesis by (simp only: unat_of_nat wrap32_def) simp
qed

lemma wrap32_div:
  assumes "k + j \<le> 32"
  shows "wrap32 x div 2 ^ k mod 2 ^ j = x div 2 ^ k mod 2 ^ j"
proof -
  have "take_bit j (drop_bit k (take_bit 32 x)) = take_bit j (drop_bit k x)"
    by (rule bit_eqI) (use assms in \<open>auto simp: bit_take_bit_iff bit_drop_bit_eq\<close>)
  then show ?thesis by (simp only: wrap32_def take_bit_eq_mod drop_bit_eq_div)
qed

lemma wrap32_divs:
  "wrap32 x div 4 mod 64 = x div 4 mod 64" "wrap32 x div 16 mod 64 = x div 16 mod 64"
  "wrap32 x div 64 mod 64 = x div 64 mod 64" "wrap32 x mod 64 = x mod 64"
  "wrap32 x mod 4 = x mod 4" "wrap32 x mod 16 = x mod 16"
  "wrap32 x div 16 mod 256 = x div 16 mod 256" "wrap32 x div 4 mod 256 = x div 4 mod 256"
  "wrap32 x mod 256 = x mod 256"
proof -
  have p: "4 = (2 ^ 2 :: nat)" "16 = (2 ^ 4 :: nat)" "64 = (2 ^ 6 :: nat)" "256 = (2 ^ 8 :: nat)"
    by simp_all
  show "wrap32 x div 4 mod 64 = x div 4 mod 64" unfolding p by (rule wrap32_div) simp
  show "wrap32 x div 16 mod 64 = x div 16 mod 64" unfolding p by (rule wrap32_div) simp
  show "wrap32 x div 64 mod 64 = x div 64 mod 64" unfolding p by (rule wrap32_div) simp
  show "wrap32 x mod 64 = x mod 64" using wrap32_div [of 0 6 x] by simp
  show "wrap32 x mod 4 = x mod 4" using wrap32_div [of 0 2 x] by simp
  show "wrap32 x mod 16 = x mod 16" using wrap32_div [of 0 4 x] by simp
  show "wrap32 x div 16 mod 256 = x div 16 mod 256" unfolding p by (rule wrap32_div) simp
  show "wrap32 x div 4 mod 256 = x div 4 mod 256" unfolding p by (rule wrap32_div) simp
  show "wrap32 x mod 256 = x mod 256" using wrap32_div [of 0 8 x] by simp
qed

section \<open>The encoding of RFC 4648\<close>

fun b64_spec :: "string \<Rightarrow> string" where
  "b64_spec (a # b # c # s) =
     b64_alphabet ! (ord a div 4) # b64_alphabet ! (ord a mod 4 * 16 + ord b div 16) #
     b64_alphabet ! (ord b mod 16 * 4 + ord c div 64) # b64_alphabet ! (ord c mod 64) # b64_spec s"
| "b64_spec [a, b] =
     [b64_alphabet ! (ord a div 4), b64_alphabet ! (ord a mod 4 * 16 + ord b div 16),
      b64_alphabet ! (ord b mod 16 * 4)]"
| "b64_spec [a] = [b64_alphabet ! (ord a div 4), b64_alphabet ! (ord a mod 4 * 16)]"
| "b64_spec [] = []"

lemma ord_less: "ord c < 256"
  using mod_less_divisor [of 256 "ord c"] by (simp only: of_char_mod_256)

text \<open>Bits below a shifted value.\<close>

lemma shifted_div: "0 < m \<Longrightarrow> (v * (k * m) + q) div m = v * k + q div (m :: nat)"
  by (simp add: mult.assoc [symmetric])

lemma shifted_mod:
  assumes "q < m"
  shows "(v * m + q) mod (n * m) = v mod n * m + (q :: nat)"
proof -
  have "(v * m + q) div m = v" "(v * m + q) mod m = q" using assms by simp_all
  then show ?thesis using mod_mult2_eq [of "v * m + q" m n] by (simp add: mult.commute)
qed

text \<open>The steps of a group of three bytes, for any accumulator.\<close>

lemma push8_values:
  fixes v :: "32 word"
  assumes "a < 256"
  shows "unat (push_bit 8 v + of_nat a) div 4 mod 64 = a div 4"
    "unat (push_bit 8 v + of_nat a) div 16 mod 64 = unat v mod 4 * 16 + a div 16"
    "unat (push_bit 8 v + of_nat a) div 64 mod 64 = unat v mod 16 * 4 + a div 64"
    "unat (push_bit 8 v + of_nat a) mod 64 = a mod 64"
    "unat (push_bit 8 v + of_nat a) mod 4 = a mod 4"
    "unat (push_bit 8 v + of_nat a) mod 16 = a mod 16"
proof -
  have d: "(unat v * 256 + a) div 4 = unat v * 64 + a div 4"
    "(unat v * 256 + a) div 16 = unat v * 16 + a div 16"
    "(unat v * 256 + a) div 64 = unat v * 4 + a div 64"
    using shifted_div [of 4 "unat v" 64 a] shifted_div [of 16 "unat v" 16 a]
      shifted_div [of 64 "unat v" 4 a] by simp_all
  have q: "a div 4 < 64" "a div 16 < 16" "a div 64 < 4" using assms by simp_all
  show "unat (push_bit 8 v + of_nat a) div 4 mod 64 = a div 4"
    unfolding unat_push8 wrap32_divs d using q(1) by simp
  show "unat (push_bit 8 v + of_nat a) div 16 mod 64 = unat v mod 4 * 16 + a div 16"
    unfolding unat_push8 wrap32_divs d using shifted_mod [OF q(2), of "unat v" 4] by simp
  show "unat (push_bit 8 v + of_nat a) div 64 mod 64 = unat v mod 16 * 4 + a div 64"
    unfolding unat_push8 wrap32_divs d using shifted_mod [OF q(3), of "unat v" 16] by simp
  have "unat v * 256 + a = (unat v * 4) * 64 + a" by simp
  then show "unat (push_bit 8 v + of_nat a) mod 64 = a mod 64"
    unfolding unat_push8 wrap32_divs by (metis mod_mult_self3)
  have "unat v * 256 + a = (unat v * 64) * 4 + a" by simp
  then show "unat (push_bit 8 v + of_nat a) mod 4 = a mod 4"
    unfolding unat_push8 wrap32_divs by (metis mod_mult_self3)
  have "unat v * 256 + a = (unat v * 16) * 16 + a" by simp
  then show "unat (push_bit 8 v + of_nat a) mod 16 = a mod 16"
    unfolding unat_push8 wrap32_divs by (metis mod_mult_self3)
qed

lemma b64_flush_simps:
  "b64_flush v 2 = ([b64_alphabet ! (unat v div 4 mod 64)], - 4)"
  "b64_flush v 4 = ([b64_alphabet ! (unat v div 16 mod 64)], - 2)"
  "b64_flush v 6 = ([b64_alphabet ! (unat v div 64 mod 64), b64_alphabet ! (unat v mod 64)], - 6)"
  by (simp_all add: b64_flush.simps [of _ 2] b64_flush.simps [of _ 4] b64_flush.simps [of _ 6]
      b64_flush.simps [of _ 0] b64_flush.simps [of _ "- 4"] b64_flush.simps [of _ "- 2"]
      b64_flush.simps [of _ "- 6"] b64_symbol_value)

text \<open>The code computes the encoding of the specification.\<close>

lemma b64_encode_loop_step:
  "b64_encode_loop v (- 6) (a # s) =
     (case b64_encode_loop (push_bit 8 v + of_nat (ord a)) (- 4) s of
        (out, w, vb) \<Rightarrow> (b64_alphabet ! (ord a div 4) # out, w, vb))"
  "b64_encode_loop v (- 4) (a # s) =
     (case b64_encode_loop (push_bit 8 v + of_nat (ord a)) (- 2) s of
        (out, w, vb) \<Rightarrow> (b64_alphabet ! (unat v mod 4 * 16 + ord a div 16) # out, w, vb))"
  "b64_encode_loop v (- 2) (a # s) =
     (case b64_encode_loop (push_bit 8 v + of_nat (ord a)) (- 6) s of
        (out, w, vb) \<Rightarrow> (b64_alphabet ! (unat v mod 16 * 4 + ord a div 64) #
                          b64_alphabet ! (ord a mod 64) # out, w, vb))"
  by (simp_all add: Let_def b64_flush_simps push8_values [OF ord_less] split: prod.split)

declare b64_encode_loop.simps(2) [simp del]

lemma b64_encode_loop_spec:
  "(case b64_encode_loop v (- 6) s of
      (enc, val, valb) \<Rightarrow>
        if - 6 < valb then enc @ [b64_symbol (push_bit 8 val) (valb + 8)] else enc) = b64_spec s"
proof (induction s arbitrary: v rule: b64_spec.induct)
  case (1 a b c s)
  let ?v = "push_bit 8 (push_bit 8 (push_bit 8 v + of_nat (ord a)) + of_nat (ord b)) + of_nat (ord c)"
  from "1.IH" [of ?v] show ?case
    by (simp add: b64_encode_loop_step push8_values [OF ord_less] split: prod.splits if_splits)
next
  case (2 a b)
  let ?v = "push_bit 8 (push_bit 8 v + of_nat (ord a)) + of_nat (ord b)"
  have "b64_symbol (push_bit 8 ?v) 6 = b64_alphabet ! (ord b mod 16 * 4)"
    using push8_values(3) [of 0 ?v] push8_values(6) [OF ord_less, of "push_bit 8 v + of_nat (ord a)" b]
    by (simp add: b64_symbol_value)
  then show ?case
    by (simp add: b64_encode_loop_step push8_values [OF ord_less])
next
  case (3 a)
  let ?v = "push_bit 8 v + of_nat (ord a)"
  have "b64_symbol (push_bit 8 ?v) 4 = b64_alphabet ! (ord a mod 4 * 16)"
    using push8_values(2) [of 0 ?v] push8_values(5) [OF ord_less, of v a]
    by (simp add: b64_symbol_value)
  then show ?case
    by (simp add: b64_encode_loop_step)
qed simp

lemma base64url_encode_eq: "base64url_encode s = b64_spec s"
  unfolding base64url_encode_def by (rule b64_encode_loop_spec)

section \<open>Decoding\<close>

lemma find_sub_nth: "distinct xs \<Longrightarrow> d < length xs \<Longrightarrow> find_sub [xs ! d] xs = Some d"
proof (induction xs arbitrary: d)
  case (Cons x xs)
  then show ?case by (cases d) auto
qed simp

lemma b64_alphabet_facts: "length b64_alphabet = 64" "distinct b64_alphabet"
  "CHR ''='' \<notin> set b64_alphabet" "CHR ''.'' \<notin> set b64_alphabet" "CHR ''$'' \<notin> set b64_alphabet"
  by (simp_all add: b64_alphabet_def)

lemma b64_table_alphabet: "d < 64 \<Longrightarrow> b64_table (b64_alphabet ! d) = Some d"
  by (simp add: b64_table_def find_sub_nth b64_alphabet_facts)

lemma b64_alphabet_not_pad: "d < 64 \<Longrightarrow> b64_alphabet ! d \<noteq> CHR ''=''"
  using b64_alphabet_facts nth_mem by metis

lemma push6_values:
  fixes v :: "32 word"
  assumes "d < 64"
  shows "unat (push_bit 6 v + of_nat d) div 16 mod 256 = unat v mod 64 * 4 + d div 16"
    "unat (push_bit 6 v + of_nat d) div 4 mod 256 = unat v mod 16 * 16 + d div 4"
    "unat (push_bit 6 v + of_nat d) mod 256 = unat v mod 4 * 64 + d"
    "unat (push_bit 6 v + of_nat d) mod 64 = d"
    "unat (push_bit 6 v + of_nat d) mod 16 = d mod 16"
    "unat (push_bit 6 v + of_nat d) mod 4 = d mod 4"
proof -
  have e: "(unat v * 64 + d) div 16 = unat v * 4 + d div 16" "(unat v * 64 + d) div 4 = unat v * 16 + d div 4"
    using shifted_div [of 16 "unat v" 4 d] shifted_div [of 4 "unat v" 16 d] by simp_all
  have q: "d div 16 < 4" "d div 4 < 16" using assms by simp_all
  show "unat (push_bit 6 v + of_nat d) div 16 mod 256 = unat v mod 64 * 4 + d div 16"
    unfolding unat_push6 wrap32_divs e using shifted_mod [OF q(1), of "unat v" 64] by simp
  show "unat (push_bit 6 v + of_nat d) div 4 mod 256 = unat v mod 16 * 16 + d div 4"
    unfolding unat_push6 wrap32_divs e using shifted_mod [OF q(2), of "unat v" 16] by simp
  show "unat (push_bit 6 v + of_nat d) mod 256 = unat v mod 4 * 64 + d"
    unfolding unat_push6 wrap32_divs using shifted_mod [OF assms, of "unat v" 4] by simp
  show "unat (push_bit 6 v + of_nat d) mod 64 = d"
    unfolding unat_push6 wrap32_divs using assms by simp
  have "unat v * 64 + d = (unat v * 4) * 16 + d" by simp
  then show "unat (push_bit 6 v + of_nat d) mod 16 = d mod 16"
    unfolding unat_push6 wrap32_divs by (metis mod_mult_self3)
  have "unat v * 64 + d = (unat v * 16) * 4 + d" by simp
  then show "unat (push_bit 6 v + of_nat d) mod 4 = d mod 4"
    unfolding unat_push6 wrap32_divs by (metis mod_mult_self3)
qed

lemma b64_decode_loop_step:
  assumes "d < 64"
  shows "b64_decode_loop v (- 8) (b64_alphabet ! d # s) = b64_decode_loop (push_bit 6 v + of_nat d) (- 2) s"
    "b64_decode_loop v (- 2) (b64_alphabet ! d # s) =
       char_of (unat v mod 64 * 4 + d div 16) # b64_decode_loop (push_bit 6 v + of_nat d) (- 4) s"
    "b64_decode_loop v (- 4) (b64_alphabet ! d # s) =
       char_of (unat v mod 16 * 16 + d div 4) # b64_decode_loop (push_bit 6 v + of_nat d) (- 6) s"
    "b64_decode_loop v (- 6) (b64_alphabet ! d # s) =
       char_of (unat v mod 4 * 64 + d) # b64_decode_loop (push_bit 6 v + of_nat d) (- 8) s"
  using assms b64_byte_value [of 4 "push_bit 6 v + of_nat d"] b64_byte_value [of 2 "push_bit 6 v + of_nat d"]
    b64_byte_value [of 0 "push_bit 6 v + of_nat d"]
  by (simp_all add: b64_table_alphabet b64_alphabet_not_pad Let_def push6_values)

declare b64_decode_loop.simps(2) [simp del]

lemma digit_bounds:
  fixes a b c :: nat
  assumes "a < 256" "b < 256" "c < 256"
  shows "a div 4 < 64" "a mod 4 * 16 + b div 16 < 64" "b mod 16 * 4 + c div 64 < 64" "c mod 64 < 64"
    "a mod 4 * 16 < 64" "b mod 16 * 4 < 64"
proof -
  have "a div 4 < 64" "b div 16 < 16" "c div 64 < 4" "a mod 4 < 4" "b mod 16 < 16" "c mod 64 < 64"
    using assms by simp_all
  then show "a div 4 < 64" "a mod 4 * 16 + b div 16 < 64" "b mod 16 * 4 + c div 64 < 64" "c mod 64 < 64"
    "a mod 4 * 16 < 64" "b mod 16 * 4 < 64"
    by linarith+
qed

lemma digit_values:
  fixes a b c :: nat
  assumes "a < 256" "b < 256" "c < 256"
  shows "a div 4 * 4 + (a mod 4 * 16 + b div 16) div 16 = a"
    "(a mod 4 * 16 + b div 16) mod 16 * 16 + (b mod 16 * 4 + c div 64) div 4 = b"
    "(b mod 16 * 4 + c div 64) mod 4 * 64 + c mod 64 = c"
    "(a mod 4 * 16 + b div 16) mod 16 * 16 + b mod 16 * 4 div 4 = b"
    "a div 4 * 4 + a mod 4 * 16 div 16 = a"
proof -
  have "b div 16 < 16" "c div 64 < 4" using assms by simp_all
  then have "(a mod 4 * 16 + b div 16) div 16 = a mod 4" "(a mod 4 * 16 + b div 16) mod 16 = b div 16"
    "(b mod 16 * 4 + c div 64) div 4 = b mod 16" "(b mod 16 * 4 + c div 64) mod 4 = c div 64"
    by simp_all
  then show "a div 4 * 4 + (a mod 4 * 16 + b div 16) div 16 = a"
    "(a mod 4 * 16 + b div 16) mod 16 * 16 + (b mod 16 * 4 + c div 64) div 4 = b"
    "(b mod 16 * 4 + c div 64) mod 4 * 64 + c mod 64 = c"
    "(a mod 4 * 16 + b div 16) mod 16 * 16 + b mod 16 * 4 div 4 = b"
    "a div 4 * 4 + a mod 4 * 16 div 16 = a"
    by simp_all
qed

lemmas byte_bounds = digit_bounds [OF ord_less ord_less ord_less]
lemmas byte_values = digit_values [OF ord_less ord_less ord_less]

lemma b64_decode_spec: "b64_decode_loop v (- 8) (b64_spec s) = s"
proof (induction s arbitrary: v rule: b64_spec.induct)
  case (1 a b c s)
  have l: "ord a div 4 < 64" "ord a mod 4 * 16 + ord b div 16 < 64"
    "ord b mod 16 * 4 + ord c div 64 < 64" "ord c mod 64 < 64"
    by (rule byte_bounds)+
  have v: "ord a div 4 * 4 + (ord a mod 4 * 16 + ord b div 16) div 16 = ord a"
    "(ord a mod 4 * 16 + ord b div 16) mod 16 * 16 + (ord b mod 16 * 4 + ord c div 64) div 4 = ord b"
    "(ord b mod 16 * 4 + ord c div 64) mod 4 * 64 + ord c mod 64 = ord c"
    by (rule byte_values)+
  show ?case
    using "1.IH" by (simp only: b64_spec.simps b64_decode_loop_step [OF l(1)] b64_decode_loop_step [OF l(2)]
        b64_decode_loop_step [OF l(3)] b64_decode_loop_step [OF l(4)]
        push6_values [OF l(1)] push6_values [OF l(2)] push6_values [OF l(3)] v char_of_char)
next
  case (2 a b)
  have l: "ord a div 4 < 64" "ord a mod 4 * 16 + ord b div 16 < 64" "ord b mod 16 * 4 < 64"
    by (rule byte_bounds)+
  have v: "ord a div 4 * 4 + (ord a mod 4 * 16 + ord b div 16) div 16 = ord a"
    "(ord a mod 4 * 16 + ord b div 16) mod 16 * 16 + ord b mod 16 * 4 div 4 = ord b"
    by (rule byte_values)+
  show ?case
    by (simp only: b64_spec.simps b64_decode_loop_step [OF l(1)] b64_decode_loop_step [OF l(2)]
        b64_decode_loop_step [OF l(3)] push6_values [OF l(1)] push6_values [OF l(2)] v char_of_char
        b64_decode_loop.simps(1))
next
  case (3 a)
  have l: "ord a div 4 < 64" "ord a mod 4 * 16 < 64" by (rule byte_bounds)+
  have v: "ord a div 4 * 4 + ord a mod 4 * 16 div 16 = ord a" by (rule byte_values)
  show ?case
    by (simp only: b64_spec.simps b64_decode_loop_step [OF l(1)] b64_decode_loop_step [OF l(2)]
        push6_values [OF l(1)] v char_of_char b64_decode_loop.simps(1))
qed simp

lemma base64url_round_trip: "base64url_decode (base64url_encode s) = s"
  by (simp add: base64url_decode_def base64url_encode_eq b64_decode_spec)

lemma b64_spec_alphabet: "set (b64_spec s) \<subseteq> set b64_alphabet"
proof (induction s rule: b64_spec.induct)
  case (1 a b c s)
  have "ord a div 4 < 64" "ord a mod 4 * 16 + ord b div 16 < 64"
    "ord b mod 16 * 4 + ord c div 64 < 64" "ord c mod 64 < 64"
    by (rule byte_bounds)+
  with 1 show ?case by (simp add: b64_alphabet_facts)
next
  case (2 a b)
  have "ord a div 4 < 64" "ord a mod 4 * 16 + ord b div 16 < 64" "ord b mod 16 * 4 < 64"
    by (rule byte_bounds)+
  then show ?case by (simp add: b64_alphabet_facts)
next
  case (3 a)
  have "ord a div 4 < 64" "ord a mod 4 * 16 < 64" by (rule byte_bounds)+
  then show ?case by (simp add: b64_alphabet_facts)
qed simp

lemma base64url_encode_no_delim:
  "CHR ''.'' \<notin> set (base64url_encode s)" "CHR ''$'' \<notin> set (base64url_encode s)"
  using b64_spec_alphabet [of s] b64_alphabet_facts by (auto simp: base64url_encode_eq)

lemma base64url_encode_empty: "base64url_encode s = [] \<longleftrightarrow> s = []"
  by (cases s rule: b64_spec.cases) (simp_all add: base64url_encode_eq)

text \<open>Decoding stops at the padding character: what follows is not looked at.\<close>

lemma b64_decode_loop_pad:
  "b64_decode_loop v n (s @ CHR ''='' # t) = b64_decode_loop v n s"
  by (induction v n s rule: b64_decode_loop.induct)
    (auto simp: b64_decode_loop.simps(2) Let_def split: option.splits)

end
