(* ===== verification/Security.thy ===== *)
theory Security
  imports Base64url
begin

text \<open>
  \<open>SecurityUtils\<close> (\<open>include/oreshnek/platform/SecurityUtils.h\<close>,
  \<open>src/platform/SecurityUtils.cpp\<close>): password hashing and JSON web tokens.

  OpenSSL and \<open>nlohmann::json\<close> are parameters. The record \<open>crypto\<close> holds \<open>HMAC\<close> with SHA-256
  and \<open>PKCS5_PBKDF2_HMAC\<close> (\<^term>\<open>None\<close> for a failure), the record \<open>json_lib\<close> the operations on
  JSON values the code calls; the bytes \<open>RAND_bytes\<close> delivers and the time are arguments. The
  predicates \<open>crypto_ok\<close> and \<open>json_ok\<close> state the documented behaviour a theorem relies on.
\<close>

record crypto =
  cr_hmac :: "string \<Rightarrow> string \<Rightarrow> string"
  cr_pbkdf2 :: "string \<Rightarrow> string \<Rightarrow> int \<Rightarrow> nat \<Rightarrow> string option"

record 'j json_lib =
  js_parse :: "string \<Rightarrow> 'j throws"
  js_dump :: "'j \<Rightarrow> string throws"
  js_object :: "(string \<times> 'j) list \<Rightarrow> 'j"
  js_string :: "string \<Rightarrow> 'j"
  js_integer :: "int \<Rightarrow> 'j"
  js_bool :: "bool \<Rightarrow> 'j"
  js_null :: 'j
  js_field :: "'j \<Rightarrow> string \<Rightarrow> 'j option"
  js_get_string :: "'j \<Rightarrow> string option"
  js_get_number :: "'j \<Rightarrow> int option"

text \<open>
  \<open>js_field v k\<close> is the member \<open>k\<close> of the object \<open>v\<close>, \<^term>\<open>None\<close> when \<open>v\<close> is not an object or has
  no such member; \<open>js_get_string\<close> and \<open>js_get_number\<close> are \<open>is_string\<close> and \<open>is_number\<close> with the
  \<open>get\<close> behind them.
\<close>

definition crypto_ok :: "crypto \<Rightarrow> bool" where
  "crypto_ok cr \<longleftrightarrow>
     (\<forall>p s i n h. cr_pbkdf2 cr p s i n = Some h \<longrightarrow> length h = n) \<and>
     (\<forall>p s i n. 0 < i \<and> 0 < n \<longrightarrow> cr_pbkdf2 cr p s i n \<noteq> None)"

definition json_ok :: "'j json_lib \<Rightarrow> bool" where
  "json_ok js \<longleftrightarrow>
     (\<forall>v s. js_dump js v = Inr s \<longrightarrow> js_parse js s = Inr v) \<and>
     (\<forall>kvs k. distinct (map fst kvs) \<longrightarrow> js_field js (js_object js kvs) k = map_of kvs k) \<and>
     (\<forall>s. js_get_string js (js_string js s) = Some s) \<and>
     (\<forall>i. js_get_number js (js_integer js i) = Some i)"

section \<open>Splitting\<close>

text \<open>
  \<open>SecurityUtils::split\<close>: \<open>std::getline\<close> on a stream delivers the pieces between the delimiters,
  but no empty piece after a final one.
\<close>

function split_getline :: "char \<Rightarrow> string \<Rightarrow> string list" where
  "split_getline d s =
     (if s = [] then []
      else case find_sub [d] s of
        None \<Rightarrow> [s]
      | Some i \<Rightarrow> take i s # split_getline d (drop (i + 1) s))"
  by pat_completeness auto
termination
  by (relation "measure (\<lambda>(d, s). length s)") auto

declare split_getline.simps [simp del]

lemma split_getline_piece:
  "d \<notin> set a \<Longrightarrow> split_getline d (a @ d # s) = a # split_getline d s"
  "d \<notin> set a \<Longrightarrow> a \<noteq> [] \<Longrightarrow> split_getline d a = [a]"
  "split_getline d [] = []"
proof -
  show "d \<notin> set a \<Longrightarrow> split_getline d (a @ d # s) = a # split_getline d s"
    using find_sub_here [of d a "[]" s] by (simp add: split_getline.simps [of d "a @ d # s"])
  show "d \<notin> set a \<Longrightarrow> a \<noteq> [] \<Longrightarrow> split_getline d a = [a]"
    using find_sub_notin [of d a "[]"] by (simp add: split_getline.simps [of d a])
  show "split_getline d [] = []" by (simp add: split_getline.simps)
qed

text \<open>The pieces hold no delimiter, and the string is their join, up to one final delimiter.\<close>

fun join :: "char \<Rightarrow> string list \<Rightarrow> string" where
  "join d [] = []"
| "join d [a] = a"
| "join d (a # as) = a @ d # join d as"

lemma split_getline_join:
  "(\<forall>p \<in> set (split_getline d s). d \<notin> set p) \<and>
   (s = join d (split_getline d s) \<or> s = join d (split_getline d s) @ [d])"
proof (induction d s rule: split_getline.induct)
  case (1 d s)
  show ?case
  proof (cases "s = []")
    case True
    then show ?thesis by (simp add: split_getline.simps)
  next
    case ne: False
    show ?thesis
    proof (cases "find_sub [d] s")
      case None
      then show ?thesis
        using ne find_sub_single_None [of d s] by (simp add: split_getline.simps [of d s])
    next
      case (Some i)
      note i = find_sub_single [OF Some]
      let ?t = "drop (i + 1) s"
      have sp: "split_getline d s = take i s # split_getline d ?t"
        using ne Some by (simp add: split_getline.simps [of d s])
      have s: "s = take i s @ d # ?t" using find_sub_split [OF Some] by simp
      note ih = "1.IH" [OF ne Some]
      show ?thesis
      proof (cases "split_getline d ?t")
        case Nil
        then have "?t = [] \<or> ?t = [d]" using ih by auto
        moreover have "?t \<noteq> [d]"
          using Nil split_getline_piece(1) [of d "[]" "[]"] by auto
        ultimately have "?t = []" by blast
        with Nil sp s i show ?thesis by simp
      next
        case (Cons p ps)
        then have "join d (split_getline d s) = take i s @ d # join d (split_getline d ?t)"
          using sp by simp
        with ih sp s i show ?thesis by (metis append.assoc append_Cons set_ConsD)
      qed
    qed
  qed
qed

section \<open>Passwords\<close>

definition kPbkdf2Iterations :: nat where "kPbkdf2Iterations = 200000"
definition kSaltLength :: nat where "kSaltLength = 16"
definition kHashLength :: nat where "kHashLength = 32"

definition constant_time_equals :: "string \<Rightarrow> string \<Rightarrow> bool" where
  "constant_time_equals a b = (if length a \<noteq> length b then False else a = b)"

definition hex_byte :: "char \<Rightarrow> string" where
  "hex_byte c = (let digits = ''0123456789abcdef'' in [digits ! (ord c div 16), digits ! (ord c mod 16)])"

definition generateSalt :: "string \<Rightarrow> string" where
  "generateSalt salt = concat (map hex_byte salt)"

text \<open>\<open>hashPassword\<close>: the salt is what \<open>RAND_bytes\<close> delivers, \<^term>\<open>None\<close> when it fails.\<close>

definition hashPassword :: "crypto \<Rightarrow> string option \<Rightarrow> string \<Rightarrow> string throws" where
  "hashPassword cr random password =
     (case random of
        None \<Rightarrow> Inl ''RAND_bytes failed while hashing password''
      | Some salt \<Rightarrow>
          (case cr_pbkdf2 cr password salt (int kPbkdf2Iterations) kHashLength of
             None \<Rightarrow> Inl ''PBKDF2 derivation failed''
           | Some hash \<Rightarrow>
               Inr (''pbkdf2_sha256$'' @ dec kPbkdf2Iterations @ ''$'' @ base64url_encode salt @
                    ''$'' @ base64url_encode hash)))"

definition verifyPassword :: "crypto \<Rightarrow> string \<Rightarrow> string \<Rightarrow> bool" where
  "verifyPassword cr password stored =
     (let parts = split_getline CHR ''$'' stored in
      if length parts \<noteq> 4 \<or> parts ! 0 \<noteq> ''pbkdf2_sha256'' then False
      else case stoi (parts ! 1) of
        None \<Rightarrow> False
      | Some iterations \<Rightarrow>
          if iterations \<le> 0 then False
          else
            let salt = base64url_decode (parts ! 2); expected = base64url_decode (parts ! 3) in
            if salt = [] \<or> expected = [] then False
            else (case cr_pbkdf2 cr password salt iterations (length expected) of
                    None \<Rightarrow> False
                  | Some computed \<Rightarrow> constant_time_equals expected computed))"

section \<open>Tokens\<close>

definition generateJWT ::
  "crypto \<Rightarrow> 'j json_lib \<Rightarrow> int \<Rightarrow> int \<Rightarrow> string \<Rightarrow> string \<Rightarrow> string throws" where
  "generateJWT cr js now user_id username secret =
     (let header = js_object js [(''alg'', js_string js ''HS256''), (''typ'', js_string js ''JWT'')];
          payload = js_object js [(''user_id'', js_integer js user_id),
            (''username'', js_string js username), (''exp'', js_integer js (now + 24 * 3600))]
      in case js_dump js header of
           Inl e \<Rightarrow> Inl e
         | Inr h \<Rightarrow>
             (case js_dump js payload of
                Inl e \<Rightarrow> Inl e
              | Inr p \<Rightarrow>
                  let signing_input = base64url_encode h @ ''.'' @ base64url_encode p;
                      signature = base64url_encode (cr_hmac cr signing_input secret)
                  in Inr (signing_input @ ''.'' @ signature)))"

definition validateJWT :: "crypto \<Rightarrow> 'j json_lib \<Rightarrow> int \<Rightarrow> string \<Rightarrow> string \<Rightarrow> bool" where
  "validateJWT cr js now token secret =
     (let parts = split_getline CHR ''.'' token in
      if length parts \<noteq> 3 then False
      else
        let expected_sig = cr_hmac cr (parts ! 0 @ ''.'' @ parts ! 1) secret;
            actual_sig = base64url_decode (parts ! 2)
        in if \<not> constant_time_equals actual_sig expected_sig then False
           else (case js_parse js (base64url_decode (parts ! 0)) of
               Inl _ \<Rightarrow> False
             | Inr header \<Rightarrow>
                 (case js_field js header ''alg'' of
                    None \<Rightarrow> False
                  | Some alg \<Rightarrow>
                      if js_get_string js alg \<noteq> Some ''HS256'' then False
                      else (case js_parse js (base64url_decode (parts ! 1)) of
                          Inl _ \<Rightarrow> False
                        | Inr payload \<Rightarrow>
                            (case js_field js payload ''exp'' of
                               None \<Rightarrow> False
                             | Some e \<Rightarrow>
                                 (case js_get_number js e of
                                    None \<Rightarrow> False
                                  | Some t \<Rightarrow> \<not> t \<le> now))))))"

definition decodeJWT :: "'j json_lib \<Rightarrow> string \<Rightarrow> 'j" where
  "decodeJWT js token =
     (let parts = split_getline CHR ''.'' token in
      if length parts < 2 then js_null js
      else case js_parse js (base64url_decode (parts ! 1)) of
        Inl _ \<Rightarrow> js_null js
      | Inr v \<Rightarrow> v)"

end
