(* ===== verification/Security_Props.thy ===== *)
theory Security_Props
  imports Security
begin

text \<open>
  The properties of the password hashes and the tokens: what is produced verifies, what verifies
  was signed, and which variants of a token verify as well.
\<close>

text \<open>
  The base64url encoder with its bit accumulator computes the encoding of RFC 4648 without
  padding, group by group.
\<close>

lemma base64url_encode_spec: "base64url_encode s = b64_spec s"
  by (rule base64url_encode_eq)

text \<open>Decoding the encoding of a string returns the string, for all bytes.\<close>

lemma base64url_decode_encode: "base64url_decode (base64url_encode s) = s"
  by (rule base64url_round_trip)

lemma split_four:
  assumes "d \<notin> set a" "d \<notin> set b" "d \<notin> set c" "d \<notin> set e" "e \<noteq> []"
  shows "split_getline d (a @ [d] @ b @ [d] @ c @ [d] @ e) = [a, b, c, e]"
  using assms by (simp add: split_getline_piece)

text \<open>
  A password verifies against the string \<open>hashPassword\<close> returned for it, and only passwords
  with the same derived key do.
\<close>

lemma verify_hash:
  assumes "crypto_ok cr" "hashPassword cr (Some salt) password = Inr stored" "length salt = kSaltLength"
  shows "verifyPassword cr password stored \<and>
     (verifyPassword cr other stored \<longleftrightarrow>
        cr_pbkdf2 cr other salt (int kPbkdf2Iterations) kHashLength =
        cr_pbkdf2 cr password salt (int kPbkdf2Iterations) kHashLength)"
proof -
  let ?n = "int kPbkdf2Iterations" and ?d = "CHR ''$''"
  from assms(2) obtain hash where h: "cr_pbkdf2 cr password salt ?n kHashLength = Some hash" and
    st: "stored = ''pbkdf2_sha256'' @ [?d] @ dec kPbkdf2Iterations @ [?d] @ base64url_encode salt @ [?d] @
      base64url_encode hash"
    by (auto simp: hashPassword_def split: option.splits)
  have len: "length hash = kHashLength" using assms(1) h unfolding crypto_ok_def by blast
  then have ne: "hash \<noteq> []" "salt \<noteq> []" using assms(3) by (auto simp: kHashLength_def kSaltLength_def)
  have "split_getline ?d stored =
      [''pbkdf2_sha256'', dec kPbkdf2Iterations, base64url_encode salt, base64url_encode hash]"
    unfolding st
    by (rule split_four)
      (use ne in \<open>simp_all add: base64url_encode_no_delim base64url_encode_empty dec_no_delim is_digit_def\<close>)
  then have parts: "verifyPassword cr p stored =
      (case cr_pbkdf2 cr p salt ?n kHashLength of
         None \<Rightarrow> False | Some computed \<Rightarrow> constant_time_equals hash computed)" for p
    using stoi_dec [of kPbkdf2Iterations] ne
    by (simp add: verifyPassword_def base64url_round_trip len kPbkdf2Iterations_def)
  show ?thesis
    unfolding parts h by (auto simp: constant_time_equals_def split: option.split)
qed

text \<open>A PBKDF2 and an HMAC to evaluate the functions with.\<close>

definition toy_crypto :: crypto where
  "toy_crypto = \<lparr>cr_hmac = (\<lambda>data key. key @ data),
     cr_pbkdf2 = (\<lambda>p s i n. Some (take n (p @ s @ replicate n CHR ''0'')))\<rparr>"

lemma toy_crypto_ok: "crypto_ok toy_crypto"
  by (auto simp: crypto_ok_def toy_crypto_def min_def)

lemma verify_hash_example:
  "\<exists>stored. hashPassword toy_crypto (Some ''0123456789abcdef'') ''pw'' = Inr stored \<and>
     verifyPassword toy_crypto ''pw'' stored"
proof -
  obtain stored where st: "hashPassword toy_crypto (Some ''0123456789abcdef'') ''pw'' = Inr stored"
    by (simp add: hashPassword_def toy_crypto_def)
  have "length ''0123456789abcdef'' = kSaltLength" by (simp add: kSaltLength_def)
  from verify_hash [OF toy_crypto_ok st this] st show ?thesis by blast
qed

section \<open>Tokens\<close>

lemma split_three:
  assumes "d \<notin> set a" "d \<notin> set b" "d \<notin> set c" "c \<noteq> []"
  shows "split_getline d ((a @ [d] @ b) @ [d] @ c) = [a, b, c]"
  using assms by (simp add: split_getline_piece)

lemma token_parts:
  assumes "g \<noteq> []"
  shows "split_getline CHR ''.'' ((base64url_encode h @ ''.'' @ base64url_encode p) @ ''.'' @ base64url_encode g) =
    [base64url_encode h, base64url_encode p, base64url_encode g]"
  by (rule split_three) (use assms in \<open>simp_all add: base64url_encode_no_delim base64url_encode_empty\<close>)

lemma split_getline_nonempty: "s \<noteq> [] \<Longrightarrow> split_getline d s \<noteq> []"
  by (subst split_getline.simps) (simp split: option.split)

text \<open>The checks behind the signature, on the decoded header and payload.\<close>

definition token_claims :: "'j json_lib \<Rightarrow> int \<Rightarrow> string \<Rightarrow> string \<Rightarrow> bool" where
  "token_claims js now h p \<longleftrightarrow>
     (\<exists>hd alg pl e t. js_parse js h = Inr hd \<and> js_field js hd ''alg'' = Some alg \<and>
        js_get_string js alg = Some ''HS256'' \<and> js_parse js p = Inr pl \<and>
        js_field js pl ''exp'' = Some e \<and> js_get_number js e = Some t \<and> now < t)"

lemma validateJWT_parts:
  assumes "split_getline CHR ''.'' token = [h, p, g]"
  shows "validateJWT cr js now token secret \<longleftrightarrow>
     base64url_decode g = cr_hmac cr (h @ ''.'' @ p) secret \<and>
     token_claims js now (base64url_decode h) (base64url_decode p)"
  by (auto simp: validateJWT_def assms Let_def constant_time_equals_def token_claims_def
      split: sum.splits option.splits)

lemma validateJWT_length: "validateJWT cr js now token secret \<Longrightarrow>
     \<exists>h p g. split_getline CHR ''.'' token = [h, p, g]"
  by (auto simp: validateJWT_def Let_def length_Suc_conv eval_nat_numeral split: if_splits)

text \<open>
  A token that was issued is valid for the same secret until its expiry, and decodes to the
  payload it was issued for.
\<close>

lemma validate_issued:
  assumes "json_ok js" "generateJWT cr js now user_id username secret = Inr token"
    "cr_hmac cr = hmac" "\<forall>d k. hmac d k \<noteq> []" "now' < now + 24 * 3600"
  shows "validateJWT cr js now' token secret \<and>
     js_field js (decodeJWT js token) ''user_id'' = Some (js_integer js user_id) \<and>
     js_field js (decodeJWT js token) ''username'' = Some (js_string js username)"
proof -
  define e where "e = now + 24 * 3600"
  have lt: "now' < e" using assms(5) by (simp add: e_def)
  let ?hd = "js_object js [(''alg'', js_string js ''HS256''), (''typ'', js_string js ''JWT'')]"
  let ?pl = "js_object js [(''user_id'', js_integer js user_id), (''username'', js_string js username),
    (''exp'', js_integer js (e))]"
  from assms(2) obtain h p where hp: "js_dump js ?hd = Inr h" "js_dump js ?pl = Inr p"
    and tok: "token = (base64url_encode h @ ''.'' @ base64url_encode p) @ ''.'' @
      base64url_encode (hmac (base64url_encode h @ ''.'' @ base64url_encode p) secret)"
    by (auto simp: generateJWT_def Let_def assms(3) e_def split: sum.splits)
  have parse: "js_parse js h = Inr ?hd" "js_parse js p = Inr ?pl"
    using assms(1) hp by (auto simp: json_ok_def)
  have fields: "js_field js ?hd ''alg'' = Some (js_string js ''HS256'')"
    "js_field js ?pl ''exp'' = Some (js_integer js (e))"
    "js_field js ?pl ''user_id'' = Some (js_integer js user_id)"
    "js_field js ?pl ''username'' = Some (js_string js username)"
    using assms(1) by (simp_all add: json_ok_def)
  have get: "js_get_string js (js_string js ''HS256'') = Some ''HS256''"
    "js_get_number js (js_integer js (e)) = Some (e)"
    using assms(1) by (simp_all add: json_ok_def)
  have split: "split_getline CHR ''.'' token = [base64url_encode h, base64url_encode p,
      base64url_encode (hmac (base64url_encode h @ ''.'' @ base64url_encode p) secret)]"
    unfolding tok using assms(4) by (intro token_parts) simp
  show ?thesis
    using lt by (simp add: validateJWT_def decodeJWT_def split parse fields get Let_def
        base64url_round_trip constant_time_equals_def assms(3))
qed

text \<open>JSON values of a few forms, to evaluate the functions with.\<close>

datatype toy_json = JNull | JBool bool | JInt int | JStr string | JObj "(string \<times> toy_json) list"

fun toy_dump :: "toy_json \<Rightarrow> string" where
  "toy_dump (JObj [(a, JStr b), (c, JStr d)]) = ''H''"
| "toy_dump (JObj [(a, JInt b), (c, JStr d), (e, JInt f)]) = ''P''"
| "toy_dump v = ''?''"

definition toy_header :: toy_json where
  "toy_header = JObj [(''alg'', JStr ''HS256''), (''typ'', JStr ''JWT'')]"

definition toy_payload :: toy_json where
  "toy_payload = JObj [(''user_id'', JInt 7), (''username'', JStr ''u''), (''exp'', JInt 86400)]"

definition toy_json_lib :: "toy_json json_lib" where
  "toy_json_lib = \<lparr>
     js_parse = (\<lambda>s. if s = ''H'' then Inr toy_header else if s = ''P'' then Inr toy_payload else Inl ''parse error''),
     js_dump = (\<lambda>v. if v = toy_header \<or> v = toy_payload then Inr (toy_dump v) else Inl ''dump error''),
     js_object = JObj, js_string = JStr, js_integer = JInt, js_bool = JBool, js_null = JNull,
     js_field = (\<lambda>v k. case v of JObj kvs \<Rightarrow> map_of kvs k | _ \<Rightarrow> None),
     js_get_string = (\<lambda>v. case v of JStr s \<Rightarrow> Some s | _ \<Rightarrow> None),
     js_get_number = (\<lambda>v. case v of JInt i \<Rightarrow> Some i | _ \<Rightarrow> None)\<rparr>"

lemma toy_json_ok: "json_ok toy_json_lib"
  by (auto simp: json_ok_def toy_json_lib_def toy_header_def toy_payload_def split: if_splits)

definition keyed_crypto :: crypto where
  "keyed_crypto = \<lparr>cr_hmac = (\<lambda>data key. CHR ''m'' # key @ data), cr_pbkdf2 = (\<lambda>p s i n. None)\<rparr>"

lemma validate_issued_example:
  "\<exists>token. generateJWT keyed_crypto toy_json_lib 0 7 ''u'' ''secret'' = Inr token \<and>
     validateJWT keyed_crypto toy_json_lib 100 token ''secret''"
proof -
  have "toy_dump toy_header = ''H''" "toy_dump toy_payload = ''P''"
    by (simp_all add: toy_header_def toy_payload_def)
  then obtain token where t: "generateJWT keyed_crypto toy_json_lib 0 7 ''u'' ''secret'' = Inr token"
    by (simp add: generateJWT_def toy_json_lib_def toy_header_def toy_payload_def Let_def)
  have "\<forall>d k. (\<lambda>data key. CHR ''m'' # key @ data) d k \<noteq> []" by simp
  from validate_issued [OF toy_json_ok t _ this, of 100] t show ?thesis
    by (simp add: keyed_crypto_def)
qed

text \<open>
  C26: what \<open>validateJWT\<close> accepts was signed with the secret over the header and the payload as
  they stand in the token, has the algorithm HS256 and has not expired; \<open>decodeJWT\<close> returns the
  payload that was checked.
\<close>

theorem validateJWT_sound:
  assumes "validateJWT cr js now token secret"
  shows "\<exists>h p sgn hd t. split_getline CHR ''.'' token = [h, p, sgn] \<and>
     base64url_decode sgn = cr_hmac cr (h @ ''.'' @ p) secret \<and>
     js_parse js (base64url_decode h) = Inr hd \<and>
     (\<exists>alg. js_field js hd ''alg'' = Some alg \<and> js_get_string js alg = Some ''HS256'') \<and>
     js_parse js (base64url_decode p) = Inr (decodeJWT js token) \<and>
     (\<exists>e. js_field js (decodeJWT js token) ''exp'' = Some e \<and> js_get_number js e = Some t) \<and> now < t"
proof -
  from validateJWT_length [OF assms] obtain h p g where
    sp: "split_getline CHR ''.'' token = [h, p, g]" by blast
  from assms have sig: "base64url_decode g = cr_hmac cr (h @ ''.'' @ p) secret" and
    cl: "token_claims js now (base64url_decode h) (base64url_decode p)"
    unfolding validateJWT_parts [OF sp] by auto
  from cl obtain hd alg pl e t where "js_parse js (base64url_decode h) = Inr hd"
    "js_field js hd ''alg'' = Some alg" "js_get_string js alg = Some ''HS256''"
    "js_parse js (base64url_decode p) = Inr pl" "js_field js pl ''exp'' = Some e"
    "js_get_number js e = Some t" "now < t"
    unfolding token_claims_def by blast
  moreover from this have "decodeJWT js token = pl" using sp by (simp add: decodeJWT_def)
  ultimately show ?thesis using sp sig by blast
qed

definition toy_signed :: string where
  "toy_signed = base64url_encode ''H'' @ ''.'' @ base64url_encode ''P''"

definition toy_token :: string where
  "toy_token = toy_signed @ ''.'' @ base64url_encode (cr_hmac keyed_crypto toy_signed ''secret'')"

lemma toy_token_parts:
  "split_getline CHR ''.'' toy_token = [base64url_encode ''H'', base64url_encode ''P'',
     base64url_encode (cr_hmac keyed_crypto toy_signed ''secret'')]"
  unfolding toy_token_def toy_signed_def by (rule token_parts) (simp add: keyed_crypto_def)

lemma toy_token_valid: "validateJWT keyed_crypto toy_json_lib 100 toy_token ''secret''"
  unfolding validateJWT_parts [OF toy_token_parts]
  by (simp add: base64url_round_trip token_claims_def toy_json_lib_def toy_header_def
      toy_payload_def toy_signed_def)

lemma validateJWT_sound_witness:
  "\<exists>h p sgn. split_getline CHR ''.'' toy_token = [h, p, sgn] \<and>
     base64url_decode sgn = cr_hmac keyed_crypto (h @ ''.'' @ p) ''secret''"
  using validateJWT_sound [OF toy_token_valid] by blast

lemma split_getline_last:
  "split_getline d s = ps @ [p] \<Longrightarrow> d \<notin> set t \<Longrightarrow> \<not> (\<exists>s'. s = s' @ [d]) \<Longrightarrow>
     split_getline d (s @ t) = ps @ [p @ t]"
proof (induction d s arbitrary: ps rule: split_getline.induct)
  case (1 d s)
  show ?case
  proof (cases "s = []")
    case True
    with "1.prems" show ?thesis by (simp add: split_getline.simps)
  next
    case ne: False
    show ?thesis
    proof (cases "find_sub [d] s")
      case None
      then have "d \<notin> set s" using find_sub_single_None [of d s] by simp
      with ne None "1.prems" show ?thesis
        using split_getline_piece(2) [of d "s @ t"] by (simp add: split_getline.simps [of d s])
    next
      case (Some i)
      let ?u = "drop (i + 1) s"
      have s: "s = take i s @ d # ?u" using find_sub_split [OF Some] by simp
      have nd: "d \<notin> set (take i s)" using find_sub_single [OF Some] by simp
      have sp: "split_getline d s = take i s # split_getline d ?u"
        using ne Some by (simp add: split_getline.simps [of d s])
      have "?u \<noteq> []" using s "1.prems"(3) by metis
      then have "split_getline d ?u \<noteq> []" by (rule split_getline_nonempty)
      with sp "1.prems"(1) obtain qs where qs: "split_getline d ?u = qs @ [p]" "ps = take i s # qs"
        by (cases ps) auto
      have "\<not> (\<exists>s'. ?u = s' @ [d])"
      proof
        assume "\<exists>s'. ?u = s' @ [d]"
        then obtain s' where "?u = s' @ [d]" by blast
        with s have "s = (take i s @ d # s') @ [d]" by simp
        with "1.prems"(3) show False by blast
      qed
      from "1.IH" [OF ne Some qs(1) "1.prems"(2) this]
      have "split_getline d (?u @ t) = qs @ [p @ t]" .
      then have "split_getline d (take i s @ d # (?u @ t)) = ps @ [p @ t]"
        using split_getline_piece(1) [OF nd, of "?u @ t"] qs(2) by simp
      moreover have "s @ t = take i s @ d # (?u @ t)" by (metis s append.assoc append_Cons)
      ultimately show ?thesis by metis
    qed
  qed
qed

text \<open>
  The signature part of a token is not checked beyond what decodes: behind a valid token that
  does not end with a dot, the padding character and any bytes without a dot are accepted, so
  different strings are the same valid token.
\<close>

lemma validateJWT_padding:
  assumes "validateJWT cr js now token secret" "CHR ''.'' \<notin> set junk" "\<not> (\<exists>s. token = s @ ''.'')"
  shows "validateJWT cr js now (token @ ''='' @ junk) secret"
proof -
  from validateJWT_length [OF assms(1)] obtain h p g where
    sp: "split_getline CHR ''.'' token = [h, p] @ [g]" by auto
  have sp': "split_getline CHR ''.'' (token @ ''='' @ junk) = [h, p] @ [g @ ''='' @ junk]"
    by (rule split_getline_last [OF sp]) (use assms(2,3) in auto)
  have "base64url_decode (g @ ''='' @ junk) = base64url_decode g"
    by (simp add: base64url_decode_def b64_decode_loop_pad)
  then show ?thesis
    using assms(1) validateJWT_parts [of token h p g cr js now secret]
      validateJWT_parts [of "token @ ''='' @ junk" h p "g @ ''='' @ junk" cr js now secret] sp sp'
    by simp
qed

lemma validateJWT_padding_example:
  "validateJWT keyed_crypto toy_json_lib 100 (toy_token @ ''='' @ ''anything'') ''secret''"
proof (rule validateJWT_padding [OF toy_token_valid])
  let ?sg = "base64url_encode (cr_hmac keyed_crypto toy_signed ''secret'')"
  have ne: "?sg \<noteq> []" by (simp add: base64url_encode_empty keyed_crypto_def)
  show "\<not> (\<exists>s. toy_token = s @ ''.'')"
  proof
    assume "\<exists>s. toy_token = s @ ''.''"
    then obtain s where "toy_token = s @ ''.''" by blast
    then have "last toy_token = CHR ''.''" by (metis last_snoc)
    moreover have "last toy_token = last ?sg" using ne by (simp add: toy_token_def)
    moreover have "last ?sg \<in> set ?sg" using ne by simp
    ultimately show False using base64url_encode_no_delim(1) by metis
  qed
qed simp

end
