(* ===== verification/Middleware.thy ===== *)
theory Middleware
  imports Http_Request Http_Response Router_Props Security_Props
begin

text \<open>
  The middlewares (\<open>include/oreshnek/server/Middleware.h\<close>) and the chain the worker runs before
  the handler (\<open>src/server/Server.cpp\<close>, the lambda of \<open>dispatch_next\<close>). A middleware returns the
  response as it leaves it with its verdict; \<open>Raised\<close> is a thrown \<open>std::exception\<close>. The JSON
  bodies are dumped by the JSON library, a parameter.
\<close>

datatype verdict = Proceed http_response | Stop http_response | Raised http_response

type_synonym middleware = "http_request \<Rightarrow> http_response \<Rightarrow> verdict"

definition cors :: "string \<Rightarrow> string \<Rightarrow> string \<Rightarrow> middleware" where
  "cors allow_origin allow_methods allow_headers req res =
     (let res1 = res_header ''Access-Control-Allow-Headers'' allow_headers
            (res_header ''Access-Control-Allow-Methods'' allow_methods
              (res_header ''Access-Control-Allow-Origin'' allow_origin res))
      in if rq_method req = OPTIONS
         then Stop (res_header ''Content-Length'' ''0'' (res_status NO_CONTENT res1))
         else Proceed res1)"

definition request_logger :: middleware where
  "request_logger req res = Proceed res"

text \<open>The token of an \<open>Authorization: Bearer\<close> header, empty without one.\<close>

definition bearer_token :: "http_request \<Rightarrow> string" where
  "bearer_token req =
     (case header req ''Authorization'' of
        None \<Rightarrow> []
      | Some value \<Rightarrow> if starts_with ''Bearer '' value then drop 7 value else [])"

definition require_jwt ::
  "crypto \<Rightarrow> 'j json_lib \<Rightarrow> int \<Rightarrow> string \<Rightarrow> string list \<Rightarrow> middleware" where
  "require_jwt cr js now secret prefixes req res =
     (let path = rq_path req;
          protected = (prefixes = [] \<or> (\<exists>p \<in> set prefixes. take (length p) path = p))
      in if \<not> protected then Proceed res
         else
           let token = bearer_token req in
           if token = [] \<or> \<not> validateJWT cr js now token secret then
             (case js_dump js (js_object js
                     [(''success'', js_bool js False), (''message'', js_string js ''Unauthorized'')]) of
                Inl _ \<Rightarrow> Raised (res_status UNAUTHORIZED res)
              | Inr body \<Rightarrow> Stop (res_json body (res_status UNAUTHORIZED res)))
           else Proceed res)"

text \<open>
  The loop over the middlewares, with the 500 response to an exception; \<open>error_json m\<close> is the
  dump of the object with the member \<open>error\<close>.
\<close>

fun run_chain ::
  "(string \<Rightarrow> string) \<Rightarrow> middleware list \<Rightarrow> http_request \<Rightarrow> http_response \<Rightarrow> bool \<times> http_response" where
  "run_chain error_json [] req res = (True, res)"
| "run_chain error_json (mw # mws) req res =
     (case mw req res of
        Proceed res' \<Rightarrow> run_chain error_json mws req res'
      | Stop res' \<Rightarrow> (False, res')
      | Raised res' \<Rightarrow>
          (False, res_json (error_json ''Server error'') (res_status INTERNAL_SERVER_ERROR res')))"

section \<open>Properties\<close>

lemma run_chain_proceeds:
  "fst (run_chain ej mws req res) \<Longrightarrow> mw \<in> set mws \<Longrightarrow> \<exists>r r'. mw req r = Proceed r'"
  by (induction mws arbitrary: res) (auto split: verdict.splits)

lemma require_jwt_proceeds:
  assumes "require_jwt cr js now secret prefixes req res = Proceed res'"
    "prefixes = [] \<or> (\<exists>p \<in> set prefixes. starts_with p (rq_path req))"
  shows "res' = res \<and> bearer_token req \<noteq> [] \<and> validateJWT cr js now (bearer_token req) secret"
  using assms by (auto simp: require_jwt_def Let_def starts_with_def split: if_splits sum.splits)

text \<open>
  C27: a request that reaches the handler through a chain with \<open>require_jwt\<close>, at any place of it,
  and whose path starts with a protected prefix, carries a token that validates.
\<close>

theorem chain_requires_token:
  assumes "fst (run_chain error_json mws req res)" "require_jwt cr js now secret prefixes \<in> set mws"
    "p \<in> set prefixes" "starts_with p (rq_path req)"
  shows "bearer_token req \<noteq> [] \<and> validateJWT cr js now (bearer_token req) secret"
proof -
  from run_chain_proceeds [OF assms(1,2)] obtain r r' where
    "require_jwt cr js now secret prefixes req r = Proceed r'" by blast
  from require_jwt_proceeds [OF this] assms(3,4) show ?thesis by blast
qed

lemma chain_requires_token_witness:
  "validateJWT keyed_crypto toy_json_lib 100 (bearer_token (request_init\<lparr>rq_path := ''/api/x'',
      rq_headers := [''Authorization'' \<mapsto> ''Bearer '' @ toy_token]\<rparr>)) ''secret''"
proof -
  let ?r = "request_init\<lparr>rq_path := ''/api/x'', rq_headers := [''Authorization'' \<mapsto> ''Bearer '' @ toy_token]\<rparr>"
  let ?mw = "require_jwt keyed_crypto toy_json_lib 100 ''secret'' [''/api'']"
  have bt: "bearer_token ?r = toy_token" by (simp add: bearer_token_def header_def)
  have ne: "toy_token \<noteq> []" by (simp add: toy_token_def)
  have "?mw ?r response_init = Proceed response_init"
    unfolding require_jwt_def Let_def bt using ne toy_token_valid by simp
  then have "fst (run_chain (\<lambda>m. m) [request_logger, ?mw] ?r response_init)"
    by (simp only: run_chain.simps request_logger_def verdict.case fst_conv)
  from chain_requires_token [OF this, of keyed_crypto toy_json_lib 100 "''secret''" "[''/api'']" "''/api''"]
  show ?thesis by simp
qed

text \<open>
  The prefix is compared with the path as it was sent, the router drops empty segments: with
  \<open>/api/upload\<close> protected, the path \<open>//api/upload\<close> passes the middleware without any token and
  finds the protected handler.
\<close>

lemma jwt_prefix_bypass:
  "require_jwt cr js now secret [''/api/upload''] (req\<lparr>rq_path := ''//api/upload''\<rparr>) res = Proceed res \<and>
   find_route (build_router [((POST, [''api'', ''upload'']), h)]) POST ''//api/upload'' Map.empty =
     Some (Some h, Map.empty)"
  by (simp add: require_jwt_def find_route_def split_path_pieces path_segments_def build_router_def
      is_param_def empty_node_def)

text \<open>
  A preflight request is answered by \<open>cors\<close> itself, whatever comes behind it in the chain,
  with 204, the three headers and an empty length.
\<close>

lemma cors_preflight:
  assumes "rq_method req = OPTIONS"
  shows "\<exists>res'. run_chain error_json (cors origin m h # mws) req res = (False, res') \<and>
     rs_status res' = NO_CONTENT \<and> rs_headers res' ''Access-Control-Allow-Origin'' = Some origin \<and>
     rs_headers res' ''Access-Control-Allow-Methods'' = Some m \<and>
     rs_headers res' ''Access-Control-Allow-Headers'' = Some h \<and>
     rs_headers res' ''Content-Length'' = Some ''0''"
  using assms by (simp add: cors_def Let_def res_header_def res_status_def)

lemma cors_preflight_example:
  "\<not> fst (run_chain (\<lambda>m. m) [cors ''*'' ''GET'' ''X''] (request_init\<lparr>rq_method := OPTIONS\<rparr>) response_init)"
  using cors_preflight [of "request_init\<lparr>rq_method := OPTIONS\<rparr>" "\<lambda>m. m" "''*''" "''GET''" "''X''" "[]" response_init]
  by auto

end
