(* ===== verification/Multipart.thy ===== *)
theory Multipart
  imports Prelude
begin

text \<open>
  \<open>Multipart\<close> (\<open>include/oreshnek/http/Multipart.h\<close>, \<open>src/http/Multipart.cpp\<close>): the parser of
  \<open>multipart/form-data\<close> bodies. A part's views are the bytes they denote.
\<close>

record multipart_part =
  mp_name :: string
  mp_filename :: string
  mp_content_type :: string
  mp_content :: string

definition part_init :: multipart_part where
  "part_init = \<lparr>mp_name = [], mp_filename = [], mp_content_type = [], mp_content = []\<rparr>"

definition is_file :: "multipart_part \<Rightarrow> bool" where
  "is_file p \<longleftrightarrow> mp_filename p \<noteq> []"

definition quoted_attr :: "string \<Rightarrow> string \<Rightarrow> string" where
  "quoted_attr line attr =
     (let needle = attr @ ''='' @ [DQ] in
      case find_sub needle line of
        None \<Rightarrow> []
      | Some p \<Rightarrow>
          let pos = p + length needle in
          (case find_from [DQ] line pos of
             None \<Rightarrow> []
           | Some e \<Rightarrow> substr line pos (e - pos)))"

definition iequals_prefix :: "string \<Rightarrow> string \<Rightarrow> bool" where
  "iequals_prefix s prefix =
     (if length s < length prefix then False
      else list_all (\<lambda>i. to_lower (s ! i) = to_lower (prefix ! i)) [0..<length prefix])"

definition trim :: "string \<Rightarrow> string" where
  "trim s =
     rev (dropWhile (\<lambda>c. c = CHR '' '' \<or> c = TAB \<or> c = CR)
       (rev (dropWhile (\<lambda>c. c = CHR '' '' \<or> c = TAB) s)))"

definition part_header_line :: "string \<Rightarrow> multipart_part \<Rightarrow> multipart_part" where
  "part_header_line line part =
     (if iequals_prefix line ''content-disposition:'' then
        part\<lparr>mp_name := quoted_attr line ''name'', mp_filename := quoted_attr line ''filename''\<rparr>
      else if iequals_prefix line ''content-type:'' then
        part\<lparr>mp_content_type := trim (drop (length ''content-type:'') line)\<rparr>
      else part)"

function parse_part_headers :: "string \<Rightarrow> nat \<Rightarrow> multipart_part \<Rightarrow> multipart_part" where
  "parse_part_headers headers pos part =
     (if pos < length headers then
        (case find_from crlf headers pos of
           None \<Rightarrow> part_header_line (drop pos headers) part
         | Some eol \<Rightarrow>
             parse_part_headers headers (eol + 2)
               (part_header_line (substr headers pos (eol - pos)) part))
      else part)"
  by pat_completeness auto
termination
  by (relation "measure (\<lambda>(headers, pos, part). length headers - pos)") (auto dest!: find_from_bound)

declare parse_part_headers.simps [simp del]

definition boundary_from_content_type :: "string \<Rightarrow> string" where
  "boundary_from_content_type content_type =
     (case find_sub ''boundary='' content_type of
        None \<Rightarrow> []
      | Some p \<Rightarrow>
          let b = drop (p + length ''boundary='') content_type in
          if b \<noteq> [] \<and> hd b = DQ then
            (case find_sub [DQ] (tl b) of None \<Rightarrow> tl b | Some e \<Rightarrow> take e (tl b))
          else takeWhile (\<lambda>c. c \<notin> {CHR '';'', CHR '' '', TAB, CR, LF}) b)"

text \<open>The \<open>while (true)\<close> loop, at the position behind a boundary.\<close>

function parse_parts :: "string \<Rightarrow> string \<Rightarrow> nat \<Rightarrow> multipart_part list" where
  "parse_parts body next_delim pos =
     (if length body < pos + 2 then []
      else if body ! pos = CHR ''-'' \<and> body ! (pos + 1) = CHR ''-'' then []
      else if substr body pos 2 \<noteq> crlf then []
      else
        (case find_from (crlf @ crlf) body (pos + 2) of
           None \<Rightarrow> []
         | Some hdr_end \<Rightarrow>
             (case find_from next_delim body (hdr_end + 4) of
                None \<Rightarrow> []
              | Some next \<Rightarrow>
                  let part = parse_part_headers (substr body (pos + 2) (hdr_end - (pos + 2))) 0
                        (part_init\<lparr>mp_content := substr body (hdr_end + 4) (next - (hdr_end + 4))\<rparr>)
                  in (if mp_name part \<noteq> [] then [part] else []) @
                     parse_parts body next_delim (next + length next_delim))))"
  by pat_completeness auto
termination
  by (relation "measure (\<lambda>(body, next_delim, pos). length body - pos)") (auto dest!: find_from_bound)

declare parse_parts.simps [simp del]

definition multipart_parse :: "string \<Rightarrow> string \<Rightarrow> multipart_part list" where
  "multipart_parse body boundary =
     (if boundary = [] then []
      else
        let delim = ''--'' @ boundary; next_delim = crlf @ delim in
        case find_sub delim body of
          None \<Rightarrow> []
        | Some p \<Rightarrow> parse_parts body next_delim (p + length delim))"

section \<open>Finding a text around a byte that occurs once\<close>

lemma anchored_occurrence:
  assumes "c \<notin> set a" "c \<notin> set u" "j \<le> length u" "starts_with (a @ c # b) (drop j (u @ c # t))"
  shows "drop j u = a \<and> starts_with b t"
proof -
  from assms(3,4) obtain w where e: "drop j u @ c # t = a @ c # b @ w"
    by (auto simp: starts_with_iff)
  have nd: "c \<notin> set (drop j u)" using assms(2) by (meson in_set_dropD)
  have "takeWhile (\<lambda>x. x \<noteq> c) (drop j u @ c # t) = drop j u"
    using nd by (subst takeWhile_append2) auto
  moreover have "takeWhile (\<lambda>x. x \<noteq> c) (a @ c # b @ w) = a"
    using assms(1) by (subst takeWhile_append2) auto
  ultimately have "drop j u = a" using e by simp
  with e show ?thesis by (simp add: starts_with_iff)
qed

lemma find_sub_anchor_hit:
  assumes "c \<notin> set a" "c \<notin> set u"
  shows "find_sub (a @ c # b) ((u @ a) @ c # b @ t) = Some (length u)"
proof (rule find_subI)
  show "\<not> starts_with (a @ c # b) (drop j ((u @ a) @ c # b @ t))" if j: "j < length u" for j
  proof
    assume "starts_with (a @ c # b) (drop j ((u @ a) @ c # b @ t))"
    from anchored_occurrence [OF assms(1) _ _ this] assms j have "drop j (u @ a) = a" by simp
    then have "length (drop j (u @ a)) = length a" by simp
    then show False using j by simp
  qed
qed simp_all

lemma find_sub_anchor_skip:
  assumes "c \<notin> set a" "c \<notin> set u" "\<not> ends_with a u \<or> \<not> starts_with b t"
  shows "find_sub (a @ c # b) (u @ c # t) =
     map_option (\<lambda>i. length u + 1 + i) (find_sub (a @ c # b) t)"
proof -
  have early: "\<not> starts_with (a @ c # b) (drop j (u @ c # t))" if "j \<le> length u" for j
  proof
    assume "starts_with (a @ c # b) (drop j (u @ c # t))"
    from anchored_occurrence [OF assms(1,2) that this] have "drop j u = a" "starts_with b t" by auto
    moreover from this have "ends_with a u"
      by (metis ends_with_def diff_diff_cancel length_drop diff_le_self nat_le_linear drop_all
          drop_eq_Nil list.size(3) diff_is_0_eq')
    ultimately show False using assms(3) by blast
  qed
  have late: "drop j (u @ c # t) = drop (j - (length u + 1)) t" if "length u < j" for j
    using that by (simp add: drop_Cons' not_le)
  show ?thesis
  proof (cases "find_sub (a @ c # b) t")
    case None
    have "find_sub (a @ c # b) (u @ c # t) = None"
    proof (rule ccontr)
      assume "find_sub (a @ c # b) (u @ c # t) \<noteq> None"
      then obtain i where "find_sub (a @ c # b) (u @ c # t) = Some i" by blast
      from find_sub_SomeD [OF this] have i: "starts_with (a @ c # b) (drop i (u @ c # t))" by blast
      have "\<not> i \<le> length u" using early i by blast
      then have "length u < i" by simp
      with i late None find_sub_None show False by metis
    qed
    with None show ?thesis by simp
  next
    case (Some i)
    have "find_sub (a @ c # b) (u @ c # t) = Some (length u + 1 + i)"
    proof (rule find_subI)
      show "\<not> starts_with (a @ c # b) (drop j (u @ c # t))" if "j < length u + 1 + i" for j
        using early [of j] late [of j] find_sub_least [OF Some, of "j - (length u + 1)"] that
        by (cases "j \<le> length u") auto
      show "starts_with (a @ c # b) (drop (length u + 1 + i) (u @ c # t))"
        using late [of "length u + 1 + i"] find_sub_SomeD [OF Some] by simp
      show "length u + 1 + i \<le> length (u @ c # t)" using find_sub_bound [OF Some] by simp
    qed
    with Some show ?thesis by simp
  qed
qed

lemma find_sub_no_anchor: "c \<notin> set u \<Longrightarrow> find_sub (a @ c # b) u = None"
proof (rule ccontr)
  assume "c \<notin> set u" "find_sub (a @ c # b) u \<noteq> None"
  then obtain i where "find_sub (a @ c # b) u = Some i" by blast
  from find_sub_split [OF this] have "c \<in> set u" by (metis in_set_conv_decomp append.assoc append_Cons)
  with \<open>c \<notin> set u\<close> show False by contradiction
qed

section \<open>Rendering parts\<close>

definition render_disposition :: "multipart_part \<Rightarrow> string" where
  "render_disposition p =
     ''Content-Disposition: form-data; name='' @ [DQ] @ mp_name p @ [DQ] @
     (if mp_filename p = [] then [] else ''; filename='' @ [DQ] @ mp_filename p @ [DQ])"

definition render_part_headers :: "multipart_part \<Rightarrow> string" where
  "render_part_headers p =
     render_disposition p @
     (if mp_content_type p = [] then [] else crlf @ ''Content-Type: '' @ mp_content_type p)"

definition render_part :: "string \<Rightarrow> multipart_part \<Rightarrow> string" where
  "render_part next_delim p =
     crlf @ render_part_headers p @ crlf @ crlf @ mp_content p @ next_delim"

definition render_multipart :: "string \<Rightarrow> multipart_part list \<Rightarrow> string" where
  "render_multipart boundary ps =
     ''--'' @ boundary @ concat (map (render_part (crlf @ ''--'' @ boundary)) ps) @ ''--'' @ crlf"

text \<open>
  The fields can be quoted as they are, and the content does not hold the delimiter.
\<close>

definition part_ok :: "string \<Rightarrow> multipart_part \<Rightarrow> bool" where
  "part_ok next_delim p \<longleftrightarrow>
     mp_name p \<noteq> [] \<and> CR \<notin> set (mp_name p) \<and> DQ \<notin> set (mp_name p) \<and> CHR ''='' \<notin> set (mp_name p) \<and>
     CR \<notin> set (mp_filename p) \<and> DQ \<notin> set (mp_filename p) \<and>
     CR \<notin> set (mp_content_type p) \<and> trim (CHR '' '' # mp_content_type p) = mp_content_type p \<and>
     find_sub next_delim (mp_content p @ next_delim) = Some (length (mp_content p))"

lemma quoted_attr_at:
  assumes "find_sub (attr @ ''='' @ [DQ]) (pre @ v @ [DQ] @ rest) = Some i"
    "length pre = i + length attr + 2" "DQ \<notin> set v"
  shows "quoted_attr (pre @ v @ [DQ] @ rest) attr = v"
proof -
  have len: "i + length (attr @ ''='' @ [DQ]) = length pre" using assms(2) by simp
  have "find_from [DQ] (pre @ v @ [DQ] @ rest) (length pre) = Some (length pre + length v)"
    using find_sub_here [OF assms(3), of "[]" rest] by (simp add: find_from_def)
  then show ?thesis unfolding quoted_attr_def Let_def assms(1) option.case len by (simp add: substr_def)
qed

lemma quoted_attr_name:
  assumes "DQ \<notin> set n"
  shows "quoted_attr (''Content-Disposition: form-data; name='' @ [DQ] @ n @ [DQ] @ rest) ''name'' = n"
proof -
  let ?u = "''Content-Disposition: form-data; ''"
  have "find_sub (''name'' @ CHR ''='' # [DQ]) ((?u @ ''name'') @ CHR ''='' # [DQ] @ n @ [DQ] @ rest) =
      Some (length ?u)"
    by (rule find_sub_anchor_hit) simp_all
  then show ?thesis
    using quoted_attr_at [of "''name''" "''Content-Disposition: form-data; name='' @ [DQ]" n rest "length ?u"]
      assms by simp
qed

lemma quoted_attr_filename:
  assumes "DQ \<notin> set n" "CHR ''='' \<notin> set n"
  shows "DQ \<notin> set f \<Longrightarrow> quoted_attr (''Content-Disposition: form-data; name='' @ [DQ] @ n @ [DQ] @
       ''; filename='' @ [DQ] @ f @ [DQ]) ''filename'' = f"
    "quoted_attr (''Content-Disposition: form-data; name='' @ [DQ] @ n @ [DQ]) ''filename'' = []"
proof -
  let ?u = "''Content-Disposition: form-data; name''" and ?v = "[DQ] @ n @ [DQ] @ ''; ''"
  have nu: "\<not> ends_with ''filename'' ?u" by (simp add: ends_with_def)
  have skip: "find_sub (''filename'' @ CHR ''='' # [DQ]) (?u @ CHR ''='' # t) =
      map_option (\<lambda>i. length ?u + 1 + i) (find_sub (''filename'' @ CHR ''='' # [DQ]) t)" for t
    by (rule find_sub_anchor_skip) (use nu in simp_all)
  have "find_sub (''filename'' @ CHR ''='' # [DQ]) ((?v @ ''filename'') @ CHR ''='' # [DQ] @ f @ [DQ]) =
      Some (length ?v)" for f
    by (rule find_sub_anchor_hit) (use assms in simp_all)
  then have "find_sub (''filename'' @ CHR ''='' # [DQ])
      (?u @ CHR ''='' # (?v @ ''filename'') @ CHR ''='' # [DQ] @ f @ [DQ]) = Some (length ?u + 1 + length ?v)"
    using skip by simp
  then show "DQ \<notin> set f \<Longrightarrow> quoted_attr (''Content-Disposition: form-data; name='' @ [DQ] @ n @ [DQ] @
       ''; filename='' @ [DQ] @ f @ [DQ]) ''filename'' = f"
    using quoted_attr_at [of "''filename''" "''Content-Disposition: form-data; name='' @ [DQ] @ n @ [DQ] @
       ''; filename='' @ [DQ]" f "[]" "length ?u + 1 + length ?v"] by simp
  have "find_sub (''filename'' @ CHR ''='' # [DQ]) (?u @ CHR ''='' # [DQ] @ n @ [DQ]) = None"
    using skip find_sub_no_anchor [of "CHR ''=''" "[DQ] @ n @ [DQ]" "''filename''" "[DQ]"] assms(2)
    by simp
  then show "quoted_attr (''Content-Disposition: form-data; name='' @ [DQ] @ n @ [DQ]) ''filename'' = []"
    by (simp add: quoted_attr_def)
qed

lemma to_lower_capitals: "to_lower CHR ''C'' = CHR ''c''" "to_lower CHR ''D'' = CHR ''d''"
  "to_lower CHR ''T'' = CHR ''t''" "to_lower CHR ''c'' = CHR ''c''" "to_lower CHR ''d'' = CHR ''d''"
  "to_lower CHR ''t'' = CHR ''t''"
  by code_simp+

lemma iequals_prefix_simps:
  "iequals_prefix (''Content-Disposition: form-data; name='' @ t) ''content-disposition:''"
  "iequals_prefix (''Content-Type: '' @ t) ''content-type:''"
  "\<not> iequals_prefix (''Content-Type: '' @ t) ''content-disposition:''"
  by (simp_all add: iequals_prefix_def upt_rec to_lower_capitals)

lemma part_header_line_disposition:
  assumes "part_ok nd p"
  shows "part_header_line (render_disposition p) q = q\<lparr>mp_name := mp_name p, mp_filename := mp_filename p\<rparr>"
proof -
  have q: "DQ \<notin> set (mp_name p)" "CHR ''='' \<notin> set (mp_name p)" "DQ \<notin> set (mp_filename p)"
    using assms by (auto simp: part_ok_def)
  let ?x = "[DQ] @ mp_name p @ [DQ] @
     (if mp_filename p = [] then [] else ''; filename='' @ [DQ] @ mp_filename p @ [DQ])"
  have "render_disposition p = ''Content-Disposition: form-data; name='' @ ?x"
    by (simp add: render_disposition_def)
  then have i: "iequals_prefix (render_disposition p) ''content-disposition:''"
    by (simp only: iequals_prefix_simps(1))
  have n: "quoted_attr (render_disposition p) ''name'' = mp_name p"
    using quoted_attr_name [OF q(1)] by (simp only: render_disposition_def)
  have "quoted_attr (render_disposition p) ''filename'' = mp_filename p"
    using quoted_attr_filename(1) [OF q(1,2,3)] quoted_attr_filename(2) [OF q(1,2)]
    by (cases "mp_filename p = []") (simp_all add: render_disposition_def)
  with i n show ?thesis by (simp add: part_header_line_def)
qed

lemma part_header_line_type:
  assumes "part_ok nd p"
  shows "part_header_line (''Content-Type: '' @ mp_content_type p) q = q\<lparr>mp_content_type := mp_content_type p\<rparr>"
proof -
  have "trim (CHR '' '' # mp_content_type p) = mp_content_type p" using assms by (simp add: part_ok_def)
  moreover have "drop (length ''content-type:'') (''Content-Type: '' @ mp_content_type p) =
      CHR '' '' # mp_content_type p" by simp
  ultimately show ?thesis
    using iequals_prefix_simps(2,3) [of "mp_content_type p"] unfolding part_header_line_def by metis
qed

lemma parse_part_headers_last:
  assumes "CR \<notin> set l"
  shows "parse_part_headers (pre @ l) (length pre) q = (if l = [] then q else part_header_line l q)"
proof -
  have "find_from crlf (pre @ l) (length pre) = None"
    using find_sub_notin [OF assms] by (simp add: find_from_def)
  then show ?thesis by (simp add: parse_part_headers.simps [of "pre @ l"])
qed

lemma parse_part_headers_line:
  assumes "CR \<notin> set l" "l \<noteq> []"
  shows "parse_part_headers (l @ crlf @ t) 0 q = parse_part_headers (l @ crlf @ t) (length (l @ crlf)) (part_header_line l q)"
  using split_line(1) [OF assms(1), of t] assms(2)
  by (simp add: parse_part_headers.simps [of "l @ _" 0] find_from_def substr_def)

lemma render_disposition_no_cr: "part_ok nd p \<Longrightarrow> CR \<notin> set (render_disposition p)"
  by (auto simp: part_ok_def render_disposition_def)

lemma parse_part_headers_render:
  assumes "part_ok nd p"
  shows "parse_part_headers (render_part_headers p) 0 (part_init\<lparr>mp_content := mp_content p\<rparr>) = p"
proof -
  let ?d = "render_disposition p" and ?t = "''Content-Type: '' @ mp_content_type p"
  have ne: "?d \<noteq> []" by (simp add: render_disposition_def)
  note cr = render_disposition_no_cr [OF assms]
  show ?thesis
  proof (cases "mp_content_type p = []")
    case True
    then have "render_part_headers p = [] @ ?d" by (simp add: render_part_headers_def)
    then show ?thesis
      using parse_part_headers_last [OF cr, of "[]"] part_header_line_disposition [OF assms] ne True
      by (simp add: part_init_def)
  next
    case False
    have crt: "CR \<notin> set ?t" using assms by (simp add: part_ok_def)
    have "render_part_headers p = (?d @ crlf) @ ?t" using False by (simp add: render_part_headers_def)
    then have "parse_part_headers (render_part_headers p) 0 q =
        part_header_line ?t (part_header_line ?d q)" for q
      using parse_part_headers_line [OF cr ne, of ?t q] parse_part_headers_last [OF crt, of "?d @ crlf"]
      by simp
    then show ?thesis
      unfolding part_header_line_disposition [OF assms] part_header_line_type [OF assms]
      by (simp add: part_init_def)
  qed
qed

text \<open>The blank line behind the headers of a part is found at their end.\<close>

lemma find_blank_line:
  assumes "CR \<notin> set l" "l \<noteq> []" "CR \<notin> set m"
  shows "find_sub (crlf @ crlf) (l @ crlf @ crlf @ t) = Some (length l)"
    "m \<noteq> [] \<Longrightarrow> find_sub (crlf @ crlf) (l @ crlf @ m @ crlf @ crlf @ t) = Some (length l + 2 + length m)"
proof -
  show one: "find_sub (crlf @ crlf) (l @ crlf @ crlf @ t) = Some (length l)"
    using find_sub_here [OF assms(1), of "LF # crlf" t] by simp
  assume "m \<noteq> []"
  then obtain c m' where m: "m = c # m'" "c \<noteq> CR" using assms(3) by (cases m) auto
  have "find_sub (CR # LF # crlf) (m @ crlf @ crlf @ t) = Some (length m)"
    using find_sub_here [OF assms(3), of "LF # crlf" t] by simp
  then have "find_sub (CR # LF # crlf) (crlf @ m @ crlf @ crlf @ t) = Some (2 + length m)"
    using m by simp
  with find_sub_skip [OF assms(1), of "LF # crlf" "crlf @ m @ crlf @ crlf @ t"]
  show "find_sub (crlf @ crlf) (l @ crlf @ m @ crlf @ crlf @ t) = Some (length l + 2 + length m)"
    by simp
qed

lemma find_headers_end:
  assumes "part_ok nd p"
  shows "find_sub (crlf @ crlf) (render_part_headers p @ crlf @ crlf @ t) = Some (length (render_part_headers p))"
proof -
  have ne: "render_disposition p \<noteq> []" by (simp add: render_disposition_def)
  have crt: "CR \<notin> set (''Content-Type: '' @ mp_content_type p)" using assms by (simp add: part_ok_def)
  show ?thesis
    using find_blank_line [OF render_disposition_no_cr [OF assms] ne crt, of t]
    by (simp add: render_part_headers_def)
qed

lemma parse_parts_render_part:
  assumes "part_ok nd p" "nd \<noteq> []"
  shows "parse_parts (pre @ render_part nd p @ t) nd (length pre) =
     p # parse_parts (pre @ render_part nd p @ t) nd (length (pre @ render_part nd p))"
proof -
  let ?h = "render_part_headers p" and ?c = "mp_content p"
  let ?body = "pre @ crlf @ ?h @ crlf @ crlf @ ?c @ nd @ t"
  have b: "pre @ render_part nd p @ t = ?body" by (simp add: render_part_def)
  have hd: "\<not> length ?body < length pre + 2" "?body ! length pre = CR" "substr ?body (length pre) 2 = crlf"
    by (simp_all add: nth_append substr_def)
  have hdr: "find_from (crlf @ crlf) ?body (length pre + 2) = Some (length pre + 2 + length ?h)"
    using find_headers_end [OF assms(1), of "?c @ nd @ t"] by (simp add: find_from_def)
  have "find_sub nd (?c @ nd) = Some (length ?c)" using assms(1) by (simp add: part_ok_def)
  from find_sub_append [OF this, of t] have c: "find_sub nd (?c @ nd @ t) = Some (length ?c)" by simp
  have d: "drop (length pre + 2 + length ?h + 4) ?body = ?c @ nd @ t"
  proof -
    have "?body = (pre @ crlf @ ?h @ crlf @ crlf) @ ?c @ nd @ t"
      "length pre + 2 + length ?h + 4 = length (pre @ crlf @ ?h @ crlf @ crlf)" by simp_all
    then show ?thesis by (metis append_eq_conv_conj)
  qed
  have nx: "find_from nd ?body (length pre + 2 + length ?h + 4) = Some (length pre + 2 + length ?h + 4 + length ?c)"
    unfolding find_from_def d c by simp
  have sh: "substr ?body (length pre + 2) (length pre + 2 + length ?h - (length pre + 2)) = ?h"
    by (simp add: substr_def)
  have sc: "substr ?body (length pre + 2 + length ?h + 4)
      (length pre + 2 + length ?h + 4 + length ?c - (length pre + 2 + length ?h + 4)) = ?c"
    unfolding substr_def d by simp
  have pos: "length pre + 2 + length ?h + 4 + length ?c + length nd = length (pre @ render_part nd p)"
    by (simp add: render_part_def)
  have "mp_name p \<noteq> []" using assms(1) by (simp add: part_ok_def)
  then show ?thesis
    unfolding b parse_parts.simps [of ?body nd "length pre"] hdr option.case nx Let_def sh sc
      parse_part_headers_render [OF assms(1)] pos
    using hd by simp
qed

lemma parse_parts_render:
  assumes "nd \<noteq> []"
  shows "\<forall>p \<in> set ps. part_ok nd p \<Longrightarrow>
     parse_parts (pre @ concat (map (render_part nd) ps) @ ''--'' @ t) nd (length pre) = ps"
proof (induction ps arbitrary: pre)
  case Nil
  then show ?case by (simp add: parse_parts.simps nth_append)
next
  case (Cons p ps)
  have ok: "part_ok nd p" using Cons.prems by simp
  have "parse_parts ((pre @ render_part nd p) @ concat (map (render_part nd) ps) @ ''--'' @ t) nd
      (length (pre @ render_part nd p)) = ps"
    using Cons.IH [of "pre @ render_part nd p"] Cons.prems by simp
  with parse_parts_render_part [OF ok assms, of pre "concat (map (render_part nd) ps) @ ''--'' @ t"]
  show ?case by simp
qed

section \<open>Properties\<close>

text \<open>
  C39: a rendered form reads back as its parts, in their order, with name, file name, content type
  and content; the content may hold any bytes but the delimiter itself.
\<close>

theorem multipart_parse_render:
  assumes "boundary \<noteq> []" "\<forall>p \<in> set ps. part_ok (crlf @ ''--'' @ boundary) p"
  shows "multipart_parse (render_multipart boundary ps) boundary = ps"
proof -
  let ?delim = "''--'' @ boundary"
  let ?body = "?delim @ concat (map (render_part (crlf @ ?delim)) ps) @ ''--'' @ crlf"
  have b: "render_multipart boundary ps = ?body" by (simp add: render_multipart_def)
  have "find_sub ?delim ?body = Some 0" by (rule find_sub_starts) (rule starts_with_append)
  then show ?thesis
    using assms(1) parse_parts_render [OF _ assms(2), of ?delim crlf]
    unfolding multipart_parse_def b Let_def by simp
qed

lemma multipart_parse_render_witness:
  "multipart_parse (render_multipart ''b'' [\<lparr>mp_name = ''t'', mp_filename = ''a.txt'',
       mp_content_type = ''text/plain'', mp_content = ''x'' @ crlf @ ''-''\<rparr>]) ''b'' =
     [\<lparr>mp_name = ''t'', mp_filename = ''a.txt'', mp_content_type = ''text/plain'',
       mp_content = ''x'' @ crlf @ ''-''\<rparr>]"
  by (rule multipart_parse_render) (simp_all add: part_ok_def trim_def)

text \<open>
  The attribute \<open>name\<close> is looked up as a text, which also occurs inside \<open>filename\<close>: when the
  file name stands first, it is read as the name of the field.
\<close>

lemma quoted_attr_name_in_filename:
  "quoted_attr (''form-data; filename='' @ [DQ] @ ''evil'' @ [DQ] @ ''; name='' @ [DQ] @ ''title'' @ [DQ])
     ''name'' = ''evil''"
  by (simp add: quoted_attr_def find_from_def substr_def)

text \<open>
  A body that breaks off keeps the parts before the break: without the closing delimiter of
  its last part a form is not refused, its earlier parts are returned.
\<close>

lemma multipart_truncated:
  assumes "boundary \<noteq> []" "part_ok (crlf @ ''--'' @ boundary) p"
  shows "multipart_parse (''--'' @ boundary @ render_part (crlf @ ''--'' @ boundary) p) boundary = [p]"
proof -
  let ?delim = "''--'' @ boundary"
  let ?body = "?delim @ render_part (crlf @ ?delim) p"
  have "find_sub ?delim ?body = Some 0" by (rule find_sub_starts) (rule starts_with_append)
  moreover have "parse_parts ?body (crlf @ ?delim) (length ?delim) = [p]"
    using parse_parts_render_part [OF assms(2), of ?delim "[]"]
      parse_parts.simps [of ?body "crlf @ ?delim" "length ?body"] by simp
  ultimately show ?thesis using assms(1) unfolding multipart_parse_def Let_def by simp
qed

lemma multipart_truncated_example:
  "multipart_parse (''--b'' @ render_part (crlf @ ''--b'') \<lparr>mp_name = ''t'', mp_filename = [],
       mp_content_type = [], mp_content = ''x''\<rparr>) ''b'' =
     [\<lparr>mp_name = ''t'', mp_filename = [], mp_content_type = [], mp_content = ''x''\<rparr>]"
  using multipart_truncated [of "''b''" "\<lparr>mp_name = ''t'', mp_filename = [], mp_content_type = [],
      mp_content = ''x''\<rparr>"] by (simp add: part_ok_def trim_def)

end
