(* ===== verification/Request_Views.thy ===== *)
theory Request_Views
  imports Http_Enums Prelude
begin

text \<open>
  \<open>HttpRequest\<close> at the level of storage (\<open>src/http/HttpRequest.cpp\<close>): its \<open>string_view\<close> members
  are an address and a length in a memory of bytes. This is where \<open>make_owned\<close> detaches a request
  from the read buffer of its connection, and where a copied or moved request has its views
  repointed. The address at which the new owned storage is placed is an argument.
\<close>

datatype view = NullView | View (view_addr: int) (view_len: nat)

type_synonym view_map = "(view \<times> view) list"
type_synonym memory = "int \<Rightarrow> char"

record raw_request =
  rw_method :: HttpMethod
  rw_path :: view
  rw_version :: view
  rw_headers :: view_map
  rw_query_params :: view_map
  rw_path_params :: view_map
  rw_body :: view
  rw_owned :: "(int \<times> nat) option"

text \<open>\<open>rw_owned\<close> is the address and length of a nonempty \<open>owned_storage_\<close>.\<close>

definition shift_view :: "int \<Rightarrow> int \<Rightarrow> view \<Rightarrow> view" where
  "shift_view old_base new_base v =
     (case v of NullView \<Rightarrow> NullView | View a n \<Rightarrow> View (new_base + (a - old_base)) n)"

definition shift_map :: "int \<Rightarrow> int \<Rightarrow> view_map \<Rightarrow> view_map" where
  "shift_map old_base new_base m =
     map (\<lambda>(k, v). (shift_view old_base new_base k, shift_view old_base new_base v)) m"

definition rebase_views :: "int \<Rightarrow> int \<Rightarrow> raw_request \<Rightarrow> raw_request" where
  "rebase_views old_base new_base r =
     (if old_base = new_base then r
      else r\<lparr>rw_path := shift_view old_base new_base (rw_path r),
             rw_version := shift_view old_base new_base (rw_version r),
             rw_body := shift_view old_base new_base (rw_body r),
             rw_headers := shift_map old_base new_base (rw_headers r),
             rw_query_params := shift_map old_base new_base (rw_query_params r)\<rparr>)"

text \<open>\<open>owned_storage_.assign\<close>, and the copy of a string into fresh storage.\<close>

definition copy_bytes :: "memory \<Rightarrow> int \<Rightarrow> nat \<Rightarrow> int \<Rightarrow> memory" where
  "copy_bytes mem base len new_base =
     (\<lambda>a. if new_base \<le> a \<and> a < new_base + int len then mem (base + (a - new_base)) else mem a)"

definition make_owned :: "int \<Rightarrow> nat \<Rightarrow> int \<Rightarrow> memory \<times> raw_request \<Rightarrow> memory \<times> raw_request" where
  "make_owned base len new_base s =
     (case s of (mem, r) \<Rightarrow>
        (copy_bytes mem base len new_base,
         rebase_views base new_base
           (r\<lparr>rw_owned := (if len = 0 then None else Some (new_base, len))\<rparr>)))"

text \<open>
  The copy constructor: the members, the storage, then the views of a source that owned its bytes.
\<close>

definition copy_from :: "int \<Rightarrow> memory \<times> raw_request \<Rightarrow> memory \<times> raw_request" where
  "copy_from new_base s =
     (case s of (mem, other) \<Rightarrow>
        (case rw_owned other of
           None \<Rightarrow> (mem, other)
         | Some (base, len) \<Rightarrow>
             (copy_bytes mem base len new_base,
              rebase_views base new_base (other\<lparr>rw_owned := Some (new_base, len)\<rparr>))))"

text \<open>
  The move constructor: the storage keeps its address or, for a short string, is copied to a new
  one. What it leaves in the source is not read again.
\<close>

definition move_from :: "int \<Rightarrow> memory \<times> raw_request \<Rightarrow> memory \<times> raw_request" where
  "move_from new_base s =
     (case s of (mem, other) \<Rightarrow>
        (case rw_owned other of
           None \<Rightarrow> (mem, other)
         | Some (base, len) \<Rightarrow>
             ((if new_base = base then mem else copy_bytes mem base len new_base),
              rebase_views base new_base (other\<lparr>rw_owned := Some (new_base, len)\<rparr>))))"

section \<open>What a view denotes\<close>

definition view_bytes :: "memory \<Rightarrow> view \<Rightarrow> string" where
  "view_bytes mem v =
     (case v of NullView \<Rightarrow> [] | View a n \<Rightarrow> map (\<lambda>i. mem (a + int i)) [0..<n])"

definition view_in :: "int \<Rightarrow> nat \<Rightarrow> view \<Rightarrow> bool" where
  "view_in base len v =
     (case v of NullView \<Rightarrow> True | View a n \<Rightarrow> base \<le> a \<and> a + int n \<le> base + int len)"

definition map_bytes :: "memory \<Rightarrow> view_map \<Rightarrow> (string \<times> string) list" where
  "map_bytes mem m = map (\<lambda>(k, v). (view_bytes mem k, view_bytes mem v)) m"

definition map_in :: "int \<Rightarrow> nat \<Rightarrow> view_map \<Rightarrow> bool" where
  "map_in base len m \<longleftrightarrow> (\<forall>(k, v) \<in> set m. view_in base len k \<and> view_in base len v)"

text \<open>The views of a request as parsed, without the path parameters.\<close>

definition views_in :: "int \<Rightarrow> nat \<Rightarrow> raw_request \<Rightarrow> bool" where
  "views_in base len r \<longleftrightarrow>
     view_in base len (rw_path r) \<and> view_in base len (rw_version r) \<and> view_in base len (rw_body r) \<and>
     map_in base len (rw_headers r) \<and> map_in base len (rw_query_params r)"

definition same_contents :: "memory \<Rightarrow> raw_request \<Rightarrow> memory \<Rightarrow> raw_request \<Rightarrow> bool" where
  "same_contents mem r mem' r' \<longleftrightarrow>
     rw_method r = rw_method r' \<and>
     view_bytes mem (rw_path r) = view_bytes mem' (rw_path r') \<and>
     view_bytes mem (rw_version r) = view_bytes mem' (rw_version r') \<and>
     view_bytes mem (rw_body r) = view_bytes mem' (rw_body r') \<and>
     map_bytes mem (rw_headers r) = map_bytes mem' (rw_headers r') \<and>
     map_bytes mem (rw_query_params r) = map_bytes mem' (rw_query_params r')"

lemma shift_view_in: "view_in base len v \<Longrightarrow> view_in new len (shift_view base new v)"
  by (auto simp: view_in_def shift_view_def split: view.splits)

lemma shift_view_bytes:
  "view_in base len v \<Longrightarrow> view_bytes (copy_bytes mem base len new) (shift_view base new v) = view_bytes mem v"
  by (auto simp: view_in_def shift_view_def view_bytes_def copy_bytes_def algebra_simps split: view.splits)

lemma shift_map_in: "map_in base len m \<Longrightarrow> map_in new len (shift_map base new m)"
  by (auto simp: map_in_def shift_map_def shift_view_in)

lemma shift_map_bytes:
  "map_in base len m \<Longrightarrow> map_bytes (copy_bytes mem base len new) (shift_map base new m) = map_bytes mem m"
  by (auto simp: map_in_def map_bytes_def shift_map_def shift_view_bytes)

lemma shift_view_same [simp]: "shift_view b b v = v"
  by (simp add: shift_view_def split: view.split)

lemma shift_map_same [simp]: "shift_map b b m = m"
  by (simp add: shift_map_def map_idI)

lemma rebase_views_simps:
  "rw_path (rebase_views b n r) = shift_view b n (rw_path r)"
  "rw_version (rebase_views b n r) = shift_view b n (rw_version r)"
  "rw_body (rebase_views b n r) = shift_view b n (rw_body r)"
  "rw_headers (rebase_views b n r) = shift_map b n (rw_headers r)"
  "rw_query_params (rebase_views b n r) = shift_map b n (rw_query_params r)"
  "rw_path_params (rebase_views b n r) = rw_path_params r"
  "rw_method (rebase_views b n r) = rw_method r"
  "rw_owned (rebase_views b n r) = rw_owned r"
  by (auto simp: rebase_views_def)

lemma rebase_views_in: "views_in b len r \<Longrightarrow> views_in n len (rebase_views b n r)"
  by (auto simp: views_in_def rebase_views_simps shift_view_in shift_map_in)

lemma rebase_same_contents:
  "views_in b len r \<Longrightarrow> same_contents mem r (copy_bytes mem b len n) (rebase_views b n r)"
  by (auto simp: views_in_def same_contents_def rebase_views_simps shift_view_bytes shift_map_bytes)

section \<open>Properties\<close>

text \<open>
  C38: a request detached from its read buffer holds the same method, path, version, headers, query
  and body, and all its views lie in its own storage: whatever is written to the read buffer later
  does not reach it.
\<close>

theorem make_owned_detaches:
  assumes "make_owned base len new_base (mem, r) = (mem', r')" "views_in base len r"
    "\<forall>a. new_base \<le> a \<and> a < new_base + int len \<longrightarrow> later a = mem' a"
  shows "same_contents mem r later r' \<and> views_in new_base len r'"
proof -
  let ?r = "r\<lparr>rw_owned := (if len = 0 then None else Some (new_base, len))\<rparr>"
  have r': "r' = rebase_views base new_base ?r" and mem': "mem' = copy_bytes mem base len new_base"
    using assms(1) by (auto simp: make_owned_def)
  have vi: "views_in base len ?r" using assms(2) by (simp add: views_in_def)
  have vin: "views_in new_base len r'" using rebase_views_in [OF vi] r' by simp
  have same: "same_contents mem r mem' r'"
    using rebase_same_contents [OF vi, of mem new_base] r' mem' by (simp add: same_contents_def)
  have keep: "view_bytes later v = view_bytes mem' v" if "view_in new_base len v" for v
    using that assms(3) by (auto simp: view_bytes_def view_in_def split: view.splits)
  have keepm: "map_bytes later m = map_bytes mem' m" if "map_in new_base len m" for m
    using that keep by (fastforce simp: map_bytes_def map_in_def)
  show ?thesis
    using same vin keep keepm by (simp add: same_contents_def views_in_def)
qed

definition view_example :: raw_request where
  "view_example = \<lparr>rw_method = GET, rw_path = View 4 2, rw_version = View 7 1, rw_headers = [],
     rw_query_params = [], rw_path_params = [], rw_body = NullView, rw_owned = None\<rparr>"

lemma make_owned_detaches_witness:
  "same_contents (\<lambda>a. CHR ''x'') view_example
     (fst (make_owned 0 8 100 ((\<lambda>a. CHR ''x''), view_example)))
     (snd (make_owned 0 8 100 ((\<lambda>a. CHR ''x''), view_example)))"
proof -
  have "views_in 0 8 view_example"
    by (simp add: views_in_def view_in_def map_in_def view_example_def)
  from make_owned_detaches [OF surjective_pairing this, where mem = "\<lambda>a. CHR ''x''" and new_base = 100
      and later = "fst (make_owned 0 8 100 ((\<lambda>a. CHR ''x''), view_example))"]
  show ?thesis by blast
qed

text \<open>
  A copy of a request that owns its bytes keeps the views of the path parameters: they still
  denote the storage of the source, not its own (a parameter's value is a segment of the path, so
  it does point there), and dangle when the source dies.
\<close>

lemma copy_keeps_param_views:
  assumes "rw_owned other = Some (base, len)" "copy_from new_base (mem, other) = (mem', r')"
    "views_in base len other"
  shows "views_in new_base len r' \<and> same_contents mem other mem' r' \<and>
     rw_path_params r' = rw_path_params other"
proof -
  let ?o = "other\<lparr>rw_owned := Some (new_base, len)\<rparr>"
  have r': "r' = rebase_views base new_base ?o" and mem': "mem' = copy_bytes mem base len new_base"
    using assms(1,2) by (auto simp: copy_from_def)
  have vi: "views_in base len ?o" using assms(3) by (simp add: views_in_def)
  from rebase_views_in [OF vi] rebase_same_contents [OF vi, of mem new_base] r' mem' show ?thesis
    by (simp add: same_contents_def rebase_views_simps)
qed

lemma copy_keeps_param_views_example:
  "let other = view_example\<lparr>rw_owned := Some (0, 8), rw_path_params := [(View 500 2, View 4 2)]\<rparr>;
       r' = snd (copy_from 100 ((\<lambda>a. CHR ''x''), other))
   in views_in 100 8 r' \<and> \<not> view_in 100 8 (snd (hd (rw_path_params r')))"
proof -
  let ?o = "view_example\<lparr>rw_owned := Some (0, 8), rw_path_params := [(View 500 2, View 4 2)]\<rparr>"
  have "rw_owned ?o = Some (0, 8)" by simp
  moreover have "views_in 0 8 ?o"
    by (simp add: views_in_def view_in_def map_in_def view_example_def)
  ultimately have "views_in 100 8 (snd (copy_from 100 ((\<lambda>a. CHR ''x''), ?o))) \<and>
      rw_path_params (snd (copy_from 100 ((\<lambda>a. CHR ''x''), ?o))) = rw_path_params ?o"
    using copy_keeps_param_views [OF _ surjective_pairing, of ?o 0 8 100 "\<lambda>a. CHR ''x''"] by blast
  then show ?thesis by (simp add: Let_def view_in_def)
qed

end
