(* ===== verification/Response_Semantics.thy ===== *)
theory Response_Semantics
  imports Http_Request Http_Response Http_Chunked
begin

text \<open>
  What the worker does to a response behind the handler (\<open>src/server/Server.cpp\<close>, the anonymous
  namespace at the top): \<open>maybe_compress\<close> and \<open>apply_http_semantics\<close> (HEAD, cache validators,
  conditional requests, byte ranges).

  \<open>stat\<close> (size and modification time of a path), \<open>strptime\<close> with \<open>timegm\<close>, \<open>gmtime_r\<close> and the
  two compressors are parameters. \<open>off_t\<close> values are integers; nothing here computes outside 64
  bits for a size below \<open>2^63\<close>.
\<close>

record tm =
  tm_wday :: nat
  tm_mday :: nat
  tm_mon :: nat
  tm_year :: nat
  tm_hour :: nat
  tm_min :: nat
  tm_sec :: nat

record file_sys =
  fs_stat :: "string \<Rightarrow> (nat \<times> int) option"
  fs_gmtime :: "int \<Rightarrow> tm"
  fs_parse_date :: "string \<Rightarrow> int option"

section \<open>Dates and validators\<close>

text \<open>\<open>%0nd\<close> of \<open>snprintf\<close>.\<close>

definition pad0 :: "nat \<Rightarrow> nat \<Rightarrow> string" where
  "pad0 n v = replicate (n - length (dec v)) CHR ''0'' @ dec v"

definition kDays :: "string list" where
  "kDays = [''Sun'', ''Mon'', ''Tue'', ''Wed'', ''Thu'', ''Fri'', ''Sat'']"

definition kMonths :: "string list" where
  "kMonths = [''Jan'', ''Feb'', ''Mar'', ''Apr'', ''May'', ''Jun'', ''Jul'', ''Aug'', ''Sep'',
     ''Oct'', ''Nov'', ''Dec'']"

definition http_date :: "file_sys \<Rightarrow> int \<Rightarrow> string" where
  "http_date fs t =
     (let d = fs_gmtime fs t in
      kDays ! tm_wday d @ '', '' @ pad0 2 (tm_mday d) @ '' '' @ kMonths ! tm_mon d @ '' '' @
      pad0 4 (tm_year d + 1900) @ '' '' @ pad0 2 (tm_hour d) @ '':'' @ pad0 2 (tm_min d) @ '':'' @
      pad0 2 (tm_sec d) @ '' GMT'')"

text \<open>Size and modification time in hexadecimal, the time as an \<open>unsigned long long\<close>.\<close>

definition make_etag :: "nat \<Rightarrow> int \<Rightarrow> string" where
  "make_etag fsize mtime =
     [DQ] @ hex fsize @ ''-'' @ hex (nat (mtime mod 2 ^ 64)) @ [DQ]"

section \<open>Ranges and conditions\<close>

definition not_modified :: "file_sys \<Rightarrow> string \<Rightarrow> int \<Rightarrow> http_request \<Rightarrow> bool" where
  "not_modified fs etag mtime req =
     (case header req ''If-None-Match'' of
        Some inm \<Rightarrow> inm = ''*'' \<or> contains_sub etag inm
      | None \<Rightarrow>
          (case header req ''If-Modified-Since'' of
             Some ims \<Rightarrow>
               (case fs_parse_date fs ims of None \<Rightarrow> False | Some since \<Rightarrow> mtime \<le> since)
           | None \<Rightarrow> False))"

text \<open>
  The byte positions of a \<open>Range\<close> header: \<open>WholeFile\<close> where the header is ignored,
  \<open>Unsatisfiable\<close> for the 416 response.
\<close>

datatype byte_range = WholeFile | Unsatisfiable | Bytes int int

definition parse_range :: "string \<Rightarrow> int \<Rightarrow> byte_range" where
  "parse_range spec fsize =
     (if \<not> starts_with ''bytes='' spec \<or> contains_sub '','' spec then WholeFile
      else
        let r = drop 6 spec in
        case find_sub ''-'' r of
          None \<Rightarrow> WholeFile
        | Some dash \<Rightarrow>
            let s_start = take dash r; s_end = drop (dash + 1) r;
                bounds =
                  (if s_start \<noteq> [] then
                     (case stoll s_start of
                        None \<Rightarrow> None
                      | Some st \<Rightarrow>
                          if s_end \<noteq> [] then map_option (\<lambda>e. (st, e)) (stoll s_end)
                          else Some (st, fsize - 1))
                   else if s_end \<noteq> [] then
                     (case stoll s_end of
                        None \<Rightarrow> None
                      | Some n \<Rightarrow>
                          if n \<le> 0 then None
                          else Some (if fsize \<le> n then 0 else fsize - n, fsize - 1))
                   else None)
            in case bounds of
                 None \<Rightarrow> Unsatisfiable
               | Some (st, e) \<Rightarrow>
                   let e' = (if fsize \<le> e then fsize - 1 else e) in
                   if 0 < fsize \<and> 0 \<le> st \<and> st \<le> e' then Bytes st e' else Unsatisfiable)"

definition range_reply :: "nat \<Rightarrow> string option \<Rightarrow> http_response \<Rightarrow> http_response" where
  "range_reply fsize wanted res =
     (case wanted of
        None \<Rightarrow> res_set_file_range 0 (int fsize) res
      | Some spec \<Rightarrow>
          (case parse_range spec (int fsize) of
             WholeFile \<Rightarrow> res_set_file_range 0 (int fsize) res
           | Unsatisfiable \<Rightarrow>
               res_set_file_range 0 0 (res_set_head_only True
                 (res_header ''Content-Length'' ''0''
                   (res_header ''Content-Range'' (''bytes */'' @ dec fsize)
                     (res_status RANGE_NOT_SATISFIABLE res))))
           | Bytes st e \<Rightarrow>
               res_set_file_range st (e - st + 1)
                 (res_header ''Content-Length'' (dec_int (e - st + 1))
                   (res_header ''Content-Range''
                     (''bytes '' @ dec_int st @ ''-'' @ dec_int e @ ''/'' @ dec fsize)
                     (res_status PARTIAL_CONTENT res)))))"

definition apply_http_semantics :: "file_sys \<Rightarrow> http_request \<Rightarrow> http_response \<Rightarrow> http_response" where
  "apply_http_semantics fs req res0 =
     (let res = (if rq_method req = HEAD then res_set_head_only True res0 else res0) in
      if \<not> rs_is_file res then res
      else case fs_stat fs (res_file_path res) of
        None \<Rightarrow> res
      | Some (fsize, mtime) \<Rightarrow>
          let etag = make_etag fsize mtime;
              res1 = res_header ''Last-Modified'' (http_date fs mtime)
                (res_header ''ETag'' etag (res_header ''Accept-Ranges'' ''bytes'' res))
          in if (rq_method req = GET \<or> rq_method req = HEAD) \<and> not_modified fs etag mtime req then
               res_set_file_range 0 0 (res_set_head_only True
                 (res_header ''Content-Length'' ''0'' (res_status NOT_MODIFIED res1)))
             else range_reply fsize (header req ''Range'') res1)"

section \<open>Compression\<close>

definition lower :: "string \<Rightarrow> string" where
  "lower = map to_lower"

definition is_compressible_type :: "string \<Rightarrow> bool" where
  "is_compressible_type ct \<longleftrightarrow>
     starts_with ''text/'' ct \<or>
     (\<exists>t \<in> set [''application/json'', ''application/javascript'', ''application/xml'',
        ''application/x-mpegurl'', ''application/vnd.apple.mpegurl'', ''application/dash+xml'',
        ''application/manifest+json'', ''image/svg+xml'']. starts_with t ct)"

text \<open>
  \<open>std::atof(s) == 0.0\<close> for a text in lower case: no digit is read, or only zeros. A value so
  small that its exponent takes it to zero is not modelled.
\<close>

definition atof_is_zero :: "string \<Rightarrow> bool" where
  "atof_is_zero s =
     (let t = dropWhile isspace s;
          u = (if t \<noteq> [] \<and> (hd t = CHR ''-'' \<or> hd t = CHR ''+'') then tl t else t);
          ip = takeWhile is_digit u; r = drop (length ip) u;
          fp = (if r \<noteq> [] \<and> hd r = CHR ''.'' then takeWhile is_digit (tl r) else [])
      in if starts_with ''inf'' u \<or> starts_with ''nan'' u then False
         else list_all (\<lambda>c. c = CHR ''0'') (ip @ fp))"

definition boundary_at :: "string \<Rightarrow> nat \<Rightarrow> nat \<Rightarrow> bool" where
  "boundary_at s p e \<longleftrightarrow>
     (p = 0 \<or> \<not> isalnum (s ! (p - 1))) \<and> (e = length s \<or> \<not> isalnum (s ! e))"

text \<open>A \<open>q=0\<close> behind the token and before the next comma refuses it.\<close>

definition refused_at :: "string \<Rightarrow> nat \<Rightarrow> bool" where
  "refused_at s e =
     (case find_from ''q='' s e of
        None \<Rightarrow> False
      | Some q \<Rightarrow>
          (case find_from '','' s e of None \<Rightarrow> True | Some comma \<Rightarrow> q < comma) \<and>
          atof_is_zero (drop (q + 2) s))"

function accepts_loop :: "string \<Rightarrow> string \<Rightarrow> nat \<Rightarrow> bool" where
  "accepts_loop ae token p =
     (if token = [] then False
      else case find_from token ae p of
        None \<Rightarrow> False
      | Some p' \<Rightarrow>
          let e = p' + length token in
          if boundary_at ae p' e \<and> \<not> refused_at ae e then True else accepts_loop ae token e)"
  by pat_completeness auto
termination
  by (relation "measure (\<lambda>(ae, token, p). length ae + 1 - p)")
    (auto dest!: find_from_bound simp flip: length_greater_0_conv)

declare accepts_loop.simps [simp del]

definition accepts_encoding :: "string \<Rightarrow> string \<Rightarrow> bool" where
  "accepts_encoding ae token = accepts_loop ae token 0"

record compressors =
  cp_brotli :: "string \<Rightarrow> string"
  cp_gzip :: "string \<Rightarrow> string"

definition maybe_compress ::
  "compressors \<Rightarrow> nat \<Rightarrow> bool \<Rightarrow> http_request \<Rightarrow> http_response \<Rightarrow> http_response" where
  "maybe_compress cp min_bytes allow_brotli req res =
     (if rs_is_file res \<or> rs_head_only res then res
      else case rs_body_content res of
        FilePath _ \<Rightarrow> res
      | Text body \<Rightarrow>
          if rs_headers res ''Content-Encoding'' \<noteq> None then res
          else if length body < min_bytes then res
          else
            let ct = lower (case rs_headers res ''Content-Type'' of None \<Rightarrow> [] | Some v \<Rightarrow> v) in
            if \<not> is_compressible_type ct then res
            else case header req ''Accept-Encoding'' of
              None \<Rightarrow> res
            | Some accept \<Rightarrow>
                let ae = lower accept;
                    coded =
                      (if allow_brotli \<and> accepts_encoding ae ''br'' then Some (cp_brotli cp body, ''br'')
                       else if accepts_encoding ae ''gzip'' then Some (cp_gzip cp body, ''gzip'')
                       else None)
                in case coded of
                     None \<Rightarrow> res
                   | Some (encoded, coding) \<Rightarrow>
                       if encoded = [] \<or> length body \<le> length encoded then res
                       else res_header ''Vary'' ''Accept-Encoding''
                              (res_header ''Content-Encoding'' coding (res_body encoded res)))"

section \<open>Properties\<close>

lemma parse_range_bytes:
  assumes "parse_range spec fsize = Bytes st e"
  shows "0 \<le> st" "st \<le> e" "e < fsize"
  using assms
  by (auto simp: parse_range_def Let_def split: if_splits option.splits)

lemma range_reply_length:
  assumes "rs_headers res ''Content-Length'' = Some (dec fsize)" "\<not> rs_head_only (range_reply fsize wanted res)"
  shows "0 \<le> rs_file_offset (range_reply fsize wanted res) \<and> 0 \<le> rs_file_length (range_reply fsize wanted res) \<and>
     rs_file_offset (range_reply fsize wanted res) + rs_file_length (range_reply fsize wanted res) \<le> int fsize \<and>
     rs_headers (range_reply fsize wanted res) ''Content-Length'' =
       Some (dec (nat (rs_file_length (range_reply fsize wanted res)))) \<and>
     res_file_path (range_reply fsize wanted res) = res_file_path res"
proof (cases wanted)
  case None
  with assms show ?thesis by (simp add: range_reply_def)
next
  case (Some spec)
  show ?thesis
  proof (cases "parse_range spec (int fsize)")
    case (Bytes st e)
    with Some parse_range_bytes [OF Bytes] show ?thesis by (simp add: range_reply_def dec_int_def)
  qed (use Some assms in \<open>simp_all add: range_reply_def\<close>)
qed

text \<open>
  C37: whatever the \<open>Range\<close> and the conditional headers say, a file response that is sent with a
  body announces exactly the bytes it will send, and they lie inside the file.
\<close>

theorem semantics_length_sent:
  assumes "response_wf res" "rs_is_file res" "fs_stat fs (res_file_path res) = Some (fsize, mtime)"
    "rs_headers res ''Content-Length'' = Some (dec fsize)"
    "apply_http_semantics fs req res = res'" "\<not> rs_head_only res'"
  shows "0 \<le> rs_file_offset res' \<and> 0 \<le> rs_file_length res' \<and>
     rs_file_offset res' + rs_file_length res' \<le> int fsize \<and>
     rs_headers res' ''Content-Length'' = Some (dec (nat (rs_file_length res'))) \<and>
     res_file_path res' = res_file_path res"
proof -
  let ?r = "if rq_method req = HEAD then res_set_head_only True res else res"
  have r: "rs_is_file ?r" "res_file_path ?r = res_file_path res"
    using assms(2) by simp_all
  let ?e = "make_etag fsize mtime"
  let ?res1 = "res_header ''Last-Modified'' (http_date fs mtime)
      (res_header ''ETag'' ?e (res_header ''Accept-Ranges'' ''bytes'' ?r))"
  have "res' = range_reply fsize (header req ''Range'') ?res1"
    using assms(3,5,6) r by (auto simp: apply_http_semantics_def Let_def split: if_splits)
  moreover have "rs_headers ?res1 ''Content-Length'' = Some (dec fsize)" "res_file_path ?res1 = res_file_path res"
    using assms(4) r by simp_all
  ultimately show ?thesis using range_reply_length [of ?res1 fsize] assms(6) by simp
qed

definition file_example :: http_response where
  "file_example = res_file (\<lambda>p. Some 100) ''f'' ''video/mp4'' response_init"

definition fs_example :: file_sys where
  "fs_example = \<lparr>fs_stat = (\<lambda>p. Some (100, 0)),
     fs_gmtime = (\<lambda>t. \<lparr>tm_wday = 4, tm_mday = 1, tm_mon = 0, tm_year = 70, tm_hour = 0, tm_min = 0,
       tm_sec = 0\<rparr>),
     fs_parse_date = (\<lambda>s. None)\<rparr>"

lemma semantics_length_sent_witness:
  "rs_file_offset (apply_http_semantics fs_example (request_init\<lparr>rq_method := GET\<rparr>) file_example) +
     rs_file_length (apply_http_semantics fs_example (request_init\<lparr>rq_method := GET\<rparr>) file_example) \<le> 100"
proof -
  let ?q = "request_init\<lparr>rq_method := GET\<rparr>"
  have f: "response_wf file_example" "rs_is_file file_example"
    "rs_headers file_example ''Content-Length'' = Some (dec 100)"
    by (simp_all add: file_example_def response_setters Let_def response_wf_def)
  have st: "fs_stat fs_example (res_file_path file_example) = Some (100, 0)"
    by (simp add: fs_example_def)
  have "\<not> rs_head_only (apply_http_semantics fs_example ?q file_example)"
    using f(2) st by (simp add: apply_http_semantics_def range_reply_def Let_def not_modified_def header_def
        request_init_def file_example_def response_setters)
  from semantics_length_sent [OF f(1,2) st f(3) refl this] show ?thesis by simp
qed

lemma stoll_dec_nonempty: "n < 2 ^ 63 \<Longrightarrow> dec n \<noteq> [] \<and> stoll (dec n) = Some (int n)"
  by (simp add: stoll_dec)

text \<open>
  The three forms of a byte range: from \<open>a\<close> to \<open>b\<close>, cut at the end of the file, from \<open>a\<close> on,
  and the last \<open>n\<close> bytes; empty selections are unsatisfiable.
\<close>

lemma parse_range_forms:
  assumes "a < 2 ^ 63" "b < 2 ^ 63"
  shows "parse_range (''bytes='' @ dec a @ ''-'' @ dec b) (int n) =
       (if a \<le> b \<and> a < n then Bytes (int a) (int (min b (n - 1))) else Unsatisfiable) \<and>
     parse_range (''bytes='' @ dec a @ ''-'') (int n) =
       (if a < n then Bytes (int a) (int n - 1) else Unsatisfiable) \<and>
     parse_range (''bytes=-'' @ dec b) (int n) =
       (if 0 < b \<and> 0 < n then Bytes (int (n - b)) (int n - 1) else Unsatisfiable)"
proof -
  have nc: "CHR '','' \<notin> set (dec k)" "CHR ''-'' \<notin> set (dec k)" for k
    by (simp_all add: dec_no_delim is_digit_def)
  have comma: "find_sub '','' (''bytes='' @ t) = None" if "CHR '','' \<notin> set t" for t
    using that by (intro find_sub_notin) simp
  have dash: "find_sub ''-'' (dec a @ ''-'' @ t) = Some (length (dec a))" for t
    using find_sub_here [OF nc(2), of "[]" a t] by simp
  have one: "parse_range (''bytes='' @ dec a @ ''-'' @ dec b) (int n) =
       (if a \<le> b \<and> a < n then Bytes (int a) (int (min b (n - 1))) else Unsatisfiable)"
    using comma [of "dec a @ ''-'' @ dec b"] nc dash [of "dec b"] assms
    by (auto simp: parse_range_def Let_def contains_sub_def stoll_dec min_def)
  have two: "parse_range (''bytes='' @ dec a @ ''-'') (int n) =
       (if a < n then Bytes (int a) (int n - 1) else Unsatisfiable)"
    using comma [of "dec a @ ''-''"] nc dash [of "[]"] assms
    by (auto simp: parse_range_def Let_def contains_sub_def stoll_dec)
  have "parse_range (''bytes=-'' @ dec b) (int n) =
       (if 0 < b \<and> 0 < n then Bytes (int (n - b)) (int n - 1) else Unsatisfiable)"
    using comma [of "''-'' @ dec b"] nc assms
    by (auto simp: parse_range_def Let_def contains_sub_def stoll_dec)
  with one two show ?thesis by blast
qed

lemma parse_range_forms_example:
  "parse_range (''bytes='' @ dec 0 @ ''-'' @ dec 499) (int 1000) = Bytes 0 499"
  using parse_range_forms [of 0 499 1000] by simp

text \<open>
  Compression never breaks the framing: a text response with its length declared still
  declares the length of what is sent; the text is either untouched or replaced by a shorter
  encoding that the response names.
\<close>

lemma maybe_compress_framing:
  assumes "rs_body_content res = Text body" "length_declared res" "maybe_compress cp n br req res = res'"
  shows "length_declared res' \<and>
     (res' = res \<or>
      (\<exists>coded. rs_body_content res' = Text coded \<and> coded \<noteq> [] \<and> length coded < length body \<and>
         rs_headers res' ''Vary'' = Some ''Accept-Encoding'' \<and>
         ((rs_headers res' ''Content-Encoding'' = Some ''br'' \<and> coded = cp_brotli cp body) \<or>
          (rs_headers res' ''Content-Encoding'' = Some ''gzip'' \<and> coded = cp_gzip cp body))))"
  using assms
  by (auto simp: maybe_compress_def Let_def length_declared_def split: if_splits option.splits)

definition gzip_example :: compressors where
  "gzip_example = \<lparr>cp_brotli = (\<lambda>s. []), cp_gzip = (\<lambda>s. [CHR ''z''])\<rparr>"

lemma maybe_compress_framing_example:
  "length_declared (maybe_compress gzip_example 2 False
     (request_init\<lparr>rq_headers := [''Accept-Encoding'' \<mapsto> ''gzip'']\<rparr>) (res_json ''abc'' response_init))"
  using maybe_compress_framing [of "res_json ''abc'' response_init" "''abc''" gzip_example 2 False
      "request_init\<lparr>rq_headers := [''Accept-Encoding'' \<mapsto> ''gzip'']\<rparr>"]
  by simp

end
