(* ===== verification/Connection.thy ===== *)
theory Connection
  imports Http_Response Http_Parser
begin

text \<open>
  \<open>Connection\<close> (\<open>include/oreshnek/net/Connection.h\<close>, \<open>src/net/Connection.cpp\<close>): the buffers
  of one client socket, plain or TLS, with the state of the response being written. The read buffer
  is its first \<open>read_buffer_fill_\<close> bytes, \<open>ssl_\<close> whether it is set. What the kernel and OpenSSL
  answer is an input: \<open>io\<close> for a write, \<open>recv\<close> for a read, a list of them for the calls of one
  loop (an exhausted list is a call that would block); the files are a record \<open>os\<close>. Every
  operation that writes returns the bytes it put on the wire.
\<close>

section \<open>State and environment\<close>

datatype TlsWant = WantRead | WantWrite

text \<open>The answers to \<open>send\<close>, \<open>sendfile\<close> and \<open>SSL_write\<close>: the number of bytes taken is cut at what was offered.\<close>

datatype io = Moved nat | Block TlsWant | Broken

text \<open>The answers to \<open>recv\<close> and \<open>SSL_read\<close>, and to \<open>SSL_accept\<close>.\<close>

datatype recv = Received string | ReadBlock TlsWant | PeerClosed | ReadBroken

datatype tls_accept = Accepted | AcceptBlock TlsWant | AcceptBroken

record os =
  os_open :: "string \<Rightarrow> int"
  os_fstat :: "int \<Rightarrow> nat option"
  os_content :: "int \<Rightarrow> string"
  os_map_iter :: map_iter
  os_date :: string

record connection =
  cn_socket_fd :: int
  cn_read_buffer :: string
  cn_raw_headers :: string
  cn_headers_sent :: bool
  cn_write_body :: string
  cn_write_body_offset :: nat
  cn_file_fd :: int
  cn_file_offset :: int
  cn_file_remaining :: int
  cn_head_only :: bool
  cn_continue_sent :: bool
  cn_ssl :: bool
  cn_tls_handshake_done :: bool
  cn_tls_want :: TlsWant
  cn_http_parser :: http_parser
  cn_current_request :: http_request
  cn_last_activity :: int
  cn_keep_alive :: bool
  cn_client_ip :: string
  cn_processing :: bool
  cn_worker_in_flight :: bool
  cn_processing_since :: int

definition READ_BUFFER_SIZE :: nat where "READ_BUFFER_SIZE = 1024 * 1024"
definition FILE_SEND_CHUNK :: int where "FILE_SEND_CHUNK = 256 * 1024"
definition kReadWouldBlock :: int where "kReadWouldBlock = -2"

definition connection_init :: "int \<Rightarrow> int \<Rightarrow> connection" where
  "connection_init now fd =
     \<lparr>cn_socket_fd = fd, cn_read_buffer = [], cn_raw_headers = [], cn_headers_sent = False,
      cn_write_body = [], cn_write_body_offset = 0, cn_file_fd = -1, cn_file_offset = 0,
      cn_file_remaining = 0, cn_head_only = False, cn_continue_sent = False, cn_ssl = False,
      cn_tls_handshake_done = False, cn_tls_want = WantRead, cn_http_parser = parser_init,
      cn_current_request = request_init, cn_last_activity = now, cn_keep_alive = True,
      cn_client_ip = [], cn_processing = False, cn_worker_in_flight = False,
      cn_processing_since = 0\<rparr>"

definition update_activity :: "int \<Rightarrow> connection \<Rightarrow> connection" where
  "update_activity now c = c\<lparr>cn_last_activity := now\<rparr>"

definition clear_response_state :: "connection \<Rightarrow> connection" where
  "clear_response_state c =
     c\<lparr>cn_headers_sent := False, cn_raw_headers := [], cn_write_body := [],
       cn_write_body_offset := 0, cn_head_only := False, cn_file_fd := -1, cn_file_offset := 0,
       cn_file_remaining := 0\<rparr>"

definition reset :: "int \<Rightarrow> connection \<Rightarrow> connection" where
  "reset now c =
     update_activity now (clear_response_state
       (c\<lparr>cn_read_buffer := [], cn_http_parser := parser_reset (cn_http_parser c),
          cn_current_request := request_init, cn_keep_alive := True, cn_processing := False,
          cn_worker_in_flight := False, cn_continue_sent := False\<rparr>))"

definition is_open :: "connection \<Rightarrow> bool" where
  "is_open c \<longleftrightarrow> 0 \<le> cn_socket_fd c"

definition connection_close :: "connection \<Rightarrow> connection" where
  "connection_close c = c\<lparr>cn_file_fd := -1, cn_ssl := False, cn_socket_fd := -1\<rparr>"

text \<open>1 when the handshake is complete, 0 when it would block, -1 on an error.\<close>

definition continue_tls_handshake :: "int \<Rightarrow> tls_accept \<Rightarrow> connection \<Rightarrow> int \<times> connection" where
  "continue_tls_handshake now r c =
     (if \<not> cn_ssl c then (1, c\<lparr>cn_tls_handshake_done := True\<rparr>)
      else (case r of
          Accepted \<Rightarrow> (1, update_activity now (c\<lparr>cn_tls_handshake_done := True\<rparr>))
        | AcceptBlock w \<Rightarrow> (0, c\<lparr>cn_tls_want := w\<rparr>)
        | AcceptBroken \<Rightarrow> (-1, c)))"

section \<open>Reading\<close>

text \<open>The \<open>for (;;)\<close> loop of the TLS path, with \<open>tot\<close> bytes read so far.\<close>

fun ssl_read_loop :: "int \<Rightarrow> nat \<Rightarrow> recv list \<Rightarrow> connection \<Rightarrow> int \<times> connection" where
  "ssl_read_loop now tot rs c =
     (let space = READ_BUFFER_SIZE - length (cn_read_buffer c);
          stop = (\<lambda>c. if 0 < tot then (int tot, update_activity now c) else (kReadWouldBlock, c))
      in if space = 0 then stop c
         else (case rs of
             [] \<Rightarrow> stop (c\<lparr>cn_tls_want := WantRead\<rparr>)
           | r # rs' \<Rightarrow>
               (case r of
                  Received bs \<Rightarrow>
                    let got = take space bs in
                    if got = [] then (if 0 < tot then stop c else (-1, c))
                    else ssl_read_loop now (tot + length got) rs'
                           (c\<lparr>cn_read_buffer := cn_read_buffer c @ got\<rparr>)
                | ReadBlock w \<Rightarrow> stop (c\<lparr>cn_tls_want := w\<rparr>)
                | PeerClosed \<Rightarrow> (int tot, c)
                | ReadBroken \<Rightarrow> if 0 < tot then stop c else (-1, c))))"

declare ssl_read_loop.simps [simp del]

definition read_data :: "int \<Rightarrow> recv list \<Rightarrow> connection \<Rightarrow> int \<times> connection" where
  "read_data now rs c =
     (if cn_socket_fd c < 0 then (0, c)
      else
        let available = READ_BUFFER_SIZE - length (cn_read_buffer c) in
        if available = 0 then (0, c)
        else if cn_ssl c then ssl_read_loop now 0 rs c
        else (case rs of
            [] \<Rightarrow> (kReadWouldBlock, c)
          | r # _ \<Rightarrow>
              (case r of
                 Received bs \<Rightarrow>
                   let got = take available bs in
                   if got = [] then (0, c)
                   else (int (length got),
                         update_activity now (c\<lparr>cn_read_buffer := cn_read_buffer c @ got\<rparr>))
               | ReadBlock _ \<Rightarrow> (kReadWouldBlock, c)
               | PeerClosed \<Rightarrow> (0, c)
               | ReadBroken \<Rightarrow> (-1, c))))"

section \<open>Parsing\<close>

text \<open>\<open>None\<close> where the parser leaves the defined behaviour; the flag says a request is complete.\<close>

definition parse_next :: "connection \<Rightarrow> (bool \<times> nat \<times> connection) defined" where
  "parse_next c =
     (if cn_read_buffer c = [] then Some (False, 0, c)
      else
        (case parse_request (parser_reset (cn_http_parser c)) (cn_read_buffer c) request_init of
           None \<Rightarrow> None
         | Some r \<Rightarrow>
             let c1 = c\<lparr>cn_http_parser := pr_parser r, cn_current_request := pr_request r,
                        cn_read_buffer := pr_buffer r\<rparr>
             in if ps_state (pr_parser r) = ERROR then Some (False, pr_consumed r, c1)
                else Some (pr_ok r, pr_consumed r, c1)))"

definition parser_failed :: "connection \<Rightarrow> bool" where
  "parser_failed c \<longleftrightarrow> ps_state (cn_http_parser c) = ERROR"

definition consume :: "nat \<Rightarrow> connection \<Rightarrow> connection" where
  "consume n c =
     (if n = 0 then c
      else if length (cn_read_buffer c) \<le> n then c\<lparr>cn_read_buffer := []\<rparr>
      else c\<lparr>cn_read_buffer := drop n (cn_read_buffer c)\<rparr>)"

definition kContinue :: string where
  "kContinue = ''HTTP/1.1 100 Continue'' @ crlf @ crlf"

definition maybe_send_100_continue :: "connection \<Rightarrow> string \<times> connection" where
  "maybe_send_100_continue c =
     (if cn_continue_sent c \<or> cn_socket_fd c < 0 then ([], c)
      else if ps_state (cn_http_parser c) \<noteq> BODY then ([], c)
      else (case header (cn_current_request c) ''Expect'' of
          None \<Rightarrow> ([], c)
        | Some value \<Rightarrow>
            if find_sub ''100-continue'' (map to_lower value) = None then ([], c)
            else (kContinue, c\<lparr>cn_continue_sent := True\<rparr>)))"

section \<open>Writing\<close>

datatype loop_end = Finished | Blocked | Failed

text \<open>\<open>ssize_t\<close> of a call that put \<open>wire\<close> on the socket.\<close>

definition sent :: "loop_end \<Rightarrow> string \<Rightarrow> int" where
  "sent e wire = (if e = Failed then -1 else int (length wire))"

text \<open>The header loop of the TLS path.\<close>

fun ssl_write_headers :: "io list \<Rightarrow> connection \<Rightarrow> loop_end \<times> string \<times> connection \<times> io list" where
  "ssl_write_headers ios c =
     (if cn_raw_headers c = [] then (Finished, [], c, ios)
      else (case ios of
          [] \<Rightarrow> (Blocked, [], c\<lparr>cn_tls_want := WantWrite\<rparr>, [])
        | x # ios' \<Rightarrow>
            (case x of
               Moved k \<Rightarrow>
                 let part = take k (cn_raw_headers c) in
                 if part = [] then (Failed, [], c, ios')
                 else (case ssl_write_headers ios' (c\<lparr>cn_raw_headers := drop k (cn_raw_headers c)\<rparr>) of
                     (e, w, c', rest) \<Rightarrow> (e, part @ w, c', rest))
             | Block w \<Rightarrow> (Blocked, [], c\<lparr>cn_tls_want := w\<rparr>, ios')
             | Broken \<Rightarrow> (Failed, [], c, ios'))))"

declare ssl_write_headers.simps [simp del]

text \<open>
  The bytes a read of the response file at its offset yields, at most \<open>n\<close>. A negative offset is
  an error of the call.
\<close>

definition file_read :: "os \<Rightarrow> int \<Rightarrow> connection \<Rightarrow> string" where
  "file_read os n c =
     (if cn_file_offset c < 0 then []
      else take (nat n) (drop (nat (cn_file_offset c)) (os_content os (cn_file_fd c))))"

definition file_advance :: "nat \<Rightarrow> connection \<Rightarrow> connection" where
  "file_advance n c =
     c\<lparr>cn_file_offset := cn_file_offset c + int n, cn_file_remaining := cn_file_remaining c - int n\<rparr>"

text \<open>\<open>pread\<close> and \<open>SSL_write\<close> of the TLS path, then \<open>sendfile\<close> of the plain path.\<close>

fun ssl_file_loop :: "os \<Rightarrow> io list \<Rightarrow> connection \<Rightarrow> loop_end \<times> string \<times> connection" where
  "ssl_file_loop os ios c =
     (if cn_file_remaining c \<le> 0 then (Finished, [], c)
      else
        let buf = file_read os (min (cn_file_remaining c) 16384) c in
        if buf = [] then (Finished, [], c)
        else (case ios of
            [] \<Rightarrow> (Blocked, [], c\<lparr>cn_tls_want := WantWrite\<rparr>)
          | x # ios' \<Rightarrow>
              (case x of
                 Moved k \<Rightarrow>
                   let part = take k buf in
                   if part = [] then (Failed, [], c)
                   else (case ssl_file_loop os ios' (file_advance (length part) c) of
                       (e, w, c') \<Rightarrow> (e, part @ w, c'))
               | Block w \<Rightarrow> (Blocked, [], c\<lparr>cn_tls_want := w\<rparr>)
               | Broken \<Rightarrow> (Failed, [], c))))"

fun sendfile_loop :: "os \<Rightarrow> io list \<Rightarrow> connection \<Rightarrow> loop_end \<times> string \<times> connection" where
  "sendfile_loop os ios c =
     (if cn_file_remaining c \<le> 0 then (Finished, [], c)
      else if cn_file_offset c < 0 then (Failed, [], c)
      else (case ios of
          [] \<Rightarrow> (Blocked, [], c)
        | x # ios' \<Rightarrow>
            (case x of
               Moved k \<Rightarrow>
                 let part = take k (file_read os (min (cn_file_remaining c) FILE_SEND_CHUNK) c) in
                 if part = [] then (Finished, [], c)
                 else (case sendfile_loop os ios' (file_advance (length part) c) of
                     (e, w, c') \<Rightarrow> (e, part @ w, c'))
             | Block _ \<Rightarrow> (Blocked, [], c)
             | Broken \<Rightarrow> (Failed, [], c))))"

declare ssl_file_loop.simps [simp del] sendfile_loop.simps [simp del]

text \<open>The file part of both paths: the loop, and the file closed at its end.\<close>

definition write_file ::
  "int \<Rightarrow> loop_end \<times> string \<times> connection \<Rightarrow> loop_end \<times> string \<times> connection" where
  "write_file now r =
     (case r of (e, w, c) \<Rightarrow>
        if e = Finished then
          (e, w, update_activity now (if cn_file_remaining c \<le> 0 then c\<lparr>cn_file_fd := -1\<rparr> else c))
        else (e, w, c))"

definition write_body ::
  "int \<Rightarrow> io list \<Rightarrow> connection \<Rightarrow> loop_end \<times> string \<times> connection" where
  "write_body now ios c =
     (if cn_write_body_offset c < length (cn_write_body c) then
        (let rest = drop (cn_write_body_offset c) (cn_write_body c);
             w = (case ios of [] \<Rightarrow> Block WantWrite | x # _ \<Rightarrow> x)
         in case w of
              Moved k \<Rightarrow>
                if cn_ssl c \<and> k = 0 then (Failed, [], c)
                else (Finished, take k rest, update_activity now
                        (c\<lparr>cn_write_body_offset := cn_write_body_offset c + length (take k rest)\<rparr>))
            | Block d \<Rightarrow> (Blocked, [], if cn_ssl c then c\<lparr>cn_tls_want := d\<rparr> else c)
            | Broken \<Rightarrow> (Failed, [], c))
      else (Finished, [], update_activity now c))"

text \<open>What follows the headers, in both paths.\<close>

definition write_content ::
  "os \<Rightarrow> int \<Rightarrow> io list \<Rightarrow> connection \<Rightarrow> loop_end \<times> string \<times> connection" where
  "write_content os now ios c =
     (if cn_head_only c then (Finished, [], update_activity now c)
      else if 0 \<le> cn_file_fd c then
        write_file now (if cn_ssl c then ssl_file_loop os ios c else sendfile_loop os ios c)
      else write_body now ios c)"

text \<open>\<open>send\<close> of the headers, once, in the plain path.\<close>

definition send_headers :: "io list \<Rightarrow> connection \<Rightarrow> loop_end \<times> string \<times> connection \<times> io list" where
  "send_headers ios c =
     (if cn_raw_headers c = [] then (Finished, [], c, ios)
      else (case ios of
          [] \<Rightarrow> (Blocked, [], c, [])
        | x # ios' \<Rightarrow>
            (case x of
               Moved k \<Rightarrow>
                 (if drop k (cn_raw_headers c) = [] then Finished else Blocked, take k (cn_raw_headers c),
                  c\<lparr>cn_raw_headers := drop k (cn_raw_headers c)\<rparr>, ios')
             | Block _ \<Rightarrow> (Blocked, [], c, ios')
             | Broken \<Rightarrow> (Failed, [], c, ios'))))"

definition write_data :: "os \<Rightarrow> int \<Rightarrow> io list \<Rightarrow> connection \<Rightarrow> int \<times> string \<times> connection" where
  "write_data os now ios c =
     (if cn_socket_fd c < 0 then (0, [], c)
      else if cn_headers_sent c then
        (case write_content os now ios c of (e, w, c') \<Rightarrow> (sent e w, w, c'))
      else
        (case (if cn_ssl c then ssl_write_headers ios c else send_headers ios c) of
           (e, hw, c1, ios1) \<Rightarrow>
             if e = Finished then
               (case write_content os now ios1 (c1\<lparr>cn_headers_sent := True\<rparr>) of
                  (e', w, c') \<Rightarrow> (sent e' (hw @ w), hw @ w, c'))
             else (sent e hw, hw, c1)))"

text \<open>
  \<open>std::get<std::string>\<close> throws on the file alternative; \<open>response_wf\<close> excludes that, and
  \<open>text_of\<close> is the string.
\<close>

definition set_response_content :: "os \<Rightarrow> http_response \<Rightarrow> connection \<Rightarrow> connection" where
  "set_response_content os res c =
     (let c1 = (clear_response_state c)
            \<lparr>cn_raw_headers := build_headers_string (os_map_iter os) (os_date os) res,
             cn_head_only := rs_head_only res\<rparr>
      in if rs_is_file res then
           let fd = os_open os (res_file_path res) in
           if fd < 0 then c1\<lparr>cn_file_fd := fd, cn_file_remaining := 0\<rparr>
           else
             let off = rs_file_offset res;
                 len = (if 0 \<le> rs_file_length res then rs_file_length res
                        else (case os_fstat os fd of
                            Some n \<Rightarrow> max 0 (int n - off)
                          | None \<Rightarrow> 0))
             in c1\<lparr>cn_file_fd := fd, cn_file_offset := off, cn_file_remaining := len\<rparr>
         else c1\<lparr>cn_write_body := text_of res\<rparr>)"

definition has_data_to_write :: "connection \<Rightarrow> bool" where
  "has_data_to_write c \<longleftrightarrow>
     (if cn_raw_headers c \<noteq> [] then True
      else if cn_head_only c then False
      else if 0 \<le> cn_file_fd c \<and> 0 < cn_file_remaining c then True
      else cn_write_body_offset c < length (cn_write_body c))"

end
