(* ===== verification/Connection_Props.thy ===== *)
theory Connection_Props
  imports Connection Http_Parser_Props
begin

text \<open>
  What a connection promises: the bytes of a response reach the wire complete, once and in order
  however the kernel cuts the writes, the read buffer keeps within its size, and a request is taken
  off the front of the buffer with the pipelined ones left behind it.
\<close>

section \<open>The bytes still to be sent\<close>

definition pending :: "os \<Rightarrow> connection \<Rightarrow> string" where
  "pending os c =
     cn_raw_headers c @
     (if cn_head_only c then []
      else if 0 \<le> cn_file_fd c then file_read os (cn_file_remaining c) c
      else drop (cn_write_body_offset c) (cn_write_body c))"

definition writer_ok :: "connection \<Rightarrow> bool" where
  "writer_ok c \<longleftrightarrow>
     (cn_headers_sent c \<longrightarrow> cn_raw_headers c = []) \<and>
     (0 \<le> cn_file_fd c \<longrightarrow> cn_write_body c = [] \<and> 0 \<le> cn_file_offset c)"

text \<open>The part of the file the response names is there.\<close>

definition file_whole :: "os \<Rightarrow> connection \<Rightarrow> bool" where
  "file_whole os c \<longleftrightarrow>
     (0 \<le> cn_file_fd c \<longrightarrow> 0 \<le> cn_file_offset c \<and> 0 \<le> cn_file_remaining c \<and>
        cn_file_offset c + cn_file_remaining c \<le> int (length (os_content os (cn_file_fd c))))"

definition same_writer :: "connection \<Rightarrow> connection \<Rightarrow> bool" where
  "same_writer c c' \<longleftrightarrow>
     cn_socket_fd c' = cn_socket_fd c \<and>
     cn_raw_headers c' = cn_raw_headers c \<and> cn_headers_sent c' = cn_headers_sent c \<and>
     cn_head_only c' = cn_head_only c \<and> cn_file_fd c' = cn_file_fd c \<and>
     cn_write_body c' = cn_write_body c \<and> cn_write_body_offset c' = cn_write_body_offset c"

lemma same_writer_refl [simp]: "same_writer c c"
  by (simp add: same_writer_def)

lemma same_writer_updates [simp]:
  "same_writer c (update_activity now c)" "same_writer c (c\<lparr>cn_tls_want := w\<rparr>)"
  "same_writer c (file_advance n c)"
  by (simp_all add: same_writer_def update_activity_def file_advance_def)

lemma same_writer_trans: "same_writer a b \<Longrightarrow> same_writer b c \<Longrightarrow> same_writer a c"
  by (simp add: same_writer_def)

lemma file_fields [simp]:
  "cn_file_offset (update_activity now c) = cn_file_offset c"
  "cn_file_remaining (update_activity now c) = cn_file_remaining c"
  "file_read os n (update_activity now c) = file_read os n c"
  "file_read os n (c\<lparr>cn_tls_want := w\<rparr>) = file_read os n c"
  by (simp_all add: update_activity_def file_read_def)

lemma file_read_nonpos: "n \<le> 0 \<Longrightarrow> file_read os n c = []"
  by (simp add: file_read_def)

lemma file_read_split:
  assumes "0 \<le> cn_file_offset c" "part = take k (file_read os (min n chunk) c)"
  shows "file_read os n c =
     part @ file_read os (n - int (length part)) (file_advance (length part) c)"
proof -
  define d where "d = drop (nat (cn_file_offset c)) (os_content os (cn_file_fd c))"
  have part: "part = take (min k (nat (min n chunk))) d"
    using assms by (simp add: file_read_def d_def)
  define l where "l = length part"
  have l: "l \<le> nat n" "part = take l d"
    by (auto simp: l_def part min_def)
  have "take (nat n) d = take (l + (nat n - l)) d" using l(1) by simp
  also have "\<dots> = part @ take (nat n - l) (drop l d)" unfolding take_add using l(2) by simp
  finally have "take (nat n) d = part @ take (nat n - l) (drop l d)" .
  moreover have "nat (cn_file_offset c + int l) = nat (cn_file_offset c) + l"
    "nat (n - int l) = nat n - l"
    using assms(1) by (simp_all add: nat_add_distrib nat_diff_distrib')
  ultimately show ?thesis
    using assms(1) by (simp add: file_read_def file_advance_def d_def l_def [symmetric] add.commute)
qed

section \<open>The loops\<close>

definition file_progress :: "os \<Rightarrow> connection \<Rightarrow> string \<Rightarrow> connection \<Rightarrow> bool" where
  "file_progress os c w c' \<longleftrightarrow>
     same_writer c c' \<and> 0 \<le> cn_file_offset c' \<and>
     cn_file_offset c' + cn_file_remaining c' = cn_file_offset c + cn_file_remaining c \<and>
     (0 \<le> cn_file_remaining c \<longrightarrow> 0 \<le> cn_file_remaining c') \<and>
     file_read os (cn_file_remaining c) c = w @ file_read os (cn_file_remaining c') c'"

lemma file_progress_refl: "0 \<le> cn_file_offset c \<Longrightarrow> file_progress os c [] c"
  by (simp add: file_progress_def)

lemma file_progress_want: "0 \<le> cn_file_offset c \<Longrightarrow> file_progress os c [] (c\<lparr>cn_tls_want := w\<rparr>)"
  by (simp add: file_progress_def)

lemma file_progress_step:
  assumes "0 \<le> cn_file_offset c" "part = take k (file_read os (min (cn_file_remaining c) chunk) c)"
    "file_progress os (file_advance (length part) c) w c'"
  shows "file_progress os c (part @ w) c'"
proof -
  have "length part \<le> nat (min (cn_file_remaining c) chunk)"
    using assms(2) by (auto simp: file_read_def min_le_iff_disj)
  then have "length part \<le> nat (cn_file_remaining c)" by linarith
  then have "0 \<le> cn_file_remaining c \<Longrightarrow> int (length part) \<le> cn_file_remaining c" by linarith
  then show ?thesis
    using assms(3) file_read_split [OF assms(1,2)] same_writer_trans [of c "file_advance (length part) c" c']
    by (simp add: file_progress_def) (simp add: file_advance_def)
qed

lemma ssl_file_loop_progress:
  "0 \<le> cn_file_offset c \<Longrightarrow> ssl_file_loop os ios c = (e, w, c') \<Longrightarrow> file_progress os c w c'"
proof (induction ios arbitrary: c e w c')
  case Nil
  then show ?case
    by (subst (asm) ssl_file_loop.simps)
      (auto simp: Let_def file_progress_refl file_progress_want split: if_splits)
next
  case (Cons x ios)
  define buf where "buf = file_read os (min (cn_file_remaining c) 16384) c"
  show ?case
  proof (cases "\<exists>k. x = Moved k \<and> take k buf \<noteq> [] \<and> \<not> cn_file_remaining c \<le> 0")
    case True
    then obtain k where k: "x = Moved k" "take k buf \<noteq> []" "\<not> cn_file_remaining c \<le> 0" by blast
    define part where "part = take k buf"
    obtain e' w' d where r: "ssl_file_loop os ios (file_advance (length part) c) = (e', w', d)"
      by (metis prod_cases3)
    have "w = part @ w'" "c' = d"
      using Cons.prems(2) k r
      by (subst (asm) ssl_file_loop.simps, auto simp: Let_def buf_def [symmetric] part_def [symmetric]
          split: if_splits)+
    moreover have "0 \<le> cn_file_offset (file_advance (length part) c)"
      using Cons.prems(1) by (simp add: file_advance_def)
    ultimately show ?thesis
      using file_progress_step [OF Cons.prems(1), of part k os 16384 w' d] Cons.IH [OF _ r]
      by (simp add: part_def buf_def)
  next
    case False
    then show ?thesis using Cons.prems
      by (subst (asm) ssl_file_loop.simps)
        (auto simp: Let_def buf_def file_progress_refl file_progress_want split: if_splits io.splits)
  qed
qed

lemma sendfile_loop_progress:
  "0 \<le> cn_file_offset c \<Longrightarrow> sendfile_loop os ios c = (e, w, c') \<Longrightarrow> file_progress os c w c'"
proof (induction ios arbitrary: c e w c')
  case Nil
  then show ?case
    by (subst (asm) sendfile_loop.simps)
      (auto simp: Let_def file_progress_refl split: if_splits)
next
  case (Cons x ios)
  define buf where "buf = file_read os (min (cn_file_remaining c) FILE_SEND_CHUNK) c"
  show ?case
  proof (cases "\<exists>k. x = Moved k \<and> take k buf \<noteq> [] \<and> \<not> cn_file_remaining c \<le> 0")
    case True
    then obtain k where k: "x = Moved k" "take k buf \<noteq> []" "\<not> cn_file_remaining c \<le> 0" by blast
    define part where "part = take k buf"
    obtain e' w' d where r: "sendfile_loop os ios (file_advance (length part) c) = (e', w', d)"
      by (metis prod_cases3)
    have "w = part @ w'" "c' = d"
      using Cons.prems k r
      by (subst (asm) sendfile_loop.simps, auto simp: Let_def buf_def [symmetric] part_def [symmetric]
          split: if_splits)+
    moreover have "0 \<le> cn_file_offset (file_advance (length part) c)"
      using Cons.prems(1) by (simp add: file_advance_def)
    ultimately show ?thesis
      using file_progress_step [OF Cons.prems(1), of part k os FILE_SEND_CHUNK w' d] Cons.IH [OF _ r]
      by (simp add: part_def buf_def)
  next
    case False
    then show ?thesis using Cons.prems
      by (subst (asm) sendfile_loop.simps)
        (auto simp: Let_def buf_def file_progress_refl split: if_splits io.splits)
  qed
qed

lemma ssl_write_headers_progress:
  "ssl_write_headers ios c = (e, w, c', rest) \<Longrightarrow>
     cn_raw_headers c = w @ cn_raw_headers c' \<and> (e = Finished \<longrightarrow> cn_raw_headers c' = []) \<and>
     same_writer (c\<lparr>cn_raw_headers := cn_raw_headers c'\<rparr>) c' \<and>
     cn_file_offset c' = cn_file_offset c \<and> cn_file_remaining c' = cn_file_remaining c"
proof (induction ios arbitrary: c e w c' rest)
  case Nil
  then show ?case
    by (subst (asm) ssl_write_headers.simps) (auto simp: same_writer_def split: if_splits)
next
  case (Cons x ios)
  show ?case
  proof (cases "\<exists>k. x = Moved k \<and> take k (cn_raw_headers c) \<noteq> []")
    case True
    then obtain k where k: "x = Moved k" "take k (cn_raw_headers c) \<noteq> []" by blast
    let ?c = "c\<lparr>cn_raw_headers := drop k (cn_raw_headers c)\<rparr>"
    obtain e' w' d rest' where r: "ssl_write_headers ios ?c = (e', w', d, rest')"
      by (metis prod_cases4)
    have "e = e' \<and> w = take k (cn_raw_headers c) @ w' \<and> c' = d"
      using Cons.prems k r
      by (subst (asm) ssl_write_headers.simps) (auto simp: Let_def split: if_splits)
    with Cons.IH [OF r] show ?thesis
      by (simp add: same_writer_def)
        (metis append.assoc append_take_drop_id)
  next
    case False
    then show ?thesis using Cons.prems
      by (subst (asm) ssl_write_headers.simps)
        (auto simp: same_writer_def Let_def split: if_splits io.splits)
  qed
qed

lemma send_headers_progress:
  "send_headers ios c = (e, w, c', rest) \<Longrightarrow>
     cn_raw_headers c = w @ cn_raw_headers c' \<and> (e = Finished \<longrightarrow> cn_raw_headers c' = []) \<and>
     same_writer (c\<lparr>cn_raw_headers := cn_raw_headers c'\<rparr>) c' \<and>
     cn_file_offset c' = cn_file_offset c \<and> cn_file_remaining c' = cn_file_remaining c"
  by (auto simp: send_headers_def same_writer_def split: if_splits list.splits io.splits)

section \<open>One call of write_data\<close>

lemma pending_update [simp]: "pending os (update_activity now c) = pending os c"
  by (simp add: pending_def update_activity_def file_read_def)

lemma open_update [simp]:
  "cn_socket_fd (update_activity now c) = cn_socket_fd c"
  "file_whole os (update_activity now c) = file_whole os c"
  by (simp_all add: update_activity_def file_whole_def)

lemma writer_ok_update [simp]: "writer_ok (update_activity now c) = writer_ok c"
  by (simp add: writer_ok_def update_activity_def)

definition writes :: "os \<Rightarrow> connection \<Rightarrow> string \<Rightarrow> connection \<Rightarrow> bool" where
  "writes os c w c' \<longleftrightarrow>
     writer_ok c' \<and> pending os c = w @ pending os c' \<and> cn_socket_fd c' = cn_socket_fd c \<and>
     (file_whole os c \<longrightarrow> file_whole os c')"

lemma write_body_writes:
  assumes "writer_ok c" "cn_raw_headers c = []" "\<not> cn_head_only c" "\<not> 0 \<le> cn_file_fd c"
    "write_body now ios c = (e, w, c')"
  shows "writes os c w c'"
proof -
  have app: "take k (drop off body) @ drop (off + min (length body - off) k) body = drop off body"
    for off k and body :: string
  proof -
    have "drop (off + min (length body - off) k) body = drop k (drop off body)"
      by (cases "k \<le> length body - off") (simp_all add: add.commute min_def)
    then show ?thesis by (simp only: append_take_drop_id)
  qed
  show ?thesis
    using assms
    by (auto simp: write_body_def Let_def writes_def pending_def writer_ok_def app update_activity_def
        file_whole_def split: if_splits io.splits list.splits)
qed

lemma write_file_writes:
  assumes "writer_ok c" "cn_raw_headers c = []" "\<not> cn_head_only c" "0 \<le> cn_file_fd c"
    "file_progress os c w d" "write_file now (e, w, d) = (e', w', c')"
  shows "writes os c w' c'"
proof -
  have body: "cn_write_body d = []" and sw: "same_writer c d" and off: "0 \<le> cn_file_offset d"
    using assms(1,4,5) by (simp_all add: file_progress_def writer_ok_def same_writer_def)
  have pend: "pending os c = w @ file_read os (cn_file_remaining d) d"
    using assms(2-5) by (simp add: pending_def file_progress_def)
  have flags: "cn_raw_headers d = []" "\<not> cn_head_only d" "0 \<le> cn_file_fd d"
    "cn_socket_fd d = cn_socket_fd c"
    using sw assms(2-4) by (simp_all add: same_writer_def)
  have whole: "file_whole os c \<longrightarrow> file_whole os d"
    using assms(4,5) by (auto simp: file_progress_def file_whole_def same_writer_def)
  have w': "w' = w" using assms(6) by (auto simp: write_file_def split: if_splits)
  show ?thesis
  proof (cases "e = Finished \<and> cn_file_remaining d \<le> 0")
    case True
    then have "c' = update_activity now (d\<lparr>cn_file_fd := -1\<rparr>)"
      using assms(6) by (auto simp: write_file_def)
    then show ?thesis
      using True pend flags body file_read_nonpos [of "cn_file_remaining d" os d] w'
      by (simp add: writes_def) (simp add: pending_def writer_ok_def file_whole_def)
  next
    case False
    then have "c' = d \<or> c' = update_activity now d"
      using assms(6) by (auto simp: write_file_def split: if_splits)
    moreover have "writes os c w d"
      using pend flags body off whole by (simp add: writes_def) (simp add: pending_def writer_ok_def)
    ultimately show ?thesis using w' by (auto simp: writes_def)
  qed
qed

lemma write_content_writes:
  assumes "writer_ok c" "cn_raw_headers c = []" "write_content os now ios c = (e, w, c')"
  shows "writes os c w c'"
proof (cases "cn_head_only c")
  case True
  then show ?thesis using assms
    by (auto simp: write_content_def writes_def)
next
  case nh: False
  show ?thesis
  proof (cases "0 \<le> cn_file_fd c")
    case True
    then have off: "0 \<le> cn_file_offset c" using assms(1) by (simp add: writer_ok_def)
    obtain e1 w1 d where r: "(if cn_ssl c then ssl_file_loop os ios c else sendfile_loop os ios c) = (e1, w1, d)"
      by (metis prod_cases3)
    then have "file_progress os c w1 d"
      using ssl_file_loop_progress [OF off] sendfile_loop_progress [OF off] by (auto split: if_splits)
    moreover have "write_file now (e1, w1, d) = (e, w, c')"
      using assms(3) nh True r by (simp add: write_content_def)
    ultimately show ?thesis
      using write_file_writes [OF assms(1,2) nh True] by blast
  next
    case False
    then show ?thesis
      using write_body_writes [OF assms(1,2) nh False] assms(3) nh by (simp add: write_content_def)
  qed
qed

lemma same_writer_whole:
  assumes "same_writer (c\<lparr>cn_raw_headers := cn_raw_headers d\<rparr>) d"
    "cn_file_offset d = cn_file_offset c" "cn_file_remaining d = cn_file_remaining c"
  shows "file_whole os d = file_whole os c" "cn_socket_fd d = cn_socket_fd c"
  using assms by (simp_all add: file_whole_def same_writer_def)

lemma same_writer_pending:
  assumes "same_writer (c\<lparr>cn_raw_headers := cn_raw_headers d\<rparr>) d" "cn_raw_headers c = w @ cn_raw_headers d"
    "cn_file_offset d = cn_file_offset c" "cn_file_remaining d = cn_file_remaining c"
  shows "pending os c = w @ pending os d"
  using assms by (simp add: pending_def same_writer_def file_read_def)

lemma write_data_writes:
  assumes "writer_ok c" "write_data os now ios c = (n, w, c')"
  shows "writes os c w c'" and "n < 0 \<or> n = int (length w)"
proof -
  have n: "n < 0 \<or> n = int (length w)"
    using assms(2) by (auto simp: write_data_def sent_def split: if_splits prod.splits)
  show "n < 0 \<or> n = int (length w)" by (fact n)
  consider (closed) "cn_socket_fd c < 0" | (content) "\<not> cn_socket_fd c < 0" "cn_headers_sent c"
    | (headers) "\<not> cn_socket_fd c < 0" "\<not> cn_headers_sent c" by blast
  then show "writes os c w c'"
  proof cases
    case closed
    then show ?thesis using assms by (simp add: write_data_def writes_def)
  next
    case content
    obtain e v d where r: "write_content os now ios c = (e, v, d)" by (metis prod_cases3)
    moreover from content assms(1) have "cn_raw_headers c = []" by (simp add: writer_ok_def)
    ultimately show ?thesis
      using write_content_writes [OF assms(1) _ r] assms(2) content by (simp add: write_data_def)
  next
    case headers
    obtain e hw d ios1 where h: "(if cn_ssl c then ssl_write_headers ios c else send_headers ios c) = (e, hw, d, ios1)"
      by (metis prod_cases4)
    then have p: "cn_raw_headers c = hw @ cn_raw_headers d" "e = Finished \<longrightarrow> cn_raw_headers d = []"
      "same_writer (c\<lparr>cn_raw_headers := cn_raw_headers d\<rparr>) d"
      "cn_file_offset d = cn_file_offset c" "cn_file_remaining d = cn_file_remaining c"
      using ssl_write_headers_progress send_headers_progress by (auto split: if_splits)
    have pd: "pending os c = hw @ pending os d" by (rule same_writer_pending [OF p(3,1,4,5)])
    note wh = same_writer_whole [OF p(3-5)]
    have ok: "writer_ok d" using assms(1) headers(2) p(3,4) by (simp add: writer_ok_def same_writer_def)
    show ?thesis
    proof (cases "e = Finished")
      case False
      then have "w = hw" "c' = d"
        using assms(2) headers h by (simp_all add: write_data_def split: prod.splits)
      then show ?thesis using pd ok wh by (simp add: writes_def)
    next
      case True
      let ?d = "d\<lparr>cn_headers_sent := True\<rparr>"
      obtain e1 v c1 where r: "write_content os now ios1 ?d = (e1, v, c1)" by (metis prod_cases3)
      have "w = hw @ v" "c' = c1"
        using assms(2) headers h True r by simp_all (simp_all add: write_data_def)
      moreover have "writer_ok ?d" "cn_raw_headers ?d = []" "pending os ?d = pending os d"
        "file_whole os ?d = file_whole os d" "cn_socket_fd ?d = cn_socket_fd d"
        using ok p(2) True by (simp_all add: writer_ok_def pending_def file_read_def file_whole_def)
      ultimately show ?thesis
        using write_content_writes [OF _ _ r] pd wh by (simp add: writes_def)
    qed
  qed
qed

lemma nothing_to_write: "writer_ok c \<Longrightarrow> \<not> has_data_to_write c \<Longrightarrow> pending os c = []"
  by (auto simp: pending_def has_data_to_write_def writer_ok_def file_read_nonpos split: if_splits)

lemma has_data_pending:
  assumes "writer_ok c" "file_whole os c"
  shows "has_data_to_write c \<longleftrightarrow> pending os c \<noteq> []"
proof (cases "0 \<le> cn_file_fd c \<and> 0 < cn_file_remaining c")
  case True
  then have "file_read os (cn_file_remaining c) c \<noteq> []" "cn_write_body c = []"
    using assms by (auto simp: file_read_def file_whole_def writer_ok_def)
  with True show ?thesis by (simp add: has_data_to_write_def pending_def)
next
  case False
  then show ?thesis using assms
    by (auto simp: has_data_to_write_def pending_def file_read_nonpos writer_ok_def)
qed

section \<open>A response from the first byte to the last\<close>

text \<open>
  The calls of \<open>write_data\<close> one response takes: the event loop calls again while there is data
  left, and gives up on an error.
\<close>

fun write_calls :: "os \<Rightarrow> (int \<times> io list) list \<Rightarrow> connection \<Rightarrow> string \<times> connection" where
  "write_calls os [] c = ([], c)"
| "write_calls os ((now, ios) # calls) c =
     (case write_data os now ios c of (n, w, c') \<Rightarrow>
        if n < 0 \<or> \<not> has_data_to_write c' then (w, c')
        else (case write_calls os calls c' of (w', c'') \<Rightarrow> (w @ w', c'')))"

text \<open>What the client is meant to receive: the headers, and the body unless it is suppressed.\<close>

definition file_length_sent :: "os \<Rightarrow> int \<Rightarrow> http_response \<Rightarrow> int" where
  "file_length_sent os fd res =
     (if 0 \<le> rs_file_length res then rs_file_length res
      else (case os_fstat os fd of Some n \<Rightarrow> max 0 (int n - rs_file_offset res) | None \<Rightarrow> 0))"

definition response_bytes :: "os \<Rightarrow> http_response \<Rightarrow> string" where
  "response_bytes os res =
     build_headers_string (os_map_iter os) (os_date os) res @
     (if rs_head_only res then []
      else if rs_is_file res then
        (let fd = os_open os (res_file_path res) in
         if fd < 0 then []
         else take (nat (file_length_sent os fd res))
                (drop (nat (rs_file_offset res)) (os_content os fd)))
      else text_of res)"

lemma set_response_pending:
  assumes "0 \<le> rs_file_offset res"
  shows "writer_ok (set_response_content os res c)"
    "pending os (set_response_content os res c) = response_bytes os res"
  using assms
  by (auto simp: set_response_content_def clear_response_state_def Let_def writer_ok_def pending_def
      response_bytes_def file_length_sent_def file_read_def)

lemma write_calls_writes:
  "writer_ok c \<Longrightarrow> write_calls os calls c = (w, c') \<Longrightarrow> writes os c w c'"
proof (induction calls arbitrary: c w c')
  case Nil
  then show ?case by (simp add: writes_def)
next
  case (Cons call calls)
  obtain now ios where call: "call = (now, ios)" by (cases call)
  obtain n v d where r: "write_data os now ios c = (n, v, d)" by (metis prod_cases3)
  have d: "writes os c v d" using write_data_writes [OF Cons.prems(1) r] by simp
  show ?case
  proof (cases "n < 0 \<or> \<not> has_data_to_write d")
    case True
    then show ?thesis using Cons.prems(2) call r d by simp
  next
    case False
    obtain v' d' where t: "write_calls os calls d = (v', d')" by (metis prod.exhaust)
    have "writes os d v' d'" using Cons.IH [OF _ t] d Cons.prems t False call r
      by (simp add: writes_def)
    then show ?thesis using Cons.prems(2) call r False t d by (simp add: writes_def)
  qed
qed

section \<open>Progress\<close>

text \<open>A peer that takes bytes: no call fails, and the first one moves something.\<close>

definition willing :: "io list \<Rightarrow> bool" where
  "willing ios \<longleftrightarrow>
     list_all (\<lambda>x. case x of Moved k \<Rightarrow> 0 < k | Block _ \<Rightarrow> True | Broken \<Rightarrow> False) ios"

fun eager :: "io list \<Rightarrow> bool" where
  "eager (Moved k # ios) \<longleftrightarrow> 0 < k \<and> willing ios"
| "eager _ \<longleftrightarrow> False"

lemma willing_Cons [simp]:
  "willing (x # ios) \<longleftrightarrow> (case x of Moved k \<Rightarrow> 0 < k | Block _ \<Rightarrow> True | Broken \<Rightarrow> False) \<and> willing ios"
  by (simp add: willing_def)

lemma ssl_file_loop_willing:
  "willing ios \<Longrightarrow> ssl_file_loop os ios c = (e, w, c') \<Longrightarrow> e \<noteq> Failed"
proof (induction ios arbitrary: c e w c')
  case Nil
  then show ?case by (subst (asm) ssl_file_loop.simps) (auto simp: Let_def split: if_splits)
next
  case (Cons x ios)
  then show ?case
    by (subst (asm) (2) ssl_file_loop.simps)
      (auto simp: Let_def split: if_splits io.splits prod.splits)
qed

lemma sendfile_loop_willing:
  "willing ios \<Longrightarrow> 0 \<le> cn_file_offset c \<Longrightarrow> sendfile_loop os ios c = (e, w, c') \<Longrightarrow> e \<noteq> Failed"
proof (induction ios arbitrary: c e w c')
  case Nil
  then show ?case by (subst (asm) sendfile_loop.simps) (auto simp: Let_def split: if_splits)
next
  case (Cons x ios)
  have off: "0 \<le> cn_file_offset (file_advance n c)" for n
    using Cons.prems(2) by (simp add: file_advance_def)
  have ih: "sendfile_loop os ios d \<noteq> (Failed, v, d')" if "willing ios" "0 \<le> cn_file_offset d" for d v d'
    using Cons.IH [OF that] by blast
  from Cons.prems show ?case
    by (subst (asm) sendfile_loop.simps)
      (auto simp: Let_def ih off split: if_splits io.splits prod.splits)
qed

lemma file_loop_moves:
  assumes "0 < k" "file_read os (cn_file_remaining c) c \<noteq> []"
  shows "ssl_file_loop os (Moved k # ios) c = (e, w, c') \<Longrightarrow> w \<noteq> []"
    "sendfile_loop os (Moved k # ios) c = (e, w, c') \<Longrightarrow> w \<noteq> []"
proof -
  have r: "0 < cn_file_remaining c" "\<not> cn_file_offset c < 0"
    using assms(2) file_read_nonpos [of "cn_file_remaining c" os c]
    by (auto simp: file_read_def split: if_splits)
  have "file_read os (min (cn_file_remaining c) chunk) c \<noteq> []" if "0 < chunk" for chunk
    using assms(2) r that by (simp add: file_read_def)
  then have ne: "take k (file_read os (min (cn_file_remaining c) 16384) c) \<noteq> []"
      "file_read os (min (cn_file_remaining c) 16384) c \<noteq> []"
      "take k (file_read os (min (cn_file_remaining c) FILE_SEND_CHUNK) c) \<noteq> []"
    using assms(1) by (simp_all add: FILE_SEND_CHUNK_def)
  show "ssl_file_loop os (Moved k # ios) c = (e, w, c') \<Longrightarrow> w \<noteq> []"
    using r ne by (subst (asm) ssl_file_loop.simps) (auto simp: Let_def simp del: take_eq_Nil split: prod.splits)
  show "sendfile_loop os (Moved k # ios) c = (e, w, c') \<Longrightarrow> w \<noteq> []"
    using r ne by (subst (asm) sendfile_loop.simps) (auto simp: Let_def simp del: take_eq_Nil split: prod.splits)
qed

lemma header_call_none:
  "cn_raw_headers c = [] \<Longrightarrow> ssl_write_headers ios c = (Finished, [], c, ios)"
  "cn_raw_headers c = [] \<Longrightarrow> send_headers ios c = (Finished, [], c, ios)"
  by (subst ssl_write_headers.simps, simp) (simp add: send_headers_def)

lemma ssl_write_headers_willing:
  "willing ios \<Longrightarrow> ssl_write_headers ios c = (e, w, c', rest) \<Longrightarrow> e \<noteq> Failed \<and> willing rest"
proof (induction ios arbitrary: c e w c' rest)
  case Nil
  then show ?case by (subst (asm) ssl_write_headers.simps) (auto simp: Let_def split: if_splits)
next
  case (Cons x ios)
  then show ?case
    by (subst (asm) (2) ssl_write_headers.simps)
      (auto simp: Let_def split: if_splits io.splits prod.splits)
qed

lemma send_headers_willing:
  "willing ios \<Longrightarrow> send_headers ios c = (e, w, c', rest) \<Longrightarrow> e \<noteq> Failed \<and> willing rest"
  by (auto simp: send_headers_def split: if_splits list.splits io.splits)

lemma header_call_moves:
  assumes "eager ios" "cn_raw_headers c \<noteq> []"
  shows "ssl_write_headers ios c = (e, w, c', rest) \<Longrightarrow> w \<noteq> []"
    "send_headers ios c = (e, w, c', rest) \<Longrightarrow> w \<noteq> []"
proof -
  obtain k ios' where "ios = Moved k # ios'" "0 < k"
    using assms(1) by (cases ios rule: eager.cases) auto
  then have k: "ios = Moved k # ios'" "take k (cn_raw_headers c) \<noteq> []"
    using assms(2) by simp_all
  show "ssl_write_headers ios c = (e, w, c', rest) \<Longrightarrow> w \<noteq> []"
    using k assms(2) by (subst (asm) ssl_write_headers.simps)
      (auto simp: Let_def simp del: take_eq_Nil split: prod.splits)
  show "send_headers ios c = (e, w, c', rest) \<Longrightarrow> w \<noteq> []"
    using k assms(2) by (simp add: send_headers_def del: take_eq_Nil)
qed

lemma eager_willing: "eager ios \<Longrightarrow> willing ios"
  by (cases ios rule: eager.cases) auto

lemma write_content_willing:
  assumes "willing ios" "writer_ok c" "write_content os now ios c = (e, w, c')"
  shows "e \<noteq> Failed"
proof -
  have "0 \<le> cn_file_offset c" if "0 \<le> cn_file_fd c" using assms(2) that by (simp add: writer_ok_def)
  then show ?thesis
    using assms(1,3) ssl_file_loop_willing sendfile_loop_willing
    by (auto simp: write_content_def write_file_def write_body_def Let_def
        split: if_splits prod.splits list.splits io.splits)
qed

lemma write_content_moves:
  assumes "eager ios" "cn_raw_headers c = []" "pending os c \<noteq> []"
    "write_content os now ios c = (e, w, c')"
  shows "w \<noteq> []"
proof -
  obtain k ios' where k: "ios = Moved k # ios'" "0 < k"
    using assms(1) by (cases ios rule: eager.cases) auto
  show ?thesis
  proof (cases "0 \<le> cn_file_fd c")
    case True
    then have fr: "file_read os (cn_file_remaining c) c \<noteq> []" and nh: "\<not> cn_head_only c"
      using assms(2,3) by (auto simp: pending_def split: if_splits)
    obtain e1 v d where
      r: "(if cn_ssl c then ssl_file_loop os ios c else sendfile_loop os ios c) = (e1, v, d)"
      by (metis prod_cases3)
    have "v \<noteq> []"
      using file_loop_moves(1) [OF k(2) fr, of ios' e1 v d] file_loop_moves(2) [OF k(2) fr, of ios' e1 v d]
        k(1) r by (cases "cn_ssl c") simp_all
    moreover have "w = v"
      using assms(4) True r nh
      by (simp add: write_content_def write_file_def split: if_splits)
    ultimately show ?thesis by simp
  next
    case False
    then show ?thesis using assms(2-4) k
      by (auto simp: write_content_def write_body_def pending_def Let_def split: if_splits)
  qed
qed

lemma write_first_eager:
  assumes "eager ios" "writer_ok c" "0 \<le> cn_socket_fd c" "pending os c \<noteq> []" "\<not> cn_headers_sent c"
    "write_data os now ios c = (n, w, c')"
  shows "0 \<le> n \<and> w \<noteq> []"
proof -
  obtain e hw d ios1 where h: "(if cn_ssl c then ssl_write_headers ios c else send_headers ios c) = (e, hw, d, ios1)"
    by (metis prod_cases4)
  then have p: "cn_raw_headers c = hw @ cn_raw_headers d" "e = Finished \<longrightarrow> cn_raw_headers d = []"
    "same_writer (c\<lparr>cn_raw_headers := cn_raw_headers d\<rparr>) d"
    "cn_file_offset d = cn_file_offset c" "cn_file_remaining d = cn_file_remaining c"
    using ssl_write_headers_progress send_headers_progress by (auto split: if_splits)
  have ok: "e \<noteq> Failed" "willing ios1"
    using h ssl_write_headers_willing [OF eager_willing [OF assms(1)], of c e hw d ios1]
      send_headers_willing [OF eager_willing [OF assms(1)], of c e hw d ios1]
    by (cases "cn_ssl c"; simp)+
  have moved: "hw \<noteq> []" if "cn_raw_headers c \<noteq> []"
    using h header_call_moves [OF assms(1) that] by (auto split: if_splits)
  let ?d = "d\<lparr>cn_headers_sent := True\<rparr>"
  obtain e1 v c1 where r: "write_content os now ios1 ?d = (e1, v, c1)" by (metis prod_cases3)
  show ?thesis
  proof (cases "e = Finished")
    case False
    then have "cn_raw_headers c \<noteq> []" using h header_call_none [of c ios]
      by (auto split: if_splits)
    then show ?thesis using assms(3,5,6) h False ok(1) moved by (auto simp: write_data_def sent_def)
  next
    case True
    have wd: "n = sent e1 (hw @ v)" "w = hw @ v"
      using assms(3,5,6) h True r by (auto simp: write_data_def)
    have wk: "writer_ok ?d" using assms(2,5) p True by (simp add: writer_ok_def same_writer_def)
    have "e1 \<noteq> Failed" by (rule write_content_willing [OF ok(2) wk r])
    moreover have "v \<noteq> []" if "cn_raw_headers c = []"
    proof -
      have d: "ios1 = ios" "d = c" using h header_call_none [of c ios] that by (auto split: if_splits)
      have "pending os ?d = pending os d" by (simp add: pending_def file_read_def)
      then have "pending os ?d \<noteq> []" "cn_raw_headers ?d = []" using assms(4) d that by simp_all
      with write_content_moves [OF assms(1), of ?d] r d show ?thesis by simp
    qed
    ultimately show ?thesis using wd moved by (auto simp: sent_def)
  qed
qed

lemma write_data_eager:
  assumes "eager ios" "writer_ok c" "0 \<le> cn_socket_fd c" "pending os c \<noteq> []"
    "write_data os now ios c = (n, w, c')"
  shows "0 \<le> n" "w \<noteq> []"
proof -
  have "0 \<le> n \<and> w \<noteq> []"
  proof (cases "cn_headers_sent c")
    case True
    then have raw: "cn_raw_headers c = []" using assms(2) by (simp add: writer_ok_def)
    obtain e v d where r: "write_content os now ios c = (e, v, d)" by (metis prod_cases3)
    show ?thesis
      using assms(3,5) True r write_content_moves [OF assms(1) raw assms(4) r]
        write_content_willing [OF eager_willing [OF assms(1)] assms(2) r]
      by (auto simp: write_data_def sent_def)
  next
    case False
    with write_first_eager [OF assms(1-4) _ assms(5)] show ?thesis by simp
  qed
  then show "0 \<le> n" "w \<noteq> []" by simp_all
qed

lemma write_calls_eager:
  assumes "writer_ok c" "0 \<le> cn_socket_fd c" "file_whole os c"
    "length (pending os c) \<le> length calls" "\<forall>(now, ios) \<in> set calls. eager ios"
    "has_data_to_write c" "write_calls os calls c = (w, c')"
  shows "w = pending os c \<and> \<not> has_data_to_write c'"
  using assms
proof (induction calls arbitrary: c w)
  case Nil
  then have "pending os c = []" by simp
  with has_data_pending [OF Nil.prems(1,3)] Nil.prems(6) show ?case by simp
next
  case (Cons call calls)
  obtain now ios where call: "call = (now, ios)" by (cases call)
  obtain n v d where r: "write_data os now ios c = (n, v, d)" by (metis prod_cases3)
  have ne: "pending os c \<noteq> []" using has_data_pending [OF Cons.prems(1,3)] Cons.prems(6) by simp
  have wr: "writes os c v d" using write_data_writes [OF Cons.prems(1) r] by simp
  have ea: "eager ios" using Cons.prems(5) call by simp
  have mv: "0 \<le> n" "v \<noteq> []" using write_data_eager [OF ea Cons.prems(1,2) ne r] by simp_all
  show ?case
  proof (cases "has_data_to_write d")
    case False
    then have "pending os d = []" using wr nothing_to_write by (simp add: writes_def)
    then show ?thesis using False Cons.prems(7) call r wr by (simp add: writes_def)
  next
    case True
    obtain v' where t: "write_calls os calls d = (v', c')" "w = v @ v'"
      using Cons.prems(7) call r mv True by (auto split: prod.splits)
    have "length (pending os d) \<le> length calls"
      using wr mv Cons.prems(4) by (cases v) (auto simp: writes_def)
    with Cons.IH [of d v'] Cons.prems(2,3,5) wr t(1) True have "v' = pending os d \<and> \<not> has_data_to_write c'"
      by (simp add: writes_def)
    then show ?thesis using t(2) wr by (simp add: writes_def)
  qed
qed

section \<open>Reading\<close>

lemma ssl_read_loop_buffer:
  "ssl_read_loop now tot rs c = (n, c') \<Longrightarrow> length (cn_read_buffer c) \<le> READ_BUFFER_SIZE \<Longrightarrow>
     length (cn_read_buffer c') \<le> READ_BUFFER_SIZE \<and>
     (\<exists>bs. cn_read_buffer c' = cn_read_buffer c @ bs \<and> (0 < n \<longrightarrow> n = int (tot + length bs)))"
proof (induction rs arbitrary: tot c n c')
  case Nil
  then show ?case
    by (subst (asm) ssl_read_loop.simps)
      (auto simp: Let_def kReadWouldBlock_def update_activity_def split: if_splits)
next
  case (Cons r rs)
  let ?got = "\<lambda>bs. take (READ_BUFFER_SIZE - length (cn_read_buffer c)) bs"
  show ?case
  proof (cases "\<exists>bs. r = Received bs \<and> ?got bs \<noteq> []")
    case True
    then obtain bs where bs: "r = Received bs" "?got bs \<noteq> []" by blast
    let ?c = "c\<lparr>cn_read_buffer := cn_read_buffer c @ ?got bs\<rparr>"
    have "\<not> READ_BUFFER_SIZE \<le> length (cn_read_buffer c)" using bs(2) by auto
    then have "ssl_read_loop now (tot + length (?got bs)) rs ?c = (n, c')"
      using Cons.prems(1) bs by (subst (asm) ssl_read_loop.simps) (simp add: Let_def del: take_eq_Nil length_take)
    moreover have "length (cn_read_buffer ?c) \<le> READ_BUFFER_SIZE" using Cons.prems(2) by simp
    ultimately obtain bs' where
      "length (cn_read_buffer c') \<le> READ_BUFFER_SIZE"
      "cn_read_buffer c' = cn_read_buffer c @ ?got bs @ bs'"
      "0 < n \<longrightarrow> n = int (tot + length (?got bs @ bs'))"
      using Cons.IH [of "tot + length (?got bs)" ?c n c'] by (auto simp: add.assoc)
    then show ?thesis by blast
  next
    case False
    then show ?thesis using Cons.prems
      by (subst (asm) ssl_read_loop.simps)
        (auto simp: Let_def kReadWouldBlock_def update_activity_def split: if_splits recv.splits)
  qed
qed

lemma read_data_buffer:
  assumes "read_data now rs c = (n, c')" "length (cn_read_buffer c) \<le> READ_BUFFER_SIZE"
  shows "length (cn_read_buffer c') \<le> READ_BUFFER_SIZE"
    "\<exists>bs. cn_read_buffer c' = cn_read_buffer c @ bs \<and> (0 < n \<longrightarrow> n = int (length bs))"
  using assms ssl_read_loop_buffer [of now 0 rs c n c']
  by (auto simp: read_data_def Let_def kReadWouldBlock_def update_activity_def split: if_splits list.splits recv.splits)

lemma read_data_full:
  "length (cn_read_buffer c) = READ_BUFFER_SIZE \<Longrightarrow> read_data now rs c = (0, c)"
  by (simp add: read_data_def Let_def)

section \<open>Taking requests off the buffer\<close>

lemma parser_reset_all: "parser_reset p = parser_init"
  by (simp add: parser_reset_def parser_init_def)

text \<open>
  The requests of one connection, as the event loop takes them: \<open>parse_next\<close>, then \<open>consume\<close>
  with the number of bytes it reported.
\<close>

fun take_requests :: "nat \<Rightarrow> connection \<Rightarrow> http_request list \<times> connection" where
  "take_requests 0 c = ([], c)"
| "take_requests (Suc n) c =
     (case parse_next c of
        Some (True, k, c1) \<Rightarrow>
          (case take_requests n (consume k c1) of (rs, c') \<Rightarrow> (cn_current_request c1 # rs, c'))
      | Some (False, k, c1) \<Rightarrow> ([], c1)
      | None \<Rightarrow> ([], c))"

text \<open>A request with a body of known length, as a client sends it.\<close>

record client_request =
  cr_method :: HttpMethod
  cr_target :: string
  cr_version :: string
  cr_headers :: "(string \<times> string) list"
  cr_body :: string

definition client_headers :: "client_request \<Rightarrow> (string \<times> string) list" where
  "client_headers q = cr_headers q @ [(''Content-Length'', dec (length (cr_body q)))]"

definition client_head :: "client_request \<Rightarrow> string" where
  "client_head q = request_head (cr_method q) (cr_target q) (cr_version q) (client_headers q) @ crlf"

definition client_bytes :: "client_request \<Rightarrow> string" where
  "client_bytes q = client_head q @ cr_body q"

definition client_ok :: "client_request \<Rightarrow> bool" where
  "client_ok q \<longleftrightarrow>
     well_formed_head (cr_method q) (cr_target q) (cr_version q) (client_headers q) \<and>
     ''Transfer-Encoding'' \<notin> fst ` set (cr_headers q) \<and> length (cr_body q) \<le> MAX_BODY_BYTES"

definition client_value :: "client_request \<Rightarrow> http_request" where
  "client_value q =
     (read_head (cr_method q) (cr_target q) (cr_version q) (client_headers q))\<lparr>rq_body := cr_body q\<rparr>"

lemma client_parse:
  "client_ok q \<Longrightarrow> parse_request parser_init (client_bytes q @ rest) request_init =
     Some \<lparr>pr_ok = True, pr_consumed = length (client_bytes q),
           pr_parser = parser_init\<lparr>ps_state := COMPLETE, ps_body_expected_length := length (cr_body q)\<rparr>,
           pr_buffer = client_bytes q @ rest, pr_request = client_value q\<rparr>"
  using parse_render_request [OF client_headers_def [of q], of "cr_method q" "cr_target q" "cr_version q" rest]
  by (simp add: client_ok_def client_bytes_def client_head_def client_value_def)

lemma client_bytes_nonempty: "client_bytes q \<noteq> []"
  by (simp add: client_bytes_def client_head_def)

lemma parse_next_client:
  assumes "client_ok q" "cn_read_buffer c = client_bytes q @ rest"
  shows "\<exists>c1. parse_next c = Some (True, length (client_bytes q), c1) \<and>
     cn_current_request c1 = client_value q \<and> cn_read_buffer (consume (length (client_bytes q)) c1) = rest"
proof -
  have "cn_read_buffer c \<noteq> []" using assms(2) client_bytes_nonempty by simp
  then show ?thesis
    using client_parse [OF assms(1), of rest] assms(2) client_bytes_nonempty [of q]
    by (simp add: parse_next_def parser_reset_all Let_def consume_def)
qed

text \<open>
  Requests that arrive together are taken off the buffer one by one, in their order and each with
  its own method, target, headers and body, and what follows them stays.
\<close>

lemma pipelined_requests:
  "\<forall>q \<in> set qs. client_ok q \<Longrightarrow> cn_read_buffer c = concat (map client_bytes qs) @ rest \<Longrightarrow>
     \<exists>c'. take_requests (length qs) c = (map client_value qs, c') \<and> cn_read_buffer c' = rest"
proof (induction qs arbitrary: c)
  case Nil
  then show ?case by simp
next
  case (Cons q qs)
  from parse_next_client [of q c "concat (map client_bytes qs) @ rest"] Cons.prems obtain c1 where
    c1: "parse_next c = Some (True, length (client_bytes q), c1)" "cn_current_request c1 = client_value q"
    "cn_read_buffer (consume (length (client_bytes q)) c1) = concat (map client_bytes qs) @ rest"
    by auto
  from Cons.IH [OF _ c1(3)] Cons.prems(1) c1 show ?case by auto
qed

text \<open>A prefix of a request is never a complete request.\<close>

lemma parse_prefix_incomplete:
  assumes "client_ok q" "client_bytes q = buf @ tail" "tail \<noteq> []" "length buf < 2 ^ 63"
    "parse_request parser_init buf request_init = Some res"
  shows "\<not> pr_ok res"
proof
  assume ok: "pr_ok res"
  have init: "ps_state parser_init = REQUEST_LINE" by (simp add: parser_init_def)
  from parse_request_extend [OF init assms(5) ok, of tail] client_parse [OF assms(1), of "[]"] assms(2)
  have "pr_consumed (res\<lparr>pr_buffer := pr_buffer res @ tail\<rparr>) = length (client_bytes q)" by simp
  then have "pr_consumed res = length (client_bytes q)" by simp
  moreover have "complete_parse (parser_reset parser_init) buf request_init res"
    using parse_request_complete [OF init, of buf request_init res] assms(5) ok
    by (simp add: parser_reset_all)
  then have "pr_consumed res \<le> length buf" by (rule complete_parse_facts(2) [OF _ assms(4)])
  ultimately show False using assms(2,3) by simp
qed

lemma full_buffer_incomplete:
  assumes "client_ok q" "READ_BUFFER_SIZE < length (client_bytes q)"
    "cn_read_buffer c = take READ_BUFFER_SIZE (client_bytes q)" "parse_next c = Some (complete, k, c1)"
  shows "\<not> complete"
proof
  assume "complete"
  then obtain res where r: "parse_request parser_init (cn_read_buffer c) request_init = Some res" "pr_ok res"
    using assms(4) by (auto simp: parse_next_def parser_reset_all Let_def split: if_splits option.splits)
  have "client_bytes q = cn_read_buffer c @ drop READ_BUFFER_SIZE (client_bytes q)"
    using assms(3) by simp
  moreover have "drop READ_BUFFER_SIZE (client_bytes q) \<noteq> []" using assms(2) by simp
  moreover have "length (cn_read_buffer c) < 2 ^ 63" using assms(3) by (simp add: READ_BUFFER_SIZE_def)
  ultimately show False using parse_prefix_incomplete [OF assms(1) _ _ _ r(1)] r(2) by blast
qed

section \<open>The properties\<close>

text \<open>
  C6: however the writes of a response are cut by the kernel or by TLS, blocked or failed, what has
  reached the wire is the beginning of the response, and all of it once nothing is left to write.
\<close>

theorem response_on_the_wire:
  assumes "0 \<le> rs_file_offset res"
    "write_calls os calls (set_response_content os res c) = (wire, c')"
  shows "\<exists>rest. response_bytes os res = wire @ rest \<and> (\<not> has_data_to_write c' \<longrightarrow> rest = [])"
proof -
  note s = set_response_pending [OF assms(1), of os c]
  from write_calls_writes [OF s(1) assms(2)] s(2) nothing_to_write show ?thesis
    by (auto simp: writes_def)
qed

text \<open>
  A peer that takes at least one byte at each call receives the whole response, after at most
  as many calls as it has bytes, when the part of the file it names is there.
\<close>

lemma response_delivered:
  assumes "0 \<le> rs_file_offset res" "0 \<le> cn_socket_fd c"
    "file_whole os (set_response_content os res c)"
    "\<forall>(now, ios) \<in> set calls. eager ios" "length (response_bytes os res) \<le> length calls"
  shows "\<exists>c'. write_calls os calls (set_response_content os res c) = (response_bytes os res, c') \<and>
     \<not> has_data_to_write c'"
proof -
  let ?c = "set_response_content os res c"
  note s = set_response_pending [OF assms(1), of os c]
  have "has_data_to_write ?c"
    by (auto simp: has_data_to_write_def set_response_content_def Let_def build_headers_string_def)
  moreover have "0 \<le> cn_socket_fd ?c"
    using assms(2) by (auto simp: set_response_content_def clear_response_state_def Let_def)
  moreover obtain w c' where w: "write_calls os calls ?c = (w, c')" by (metis prod.exhaust)
  ultimately show ?thesis
    using write_calls_eager [OF s(1) _ assms(3) _ assms(4) _ w] assms(5) s(2) by simp
qed

section \<open>Witnesses\<close>

definition os_example :: os where
  "os_example = \<lparr>os_open = (\<lambda>p. if p = ''f'' then 7 else -1), os_fstat = (\<lambda>fd. Some 6),
     os_content = (\<lambda>fd. ''abcdef''), os_map_iter = (\<lambda>m. [(''Server'', ''Oreshnek/1.0.0'')]),
     os_date = ''Thu, 01 Jan 1970 00:00:00 GMT''\<rparr>"

definition range_example :: http_response where
  "range_example = res_set_file_range 2 3 (res_file (\<lambda>p. Some 6) ''f'' ''video/mp4'' response_init)"

definition calls_example :: "(int \<times> io list) list" where
  "calls_example = replicate 120 (0, [Moved 3])"

lemma range_example_simps:
  "rs_file_offset range_example = 2" "rs_file_length range_example = 3" "rs_is_file range_example"
  "res_file_path range_example = ''f''" "\<not> rs_head_only range_example"
  by (simp_all add: range_example_def res_file_def res_header_def Let_def res_file_path_def response_init_def
      res_set_file_range_def)

lemma response_on_the_wire_witness:
  "\<exists>rest. response_bytes os_example range_example =
     fst (write_calls os_example calls_example (set_response_content os_example range_example (connection_init 0 5))) @ rest"
proof -
  obtain w c' where w: "write_calls os_example calls_example
      (set_response_content os_example range_example (connection_init 0 5)) = (w, c')"
    by (metis prod.exhaust)
  have "0 \<le> rs_file_offset range_example" by (simp add: range_example_simps)
  from response_on_the_wire [OF this w] w show ?thesis by auto
qed

lemma response_delivered_example:
  "fst (write_calls os_example calls_example
     (set_response_content os_example range_example (connection_init 0 5))) =
   response_bytes os_example range_example"
proof -
  let ?c = "connection_init 0 5"
  have "rs_status range_example = OK"
    by (simp add: range_example_def res_file_def res_header_def Let_def response_init_def res_set_file_range_def)
  moreover have "dec 200 = ''200''" by code_simp
  ultimately have "length (response_bytes os_example range_example) \<le> length calls_example"
    by (simp add: response_bytes_def range_example_simps Let_def os_example_def build_headers_string_def
        header_lines_def calls_example_def file_length_sent_def)
  moreover have "file_whole os_example (set_response_content os_example range_example ?c)"
    by (simp add: file_whole_def set_response_content_def range_example_simps Let_def os_example_def)
  moreover have "0 \<le> rs_file_offset range_example" by (simp add: range_example_simps)
  moreover have "0 \<le> cn_socket_fd ?c" by (simp add: connection_init_def)
  moreover have "\<forall>(now, ios) \<in> set calls_example. eager ios" by (simp add: calls_example_def willing_def)
  ultimately show ?thesis
    using response_delivered [of range_example ?c os_example calls_example] by auto
qed

definition client_example :: client_request where
  "client_example = \<lparr>cr_method = GET, cr_target = ''/a'', cr_version = ''HTTP/1.1'', cr_headers = [],
     cr_body = ''hi''\<rparr>"

lemma client_example_ok: "client_ok client_example"
  using dec_2
  by (simp add: client_ok_def client_example_def client_headers_def well_formed_head_def
      valid_header_def request_head_def render_headers_def isspace_def MAX_HEADER_BYTES_def MAX_BODY_BYTES_def)

lemma pipelined_requests_example:
  "fst (take_requests 2 ((connection_init 0 5)
     \<lparr>cn_read_buffer := client_bytes client_example @ client_bytes client_example @ ''GE''\<rparr>)) =
   [client_value client_example, client_value client_example]"
  using pipelined_requests [of "[client_example, client_example]"
      "(connection_init 0 5)\<lparr>cn_read_buffer := client_bytes client_example @ client_bytes client_example @ ''GE''\<rparr>"
      "''GE''"] client_example_ok
  by (auto simp: numeral_2_eq_2 simp del: take_requests.simps)

end
