(* ===== verification/Metrics.thy ===== *)
theory Metrics
  imports Complex_Main Prelude "HOL-Library.Word"
begin

text \<open>
  \<open>Metrics\<close> (\<open>include/oreshnek/server/Metrics.h\<close>, \<open>src/server/Metrics.cpp\<close>): the counters are
  64-bit words (\<open>fetch_add\<close> wraps), the two gauges are \<open>int64_t\<close> words read with \<open>sint\<close>, the
  durations exact numbers. An atomic update is one step.
\<close>

type_synonym counter = "64 word"

record metrics =
  mt_requests_total :: counter
  mt_responses_2xx :: counter
  mt_responses_3xx :: counter
  mt_responses_4xx :: counter
  mt_responses_5xx :: counter
  mt_connections_accepted :: counter
  mt_connections_active :: counter
  mt_rate_limited_total :: counter
  mt_handler_timeouts_total :: counter
  mt_load_shed_total :: counter
  mt_workers_in_flight :: counter
  mt_duration_buckets :: "counter list"
  mt_duration_count :: counter
  mt_duration_sum :: rat

definition kBuckets :: "rat list" where
  "kBuckets = [5 / 10000, 1 / 1000, 5 / 1000, 1 / 100, 5 / 100, 1 / 10, 1 / 2, 1, 5]"

definition metrics_init :: metrics where
  "metrics_init =
     \<lparr>mt_requests_total = 0, mt_responses_2xx = 0, mt_responses_3xx = 0, mt_responses_4xx = 0,
      mt_responses_5xx = 0, mt_connections_accepted = 0, mt_connections_active = 0,
      mt_rate_limited_total = 0, mt_handler_timeouts_total = 0, mt_load_shed_total = 0,
      mt_workers_in_flight = 0, mt_duration_buckets = replicate (length kBuckets) 0,
      mt_duration_count = 0, mt_duration_sum = 0\<rparr>"

definition record_status :: "nat \<Rightarrow> metrics \<Rightarrow> metrics" where
  "record_status code m =
     (if 200 \<le> code \<and> code < 300 then m\<lparr>mt_responses_2xx := mt_responses_2xx m + 1\<rparr>
      else if 300 \<le> code \<and> code < 400 then m\<lparr>mt_responses_3xx := mt_responses_3xx m + 1\<rparr>
      else if 400 \<le> code \<and> code < 500 then m\<lparr>mt_responses_4xx := mt_responses_4xx m + 1\<rparr>
      else if 500 \<le> code then m\<lparr>mt_responses_5xx := mt_responses_5xx m + 1\<rparr>
      else m)"

definition observe_duration :: "rat \<Rightarrow> metrics \<Rightarrow> metrics" where
  "observe_duration seconds m =
     m\<lparr>mt_duration_buckets :=
         map (\<lambda>(bound, n). if seconds \<le> bound then n + 1 else n) (zip kBuckets (mt_duration_buckets m)),
       mt_duration_count := mt_duration_count m + 1,
       mt_duration_sum := mt_duration_sum m + seconds\<rparr>"

text \<open>The text format; \<open>num\<close> prints a number as \<open>operator<<\<close> prints a \<open>double\<close>.\<close>

definition sdec :: "counter \<Rightarrow> string" where
  "sdec w = (if sint w < 0 then ''-'' @ dec (nat (- sint w)) else dec (nat (sint w)))"

definition counter_lines :: "string \<Rightarrow> string \<Rightarrow> counter \<Rightarrow> string" where
  "counter_lines name help v =
     ''# HELP '' @ name @ '' '' @ help @ [LF] @ ''# TYPE '' @ name @ '' counter'' @ [LF] @
     name @ '' '' @ dec (unat v) @ [LF]"

definition class_line :: "string \<Rightarrow> counter \<Rightarrow> string" where
  "class_line cls v =
     ''oreshnek_responses_total{class='' @ [DQ] @ cls @ [DQ] @ ''} '' @ dec (unat v) @ [LF]"

definition bucket_line :: "string \<Rightarrow> counter \<Rightarrow> string" where
  "bucket_line le n =
     ''oreshnek_request_duration_seconds_bucket{le='' @ [DQ] @ le @ [DQ] @ ''} '' @ dec (unat n) @ [LF]"

definition metrics_render :: "(rat \<Rightarrow> string) \<Rightarrow> metrics \<Rightarrow> string" where
  "metrics_render num m =
     counter_lines ''oreshnek_requests_total'' ''Total HTTP requests received.'' (mt_requests_total m) @
     ''# HELP oreshnek_responses_total HTTP responses by status class.'' @ [LF] @
     ''# TYPE oreshnek_responses_total counter'' @ [LF] @
     class_line ''2xx'' (mt_responses_2xx m) @ class_line ''3xx'' (mt_responses_3xx m) @
     class_line ''4xx'' (mt_responses_4xx m) @ class_line ''5xx'' (mt_responses_5xx m) @
     counter_lines ''oreshnek_connections_accepted_total'' ''Total accepted connections.''
       (mt_connections_accepted m) @
     counter_lines ''oreshnek_rate_limited_total'' ''Requests rejected by the rate limiter.''
       (mt_rate_limited_total m) @
     counter_lines ''oreshnek_handler_timeouts_total'' ''Requests aborted by the handler timeout.''
       (mt_handler_timeouts_total m) @
     counter_lines ''oreshnek_load_shed_total''
       ''Requests rejected with 503 due to the in-flight handler cap.'' (mt_load_shed_total m) @
     ''# HELP oreshnek_connections_active Currently open connections.'' @ [LF] @
     ''# TYPE oreshnek_connections_active gauge'' @ [LF] @
     ''oreshnek_connections_active '' @ sdec (mt_connections_active m) @ [LF] @
     ''# HELP oreshnek_workers_in_flight Handlers dispatched to a worker and not yet completed.'' @ [LF] @
     ''# TYPE oreshnek_workers_in_flight gauge'' @ [LF] @
     ''oreshnek_workers_in_flight '' @ sdec (mt_workers_in_flight m) @ [LF] @
     ''# HELP oreshnek_request_duration_seconds Request processing duration.'' @ [LF] @
     ''# TYPE oreshnek_request_duration_seconds histogram'' @ [LF] @
     concat (map (\<lambda>(bound, n). bucket_line (num bound) n) (zip kBuckets (mt_duration_buckets m))) @
     bucket_line ''+Inf'' (mt_duration_count m) @
     ''oreshnek_request_duration_seconds_sum '' @ num (mt_duration_sum m) @ [LF] @
     ''oreshnek_request_duration_seconds_count '' @ dec (unat (mt_duration_count m)) @ [LF]"

section \<open>What the counters count\<close>

definition responses_total :: "metrics \<Rightarrow> counter" where
  "responses_total m =
     mt_responses_2xx m + mt_responses_3xx m + mt_responses_4xx m + mt_responses_5xx m"

lemma record_status_total: "200 \<le> code \<Longrightarrow> responses_total (record_status code m) = responses_total m + 1"
  by (simp add: record_status_def responses_total_def)

lemma record_status_informational: "\<not> 200 \<le> code \<Longrightarrow> record_status code m = m"
  by (simp add: record_status_def)

lemma record_status_keeps [simp]:
  "mt_requests_total (record_status code m) = mt_requests_total m"
  "mt_connections_active (record_status code m) = mt_connections_active m"
  "mt_connections_accepted (record_status code m) = mt_connections_accepted m"
  "mt_workers_in_flight (record_status code m) = mt_workers_in_flight m"
  "mt_rate_limited_total (record_status code m) = mt_rate_limited_total m"
  "mt_load_shed_total (record_status code m) = mt_load_shed_total m"
  "mt_handler_timeouts_total (record_status code m) = mt_handler_timeouts_total m"
  by (simp_all add: record_status_def)

lemma observe_duration_keeps [simp]:
  "mt_requests_total (observe_duration d m) = mt_requests_total m"
  "mt_connections_active (observe_duration d m) = mt_connections_active m"
  "mt_connections_accepted (observe_duration d m) = mt_connections_accepted m"
  "mt_workers_in_flight (observe_duration d m) = mt_workers_in_flight m"
  "mt_rate_limited_total (observe_duration d m) = mt_rate_limited_total m"
  "mt_load_shed_total (observe_duration d m) = mt_load_shed_total m"
  "mt_handler_timeouts_total (observe_duration d m) = mt_handler_timeouts_total m"
  "responses_total (observe_duration d m) = responses_total m"
  by (simp_all add: observe_duration_def responses_total_def)

definition histogram_of :: "rat list \<Rightarrow> metrics \<Rightarrow> bool" where
  "histogram_of ds m \<longleftrightarrow>
     mt_duration_buckets m = map (\<lambda>b. of_nat (length (filter (\<lambda>d. d \<le> b) ds))) kBuckets \<and>
     mt_duration_count m = of_nat (length ds) \<and> mt_duration_sum m = sum_list ds"

lemma histogram_init: "histogram_of [] metrics_init"
  by (simp add: histogram_of_def metrics_init_def kBuckets_def)

lemma histogram_observe: "histogram_of ds m \<Longrightarrow> histogram_of (d # ds) (observe_duration d m)"
  by (simp add: histogram_of_def observe_duration_def zip_map2 zip_same_conv_map add.commute)

text \<open>
  Every bucket holds the number of the durations up to its bound, modulo the width of the counter,
  so the buckets are cumulative and bounded by the count.
\<close>

lemma histogram_fold: "histogram_of (rev ds) (fold observe_duration ds metrics_init)"
proof -
  have "histogram_of es m \<Longrightarrow> histogram_of (rev ds @ es) (fold observe_duration ds m)" for es m
    by (induction ds arbitrary: es m) (auto simp: histogram_observe)
  from this [OF histogram_init] show ?thesis by simp
qed

end
