(* ===== verification/Worker.thy ===== *)
theory Worker
  imports Middleware Response_Semantics Router
begin

text \<open>
  The task \<open>Server::dispatch_next\<close> hands to the thread pool (\<open>src/server/Server.cpp\<close>): the
  middleware chain, the route lookup with the fallback of HEAD to GET, the handler, compression and
  the response semantics. Handlers are functions of the request and the response; an exception
  that is no \<open>std::exception\<close> escapes the task, and no response is queued then.
\<close>

datatype handled = Handled http_response | Threw http_response | Escaped

type_synonym handler = "http_request \<Rightarrow> http_response \<Rightarrow> handled"

record app =
  ap_router :: "handler node"
  ap_middlewares :: "middleware list"
  ap_compression :: "(nat \<times> bool) option"
  ap_compressors :: compressors
  ap_files :: file_sys
  ap_error_json :: "string \<Rightarrow> string"

definition error_response :: "app \<Rightarrow> HttpStatus \<Rightarrow> string \<Rightarrow> http_response \<Rightarrow> http_response" where
  "error_response app status msg res = res_json (ap_error_json app msg) (res_status status res)"

text \<open>HEAD reuses the GET handler. \<open>None\<close> is undefined behaviour in the router.\<close>

definition find_handler :: "app \<Rightarrow> http_request \<Rightarrow> (handler option \<times> params) defined" where
  "find_handler app req =
     (case find_route (ap_router app) (rq_method req) (rq_path req) Map.empty of
        None \<Rightarrow> None
      | Some (Some h, ps) \<Rightarrow> Some (Some h, ps)
      | Some (None, ps) \<Rightarrow>
          if rq_method req = HEAD then find_route (ap_router app) GET (rq_path req) ps
          else Some (None, ps))"

definition finish_response :: "app \<Rightarrow> http_request \<Rightarrow> http_response \<Rightarrow> http_response" where
  "finish_response app req res =
     apply_http_semantics (ap_files app) req
       (case ap_compression app of
          None \<Rightarrow> res
        | Some (min_bytes, brotli) \<Rightarrow> maybe_compress (ap_compressors app) min_bytes brotli req res)"

text \<open>The response that is queued, if any.\<close>

definition handle_request :: "app \<Rightarrow> http_request \<Rightarrow> http_response option defined" where
  "handle_request app req =
     (case run_chain (ap_error_json app) (ap_middlewares app) req response_init of
        (proceed, res) \<Rightarrow>
          if \<not> proceed then Some (Some (finish_response app req res))
          else (case find_handler app req of
              None \<Rightarrow> None
            | Some (Some h, ps) \<Rightarrow>
                let req' = req\<lparr>rq_path_params := ps\<rparr> in
                (case h req' res of
                   Handled res' \<Rightarrow> Some (Some (finish_response app req' res'))
                 | Threw res' \<Rightarrow>
                     Some (Some (finish_response app req'
                       (error_response app INTERNAL_SERVER_ERROR ''Server error'' res')))
                 | Escaped \<Rightarrow> Some None)
            | Some (None, _) \<Rightarrow>
                Some (Some (finish_response app req
                  (error_response app NOT_FOUND ''Not Found'' res)))))"

section \<open>HEAD and GET\<close>

lemma header_method [simp]: "header (req\<lparr>rq_method := m\<rparr>) n = header req n"
  by (simp add: header_def)

lemma maybe_compress_method:
  "maybe_compress cp n br (req\<lparr>rq_method := m\<rparr>) res = maybe_compress cp n br req res"
  unfolding maybe_compress_def header_method by (rule refl)

lemma not_modified_method: "not_modified fs e t (req\<lparr>rq_method := m\<rparr>) = not_modified fs e t req"
  unfolding not_modified_def header_method by (rule refl)

lemma head_only_commute:
  "res_header n v (res_set_head_only b r) = res_set_head_only b (res_header n v r)"
  "res_status s (res_set_head_only b r) = res_set_head_only b (res_status s r)"
  "res_set_file_range off len (res_set_head_only b r) = res_set_head_only b (res_set_file_range off len r)"
  "res_set_head_only b (res_set_head_only b' r) = res_set_head_only b r"
  by (simp_all add: response_setters)

lemma apply_http_semantics_head:
  "apply_http_semantics fs (req\<lparr>rq_method := HEAD\<rparr>) res =
     res_set_head_only True (apply_http_semantics fs (req\<lparr>rq_method := GET\<rparr>) res)"
  by (auto simp: apply_http_semantics_def range_reply_def Let_def not_modified_method head_only_commute
      split: option.split byte_range.split)

lemma finish_response_head:
  "finish_response app (req\<lparr>rq_method := HEAD\<rparr>) res =
     res_set_head_only True (finish_response app (req\<lparr>rq_method := GET\<rparr>) res)"
  by (simp add: finish_response_def maybe_compress_method apply_http_semantics_head
      split: option.split)

lemma run_chain_method:
  "\<forall>mw \<in> set mws. \<forall>r. mw (req\<lparr>rq_method := HEAD\<rparr>) r = mw (req\<lparr>rq_method := GET\<rparr>) r \<Longrightarrow>
     run_chain ej mws (req\<lparr>rq_method := HEAD\<rparr>) res = run_chain ej mws (req\<lparr>rq_method := GET\<rparr>) res"
  by (induction mws arbitrary: res) (auto split: verdict.split)

text \<open>
  A HEAD request for a path without a HEAD route is answered like the GET request: the same
  status, headers and body, with the body suppressed when it is sent.
\<close>

lemma head_like_get:
  assumes "find_route (ap_router app) HEAD (rq_path req) Map.empty = Some (None, Map.empty)"
    "\<forall>mw \<in> set (ap_middlewares app). \<forall>r. mw (req\<lparr>rq_method := HEAD\<rparr>) r = mw (req\<lparr>rq_method := GET\<rparr>) r"
    "\<forall>h ps res. find_route (ap_router app) GET (rq_path req) Map.empty = Some (Some h, ps) \<longrightarrow>
       h (req\<lparr>rq_method := HEAD, rq_path_params := ps\<rparr>) res = h (req\<lparr>rq_method := GET, rq_path_params := ps\<rparr>) res"
    "handle_request app (req\<lparr>rq_method := GET\<rparr>) = Some (Some res)"
  shows "handle_request app (req\<lparr>rq_method := HEAD\<rparr>) = Some (Some (res_set_head_only True res))"
proof -
  let ?H = "req\<lparr>rq_method := HEAD\<rparr>" and ?G = "req\<lparr>rq_method := GET\<rparr>"
  have fin: "finish_response app (req\<lparr>rq_method := HEAD, rq_path_params := ps\<rparr>) r =
      res_set_head_only True (finish_response app (req\<lparr>rq_method := GET, rq_path_params := ps\<rparr>) r)" for ps r
  proof -
    have "req\<lparr>rq_method := m, rq_path_params := ps\<rparr> = req\<lparr>rq_path_params := ps, rq_method := m\<rparr>" for m by simp
    then show ?thesis by (simp only: finish_response_head)
  qed
  have find: "find_handler app ?H = find_handler app ?G"
    using assms(1) by (simp add: find_handler_def split: option.split)
  obtain proceed r where chain: "run_chain (ap_error_json app) (ap_middlewares app) ?G response_init = (proceed, r)"
    by (metis prod.exhaust)
  then have chainH: "run_chain (ap_error_json app) (ap_middlewares app) ?H response_init = (proceed, r)"
    using run_chain_method [OF assms(2)] by simp
  show ?thesis
  proof (cases proceed)
    case False
    then show ?thesis
      using assms(4) chain chainH by (auto simp: handle_request_def finish_response_head)
  next
    case True
    then obtain oh ps where f: "find_handler app ?G = Some (oh, ps)"
      using assms(4) chain by (auto simp: handle_request_def split: option.splits)
    show ?thesis
    proof (cases oh)
      case None
      then show ?thesis
        using assms(4) chain chainH f find True by (auto simp: handle_request_def finish_response_head)
    next
      case (Some h)
      then have "find_route (ap_router app) GET (rq_path req) Map.empty = Some (Some h, ps)"
        using f by (auto simp: find_handler_def split: option.splits)
      with assms(3) have "h (req\<lparr>rq_method := HEAD, rq_path_params := ps\<rparr>) r = h (req\<lparr>rq_method := GET, rq_path_params := ps\<rparr>) r"
        by blast
      then show ?thesis
        using assms(4) chain chainH f find True Some
        by (auto simp: handle_request_def fin Let_def split: handled.splits)
    qed
  qed
qed

text \<open>What each outcome of the chain and the lookup turns into, before the semantics are applied.\<close>

lemma handle_request_cases:
  assumes "run_chain (ap_error_json app) (ap_middlewares app) req response_init = (proceed, res)"
  shows "\<not> proceed \<Longrightarrow> handle_request app req = Some (Some (finish_response app req res))"
    "proceed \<Longrightarrow> find_handler app req = Some (None, ps) \<Longrightarrow>
       handle_request app req =
         Some (Some (finish_response app req (error_response app NOT_FOUND ''Not Found'' res)))"
    "proceed \<Longrightarrow> find_handler app req = Some (Some h, ps) \<Longrightarrow> h (req\<lparr>rq_path_params := ps\<rparr>) res = Handled res' \<Longrightarrow>
       handle_request app req = Some (Some (finish_response app (req\<lparr>rq_path_params := ps\<rparr>) res'))"
    "proceed \<Longrightarrow> find_handler app req = Some (Some h, ps) \<Longrightarrow> h (req\<lparr>rq_path_params := ps\<rparr>) res = Threw res' \<Longrightarrow>
       handle_request app req = Some (Some (finish_response app (req\<lparr>rq_path_params := ps\<rparr>)
         (error_response app INTERNAL_SERVER_ERROR ''Server error'' res')))"
  using assms by (simp_all add: handle_request_def Let_def)

section \<open>Framing\<close>

lemma semantics_text: "\<not> rs_is_file res \<Longrightarrow>
    apply_http_semantics fs req res = (if rq_method req = HEAD then res_set_head_only True res else res)"
  by (simp add: apply_http_semantics_def Let_def)

lemma finish_keeps_length:
  assumes "rs_body_content res = Text body" "\<not> rs_is_file res" "length_declared res"
  shows "length_declared (finish_response app req res)"
proof -
  have c: "length_declared (maybe_compress cp n br req res) \<and> \<not> rs_is_file (maybe_compress cp n br req res)" for cp n br
    using assms by (auto simp: maybe_compress_def Let_def length_declared_def split: option.split)
  have h: "length_declared (res_set_head_only True r) = length_declared r" for r
    by (simp add: length_declared_def)
  show ?thesis
    using c assms(2,3) by (auto simp: finish_response_def semantics_text h split: option.split)
qed

end
