(* ===== verification/Server.thy ===== *)
theory Server
  imports Connection Worker Rate_Limiter Metrics
begin

text \<open>
  \<open>Server\<close> (\<open>include/oreshnek/server/Server.h\<close>, \<open>src/server/Server.cpp\<close>): the event loop.
  A connection object is an identity (\<open>shared_ptr\<close>) in the store \<open>sv_heap\<close>: the map of the live
  connections, the tasks of the workers and the queue of their results refer to the same object,
  and a descriptor that is closed and given out again belongs to another one. \<open>sv_armed\<close> is the
  interest the one-shot multiplexer holds for a descriptor (\<^term>\<open>True\<close> for reading), \<open>sv_wire\<close>
  what was written to each connection, \<open>sv_closed\<close> the calls of \<open>close\<close> on client sockets. The
  answers of the system to one event are the record \<open>env\<close>. Times are nanoseconds of the steady
  clock.
\<close>

section \<open>State\<close>

record settings =
  st_read_timeout_sec :: int
  st_write_timeout_sec :: int
  st_idle_timeout_sec :: int
  st_shutdown_grace_sec :: int
  st_handler_timeout_sec :: int
  st_max_concurrent_handlers :: int

definition settings_default :: settings where
  "settings_default = \<lparr>st_read_timeout_sec = 30, st_write_timeout_sec = 30, st_idle_timeout_sec = 60,
     st_shutdown_grace_sec = 10, st_handler_timeout_sec = 30, st_max_concurrent_handlers = 0\<rparr>"

text \<open>The closure of a worker task, and \<open>CompletedResponse\<close>.\<close>

record task =
  tk_fd :: int
  tk_conn :: nat
  tk_request :: http_request
  tk_start :: int

record completed_response =
  cm_fd :: int
  cm_conn :: nat
  cm_response :: http_response

record server =
  sv_settings :: settings
  sv_running :: bool
  sv_stop_requested :: bool
  sv_draining :: bool
  sv_drain_deadline :: int
  sv_last_cleanup :: int
  sv_listening :: bool
  sv_tls :: bool
  sv_limiter :: "limiter option"
  sv_metrics :: metrics
  sv_conns :: "int \<rightharpoonup> nat"
  sv_heap :: "nat \<Rightarrow> connection"
  sv_next :: nat
  sv_armed :: "int \<rightharpoonup> bool"
  sv_tasks :: "task list"
  sv_completed :: "completed_response list"
  sv_wire :: "nat \<Rightarrow> string"
  sv_closed :: "int list"

text \<open>
  The answers of the system while one event is handled: \<open>en_rearm\<close> whether \<open>epoll_ctl\<close> succeeds,
  \<open>en_fds\<close> the iteration order of \<open>connections_\<close>, \<open>en_best_effort\<close> how many bytes a last
  \<open>send\<close> takes.
\<close>

record env =
  en_now :: int
  en_os :: os
  en_accept :: tls_accept
  en_recv :: "recv list"
  en_io :: "io list"
  en_rearm :: "int \<Rightarrow> bool"
  en_fds :: "int list"
  en_best_effort :: "int \<Rightarrow> nat"

definition server_init :: "settings \<Rightarrow> bool \<Rightarrow> limiter option \<Rightarrow> int \<Rightarrow> server" where
  "server_init settings tls limiter0 now =
     \<lparr>sv_settings = settings, sv_running = True, sv_stop_requested = False, sv_draining = False,
      sv_drain_deadline = 0, sv_last_cleanup = now, sv_listening = True, sv_tls = tls,
      sv_limiter = limiter0, sv_metrics = metrics_init, sv_conns = Map.empty,
      sv_heap = (\<lambda>_. connection_init 0 (-1)), sv_next = 0, sv_armed = Map.empty, sv_tasks = [],
      sv_completed = [], sv_wire = (\<lambda>_. []), sv_closed = []\<rparr>"

abbreviation conn_of :: "server \<Rightarrow> nat \<Rightarrow> connection" where
  "conn_of s i \<equiv> sv_heap s i"

definition set_conn :: "nat \<Rightarrow> connection \<Rightarrow> server \<Rightarrow> server" where
  "set_conn i c s = s\<lparr>sv_heap := (sv_heap s)(i := c)\<rparr>"

definition put_wire :: "nat \<Rightarrow> string \<Rightarrow> server \<Rightarrow> server" where
  "put_wire i w s = s\<lparr>sv_wire := (sv_wire s)(i := sv_wire s i @ w)\<rparr>"

definition count :: "(metrics \<Rightarrow> metrics) \<Rightarrow> server \<Rightarrow> server" where
  "count f s = s\<lparr>sv_metrics := f (sv_metrics s)\<rparr>"

text \<open>\<open>duration_cast<seconds>\<close> truncates toward zero.\<close>

definition nanos :: int where "nanos = 1000000000"

definition cast_seconds :: "int \<Rightarrow> int" where
  "cast_seconds d = (if 0 \<le> d then d div nanos else - ((- d) div nanos))"

section \<open>Closing and re-arming\<close>

definition close_connection :: "int \<Rightarrow> server \<Rightarrow> server" where
  "close_connection fd s =
     (let s1 = s\<lparr>sv_armed := (sv_armed s)(fd := None)\<rparr> in
      case sv_conns s1 fd of
        None \<Rightarrow> s1
      | Some i \<Rightarrow>
          let s2 = count (\<lambda>m. m\<lparr>mt_connections_active := mt_connections_active m - 1\<rparr>)
                     (s1\<lparr>sv_conns := (sv_conns s1)(fd := None)\<rparr>);
              s3 = (if is_open (conn_of s2 i)
                    then s2\<lparr>sv_closed := sv_closed s2 @ [cn_socket_fd (conn_of s2 i)]\<rparr> else s2)
          in set_conn i (connection_close (conn_of s2 i)) s3)"

definition rearm :: "env \<Rightarrow> int \<Rightarrow> bool \<Rightarrow> server \<Rightarrow> server" where
  "rearm env fd for_read s =
     (if en_rearm env fd then s\<lparr>sv_armed := (sv_armed s)(fd \<mapsto> for_read)\<rparr>
      else close_connection fd s)"

section \<open>Dispatching\<close>

definition busy_response :: "app \<Rightarrow> HttpStatus \<Rightarrow> string \<Rightarrow> http_response" where
  "busy_response app status msg =
     res_header ''Retry-After'' ''1'' (error_response app status msg response_init)"

text \<open>A request answered in the event loop: 429 and 503.\<close>

definition answer_now ::
  "env \<Rightarrow> app \<Rightarrow> HttpStatus \<Rightarrow> string \<Rightarrow> (metrics \<Rightarrow> metrics) \<Rightarrow> nat \<Rightarrow> int \<Rightarrow> nat \<Rightarrow> server \<Rightarrow> server" where
  "answer_now env app status msg f consumed fd i s =
     (let c = (consume consumed (conn_of s i))\<lparr>cn_processing := True\<rparr>;
          s1 = count (record_status (status_code status) \<circ> f) s
      in rearm env fd False
           (set_conn i (set_response_content (en_os env) (busy_response app status msg) c) s1))"

definition rate_allowed :: "env \<Rightarrow> connection \<Rightarrow> server \<Rightarrow> bool \<times> server" where
  "rate_allowed env c s =
     (case sv_limiter s of
        None \<Rightarrow> (True, s)
      | Some l \<Rightarrow>
          (case allow (rat_of_int (en_now env) / rat_of_int nanos) (cn_client_ip c) l of
             (ok, l') \<Rightarrow> (ok, s\<lparr>sv_limiter := Some l'\<rparr>)))"

definition at_capacity :: "server \<Rightarrow> bool" where
  "at_capacity s \<longleftrightarrow>
     0 < st_max_concurrent_handlers (sv_settings s) \<and>
     st_max_concurrent_handlers (sv_settings s) \<le> sint (mt_workers_in_flight (sv_metrics s))"

definition dispatch_next :: "env \<Rightarrow> app \<Rightarrow> int \<Rightarrow> nat \<Rightarrow> server \<Rightarrow> server defined" where
  "dispatch_next env app fd i s =
     (if cn_processing (conn_of s i) then Some s
      else
        (case parse_next (conn_of s i) of
           None \<Rightarrow> None
         | Some (got_one, consumed, c) \<Rightarrow>
             let s1 = set_conn i c s in
             if got_one then
               (let s2 = count (\<lambda>m. m\<lparr>mt_requests_total := mt_requests_total m + 1\<rparr>) s1 in
                case rate_allowed env c s2 of
                  (ok, s3) \<Rightarrow>
                    if \<not> ok then
                      Some (answer_now env app TOO_MANY_REQUESTS ''Too Many Requests''
                        (\<lambda>m. m\<lparr>mt_rate_limited_total := mt_rate_limited_total m + 1\<rparr>) consumed fd i s3)
                    else if at_capacity s3 then
                      Some (answer_now env app SERVICE_UNAVAILABLE ''Service Unavailable''
                        (\<lambda>m. m\<lparr>mt_load_shed_total := mt_load_shed_total m + 1\<rparr>) consumed fd i s3)
                    else
                      let c' = (consume consumed c)
                             \<lparr>cn_processing := True, cn_worker_in_flight := True,
                              cn_processing_since := en_now env\<rparr>;
                          s4 = count (\<lambda>m. m\<lparr>mt_workers_in_flight := mt_workers_in_flight m + 1\<rparr>)
                                 (set_conn i c' s3)
                      in Some (s4\<lparr>sv_tasks := sv_tasks s4 @
                           [\<lparr>tk_fd = fd, tk_conn = i, tk_request = cn_current_request c,
                             tk_start = en_now env\<rparr>]\<rparr>))
             else if parser_failed c then Some (close_connection fd s1)
             else
               (case maybe_send_100_continue c of
                  (w, c') \<Rightarrow>
                    Some (rearm env fd (\<not> (cn_ssl c' \<and> cn_tls_want c' = WantWrite))
                      (put_wire i w (set_conn i c' s1))))))"

section \<open>Events of a connection\<close>

definition drive_tls_handshake :: "env \<Rightarrow> int \<Rightarrow> nat \<Rightarrow> server \<Rightarrow> bool \<times> server" where
  "drive_tls_handshake env fd i s =
     (case continue_tls_handshake (en_now env) (en_accept env) (conn_of s i) of
        (r, c) \<Rightarrow>
          let s1 = set_conn i c s in
          if r = 1 then (True, s1)
          else if r = 0 then (False, rearm env fd (cn_tls_want c = WantRead) s1)
          else (False, close_connection fd s1))"

definition needs_handshake :: "connection \<Rightarrow> bool" where
  "needs_handshake c \<longleftrightarrow> cn_ssl c \<and> \<not> cn_tls_handshake_done c"

definition handle_client_data :: "env \<Rightarrow> app \<Rightarrow> int \<Rightarrow> server \<Rightarrow> server defined" where
  "handle_client_data env app fd s =
     (case sv_conns s fd of
        None \<Rightarrow> Some s
      | Some i \<Rightarrow>
          if \<not> is_open (conn_of s i) then Some (close_connection fd s)
          else
            (case (if needs_handshake (conn_of s i) then drive_tls_handshake env fd i s else (True, s)) of
               (proceed, s1) \<Rightarrow>
                 if \<not> proceed then Some s1
                 else
                   (case read_data (en_now env) (en_recv env) (conn_of s1 i) of
                      (n, c) \<Rightarrow>
                        if n = 0 \<or> n = -1 then Some (close_connection fd (set_conn i c s1))
                        else dispatch_next env app fd i (set_conn i c s1))))"

definition handle_write_ready :: "env \<Rightarrow> app \<Rightarrow> int \<Rightarrow> server \<Rightarrow> server defined" where
  "handle_write_ready env app fd s =
     (case sv_conns s fd of
        None \<Rightarrow> Some s
      | Some i \<Rightarrow>
          if \<not> is_open (conn_of s i) then Some (close_connection fd s)
          else if needs_handshake (conn_of s i) then
            (case drive_tls_handshake env fd i s of
               (proceed, s1) \<Rightarrow> Some (if proceed then rearm env fd True s1 else s1))
          else
            (case write_data (en_os env) (en_now env) (en_io env) (conn_of s i) of
               (n, w, c) \<Rightarrow>
                 let s1 = put_wire i w (set_conn i c s) in
                 if n < 0 then Some (close_connection fd s1)
                 else if has_data_to_write c then Some (rearm env fd False s1)
                 else if \<not> cn_keep_alive c \<or> sv_draining s1 then Some (close_connection fd s1)
                 else dispatch_next env app fd i
                        (set_conn i
                          (update_activity (en_now env) ((clear_response_state c)\<lparr>cn_processing := False\<rparr>))
                          s1)))"

section \<open>Workers and their results\<close>

text \<open>
  The task at position \<open>k\<close> runs to its end; it decrements the gauge and, unless an exception
  escapes it, queues its response.
\<close>

definition run_task :: "env \<Rightarrow> app \<Rightarrow> nat \<Rightarrow> server \<Rightarrow> server defined" where
  "run_task env app k s =
     (let t = sv_tasks s ! k;
          s1 = count (\<lambda>m. m\<lparr>mt_workers_in_flight := mt_workers_in_flight m - 1\<rparr>)
                 (s\<lparr>sv_tasks := take k (sv_tasks s) @ drop (Suc k) (sv_tasks s)\<rparr>)
      in case handle_request app (tk_request t) of
           None \<Rightarrow> None
         | Some None \<Rightarrow> Some s1
         | Some (Some res) \<Rightarrow>
             let s2 = count (observe_duration (rat_of_int (en_now env - tk_start t) / rat_of_int nanos) \<circ>
                        record_status (status_code (rs_status res))) s1
             in Some (s2\<lparr>sv_completed := sv_completed s2 @
                  [\<lparr>cm_fd = tk_fd t, cm_conn = tk_conn t, cm_response = res\<rparr>]\<rparr>))"

definition complete_one :: "env \<Rightarrow> completed_response \<Rightarrow> server \<Rightarrow> server" where
  "complete_one env item s =
     (let i = cm_conn item in
      if sv_conns s (cm_fd item) \<noteq> Some i \<or> \<not> is_open (conn_of s i) then s
      else rearm env (cm_fd item) False
             (set_conn i
               (set_response_content (en_os env) (cm_response item)
                 ((conn_of s i)\<lparr>cn_worker_in_flight := False\<rparr>)) s))"

definition process_completions :: "env \<Rightarrow> server \<Rightarrow> server" where
  "process_completions env s = fold (complete_one env) (sv_completed s) (s\<lparr>sv_completed := []\<rparr>)"

section \<open>Accepting\<close>

text \<open>
  One result of \<open>accept\<close>, with the answers to the calls on it. \<open>close(client_fd)\<close> after a failed
  \<open>new_session\<close> is followed by the destructor of the \<open>Connection\<close>, which closes it again.
\<close>

record accepted =
  ac_fd :: int
  ac_ip :: string
  ac_nonblocking :: bool
  ac_added :: bool
  ac_session :: bool

definition accept_one :: "env \<Rightarrow> accepted \<Rightarrow> server \<Rightarrow> server" where
  "accept_one env a s =
     (if \<not> ac_nonblocking a \<or> \<not> ac_added a then s\<lparr>sv_closed := sv_closed s @ [ac_fd a]\<rparr>
      else if sv_tls s \<and> \<not> ac_session a then s\<lparr>sv_closed := sv_closed s @ [ac_fd a, ac_fd a]\<rparr>
      else
        let c = (connection_init (en_now env) (ac_fd a))
                  \<lparr>cn_client_ip := ac_ip a, cn_ssl := sv_tls s\<rparr>;
            s1 = count (\<lambda>m. m\<lparr>mt_connections_accepted := mt_connections_accepted m + 1,
                             mt_connections_active := mt_connections_active m + 1\<rparr>)
                   (set_conn (sv_next s) c s)
        in s1\<lparr>sv_conns := (sv_conns s1)(ac_fd a \<mapsto> sv_next s), sv_next := Suc (sv_next s),
              sv_armed := (sv_armed s1)(ac_fd a \<mapsto> True)\<rparr>)"

definition handle_new_connection :: "env \<Rightarrow> accepted list \<Rightarrow> server \<Rightarrow> server" where
  "handle_new_connection env acs s = fold (accept_one env) acs s"

definition stop_accepting :: "server \<Rightarrow> server" where
  "stop_accepting s = s\<lparr>sv_listening := False\<rparr>"

section \<open>Timeouts\<close>

definition send_minimal_response :: "env \<Rightarrow> int \<Rightarrow> string \<Rightarrow> server \<Rightarrow> server" where
  "send_minimal_response env fd bytes s =
     (case sv_conns s fd of
        None \<Rightarrow> s
      | Some i \<Rightarrow>
          if \<not> is_open (conn_of s i) \<or> needs_handshake (conn_of s i) then s
          else put_wire i (take (en_best_effort env fd) bytes) s)"

definition k408 :: string where
  "k408 = ''HTTP/1.1 408 Request Timeout'' @ crlf @ ''Connection: close'' @ crlf @
     ''Content-Length: 0'' @ crlf @ crlf"

definition k504 :: string where
  "k504 = ''HTTP/1.1 504 Gateway Timeout'' @ crlf @ ''Connection: close'' @ crlf @
     ''Content-Length: 0'' @ crlf @ crlf"

datatype timeout = NoTimeout | ReadTimeout | HandlerTimeout | PlainClose

definition timeout_of :: "settings \<Rightarrow> int \<Rightarrow> connection \<Rightarrow> timeout" where
  "timeout_of st now c =
     (if cn_worker_in_flight c then
        (if 0 < st_handler_timeout_sec st \<and>
            st_handler_timeout_sec st < cast_seconds (now - cn_processing_since c)
         then HandlerTimeout else NoTimeout)
      else
        let idle = cast_seconds (now - cn_last_activity c) in
        if has_data_to_write c then
          (if 0 < st_write_timeout_sec st \<and> st_write_timeout_sec st < idle then PlainClose else NoTimeout)
        else if cn_processing c then NoTimeout
        else if cn_read_buffer c \<noteq> [] then
          (if 0 < st_read_timeout_sec st \<and> st_read_timeout_sec st < idle then ReadTimeout else NoTimeout)
        else
          (if 0 < st_idle_timeout_sec st \<and> st_idle_timeout_sec st < idle then PlainClose else NoTimeout))"

text \<open>The file descriptors of one list, in the order of the iteration.\<close>

definition timed_out :: "env \<Rightarrow> timeout \<Rightarrow> server \<Rightarrow> int list" where
  "timed_out env k s =
     filter (\<lambda>fd. case sv_conns s fd of
         None \<Rightarrow> False
       | Some i \<Rightarrow> timeout_of (sv_settings s) (en_now env) (conn_of s i) = k) (en_fds env)"

definition read_timeout :: "env \<Rightarrow> int \<Rightarrow> server \<Rightarrow> server" where
  "read_timeout env fd s = close_connection fd (send_minimal_response env fd k408 s)"

definition handler_timeout :: "env \<Rightarrow> int \<Rightarrow> server \<Rightarrow> server" where
  "handler_timeout env fd s =
     close_connection fd (send_minimal_response env fd k504
       (count (record_status 504 \<circ> (\<lambda>m. m\<lparr>mt_handler_timeouts_total := mt_handler_timeouts_total m + 1\<rparr>)) s))"

definition enforce_timeouts :: "env \<Rightarrow> server \<Rightarrow> server" where
  "enforce_timeouts env s =
     (let s1 = fold (read_timeout env) (timed_out env ReadTimeout s) s;
          s2 = fold (handler_timeout env) (timed_out env HandlerTimeout s) s1;
          s3 = fold close_connection (timed_out env PlainClose s) s2
      in case sv_limiter s3 of
           None \<Rightarrow> s3
         | Some l \<Rightarrow> s3\<lparr>sv_limiter := Some (evict_idle (rat_of_int (en_now env) / rat_of_int nanos) l)\<rparr>)"

section \<open>The loop\<close>

definition request_stop :: "server \<Rightarrow> server" where
  "request_stop s = s\<lparr>sv_stop_requested := True\<rparr>"

definition work_in_flight :: "env \<Rightarrow> server \<Rightarrow> bool" where
  "work_in_flight env s \<longleftrightarrow>
     list_ex (\<lambda>fd. case sv_conns s fd of
         None \<Rightarrow> False
       | Some i \<Rightarrow> cn_processing (conn_of s i) \<or> has_data_to_write (conn_of s i)) (en_fds env)"

text \<open>What an iteration does behind its events.\<close>

definition loop_tail :: "env \<Rightarrow> server \<Rightarrow> server" where
  "loop_tail env s =
     (let s1 = (if \<not> sv_draining s \<and> sv_stop_requested s
                then (stop_accepting s)\<lparr>sv_draining := True,
                       sv_drain_deadline := en_now env + st_shutdown_grace_sec (sv_settings s) * nanos\<rparr>
                else s);
          s2 = (if sv_draining s1 \<or> 1 \<le> cast_seconds (en_now env - sv_last_cleanup s1)
                then (enforce_timeouts env s1)\<lparr>sv_last_cleanup := en_now env\<rparr> else s1)
      in if sv_draining s2 \<and> (\<not> work_in_flight env s2 \<or> sv_drain_deadline s2 \<le> en_now env)
         then s2\<lparr>sv_running := False\<rparr> else s2)"

text \<open>
  What \<open>run\<close> does behind its loop: \<open>connections_.clear()\<close> drops each entry, and the destructor of the
  \<open>Connection\<close> closes its socket unless a task or a waiting result still holds it; no gauge is
  changed. Then the multiplexer, with every interest, and the listening socket are closed.
\<close>

definition kept_alive :: "server \<Rightarrow> nat \<Rightarrow> bool" where
  "kept_alive s i \<longleftrightarrow> list_ex (\<lambda>t. tk_conn t = i) (sv_tasks s) \<or> list_ex (\<lambda>m. cm_conn m = i) (sv_completed s)"

definition drop_connection :: "int \<Rightarrow> server \<Rightarrow> server" where
  "drop_connection fd s =
     (case sv_conns s fd of
        None \<Rightarrow> s
      | Some i \<Rightarrow>
          let s1 = s\<lparr>sv_conns := (sv_conns s)(fd := None)\<rparr> in
          if kept_alive s1 i then s1
          else set_conn i (connection_close (conn_of s1 i))
            (if is_open (conn_of s1 i)
             then s1\<lparr>sv_closed := sv_closed s1 @ [cn_socket_fd (conn_of s1 i)]\<rparr> else s1))"

definition clear_connections :: "env \<Rightarrow> server \<Rightarrow> server" where
  "clear_connections env s = fold drop_connection (en_fds env) s"

definition loop_teardown :: "env \<Rightarrow> server \<Rightarrow> server" where
  "loop_teardown env s = (stop_accepting (clear_connections env s))\<lparr>sv_armed := Map.empty\<rparr>"

text \<open>A one-shot interest is gone when its event is delivered.\<close>

definition disarm :: "int \<Rightarrow> server \<Rightarrow> server" where
  "disarm fd s = s\<lparr>sv_armed := (sv_armed s)(fd := None)\<rparr>"

text \<open>
  The events in any order and any interleaving with the workers. New descriptors are those the
  kernel may hand out: not one of an open connection. An error of \<open>epoll_wait\<close> ends the loop.
\<close>

inductive step :: "app \<Rightarrow> server \<Rightarrow> server \<Rightarrow> bool" for app where
  step_accept:
    "sv_running s \<Longrightarrow> sv_listening s \<Longrightarrow> distinct (map ac_fd acs) \<Longrightarrow>
     \<forall>a \<in> set acs. 0 \<le> ac_fd a \<and> sv_conns s (ac_fd a) = None \<Longrightarrow>
     step app s (handle_new_connection env acs s)"
| step_readable:
    "sv_running s \<Longrightarrow> sv_armed s fd = Some True \<Longrightarrow>
     handle_client_data env app fd (disarm fd s) = Some s' \<Longrightarrow> step app s s'"
| step_writable:
    "sv_running s \<Longrightarrow> sv_armed s fd = Some False \<Longrightarrow>
     handle_write_ready env app fd (disarm fd s) = Some s' \<Longrightarrow> step app s s'"
| step_hangup:
    "sv_running s \<Longrightarrow> sv_armed s fd \<noteq> None \<Longrightarrow> step app s (close_connection fd (disarm fd s))"
| step_task:
    "k < length (sv_tasks s) \<Longrightarrow> run_task env app k s = Some s' \<Longrightarrow> step app s s'"
| step_wakeup: "sv_running s \<Longrightarrow> step app s (process_completions env s)"
| step_stop: "step app s (request_stop s)"
| step_wait_failed: "sv_running s \<Longrightarrow> step app s (s\<lparr>sv_running := False\<rparr>)"
| step_tail:
    "sv_running s \<Longrightarrow> distinct (en_fds env) \<Longrightarrow> set (en_fds env) = dom (sv_conns s) \<Longrightarrow>
     step app s (loop_tail env s)"

inductive reachable :: "app \<Rightarrow> settings \<Rightarrow> server \<Rightarrow> bool" for app settings where
  reachable_init: "reachable app settings (server_init settings tls limiter0 now)"
| reachable_step: "reachable app settings s \<Longrightarrow> step app s s' \<Longrightarrow> reachable app settings s'"

end
