(* ===== verification/Machines.thy ===== *)
theory Machines
  imports Main
begin

text \<open>
  State machines: the states reachable from the initial ones, the contract of an invariant, and the
  contract by which one machine refines another. The event loop, its batches, the pool under it and
  the pipe that wakes it are such machines.
\<close>

inductive reach :: "('s \<Rightarrow> bool) \<Rightarrow> ('s \<Rightarrow> 's \<Rightarrow> bool) \<Rightarrow> 's \<Rightarrow> bool" for init step where
  reach_init: "init s \<Longrightarrow> reach init step s"
| reach_next: "reach init step s \<Longrightarrow> step s s' \<Longrightarrow> reach init step s'"

section \<open>Invariants\<close>

locale machine =
  fixes init :: "'s \<Rightarrow> bool" and step :: "'s \<Rightarrow> 's \<Rightarrow> bool" and ok :: "'s \<Rightarrow> bool"
  assumes init_keeps: "init s \<Longrightarrow> ok s"
    and step_keeps: "ok s \<Longrightarrow> step s s' \<Longrightarrow> ok s'"
begin

lemma always_ok: "reach init step s \<Longrightarrow> ok s"
  by (induction rule: reach.induct) (auto intro: init_keeps step_keeps)

lemma steps_keep: "step\<^sup>*\<^sup>* s s' \<Longrightarrow> ok s \<Longrightarrow> ok s'"
  by (induction rule: rtranclp_induct) (auto intro: step_keeps)

end

section \<open>Refinement\<close>

text \<open>A step of the concrete machine is one of the abstract machine or none; the invariant of the abstract machine may be used.\<close>

locale refining = machine init step ok
  for init :: "'s \<Rightarrow> bool" and step :: "'s \<Rightarrow> 's \<Rightarrow> bool" and ok :: "'s \<Rightarrow> bool" +
  fixes cinit :: "'c \<Rightarrow> bool" and cstep :: "'c \<Rightarrow> 'c \<Rightarrow> bool" and rel :: "'s \<Rightarrow> 'c \<Rightarrow> bool"
  assumes init_refines: "cinit c \<Longrightarrow> \<exists>s. init s \<and> rel s c"
    and step_refines: "ok s \<Longrightarrow> rel s c \<Longrightarrow> cstep c c' \<Longrightarrow> \<exists>s'. (step s s' \<or> s' = s) \<and> rel s' c'"
begin

lemma refined: "reach cinit cstep c \<Longrightarrow> \<exists>s. reach init step s \<and> rel s c"
proof (induction rule: reach.induct)
  case (reach_init c)
  from init_refines [OF reach_init.hyps] obtain s where "init s" "rel s c" by blast
  then show ?case using reach.reach_init [of init s step] by blast
next
  case (reach_next c c')
  then obtain s where s: "reach init step s" "rel s c" by blast
  from step_refines [OF always_ok [OF s(1)] s(2) reach_next.hyps(2)] obtain s' where
    "step s s' \<or> s' = s" "rel s' c'" by blast
  with s(1) show ?case using reach.reach_next [of init step s s'] by blast
qed

text \<open>So every invariant of the abstract machine holds behind the relation.\<close>

lemma refined_ok: "reach cinit cstep c \<Longrightarrow> \<exists>s. ok s \<and> rel s c"
  using refined always_ok by blast

end

end
