(* ===== verification/Server_Invariants.thy ===== *)
theory Server_Invariants
  imports Server Connection_Props Machines
begin

text \<open>
  The invariant of the event loop: the live map and the connection objects agree, at most one
  request of a connection is with the workers or in the queue of results, a response is only set
  while nothing is left to write, and the gauges are the sizes they stand for. One lemma per
  operation shows that it keeps the invariant.
\<close>

section \<open>The invariant\<close>

text \<open>How the flags of a connection and its writer agree.\<close>

definition flags_ok :: "connection \<Rightarrow> bool" where
  "flags_ok c \<longleftrightarrow>
     (cn_worker_in_flight c \<longrightarrow> cn_processing c \<and> \<not> has_data_to_write c) \<and>
     (\<not> cn_processing c \<longrightarrow> \<not> has_data_to_write c)"

text \<open>The requests of a connection that are with a worker, and its results that wait for the loop.\<close>

definition outstanding :: "server \<Rightarrow> nat \<Rightarrow> nat" where
  "outstanding s i =
     length (filter (\<lambda>t. tk_conn t = i) (sv_tasks s)) +
     length (filter (\<lambda>m. cm_conn m = i) (sv_completed s))"

definition conns_ok :: "server \<Rightarrow> bool" where
  "conns_ok s \<longleftrightarrow>
     finite (dom (sv_conns s)) \<and>
     (\<forall>fd i. sv_conns s fd = Some i \<longrightarrow> 0 \<le> fd \<and> i < sv_next s \<and> cn_socket_fd (conn_of s i) = fd) \<and>
     (\<forall>i < sv_next s. is_open (conn_of s i) \<longrightarrow> sv_conns s (cn_socket_fd (conn_of s i)) = Some i)"

definition work_ok :: "server \<Rightarrow> bool" where
  "work_ok s \<longleftrightarrow>
     (\<forall>i. flags_ok (conn_of s i)) \<and>
     (\<forall>i. outstanding s i \<le> 1) \<and>
     (\<forall>i. 0 < outstanding s i \<longrightarrow> i < sv_next s \<and> cn_worker_in_flight (conn_of s i))"

text \<open>
  Only live connections are armed, and none that a worker is busy with: the one-shot interest is
  spent by the event that dispatched the request.
\<close>

definition armed_ok :: "server \<Rightarrow> bool" where
  "armed_ok s \<longleftrightarrow>
     (\<forall>fd. sv_armed s fd \<noteq> None \<longrightarrow>
        (\<exists>i. sv_conns s fd = Some i \<and> \<not> cn_worker_in_flight (conn_of s i)))"

definition gauges_ok :: "server \<Rightarrow> bool" where
  "gauges_ok s \<longleftrightarrow>
     mt_connections_active (sv_metrics s) = of_nat (card (dom (sv_conns s))) \<and>
     mt_workers_in_flight (sv_metrics s) = of_nat (length (sv_tasks s))"

definition server_ok :: "server \<Rightarrow> bool" where
  "server_ok s \<longleftrightarrow> conns_ok s \<and> work_ok s \<and> armed_ok s \<and> gauges_ok s"

section \<open>What the connection operations keep\<close>

lemma flags_ok_same:
  "flags_ok c \<Longrightarrow> cn_processing c' = cn_processing c \<Longrightarrow> cn_worker_in_flight c' = cn_worker_in_flight c \<Longrightarrow>
     has_data_to_write c' = has_data_to_write c \<Longrightarrow> flags_ok c'"
  by (simp add: flags_ok_def)

definition same_flags :: "connection \<Rightarrow> connection \<Rightarrow> bool" where
  "same_flags c c' \<longleftrightarrow>
     cn_processing c' = cn_processing c \<and> cn_worker_in_flight c' = cn_worker_in_flight c \<and>
     has_data_to_write c' = has_data_to_write c \<and> cn_socket_fd c' = cn_socket_fd c"

lemma same_flags_refl [simp]: "same_flags c c"
  by (simp add: same_flags_def)

lemma same_flags_ok: "same_flags c c' \<Longrightarrow> flags_ok c \<Longrightarrow> flags_ok c'"
  by (simp add: flags_ok_def same_flags_def)

lemma same_flags_updates [simp]:
  "same_flags c (d\<lparr>cn_read_buffer := b\<rparr>) \<longleftrightarrow> same_flags c d"
  "same_flags c (d\<lparr>cn_tls_want := w\<rparr>) \<longleftrightarrow> same_flags c d"
  "same_flags c (d\<lparr>cn_continue_sent := x\<rparr>) \<longleftrightarrow> same_flags c d"
  "same_flags c (d\<lparr>cn_tls_handshake_done := x\<rparr>) \<longleftrightarrow> same_flags c d"
  "same_flags c (update_activity now d) \<longleftrightarrow> same_flags c d"
  "same_flags c (consume n d) \<longleftrightarrow> same_flags c d"
  "same_flags c (d\<lparr>cn_http_parser := p\<rparr>) \<longleftrightarrow> same_flags c d"
  "same_flags c (d\<lparr>cn_current_request := q\<rparr>) \<longleftrightarrow> same_flags c d"
  by (simp_all add: same_flags_def has_data_to_write_def update_activity_def consume_def)

lemma same_flags_trans: "same_flags a b \<Longrightarrow> same_flags b c \<Longrightarrow> same_flags a c"
  by (simp add: same_flags_def)

lemma parse_next_flags: "parse_next c = Some (b, n, c') \<Longrightarrow> same_flags c c'"
  by (auto simp: parse_next_def Let_def split: if_splits option.splits)

lemma continue_tls_flags: "continue_tls_handshake now r c = (n, c') \<Longrightarrow> same_flags c c'"
  by (auto simp: continue_tls_handshake_def split: if_splits tls_accept.splits
      intro: same_flags_trans)

lemma maybe_send_flags: "maybe_send_100_continue c = (w, c') \<Longrightarrow> same_flags c c'"
  by (auto simp: maybe_send_100_continue_def split: if_splits option.splits)

lemma ssl_read_loop_flags: "ssl_read_loop now tot rs c = (n, c') \<Longrightarrow> same_flags c c'"
proof (induction rs arbitrary: tot c)
  case Nil
  then show ?case
    by (subst (asm) ssl_read_loop.simps) (auto simp: Let_def split: if_splits intro: same_flags_trans)
next
  case (Cons r rs)
  have got: "same_flags c c'"
    if "ssl_read_loop now tot' rs (c\<lparr>cn_read_buffer := b\<rparr>) = (n, c')" for tot' b
    using Cons.IH [OF that] by (simp add: same_flags_def has_data_to_write_def)
  from Cons.prems show ?case
    by (subst (asm) ssl_read_loop.simps)
      (auto simp: Let_def split: if_splits recv.splits intro: same_flags_trans got)
qed

lemma read_data_flags: "read_data now rs c = (n, c') \<Longrightarrow> same_flags c c'"
  by (auto simp: read_data_def Let_def split: if_splits list.splits recv.splits
      intro: same_flags_trans ssl_read_loop_flags)

lemma connection_close_flags:
  "flags_ok c \<Longrightarrow> flags_ok (connection_close c)"
  "cn_worker_in_flight (connection_close c) = cn_worker_in_flight c"
  "\<not> is_open (connection_close c)"
  by (auto simp: connection_close_def flags_ok_def has_data_to_write_def is_open_def split: if_splits)

lemma set_response_keeps [simp]:
  "cn_processing (set_response_content os r c) = cn_processing c"
  "cn_worker_in_flight (set_response_content os r c) = cn_worker_in_flight c"
  "cn_socket_fd (set_response_content os r c) = cn_socket_fd c"
  by (simp_all add: set_response_content_def clear_response_state_def Let_def)

lemma consume_keeps [simp]:
  "cn_processing (consume n c) = cn_processing c"
  "cn_worker_in_flight (consume n c) = cn_worker_in_flight c"
  "cn_socket_fd (consume n c) = cn_socket_fd c"
  "has_data_to_write (consume n c) = has_data_to_write c"
  by (simp_all add: consume_def has_data_to_write_def)

lemma has_data_flags [simp]:
  "has_data_to_write (c\<lparr>cn_processing := x\<rparr>) = has_data_to_write c"
  "has_data_to_write (c\<lparr>cn_worker_in_flight := x\<rparr>) = has_data_to_write c"
  "has_data_to_write (c\<lparr>cn_processing_since := t\<rparr>) = has_data_to_write c"
  "has_data_to_write (c\<lparr>cn_headers_sent := x\<rparr>) = has_data_to_write c"
  by (simp_all add: has_data_to_write_def)

text \<open>Writing leaves the flags, the socket and the reading side alone.\<close>

definition same_owner :: "connection \<Rightarrow> connection \<Rightarrow> bool" where
  "same_owner c c' \<longleftrightarrow>
     cn_processing c' = cn_processing c \<and> cn_worker_in_flight c' = cn_worker_in_flight c \<and>
     cn_socket_fd c' = cn_socket_fd c \<and> cn_keep_alive c' = cn_keep_alive c \<and> cn_ssl c' = cn_ssl c \<and>
     cn_read_buffer c' = cn_read_buffer c \<and> cn_http_parser c' = cn_http_parser c"

lemma same_owner_simps [simp]:
  "same_owner c c"
  "same_owner c (d\<lparr>cn_tls_want := w\<rparr>) \<longleftrightarrow> same_owner c d"
  "same_owner c (d\<lparr>cn_raw_headers := h\<rparr>) \<longleftrightarrow> same_owner c d"
  "same_owner c (d\<lparr>cn_headers_sent := b\<rparr>) \<longleftrightarrow> same_owner c d"
  "same_owner c (d\<lparr>cn_file_fd := fd\<rparr>) \<longleftrightarrow> same_owner c d"
  "same_owner c (d\<lparr>cn_write_body_offset := n\<rparr>) \<longleftrightarrow> same_owner c d"
  "same_owner c (update_activity now d) \<longleftrightarrow> same_owner c d"
  "same_owner (file_advance n c) d \<longleftrightarrow> same_owner c d"
  "same_owner (c\<lparr>cn_raw_headers := h\<rparr>) d \<longleftrightarrow> same_owner c d"
  "same_owner (c\<lparr>cn_headers_sent := b\<rparr>) d \<longleftrightarrow> same_owner c d"
  by (auto simp: same_owner_def file_advance_def update_activity_def)

lemma ssl_file_loop_keeps:
  "ssl_file_loop os ios c = (e, w, c') \<Longrightarrow>
     same_owner c c'"
proof (induction ios arbitrary: c e w c')
  case Nil
  then show ?case by (subst (asm) ssl_file_loop.simps) (auto simp: Let_def split: if_splits)
next
  case (Cons x ios)
  from Cons.prems show ?case
    by (subst (asm) ssl_file_loop.simps)
      (auto simp: Let_def dest!: Cons.IH split: if_splits io.splits prod.splits)
qed

lemma sendfile_loop_keeps:
  "sendfile_loop os ios c = (e, w, c') \<Longrightarrow>
     same_owner c c'"
proof (induction ios arbitrary: c e w c')
  case Nil
  then show ?case by (subst (asm) sendfile_loop.simps) (auto simp: Let_def split: if_splits)
next
  case (Cons x ios)
  from Cons.prems show ?case
    by (subst (asm) sendfile_loop.simps)
      (auto simp: Let_def dest!: Cons.IH split: if_splits io.splits prod.splits)
qed

lemma ssl_write_headers_keeps:
  "ssl_write_headers ios c = (e, w, c', rest) \<Longrightarrow>
     same_owner c c'"
proof (induction ios arbitrary: c e w c')
  case Nil
  then show ?case by (subst (asm) ssl_write_headers.simps) (auto simp: Let_def split: if_splits)
next
  case (Cons x ios)
  from Cons.prems show ?case
    by (subst (asm) ssl_write_headers.simps)
      (auto simp: Let_def dest!: Cons.IH split: if_splits io.splits prod.splits)
qed

lemma send_headers_keeps:
  "send_headers ios c = (e, w, c', rest) \<Longrightarrow>
     same_owner c c'"
  by (auto simp: send_headers_def split: if_splits list.splits io.splits)

lemma write_content_keeps:
  assumes "write_content os now ios c = (e, w, c')"
  shows "same_owner c c'"
proof -
  obtain e1 w1 d where
    r: "(if cn_ssl c then ssl_file_loop os ios c else sendfile_loop os ios c) = (e1, w1, d)"
    by (metis prod_cases3)
  then have "same_owner c d"
    using ssl_file_loop_keeps [of os ios c e1 w1 d] sendfile_loop_keeps [of os ios c e1 w1 d]
    by (cases "cn_ssl c") simp_all
  then show ?thesis
    using assms r
    by (auto simp: write_content_def write_file_def write_body_def Let_def
        split: if_splits list.splits io.splits)
qed

lemma write_data_keeps:
  assumes "write_data os now ios c = (n, w, c')"
  shows "same_owner c c'"
proof (cases "cn_socket_fd c < 0 \<or> cn_headers_sent c")
    case True
    then show ?thesis using assms write_content_keeps [of os now ios c]
      by (auto simp: write_data_def split: if_splits prod.splits)
  next
    case False
    obtain e hw d ios1 where h: "(if cn_ssl c then ssl_write_headers ios c else send_headers ios c) = (e, hw, d, ios1)"
      by (metis prod_cases4)
    then have d: "same_owner c d"
      using ssl_write_headers_keeps [of ios c e hw d ios1] send_headers_keeps [of ios c e hw d ios1]
      by (cases "cn_ssl c") simp_all
    obtain e1 v c1 where r: "write_content os now ios1 (d\<lparr>cn_headers_sent := True\<rparr>) = (e1, v, c1)"
      by (metis prod_cases3)
    have c1: "same_owner d c1"
      using write_content_keeps [OF r] by simp
    have "c' = c1 \<or> c' = d"
      using assms False h r by (auto simp: write_data_def split: if_splits)
    then show ?thesis using c1 d by (auto simp: same_owner_def)
qed

lemma write_content_idle:
  assumes "\<not> has_data_to_write c" "write_content os now ios c = (e, w, c')"
  shows "\<not> has_data_to_write c' \<and> w = [] \<and> e = Finished"
proof -
  have loops: "ssl_file_loop os ios c = (Finished, [], c)" "sendfile_loop os ios c = (Finished, [], c)"
    if "\<not> 0 < cn_file_remaining c"
    using that by (subst ssl_file_loop.simps, simp, subst sendfile_loop.simps, simp)
  show ?thesis
    using assms loops
    by (auto simp: has_data_to_write_def write_content_def write_file_def write_body_def update_activity_def
        split: if_splits)
qed

lemma write_data_idle:
  assumes "\<not> has_data_to_write c" "write_data os now ios c = (n, w, c')"
  shows "\<not> has_data_to_write c' \<and> w = [] \<and> n = 0"
proof -
  have raw: "cn_raw_headers c = []" using assms(1) by (simp add: has_data_to_write_def split: if_splits)
  have h: "has_data_to_write (c\<lparr>cn_headers_sent := True\<rparr>) = has_data_to_write c"
    by (simp add: has_data_to_write_def)
  obtain e v d where r: "write_content os now ios c = (e, v, d)" by (metis prod_cases3)
  obtain e1 v1 d1 where r1: "write_content os now ios (c\<lparr>cn_headers_sent := True\<rparr>) = (e1, v1, d1)"
    by (metis prod_cases3)
  show ?thesis
    using assms write_content_idle [OF assms(1) r] write_content_idle [OF _ r1] h r r1
      header_call_none [OF raw, of ios]
    by (auto simp: write_data_def sent_def split: if_splits)
qed

section \<open>What the server operations keep\<close>

lemma count_simps [simp]:
  "sv_conns (count f s) = sv_conns s" "sv_heap (count f s) = sv_heap s"
  "sv_next (count f s) = sv_next s" "sv_armed (count f s) = sv_armed s"
  "sv_tasks (count f s) = sv_tasks s" "sv_completed (count f s) = sv_completed s"
  "sv_settings (count f s) = sv_settings s" "sv_metrics (count f s) = f (sv_metrics s)"
  "sv_draining (count f s) = sv_draining s" "sv_limiter (count f s) = sv_limiter s"
  "sv_listening (count f s) = sv_listening s" "sv_drain_deadline (count f s) = sv_drain_deadline s"
  "sv_running (count f s) = sv_running s" "sv_wire (count f s) = sv_wire s"
  by (simp_all add: count_def)

lemma set_conn_simps [simp]:
  "sv_conns (set_conn i c s) = sv_conns s" "sv_heap (set_conn i c s) = (sv_heap s)(i := c)"
  "sv_next (set_conn i c s) = sv_next s" "sv_armed (set_conn i c s) = sv_armed s"
  "sv_tasks (set_conn i c s) = sv_tasks s" "sv_completed (set_conn i c s) = sv_completed s"
  "sv_settings (set_conn i c s) = sv_settings s" "sv_metrics (set_conn i c s) = sv_metrics s"
  "sv_draining (set_conn i c s) = sv_draining s" "sv_limiter (set_conn i c s) = sv_limiter s"
  "sv_listening (set_conn i c s) = sv_listening s"
  "sv_drain_deadline (set_conn i c s) = sv_drain_deadline s"
  "sv_running (set_conn i c s) = sv_running s" "sv_wire (set_conn i c s) = sv_wire s"
  by (simp_all add: set_conn_def)

lemma put_wire_simps [simp]:
  "sv_conns (put_wire i w s) = sv_conns s" "sv_heap (put_wire i w s) = sv_heap s"
  "sv_next (put_wire i w s) = sv_next s" "sv_armed (put_wire i w s) = sv_armed s"
  "sv_tasks (put_wire i w s) = sv_tasks s" "sv_completed (put_wire i w s) = sv_completed s"
  "sv_settings (put_wire i w s) = sv_settings s" "sv_metrics (put_wire i w s) = sv_metrics s"
  "sv_draining (put_wire i w s) = sv_draining s" "sv_limiter (put_wire i w s) = sv_limiter s"
  "sv_listening (put_wire i w s) = sv_listening s"
  "sv_drain_deadline (put_wire i w s) = sv_drain_deadline s"
  "sv_running (put_wire i w s) = sv_running s"
  by (simp_all add: put_wire_def)

text \<open>The fields an operation does not touch, and the effect of \<open>close_connection\<close> on the others.\<close>

definition close_counted :: "int \<Rightarrow> server \<Rightarrow> metrics" where
  "close_counted fd s =
     (if sv_conns s fd = None then sv_metrics s
      else (sv_metrics s)\<lparr>mt_connections_active := mt_connections_active (sv_metrics s) - 1\<rparr>)"

lemma close_connection_simps [simp]:
  "sv_conns (close_connection fd s) = (sv_conns s)(fd := None)"
  "sv_armed (close_connection fd s) = (sv_armed s)(fd := None)"
  "sv_next (close_connection fd s) = sv_next s" "sv_tasks (close_connection fd s) = sv_tasks s"
  "sv_completed (close_connection fd s) = sv_completed s"
  "sv_settings (close_connection fd s) = sv_settings s"
  "sv_draining (close_connection fd s) = sv_draining s"
  "sv_limiter (close_connection fd s) = sv_limiter s"
  "sv_listening (close_connection fd s) = sv_listening s"
  "sv_drain_deadline (close_connection fd s) = sv_drain_deadline s"
  "sv_running (close_connection fd s) = sv_running s"
  "sv_wire (close_connection fd s) = sv_wire s"
  "sv_metrics (close_connection fd s) = close_counted fd s"
  by (auto simp: close_connection_def close_counted_def Let_def split: option.splits)

lemma close_connection_heap:
  "conn_of (close_connection fd s) j =
     (if sv_conns s fd = Some j then connection_close (conn_of s j) else conn_of s j)"
  by (auto simp: close_connection_def Let_def split: option.splits)

lemma outstanding_cong:
  "sv_tasks s' = sv_tasks s \<Longrightarrow> sv_completed s' = sv_completed s \<Longrightarrow> outstanding s' i = outstanding s i"
  by (simp add: outstanding_def)

lemma conns_okD:
  "conns_ok s \<Longrightarrow> sv_conns s fd = Some i \<Longrightarrow> 0 \<le> fd \<and> i < sv_next s \<and> cn_socket_fd (conn_of s i) = fd"
  by (simp add: conns_ok_def)

lemma conns_ok_inject:
  "conns_ok s \<Longrightarrow> sv_conns s fd = Some i \<Longrightarrow> sv_conns s fd' = Some i \<Longrightarrow> fd' = fd"
  by (metis conns_okD)

lemma close_live_conns_ok:
  assumes "conns_ok s" "sv_conns s fd = Some i"
  shows "conns_ok (close_connection fd s)"
  unfolding conns_ok_def close_connection_simps
proof (intro conjI allI impI)
  show "finite (dom ((sv_conns s)(fd := None)))" using assms(1) by (simp add: conns_ok_def)
next
  fix fd' j
  assume "((sv_conns s)(fd := None)) fd' = Some j"
  then have j: "fd' \<noteq> fd" "sv_conns s fd' = Some j" by (simp_all split: if_splits)
  then have "sv_conns s fd \<noteq> Some j" using conns_ok_inject [OF assms(1) j(2)] by blast
  then show "0 \<le> fd'" "j < sv_next s" "cn_socket_fd (conn_of (close_connection fd s) j) = fd'"
    using conns_okD [OF assms(1) j(2)] by (simp_all add: close_connection_heap)
next
  fix j
  assume j: "j < sv_next s" "is_open (conn_of (close_connection fd s) j)"
  then have nj: "sv_conns s fd \<noteq> Some j"
    by (auto simp: close_connection_heap connection_close_flags split: if_splits)
  then have "sv_conns s (cn_socket_fd (conn_of s j)) = Some j"
    using j assms(1) by (simp add: conns_ok_def close_connection_heap)
  then show "((sv_conns s)(fd := None)) (cn_socket_fd (conn_of (close_connection fd s) j)) = Some j"
    using nj by (auto simp: close_connection_heap)
qed

lemma close_connection_ok:
  assumes "server_ok s"
  shows "server_ok (close_connection fd s)"
proof (cases "sv_conns s fd")
  case None
  then have "sv_conns (close_connection fd s) = sv_conns s" "sv_heap (close_connection fd s) = sv_heap s"
    by (auto simp: close_connection_heap)
  then show ?thesis
    using assms None by (auto simp: server_ok_def conns_ok_def work_ok_def armed_ok_def gauges_ok_def
        outstanding_def close_counted_def)
next
  case (Some i)
  have c: "conns_ok s" "work_ok s" "armed_ok s" "gauges_ok s"
    using assms by (simp_all add: server_ok_def)
  have conns: "conns_ok (close_connection fd s)" by (rule close_live_conns_ok [OF c(1) Some])
  have work: "work_ok (close_connection fd s)"
    using c(2) by (auto simp: work_ok_def outstanding_def close_connection_heap connection_close_flags)
  have armed: "armed_ok (close_connection fd s)"
    using c(3) conns_ok_inject [OF c(1) Some]
    by (auto simp: armed_ok_def close_connection_heap connection_close_flags)
  have "card (dom ((sv_conns s)(fd := None))) = card (dom (sv_conns s)) - 1"
    using c(1) Some by (auto simp: conns_ok_def card_Diff_singleton_if)
  moreover have "0 < card (dom (sv_conns s))"
    using c(1) Some by (auto simp: conns_ok_def card_gt_0_iff)
  ultimately have "gauges_ok (close_connection fd s)"
    using c(4) Some by (simp add: gauges_ok_def close_counted_def of_nat_diff)
  with conns work armed show ?thesis by (simp add: server_ok_def)
qed

lemma server_okD:
  assumes "server_ok s"
  shows "conns_ok s" "work_ok s" "armed_ok s" "gauges_ok s"
  using assms by (simp_all add: server_ok_def)

lemma work_okD:
  assumes "work_ok s"
  shows "flags_ok (conn_of s i)" "outstanding s i \<le> 1" "0 < outstanding s i \<Longrightarrow> i < sv_next s"
    "0 < outstanding s i \<Longrightarrow> cn_worker_in_flight (conn_of s i)"
  using assms unfolding work_ok_def by blast+

lemma idle_connection:
  assumes "server_ok s" "\<not> cn_worker_in_flight (conn_of s i)"
  shows "outstanding s i = 0"
  using assms by (auto simp: server_ok_def work_ok_def)

lemma flags_okD: "server_ok s \<Longrightarrow> flags_ok (conn_of s i)"
  by (simp add: server_ok_def work_ok_def)

text \<open>Replacing a connection object.\<close>

lemma set_conn_ok:
  assumes "server_ok s" "cn_socket_fd c = cn_socket_fd (conn_of s i)" "flags_ok c"
    "0 < outstanding s i \<Longrightarrow> cn_worker_in_flight c"
    "\<And>fd. cn_worker_in_flight c \<Longrightarrow> sv_conns s fd = Some i \<Longrightarrow> sv_armed s fd = None"
  shows "server_ok (set_conn i c s)"
proof -
  note ok = server_okD [OF assms(1)]
  have "conns_ok (set_conn i c s)"
    using ok(1) assms(2) by (auto simp: conns_ok_def is_open_def)
  moreover have "work_ok (set_conn i c s)"
    using ok(2) assms(3,4) by (auto simp: work_ok_def outstanding_def)
  moreover have "armed_ok (set_conn i c s)"
    using ok(3) assms(5) by (fastforce simp: armed_ok_def)
  moreover have "gauges_ok (set_conn i c s)"
    using ok(4) by (simp add: gauges_ok_def)
  ultimately show ?thesis by (simp add: server_ok_def)
qed

lemma armed_idle:
  "server_ok s \<Longrightarrow> sv_conns s fd = Some i \<Longrightarrow> cn_worker_in_flight (conn_of s i) \<Longrightarrow> sv_armed s fd = None"
  by (force simp: server_ok_def armed_ok_def)

lemma set_conn_same:
  assumes "server_ok s" "same_flags (conn_of s i) c"
  shows "server_ok (set_conn i c s)"
proof (rule set_conn_ok [OF assms(1)])
  show "flags_ok c" using same_flags_ok [OF assms(2)] flags_okD [OF assms(1)] by simp
  show "cn_worker_in_flight c" if "0 < outstanding s i"
    using that assms by (simp add: same_flags_def server_ok_def work_ok_def)
  show "sv_armed s fd = None" if "cn_worker_in_flight c" "sv_conns s fd = Some i" for fd
    using that assms(2) armed_idle [OF assms(1) that(2)] by (simp add: same_flags_def)
qed (use assms(2) in \<open>simp add: same_flags_def\<close>)

lemma put_wire_ok [simp]: "server_ok (put_wire i w s) = server_ok s"
  by (simp add: server_ok_def conns_ok_def work_ok_def armed_ok_def gauges_ok_def outstanding_def)

definition keeps_gauges :: "(metrics \<Rightarrow> metrics) \<Rightarrow> bool" where
  "keeps_gauges f \<longleftrightarrow>
     (\<forall>m. mt_connections_active (f m) = mt_connections_active m \<and>
          mt_workers_in_flight (f m) = mt_workers_in_flight m)"

lemma keeps_gauges_simps [simp]:
  "keeps_gauges (record_status code)" "keeps_gauges (observe_duration d)"
  "keeps_gauges (\<lambda>m. m\<lparr>mt_requests_total := x m\<rparr>)"
  "keeps_gauges (\<lambda>m. m\<lparr>mt_rate_limited_total := x m\<rparr>)"
  "keeps_gauges (\<lambda>m. m\<lparr>mt_load_shed_total := x m\<rparr>)"
  "keeps_gauges (\<lambda>m. m\<lparr>mt_handler_timeouts_total := x m\<rparr>)"
  "keeps_gauges f \<Longrightarrow> keeps_gauges g \<Longrightarrow> keeps_gauges (f \<circ> g)"
  by (simp_all add: keeps_gauges_def)

lemma count_ok: "keeps_gauges f \<Longrightarrow> server_ok (count f s) = server_ok s"
  by (simp add: server_ok_def conns_ok_def work_ok_def armed_ok_def gauges_ok_def outstanding_def
      keeps_gauges_def)

lemma limiter_ok_update: "server_ok (s\<lparr>sv_limiter := l\<rparr>) = server_ok s"
  by (simp add: server_ok_def conns_ok_def work_ok_def armed_ok_def gauges_ok_def outstanding_def)

lemma disarm_ok: "server_ok s \<Longrightarrow> server_ok (disarm fd s)"
  by (auto simp: disarm_def server_ok_def conns_ok_def work_ok_def armed_ok_def gauges_ok_def outstanding_def)

lemma rearm_ok:
  assumes "server_ok s" "sv_conns s fd = Some i" "\<not> cn_worker_in_flight (conn_of s i)"
  shows "server_ok (rearm env fd b s)"
proof (cases "en_rearm env fd")
  case True
  then show ?thesis using assms
    by (auto simp: rearm_def server_ok_def conns_ok_def work_ok_def armed_ok_def gauges_ok_def outstanding_def)
next
  case False
  then show ?thesis using close_connection_ok [OF assms(1)] by (simp add: rearm_def)
qed

lemma flags_ok_busy: "cn_processing c \<Longrightarrow> \<not> cn_worker_in_flight c \<Longrightarrow> flags_ok c"
  by (simp add: flags_ok_def)

lemma answer_now_ok:
  assumes "server_ok s" "sv_conns s fd = Some i" "\<not> cn_worker_in_flight (conn_of s i)" "keeps_gauges f"
  shows "server_ok (answer_now env app st msg f consumed fd i s)"
proof -
  let ?c = "set_response_content (en_os env) (busy_response app st msg)
     ((consume consumed (conn_of s i))\<lparr>cn_processing := True\<rparr>)"
  let ?s = "count (record_status (status_code st) \<circ> f) s"
  have "server_ok ?s" using assms(1,4) by (simp add: count_ok)
  moreover have "outstanding s i = 0" by (rule idle_connection [OF assms(1,3)])
  ultimately have "server_ok (set_conn i ?c ?s)"
    using assms(3) by (intro set_conn_ok flags_ok_busy) (simp_all add: outstanding_def)
  with assms(2,3) show ?thesis
    by (auto simp: answer_now_def Let_def intro!: rearm_ok)
qed

lemma rate_allowed_simps:
  assumes "rate_allowed env c s = (ok, s')"
  shows "sv_conns s' = sv_conns s" "sv_heap s' = sv_heap s" "sv_armed s' = sv_armed s"
    "sv_tasks s' = sv_tasks s" "sv_completed s' = sv_completed s" "server_ok s' = server_ok s"
    "sv_next s' = sv_next s" "sv_metrics s' = sv_metrics s" "sv_settings s' = sv_settings s"
    "sv_draining s' = sv_draining s" "sv_listening s' = sv_listening s"
    "sv_drain_deadline s' = sv_drain_deadline s" "sv_running s' = sv_running s" "sv_wire s' = sv_wire s"
  using assms by (auto simp: rate_allowed_def limiter_ok_update split: option.splits prod.splits)

lemma add_task_ok:
  assumes "server_ok s" "sv_conns s fd = Some i" "sv_armed s fd = None" "\<not> cn_processing (conn_of s i)"
    "cn_processing c" "cn_worker_in_flight c" "\<not> has_data_to_write c"
    "cn_socket_fd c = cn_socket_fd (conn_of s i)" "tk_conn t = i"
    "s' = count (\<lambda>m. m\<lparr>mt_workers_in_flight := mt_workers_in_flight m + 1\<rparr>) (set_conn i c s)"
  shows "server_ok (s'\<lparr>sv_tasks := sv_tasks s' @ [t]\<rparr>)"
proof -
  note ok = server_okD [OF assms(1)]
  have idle: "\<not> cn_worker_in_flight (conn_of s i)"
    using flags_okD [OF assms(1), of i] assms(4) by (auto simp: flags_ok_def)
  note out = idle_connection [OF assms(1) idle]
  have "conns_ok (set_conn i c s)" using ok(1) assms(8) by (auto simp: conns_ok_def is_open_def)
  then have "conns_ok (s'\<lparr>sv_tasks := sv_tasks s' @ [t]\<rparr>)" by (simp add: conns_ok_def assms(10))
  moreover have "work_ok (s'\<lparr>sv_tasks := sv_tasks s' @ [t]\<rparr>)"
  proof -
    let ?t = "s'\<lparr>sv_tasks := sv_tasks s' @ [t]\<rparr>"
    have o: "outstanding ?t j = outstanding s j + (if j = i then 1 else 0)" for j
      using assms(9,10) by (simp add: outstanding_def)
    have h: "conn_of ?t j = (if j = i then c else conn_of s j)" for j
      using assms(10) by simp
    have n: "sv_next ?t = sv_next s" using assms(10) by simp
    have f: "flags_ok c" using assms(5-7) by (simp add: flags_ok_def)
    have i: "i < sv_next s" using conns_okD [OF ok(1) assms(2)] by blast
    show ?thesis
      unfolding work_ok_def o h n
    proof (intro conjI allI impI)
      fix j
      note w = work_okD [OF ok(2), of j]
      show "flags_ok (if j = i then c else conn_of s j)" using f w(1) by simp
      show "outstanding s j + (if j = i then 1 else 0) \<le> 1" using out w(2) by simp
      assume "0 < outstanding s j + (if j = i then 1 else 0)"
      then show "j < sv_next s" "cn_worker_in_flight (if j = i then c else conn_of s j)"
        using i assms(6) w(3,4) by (cases "j = i"; simp)+
    qed
  qed
  moreover have "armed_ok (s'\<lparr>sv_tasks := sv_tasks s' @ [t]\<rparr>)"
    unfolding armed_ok_def
  proof (intro allI impI)
    fix fd'
    assume a: "sv_armed (s'\<lparr>sv_tasks := sv_tasks s' @ [t]\<rparr>) fd' \<noteq> None"
    then obtain j where j: "sv_conns s fd' = Some j" "\<not> cn_worker_in_flight (conn_of s j)"
      using ok(3) assms(10) by (auto simp: armed_ok_def)
    from a assms(3,10) have "fd' \<noteq> fd" by auto
    then have "j \<noteq> i" using conns_ok_inject [OF ok(1) assms(2)] j(1) by blast
    then show "\<exists>j. sv_conns (s'\<lparr>sv_tasks := sv_tasks s' @ [t]\<rparr>) fd' = Some j \<and>
        \<not> cn_worker_in_flight (conn_of (s'\<lparr>sv_tasks := sv_tasks s' @ [t]\<rparr>) j)"
      using j assms(10) by simp
  qed
  moreover have "gauges_ok (s'\<lparr>sv_tasks := sv_tasks s' @ [t]\<rparr>)"
    using ok(4) assms(10) by (simp add: gauges_ok_def)
  ultimately show ?thesis by (simp add: server_ok_def)
qed

text \<open>A request has been parsed: it is refused with an answer, or handed to a worker.\<close>

lemma dispatch_request_ok:
  assumes "server_ok s" "sv_conns s fd = Some i" "sv_armed s fd = None" "\<not> cn_processing (conn_of s i)"
    "parse_next (conn_of s i) = Some (True, consumed, c)" "dispatch_next env app fd i s = Some s'"
  shows "server_ok s'"
proof -
  note fc = parse_next_flags [OF assms(5)]
  let ?s1 = "count (\<lambda>m. m\<lparr>mt_requests_total := mt_requests_total m + 1\<rparr>) (set_conn i c s)"
  have nc: "\<not> cn_processing c" "\<not> cn_worker_in_flight c" "\<not> has_data_to_write c"
    "cn_socket_fd c = cn_socket_fd (conn_of s i)"
    using assms(4) fc flags_okD [OF assms(1), of i] by (auto simp: same_flags_def flags_ok_def)
  obtain ok s3 where r: "rate_allowed env c ?s1 = (ok, s3)" by (cases "rate_allowed env c ?s1") simp
  note rs = rate_allowed_simps [OF r] and step = assms(6) [unfolded dispatch_next_def Let_def]
  have ok3: "server_ok s3" using set_conn_same [OF assms(1) fc] rs(6) by (simp add: count_ok)
  have c3: "sv_conns s3 fd = Some i" "conn_of s3 i = c" "sv_armed s3 fd = None"
    using rs(1-3) assms(2,3) by simp_all
  have w3: "\<not> cn_worker_in_flight (conn_of s3 i)" "\<not> cn_processing (conn_of s3 i)" using c3(2) nc by simp_all
  have ans: "server_ok (answer_now env app st msg f consumed fd i s3)" if "keeps_gauges f" for st msg f
    by (rule answer_now_ok [OF ok3 c3(1) w3(1) that])
  let ?c = "(consume consumed c)\<lparr>cn_processing := True, cn_worker_in_flight := True,
      cn_processing_since := en_now env\<rparr>"
  consider "\<not> ok" | "ok" "at_capacity s3" | "ok" "\<not> at_capacity s3" by blast
  then show ?thesis
  proof cases
    case 1
    then show ?thesis using step assms(4,5) r ans by auto
  next
    case 2
    then show ?thesis using step assms(4,5) r ans by auto
  next
    case 3
    then have "s' = (let s4 = count (\<lambda>m. m\<lparr>mt_workers_in_flight := mt_workers_in_flight m + 1\<rparr>) (set_conn i ?c s3)
        in s4\<lparr>sv_tasks := sv_tasks s4 @ [\<lparr>tk_fd = fd, tk_conn = i, tk_request = cn_current_request c, tk_start = en_now env\<rparr>]\<rparr>)"
      using step assms(4,5) r by (simp add: Let_def)
    moreover have "\<not> has_data_to_write ?c" using nc(3) by simp
    ultimately show ?thesis unfolding Let_def
      by (simp only:) (rule add_task_ok [OF ok3 c3(1,3) w3(2)], simp_all add: c3(2))
  qed
qed

text \<open>None is complete: the connection is closed on an error, and waits for more otherwise.\<close>

lemma dispatch_pending_ok:
  assumes "server_ok s" "sv_conns s fd = Some i" "\<not> cn_processing (conn_of s i)"
    "parse_next (conn_of s i) = Some (False, consumed, c)" "dispatch_next env app fd i s = Some s'"
  shows "server_ok s'"
proof -
  note fc = parse_next_flags [OF assms(4)]
  let ?s1 = "set_conn i c s"
  have ok1: "server_ok ?s1" by (rule set_conn_same [OF assms(1) fc])
  show ?thesis
  proof (cases "parser_failed c")
    case True
    then show ?thesis using assms(3-5) close_connection_ok [OF ok1]
      by (auto simp: dispatch_next_def Let_def)
  next
    case False
    obtain w c' where m: "maybe_send_100_continue c = (w, c')" by (metis prod.exhaust)
    let ?s2 = "put_wire i w (set_conn i c' ?s1)"
    have "\<not> cn_worker_in_flight c" using assms(3) fc flags_okD [OF assms(1), of i]
      by (auto simp: same_flags_def flags_ok_def)
    then have "\<not> cn_worker_in_flight (conn_of ?s2 i)" using maybe_send_flags [OF m] by (simp add: same_flags_def)
    moreover have "server_ok ?s2" using set_conn_same [OF ok1, of i c'] maybe_send_flags [OF m] by simp
    moreover have "sv_conns ?s2 fd = Some i" using assms(2) by simp
    ultimately have "server_ok (rearm env fd b ?s2)" for b by (metis rearm_ok)
    then show ?thesis using assms(3-5) False m by (auto simp: dispatch_next_def Let_def)
  qed
qed

lemma dispatch_next_ok:
  assumes "server_ok s" "sv_conns s fd = Some i" "sv_armed s fd = None"
    "dispatch_next env app fd i s = Some s'"
  shows "server_ok s'"
proof (cases "cn_processing (conn_of s i)")
  case True
  then show ?thesis using assms by (simp add: dispatch_next_def)
next
  case False
  then obtain got_one consumed c where p: "parse_next (conn_of s i) = Some (got_one, consumed, c)"
    using assms(4) by (auto simp: dispatch_next_def split: option.splits)
  then show ?thesis
    using dispatch_request_ok [OF assms(1-3) False _ assms(4)] dispatch_pending_ok [OF assms(1,2) False _ assms(4)]
    by (cases got_one) simp_all
qed

lemma drive_tls_ok:
  assumes "server_ok s" "sv_conns s fd = Some i" "\<not> cn_worker_in_flight (conn_of s i)"
    "drive_tls_handshake env fd i s = (proceed, s')"
  shows "server_ok s'"
    "proceed \<Longrightarrow> sv_conns s' = sv_conns s \<and> sv_armed s' = sv_armed s \<and> same_flags (conn_of s i) (conn_of s' i)"
proof -
  obtain r c where c: "continue_tls_handshake (en_now env) (en_accept env) (conn_of s i) = (r, c)"
    by (metis prod.exhaust)
  note f = continue_tls_flags [OF c]
  have ok: "server_ok (set_conn i c s)" by (rule set_conn_same [OF assms(1) f])
  have "server_ok (rearm env fd b (set_conn i c s))" for b
    using assms(2,3) f by (intro rearm_ok [OF ok, of _ i]) (simp_all add: same_flags_def)
  with ok close_connection_ok [OF ok] show "server_ok s'"
    using assms(4) c by (auto simp: drive_tls_handshake_def Let_def split: if_splits)
  show "sv_conns s' = sv_conns s \<and> sv_armed s' = sv_armed s \<and> same_flags (conn_of s i) (conn_of s' i)" if proceed
    using assms(4) c f that by (auto simp: drive_tls_handshake_def Let_def split: if_splits)
qed

lemma handle_client_data_ok:
  assumes "server_ok s" "sv_armed s fd = None"
    "\<And>i. sv_conns s fd = Some i \<Longrightarrow> \<not> cn_worker_in_flight (conn_of s i)"
    "handle_client_data env app fd s = Some s'"
  shows "server_ok s'"
proof (cases "sv_conns s fd")
  case None
  then show ?thesis using assms by (simp add: handle_client_data_def)
next
  case (Some i)
  show ?thesis
  proof (cases "is_open (conn_of s i)")
    case False
    then show ?thesis using assms(4) Some close_connection_ok [OF assms(1)]
      by (auto simp: handle_client_data_def)
  next
    case True
    obtain proceed s1 where h:
      "(if needs_handshake (conn_of s i) then drive_tls_handshake env fd i s else (True, s)) = (proceed, s1)"
      by (metis prod.exhaust)
    have ok1: "server_ok s1"
      and p: "proceed \<Longrightarrow> sv_conns s1 = sv_conns s \<and> sv_armed s1 = sv_armed s"
      using h drive_tls_ok [OF assms(1) Some assms(3) [OF Some], of env proceed s1] assms(1)
      by (auto split: if_splits)
    obtain n c where r: "read_data (en_now env) (en_recv env) (conn_of s1 i) = (n, c)" by (metis prod.exhaust)
    have ok2: "server_ok (set_conn i c s1)" by (rule set_conn_same [OF ok1 read_data_flags [OF r]])
    show ?thesis
    proof (cases proceed)
      case False
      then show ?thesis using assms(4) Some True h ok1 by (simp add: handle_client_data_def)
    next
      case go: True
      have "dispatch_next env app fd i (set_conn i c s1) = Some s'" if "\<not> (n = 0 \<or> n = -1)"
        using assms(4) Some True h r go that by (simp add: handle_client_data_def)
      moreover have "sv_conns (set_conn i c s1) fd = Some i" "sv_armed (set_conn i c s1) fd = None"
        using p [OF go] Some assms(2) by simp_all
      moreover have "s' = close_connection fd (set_conn i c s1)" if "n = 0 \<or> n = -1"
        using assms(4) Some True h r go that by (auto simp: handle_client_data_def)
      ultimately show ?thesis
        using close_connection_ok [OF ok2] dispatch_next_ok [OF ok2, of fd i env app s'] by blast
    qed
  qed
qed

lemma handle_write_ready_ok:
  assumes "server_ok s" "sv_armed s fd = None"
    "\<And>i. sv_conns s fd = Some i \<Longrightarrow> \<not> cn_worker_in_flight (conn_of s i)"
    "handle_write_ready env app fd s = Some s'"
  shows "server_ok s'"
proof (cases "sv_conns s fd")
  case None
  then show ?thesis using assms by (simp add: handle_write_ready_def)
next
  case (Some i)
  note idle = assms(3) [OF Some]
  note out = idle_connection [OF assms(1) idle]
  show ?thesis
  proof (cases "is_open (conn_of s i) \<and> \<not> needs_handshake (conn_of s i)")
    case False
    obtain proceed s1 where h: "drive_tls_handshake env fd i s = (proceed, s1)" by (metis prod.exhaust)
    have "server_ok (rearm env fd True s1)" if proceed
      using rearm_ok [OF drive_tls_ok(1) [OF assms(1) Some idle h], of fd i]
        drive_tls_ok(2) [OF assms(1) Some idle h that] Some idle by (simp add: same_flags_def)
    then show ?thesis
      using False assms(4) Some h close_connection_ok [OF assms(1)] drive_tls_ok(1) [OF assms(1) Some idle h]
      by (auto simp: handle_write_ready_def split: if_splits)
  next
    case True
    obtain n w c where w: "write_data (en_os env) (en_now env) (en_io env) (conn_of s i) = (n, w, c)"
      by (metis prod_cases3)
    note own = write_data_keeps [OF w, unfolded same_owner_def]
    have fc: "flags_ok c"
    proof (cases "has_data_to_write (conn_of s i)")
      case True
      then show ?thesis using own idle flags_okD [OF assms(1), of i] by (auto simp: flags_ok_def)
    next
      case False
      then show ?thesis
        using own idle write_data_idle [OF False w] by (simp add: flags_ok_def)
    qed
    let ?s1 = "put_wire i w (set_conn i c s)"
    have ok1: "server_ok ?s1"
      using set_conn_ok [OF assms(1), of c i] own idle fc out by simp
    have r1: "server_ok (rearm env fd b ?s1)" for b
      using rearm_ok [OF ok1, of fd i env b] Some own idle by simp
    let ?c2 = "update_activity (en_now env) ((clear_response_state c)\<lparr>cn_processing := False\<rparr>)"
    have c2: "flags_ok ?c2" "cn_socket_fd ?c2 = cn_socket_fd (conn_of s i)" "\<not> cn_worker_in_flight ?c2"
      using own idle
      by (simp_all add: flags_ok_def update_activity_def clear_response_state_def has_data_to_write_def)
    have ok2: "server_ok (set_conn i ?c2 ?s1)"
      using c2 own out by (intro set_conn_ok [OF ok1]) (simp_all add: outstanding_def)
    have d2: "server_ok s'" if "dispatch_next env app fd i (set_conn i ?c2 ?s1) = Some s'"
      using dispatch_next_ok [OF ok2 _ _ that] Some assms(2) by simp
    show ?thesis
      using assms(4) Some True w close_connection_ok [OF ok1] r1 d2
      by (auto simp: handle_write_ready_def Let_def split: if_splits)
  qed
qed

section \<open>Workers, accepts, timeouts\<close>

lemma filter_remove_nth:
  "k < length xs \<Longrightarrow>
     length (filter P xs) = length (filter P (take k xs @ drop (Suc k) xs)) + (if P (xs ! k) then 1 else 0)"
proof -
  assume "k < length xs"
  then have "xs = take k xs @ xs ! k # drop (Suc k) xs" by (rule id_take_nth_drop)
  then have "filter P xs = filter P (take k xs @ xs ! k # drop (Suc k) xs)" by simp
  then show ?thesis by simp
qed

text \<open>The server while the task at position \<open>k\<close> is no longer a task.\<close>

lemma remove_task_ok:
  assumes "server_ok s" "k < length (sv_tasks s)"
    "s' = count (\<lambda>m. m\<lparr>mt_workers_in_flight := mt_workers_in_flight m - 1\<rparr>)
       (s\<lparr>sv_tasks := take k (sv_tasks s) @ drop (Suc k) (sv_tasks s)\<rparr>)"
  shows "server_ok s'"
    "outstanding s' i + (if tk_conn (sv_tasks s ! k) = i then 1 else 0) = outstanding s i"
proof -
  note ok = server_okD [OF assms(1)]
  have o: "outstanding s' i + (if tk_conn (sv_tasks s ! k) = i then 1 else 0) = outstanding s i" for i
    using filter_remove_nth [OF assms(2), of "\<lambda>t. tk_conn t = i"] assms(3) by (simp add: outstanding_def)
  then show "outstanding s' i + (if tk_conn (sv_tasks s ! k) = i then 1 else 0) = outstanding s i" .
  have le: "outstanding s' j \<le> outstanding s j" for j using o [of j] by linarith
  have "work_ok s'"
    unfolding work_ok_def
  proof (intro conjI allI impI)
    fix j
    note w = work_okD [OF ok(2), of j]
    show "flags_ok (conn_of s' j)" using w(1) assms(3) by simp
    show "outstanding s' j \<le> 1" using w(2) le [of j] by linarith
    assume "0 < outstanding s' j"
    then have "0 < outstanding s j" using le [of j] by linarith
    with w(3,4) show "j < sv_next s'" "cn_worker_in_flight (conn_of s' j)" using assms(3) by simp_all
  qed
  moreover have "conns_ok s'" "armed_ok s'" using ok(1,3) assms(3) by (simp_all add: conns_ok_def armed_ok_def)
  moreover have "gauges_ok s'"
    using ok(4) assms(2,3) by (auto simp: gauges_ok_def of_nat_diff)
  ultimately show "server_ok s'" by (simp add: server_ok_def)
qed

lemma add_completed_ok:
  assumes "server_ok s" "outstanding s (cm_conn item) = 0" "cm_conn item < sv_next s"
    "cn_worker_in_flight (conn_of s (cm_conn item))"
  shows "server_ok (s\<lparr>sv_completed := sv_completed s @ [item]\<rparr>)"
proof -
  note ok = server_okD [OF assms(1)]
  let ?s = "s\<lparr>sv_completed := sv_completed s @ [item]\<rparr>"
  have o: "outstanding ?s j = outstanding s j + (if cm_conn item = j then 1 else 0)" for j
    by (simp add: outstanding_def)
  have "work_ok ?s"
    unfolding work_ok_def o
  proof (intro conjI allI impI)
    fix j
    note w = work_okD [OF ok(2), of j]
    show "flags_ok (conn_of ?s j)" using w(1) by simp
    show "outstanding s j + (if cm_conn item = j then 1 else 0) \<le> 1" using w(2) assms(2) by auto
    assume "0 < outstanding s j + (if cm_conn item = j then 1 else 0)"
    then show "j < sv_next ?s" "cn_worker_in_flight (conn_of ?s j)"
      using w(3,4) assms(3,4) by (cases "cm_conn item = j"; simp)+
  qed
  with ok show ?thesis by (simp add: server_ok_def conns_ok_def armed_ok_def gauges_ok_def)
qed

lemma run_task_ok:
  assumes "server_ok s" "k < length (sv_tasks s)" "run_task env app k s = Some s'"
  shows "server_ok s'"
proof -
  let ?t = "sv_tasks s ! k"
  let ?s1 = "count (\<lambda>m. m\<lparr>mt_workers_in_flight := mt_workers_in_flight m - 1\<rparr>)
       (s\<lparr>sv_tasks := take k (sv_tasks s) @ drop (Suc k) (sv_tasks s)\<rparr>)"
  note r = remove_task_ok [OF assms(1,2) refl]
  have one: "outstanding s (tk_conn ?t) \<le> 1" "0 < outstanding s (tk_conn ?t)"
    using work_okD(2) [OF server_okD(2) [OF assms(1)]] r(2) [of "tk_conn ?t"] by auto
  note w = work_okD(3,4) [OF server_okD(2) [OF assms(1)] one(2)]
  obtain res where h: "handle_request app (tk_request ?t) = Some res"
    using assms(3) by (auto simp: run_task_def Let_def split: option.splits)
  show ?thesis
  proof (cases res)
    case None
    then show ?thesis using assms(3) h r(1) by (auto simp: run_task_def Let_def)
  next
    case (Some v)
    let ?s2 = "count (observe_duration (rat_of_int (en_now env - tk_start ?t) / rat_of_int nanos) \<circ>
        record_status (status_code (rs_status v))) ?s1"
    let ?item = "\<lparr>cm_fd = tk_fd ?t, cm_conn = tk_conn ?t, cm_response = v\<rparr>"
    have "server_ok ?s2" using r(1) by (simp add: count_ok)
    moreover have "outstanding ?s1 (tk_conn ?t) = 0" using r(2) [of "tk_conn ?t"] one by auto
    then have "outstanding ?s2 (tk_conn ?t) = 0" by (simp add: outstanding_def)
    ultimately have "server_ok (?s2\<lparr>sv_completed := sv_completed ?s2 @ [?item]\<rparr>)"
      using w by (intro add_completed_ok) simp_all
    then show ?thesis using assms(3) h Some by (auto simp: run_task_def Let_def)
  qed
qed

text \<open>The loop over the queue: the results not yet handled still count as outstanding.\<close>

lemma completed_update [simp]:
  "(rearm env fd b s)\<lparr>sv_completed := q\<rparr> = rearm env fd b (s\<lparr>sv_completed := q\<rparr>)"
  "(set_conn i c s)\<lparr>sv_completed := q\<rparr> = set_conn i c (s\<lparr>sv_completed := q\<rparr>)"
  "(complete_one env item s)\<lparr>sv_completed := q\<rparr> = complete_one env item (s\<lparr>sv_completed := q\<rparr>)"
proof -
  have c: "(close_connection fd s)\<lparr>sv_completed := q\<rparr> = close_connection fd (s\<lparr>sv_completed := q\<rparr>)" for fd s
    by (simp add: close_connection_def Let_def count_def set_conn_def split: option.split)
  show r: "(rearm env fd b s)\<lparr>sv_completed := q\<rparr> = rearm env fd b (s\<lparr>sv_completed := q\<rparr>)" for fd b s
    by (simp add: rearm_def c)
  show sc: "(set_conn i c s)\<lparr>sv_completed := q\<rparr> = set_conn i c (s\<lparr>sv_completed := q\<rparr>)" for i c s
    by (simp add: set_conn_def)
  show "(complete_one env item s)\<lparr>sv_completed := q\<rparr> = complete_one env item (s\<lparr>sv_completed := q\<rparr>)"
    by (simp add: complete_one_def Let_def r sc)
qed

lemma complete_one_ok:
  assumes "server_ok (s\<lparr>sv_completed := item # rest\<rparr>)"
  shows "server_ok (complete_one env item (s\<lparr>sv_completed := rest\<rparr>))"
proof -
  let ?s = "s\<lparr>sv_completed := item # rest\<rparr>" and ?r = "s\<lparr>sv_completed := rest\<rparr>"
  let ?i = "cm_conn item"
  note ok = server_okD [OF assms]
  have o: "outstanding ?s j = outstanding ?r j + (if ?i = j then 1 else 0)" for j
    by (simp add: outstanding_def)
  have zero: "outstanding ?r ?i = 0" using work_okD(2) [OF ok(2), of ?i] o [of ?i] by simp
  have "work_ok ?r"
    unfolding work_ok_def
  proof (intro conjI allI impI)
    fix j
    note w = work_okD [OF ok(2), of j]
    show "flags_ok (conn_of ?r j)" using w(1) by simp
    show "outstanding ?r j \<le> 1" using w(2) o [of j] by linarith
    assume "0 < outstanding ?r j"
    then have "0 < outstanding ?s j" using o [of j] by linarith
    with w(3,4) show "j < sv_next ?r" "cn_worker_in_flight (conn_of ?r j)" by simp_all
  qed
  with ok have r: "server_ok ?r" by (simp add: server_ok_def conns_ok_def armed_ok_def gauges_ok_def)
  show ?thesis
  proof (cases "sv_conns ?r (cm_fd item) \<noteq> Some ?i \<or> \<not> is_open (conn_of ?r ?i)")
    case True
    then show ?thesis using r by (simp add: complete_one_def)
  next
    case False
    let ?c = "set_response_content (en_os env) (cm_response item) ((conn_of ?r ?i)\<lparr>cn_worker_in_flight := False\<rparr>)"
    have "cn_worker_in_flight (conn_of ?s ?i)"
      using work_okD(4) [OF ok(2), of ?i] o [of ?i] by simp
    then have "cn_processing ?c" using work_okD(1) [OF ok(2), of ?i] by (simp add: flags_ok_def)
    then have "server_ok (set_conn ?i ?c ?r)"
      using zero by (intro set_conn_ok [OF r] flags_ok_busy) simp_all
    then have "server_ok (rearm env (cm_fd item) False (set_conn ?i ?c ?r))"
      using False by (intro rearm_ok [of _ _ ?i]) simp_all
    then show ?thesis using False by (simp add: complete_one_def Let_def)
  qed
qed

lemma process_completions_ok:
  assumes "server_ok s"
  shows "server_ok (process_completions env s)"
proof -
  have "server_ok (s\<lparr>sv_completed := q\<rparr>) \<Longrightarrow> server_ok (fold (complete_one env) q (s\<lparr>sv_completed := []\<rparr>))" for q s
  proof (induction q arbitrary: s)
    case Nil
    then show ?case by simp
  next
    case (Cons item q)
    from complete_one_ok [OF Cons.prems, of env]
    have "server_ok ((complete_one env item s)\<lparr>sv_completed := q\<rparr>)" by simp
    from Cons.IH [OF this] show ?case by simp
  qed
  moreover have "server_ok (s\<lparr>sv_completed := sv_completed s\<rparr>)" using assms by simp
  ultimately show ?thesis unfolding process_completions_def by blast
qed

lemma connection_init_simps [simp]:
  "cn_socket_fd (connection_init now fd) = fd" "\<not> cn_processing (connection_init now fd)"
  "\<not> cn_worker_in_flight (connection_init now fd)" "\<not> has_data_to_write (connection_init now fd)"
  by (simp_all add: connection_init_def has_data_to_write_def)

definition adds_connection :: "server \<Rightarrow> int \<Rightarrow> connection \<Rightarrow> server \<Rightarrow> bool" where
  "adds_connection s fd c s' \<longleftrightarrow>
     sv_conns s fd = None \<and> 0 \<le> fd \<and> cn_socket_fd c = fd \<and> flags_ok c \<and> \<not> cn_worker_in_flight c \<and>
     sv_conns s' = (sv_conns s)(fd \<mapsto> sv_next s) \<and> sv_heap s' = (sv_heap s)(sv_next s := c) \<and>
     sv_next s' = Suc (sv_next s) \<and> (\<exists>b. sv_armed s' = (sv_armed s)(fd \<mapsto> b)) \<and>
     sv_tasks s' = sv_tasks s \<and> sv_completed s' = sv_completed s"

lemma adds_connection_conns:
  assumes "adds_connection s fd c s'" "conns_ok s"
  shows "conns_ok s'"
  unfolding conns_ok_def
proof (intro conjI allI impI)
  note a = assms(1) [unfolded adds_connection_def]
  show "finite (dom (sv_conns s'))" using a assms(2) by (simp add: conns_ok_def)
  show "0 \<le> fd'" "j < sv_next s'" "cn_socket_fd (conn_of s' j) = fd'" if "sv_conns s' fd' = Some j" for fd' j
    using a that conns_okD [OF assms(2), of fd' j] by (auto split: if_splits)
  fix j
  assume j: "j < sv_next s'" "is_open (conn_of s' j)"
  show "sv_conns s' (cn_socket_fd (conn_of s' j)) = Some j"
  proof (cases "j = sv_next s")
    case True
    then show ?thesis using a by simp
  next
    case False
    then have "sv_conns s (cn_socket_fd (conn_of s j)) = Some j"
      using a j assms(2) by (simp add: conns_ok_def)
    then show ?thesis using False a by auto
  qed
qed

lemma adds_connection_work:
  assumes "adds_connection s fd c s'" "work_ok s"
  shows "work_ok s'"
proof -
  note a = assms(1) [unfolded adds_connection_def]
  have out: "outstanding s' j = outstanding s j" for j using a by (simp add: outstanding_def)
  have none: "outstanding s (sv_next s) = 0" using work_okD(3) [OF assms(2), of "sv_next s"] by auto
  show ?thesis
    unfolding work_ok_def out
  proof (intro conjI allI impI)
    fix j
    note w = work_okD [OF assms(2), of j]
    show "flags_ok (conn_of s' j)" using w(1) a by simp
    show "outstanding s j \<le> 1" using w(2) .
    assume "0 < outstanding s j"
    with w(3,4) none show "j < sv_next s'" "cn_worker_in_flight (conn_of s' j)" using a by auto
  qed
qed

lemma adds_connection_armed:
  assumes "adds_connection s fd c s'" "conns_ok s" "armed_ok s"
  shows "armed_ok s'"
  unfolding armed_ok_def
proof (intro allI impI)
  note a = assms(1) [unfolded adds_connection_def]
  fix fd'
  assume armed: "sv_armed s' fd' \<noteq> None"
  show "\<exists>j. sv_conns s' fd' = Some j \<and> \<not> cn_worker_in_flight (conn_of s' j)"
  proof (cases "fd' = fd")
    case True
    then show ?thesis using a by simp
  next
    case False
    then have "sv_armed s fd' \<noteq> None" using armed a by auto
    then obtain j where j: "sv_conns s fd' = Some j" "\<not> cn_worker_in_flight (conn_of s j)"
      using assms(3) by (auto simp: armed_ok_def)
    moreover have "j \<noteq> sv_next s" using conns_okD [OF assms(2) j(1)] by auto
    ultimately show ?thesis using False a by simp
  qed
qed

lemma new_connection_ok:
  assumes "server_ok s" "sv_conns s fd = None" "0 \<le> fd" "cn_socket_fd c = fd" "flags_ok c"
    "\<not> cn_worker_in_flight c"
    "sv_conns s' = (sv_conns s)(fd \<mapsto> sv_next s)" "sv_heap s' = (sv_heap s)(sv_next s := c)"
    "sv_next s' = Suc (sv_next s)" "sv_armed s' = (sv_armed s)(fd \<mapsto> b)"
    "sv_tasks s' = sv_tasks s" "sv_completed s' = sv_completed s"
    "mt_connections_active (sv_metrics s') = mt_connections_active (sv_metrics s) + 1"
    "mt_workers_in_flight (sv_metrics s') = mt_workers_in_flight (sv_metrics s)"
  shows "server_ok s'"
proof -
  note ok = server_okD [OF assms(1)]
  have a: "adds_connection s fd c s'" using assms(2-12) by (auto simp: adds_connection_def)
  have "card (dom (sv_conns s')) = Suc (card (dom (sv_conns s)))"
    using ok(1) assms(2,7) by (simp add: conns_ok_def card_insert_if domIff)
  then have "gauges_ok s'" using ok(4) assms(11,13,14) by (simp add: gauges_ok_def)
  then show ?thesis
    using adds_connection_conns [OF a ok(1)] adds_connection_work [OF a ok(2)] adds_connection_armed [OF a ok(1,3)]
    by (simp add: server_ok_def)
qed

lemma closed_update_ok: "server_ok (s\<lparr>sv_closed := q\<rparr>) = server_ok s"
  by (simp add: server_ok_def conns_ok_def work_ok_def armed_ok_def gauges_ok_def outstanding_def)

lemma accept_one_ok:
  assumes "server_ok s" "sv_conns s (ac_fd a) = None" "0 \<le> ac_fd a"
  shows "server_ok (accept_one env a s)"
proof (cases "\<not> ac_nonblocking a \<or> \<not> ac_added a \<or> sv_tls s \<and> \<not> ac_session a")
  case True
  then show ?thesis using assms(1) by (auto simp: accept_one_def closed_update_ok)
next
  case False
  let ?c = "(connection_init (en_now env) (ac_fd a))\<lparr>cn_client_ip := ac_ip a, cn_ssl := sv_tls s\<rparr>"
  have c: "cn_socket_fd ?c = ac_fd a" "\<not> cn_worker_in_flight ?c" "flags_ok ?c"
    by (simp_all add: flags_ok_def connection_init_def has_data_to_write_def)
  show ?thesis
    by (rule new_connection_ok [OF assms c(1,3,2), where b = True])
      (use False in \<open>auto simp: accept_one_def Let_def\<close>)
qed

lemma accept_one_conns: "fd \<noteq> ac_fd a \<Longrightarrow> sv_conns (accept_one env a s) fd = sv_conns s fd"
  by (simp add: accept_one_def Let_def)

lemma handle_new_connection_ok:
  "server_ok s \<Longrightarrow> distinct (map ac_fd acs) \<Longrightarrow>
     \<forall>a \<in> set acs. 0 \<le> ac_fd a \<and> sv_conns s (ac_fd a) = None \<Longrightarrow>
     server_ok (handle_new_connection env acs s)"
proof (induction acs arbitrary: s)
  case Nil
  then show ?case by (simp add: handle_new_connection_def)
next
  case (Cons a acs)
  have "server_ok (accept_one env a s)" using Cons.prems by (simp add: accept_one_ok)
  moreover have "\<forall>b \<in> set acs. 0 \<le> ac_fd b \<and> sv_conns (accept_one env a s) (ac_fd b) = None"
  proof
    fix b
    assume b: "b \<in> set acs"
    then have "ac_fd b \<noteq> ac_fd a" using Cons.prems(2) by (metis distinct.simps(2) image_eqI list.simps(9) set_map)
    then show "0 \<le> ac_fd b \<and> sv_conns (accept_one env a s) (ac_fd b) = None"
      using Cons.prems(3) b by (simp add: accept_one_conns)
  qed
  ultimately show ?case using Cons.IH [of "accept_one env a s"] Cons.prems(2)
    by (simp add: handle_new_connection_def)
qed

lemma send_minimal_ok: "server_ok (send_minimal_response env fd bs s) = server_ok s"
  by (simp add: send_minimal_response_def split: option.split)

lemma read_timeout_ok: "server_ok s \<Longrightarrow> server_ok (read_timeout env fd s)"
  by (simp add: read_timeout_def close_connection_ok send_minimal_ok)

lemma handler_timeout_ok: "server_ok s \<Longrightarrow> server_ok (handler_timeout env fd s)"
  by (simp add: handler_timeout_def close_connection_ok send_minimal_ok count_ok)

lemma fold_ok: "(\<And>x s. P s \<Longrightarrow> P (f x s)) \<Longrightarrow> P s \<Longrightarrow> P (fold f xs s)"
  by (induction xs arbitrary: s) auto

lemma enforce_timeouts_ok: "server_ok s \<Longrightarrow> server_ok (enforce_timeouts env s)"
  unfolding enforce_timeouts_def Let_def
  by (auto simp: limiter_ok_update split: option.split
      intro!: fold_ok [where P = server_ok] read_timeout_ok handler_timeout_ok close_connection_ok)

lemma loop_fields_ok:
  "server_ok (s\<lparr>sv_running := a\<rparr>) = server_ok s" "server_ok (s\<lparr>sv_last_cleanup := t\<rparr>) = server_ok s"
  "server_ok (s\<lparr>sv_draining := a\<rparr>) = server_ok s" "server_ok (s\<lparr>sv_drain_deadline := t\<rparr>) = server_ok s"
  "server_ok (s\<lparr>sv_listening := a\<rparr>) = server_ok s" "server_ok (s\<lparr>sv_stop_requested := a\<rparr>) = server_ok s"
  by (simp_all add: server_ok_def conns_ok_def work_ok_def armed_ok_def gauges_ok_def outstanding_def)

lemma loop_tail_ok: "server_ok s \<Longrightarrow> server_ok (loop_tail env s)"
  by (simp add: loop_tail_def Let_def loop_fields_ok stop_accepting_def enforce_timeouts_ok)

section \<open>Every step keeps the invariant\<close>

lemma disarm_simps [simp]:
  "sv_conns (disarm fd s) = sv_conns s" "sv_armed (disarm fd s) = (sv_armed s)(fd := None)"
  "sv_heap (disarm fd s) = sv_heap s"
  by (simp_all add: disarm_def)

lemma armed_live:
  "server_ok s \<Longrightarrow> sv_armed s fd \<noteq> None \<Longrightarrow> sv_conns s fd = Some i \<Longrightarrow> \<not> cn_worker_in_flight (conn_of s i)"
  by (force simp: server_ok_def armed_ok_def)

lemma step_ok: "step app s s' \<Longrightarrow> server_ok s \<Longrightarrow> server_ok s'"
proof (induction rule: step.induct)
  case (step_accept s acs env)
  then show ?case by (simp add: handle_new_connection_ok)
next
  case (step_readable s fd env s')
  show ?case
    by (rule handle_client_data_ok [OF disarm_ok [OF step_readable.prems] _ _ step_readable.hyps(3)])
      (use step_readable armed_live [of s fd] in \<open>auto\<close>)
next
  case (step_writable s fd env s')
  show ?case
    by (rule handle_write_ready_ok [OF disarm_ok [OF step_writable.prems] _ _ step_writable.hyps(3)])
      (use step_writable armed_live [of s fd] in \<open>auto\<close>)
next
  case (step_hangup s fd)
  then show ?case by (simp add: close_connection_ok disarm_ok)
next
  case (step_task k s env s')
  then show ?case using run_task_ok by blast
next
  case (step_wakeup s env)
  then show ?case by (simp add: process_completions_ok)
next
  case (step_stop s)
  then show ?case by (simp add: request_stop_def loop_fields_ok)
next
  case (step_wait_failed s)
  then show ?case by (simp add: loop_fields_ok)
next
  case (step_tail s env)
  then show ?case by (simp add: loop_tail_ok)
qed

lemma server_init_ok: "server_ok (server_init settings tls l now)"
  by (simp add: server_init_def server_ok_def conns_ok_def work_ok_def armed_ok_def gauges_ok_def
      outstanding_def flags_ok_def metrics_init_def is_open_def)

text \<open>The server as a machine with this invariant.\<close>

definition starts :: "settings \<Rightarrow> server \<Rightarrow> bool" where
  "starts settings s \<longleftrightarrow> (\<exists>tls limiter0 now. s = server_init settings tls limiter0 now)"

lemma reachable_reach: "reachable app settings s \<longleftrightarrow> reach (starts settings) (step app) s"
proof
  show "reachable app settings s \<Longrightarrow> reach (starts settings) (step app) s"
    by (induction rule: reachable.induct) (auto simp: starts_def intro: reach_init reach_next)
  show "reach (starts settings) (step app) s \<Longrightarrow> reachable app settings s"
    by (induction rule: reach.induct) (auto simp: starts_def intro: reachable_init reachable_step)
qed

interpretation server_machine: machine "starts settings" "step app" server_ok for settings app
  by unfold_locales (auto simp: starts_def server_init_ok intro: step_ok)

lemma reachable_ok: "reachable app settings s \<Longrightarrow> server_ok s"
  by (simp add: reachable_reach server_machine.always_ok)

end
