(* ===== verification/Server_Props.thy ===== *)
theory Server_Props
  imports Server_Invariants
begin

text \<open>
  The properties of the event loop over its reachable states: live connections and gauges, one
  request of a connection at a time, results that reach only their connection, the bound on the
  handlers in flight, the balance of the counters, the timeouts, the graceful shutdown.
\<close>

section \<open>Connections and requests\<close>

text \<open>
  C5: the map of the live connections and the connection objects agree: an object is in the map
  under its descriptor exactly while its socket is open, so none is leaked and none is used after
  it was closed, and the gauge \<open>connections_active\<close> is their number.
\<close>

theorem live_connections:
  assumes "reachable app settings s"
  shows "(\<forall>fd i. sv_conns s fd = Some i \<longleftrightarrow>
       i < sv_next s \<and> is_open (conn_of s i) \<and> cn_socket_fd (conn_of s i) = fd) \<and>
     mt_connections_active (sv_metrics s) = of_nat (card (dom (sv_conns s)))"
proof -
  note ok = server_okD [OF reachable_ok [OF assms]]
  have "sv_conns s fd = Some i \<longleftrightarrow> i < sv_next s \<and> is_open (conn_of s i) \<and> cn_socket_fd (conn_of s i) = fd"
    for fd i
    using conns_okD [OF ok(1), of fd i] ok(1) by (auto simp: is_open_def conns_ok_def)
  then show ?thesis using ok(4) by (simp add: gauges_ok_def)
qed

text \<open>
  Behind the loop: \<open>connections_\<close> is empty and every socket of a connection no worker holds is
  closed, once; the gauge keeps the number the map had.
\<close>

lemma drop_all:
  assumes "distinct fds"
    "\<And>fd. fd \<in> set fds \<Longrightarrow> \<exists>i. sv_conns s fd = Some i \<and> is_open (conn_of s i) \<and> cn_socket_fd (conn_of s i) = fd"
  shows "sv_conns (fold drop_connection fds s) = sv_conns s |` (- set fds) \<and>
    sv_closed (fold drop_connection fds s) = sv_closed s @ filter (\<lambda>fd. \<not> kept_alive s (the (sv_conns s fd))) fds \<and>
    sv_metrics (fold drop_connection fds s) = sv_metrics s"
  using assms
proof (induction fds arbitrary: s)
  case Nil
  then show ?case by simp
next
  case (Cons fd fds)
  obtain i where i: "sv_conns s fd = Some i" "is_open (conn_of s i)" "cn_socket_fd (conn_of s i) = fd"
    using Cons.prems(2) by auto
  let ?s = "drop_connection fd s"
  have d: "sv_conns ?s = (sv_conns s)(fd := None)" "sv_metrics ?s = sv_metrics s"
    "kept_alive ?s j \<longleftrightarrow> kept_alive s j" "sv_closed ?s = sv_closed s @ (if kept_alive s i then [] else [fd])"
    "j \<noteq> i \<Longrightarrow> conn_of ?s j = conn_of s j" for j
    using i by (simp_all add: drop_connection_def kept_alive_def set_conn_def Let_def)
  have "\<exists>j. sv_conns ?s fd' = Some j \<and> is_open (conn_of ?s j) \<and> cn_socket_fd (conn_of ?s j) = fd'"
    if f: "fd' \<in> set fds" for fd'
  proof -
    obtain j where j: "sv_conns s fd' = Some j" "is_open (conn_of s j)" "cn_socket_fd (conn_of s j) = fd'"
      using Cons.prems(2) f by auto
    have "fd' \<noteq> fd" using f Cons.prems(1) by auto
    with j i have "j \<noteq> i" by auto
    with j d(1) d(5) [of j] \<open>fd' \<noteq> fd\<close> show ?thesis by simp
  qed
  note ih = Cons.IH [OF _ this]
  have f: "filter (\<lambda>fd'. \<not> kept_alive ?s (the (sv_conns ?s fd'))) fds = filter (\<lambda>fd. \<not> kept_alive s (the (sv_conns s fd))) fds"
    using Cons.prems(1) by (intro filter_cong) (auto simp: d)
  have "sv_conns ?s |` (- set fds) = sv_conns s |` (- set (fd # fds))"
    by (rule ext) (simp add: d(1) restrict_map_def)
  then have "sv_conns (fold drop_connection (fd # fds) s) = sv_conns s |` (- set (fd # fds))"
    using ih Cons.prems(1) by simp
  moreover have "sv_closed (fold drop_connection (fd # fds) s) =
      sv_closed s @ filter (\<lambda>fd. \<not> kept_alive s (the (sv_conns s fd))) (fd # fds)"
    using ih Cons.prems(1) f i(1) d(4) by simp
  moreover have "sv_metrics (fold drop_connection (fd # fds) s) = sv_metrics s"
    using ih Cons.prems(1) d(2) by simp
  ultimately show ?case by blast
qed

lemma teardown_clears:
  assumes "reachable app settings s" "distinct (en_fds env)" "set (en_fds env) = dom (sv_conns s)"
  shows "sv_conns (loop_teardown env s) = Map.empty"
    "sv_closed (loop_teardown env s) = sv_closed s @ filter (\<lambda>fd. \<not> kept_alive s (the (sv_conns s fd))) (en_fds env)"
    "mt_connections_active (sv_metrics (loop_teardown env s)) = of_nat (card (dom (sv_conns s)))"
proof -
  note ok = server_okD [OF reachable_ok [OF assms(1)]]
  have "\<exists>i. sv_conns s fd = Some i \<and> is_open (conn_of s i) \<and> cn_socket_fd (conn_of s i) = fd"
    if "fd \<in> set (en_fds env)" for fd
    using that assms(3) conns_okD [OF ok(1)] by (auto simp: is_open_def)
  note d = drop_all [OF assms(2) this]
  show "sv_conns (loop_teardown env s) = Map.empty"
    "sv_closed (loop_teardown env s) = sv_closed s @ filter (\<lambda>fd. \<not> kept_alive s (the (sv_conns s fd))) (en_fds env)"
    "mt_connections_active (sv_metrics (loop_teardown env s)) = of_nat (card (dom (sv_conns s)))"
    using d assms(3) ok(4)
    by (auto simp: loop_teardown_def clear_connections_def stop_accepting_def gauges_ok_def restrict_map_def)
qed

text \<open>
  C3: of one connection at most one request is with the workers or has a result that waits, and
  while there is one the connection takes no event and has nothing left to write: responses leave
  in the order of the requests, and none is set over another.
\<close>

theorem one_request_in_flight:
  assumes "reachable app settings s" "sv_conns s fd = Some i"
  shows "outstanding s i \<le> 1 \<and>
     (outstanding s i = 1 \<longrightarrow>
        cn_processing (conn_of s i) \<and> sv_armed s fd = None \<and> \<not> has_data_to_write (conn_of s i)) \<and>
     (\<not> cn_processing (conn_of s i) \<longrightarrow> \<not> has_data_to_write (conn_of s i))"
proof -
  note sok = reachable_ok [OF assms(1)]
  note w = work_okD [OF server_okD(2) [OF sok], of i]
  have "sv_armed s fd = None" if "outstanding s i = 1"
    using w(4) that armed_idle [OF sok assms(2)] by simp
  with w show ?thesis by (auto simp: flags_ok_def)
qed

lemma complete_one_other:
  assumes "sv_conns s fd = Some j" "cm_conn item \<noteq> j"
  shows "sv_conns (complete_one env item s) fd = Some j" "conn_of (complete_one env item s) j = conn_of s j"
proof -
  have "cm_fd item \<noteq> fd" if "sv_conns s (cm_fd item) = Some (cm_conn item)"
    using that assms by auto
  then show "sv_conns (complete_one env item s) fd = Some j"
    "conn_of (complete_one env item s) j = conn_of s j"
    using assms by (auto simp: complete_one_def Let_def rearm_def close_connection_heap)
qed

lemma complete_fold_other:
  assumes "sv_conns s fd = Some j" "\<forall>item \<in> set q. cm_conn item \<noteq> j"
  shows "sv_conns (fold (complete_one env) q s) fd = Some j \<and> conn_of (fold (complete_one env) q s) j = conn_of s j"
  using assms
proof (induction q arbitrary: s)
  case Nil
  then show ?case by simp
next
  case (Cons item q)
  from Cons.prems(2) have "cm_conn item \<noteq> j" by simp
  note c = complete_one_other [OF Cons.prems(1) this, of env]
  from Cons.IH [OF c(1)] Cons.prems(2) c(2) show ?case by simp
qed

text \<open>
  C4: a result reaches the connection its request came from and no other: a live connection
  without a result of its own is not touched, even when its descriptor is the one a closed
  connection had, and one with a result gets the response and waits to write it.
\<close>

theorem results_reach_their_connection:
  assumes "reachable app settings s" "sv_conns s fd = Some j" "s' = process_completions env s"
  shows "((\<forall>item \<in> set (sv_completed s). cm_conn item \<noteq> j) \<longrightarrow>
       sv_conns s' fd = Some j \<and> conn_of s' j = conn_of s j) \<and>
     (\<forall>item \<in> set (sv_completed s). cm_conn item = j \<and> cm_fd item = fd \<and> en_rearm env fd \<longrightarrow>
       sv_conns s' fd = Some j \<and>
       conn_of s' j = set_response_content (en_os env) (cm_response item)
         ((conn_of s j)\<lparr>cn_worker_in_flight := False\<rparr>))"
proof (intro conjI impI ballI)
  let ?s0 = "s\<lparr>sv_completed := []\<rparr>"
  assume "\<forall>item \<in> set (sv_completed s). cm_conn item \<noteq> j"
  with complete_fold_other [of ?s0 fd j "sv_completed s" env] assms(2,3)
  show "sv_conns s' fd = Some j" "conn_of s' j = conn_of s j"
    by (simp_all add: process_completions_def)
next
  fix item
  assume "item \<in> set (sv_completed s)" and m: "cm_conn item = j \<and> cm_fd item = fd \<and> en_rearm env fd"
  then obtain xs ys where q: "sv_completed s = xs @ item # ys" by (meson split_list)
  note sok = reachable_ok [OF assms(1)]
  have "length (filter (\<lambda>m. cm_conn m = j) (sv_completed s)) \<le> 1"
    using work_okD(2) [OF server_okD(2) [OF sok], of j] by (simp add: outstanding_def)
  then have no: "\<forall>m \<in> set xs. cm_conn m \<noteq> j" "\<forall>m \<in> set ys. cm_conn m \<noteq> j"
    using q m by (auto simp: filter_empty_conv)
  let ?s1 = "fold (complete_one env) xs (s\<lparr>sv_completed := []\<rparr>)"
  have s1: "sv_conns ?s1 fd = Some j" "conn_of ?s1 j = conn_of s j"
    using complete_fold_other [of "s\<lparr>sv_completed := []\<rparr>" fd j xs env] no(1) assms(2) by simp_all
  have "is_open (conn_of s j)"
    using conns_okD [OF server_okD(1) [OF sok] assms(2)] by (simp add: is_open_def)
  then have "sv_conns (complete_one env item ?s1) fd = Some j"
    "conn_of (complete_one env item ?s1) j = set_response_content (en_os env) (cm_response item)
         ((conn_of s j)\<lparr>cn_worker_in_flight := False\<rparr>)"
    using s1 m by (simp_all add: complete_one_def Let_def rearm_def)
  with complete_fold_other [of "complete_one env item ?s1" fd j ys env] no(2) q assms(3)
  show "sv_conns s' fd = Some j" "conn_of s' j = set_response_content (en_os env) (cm_response item)
         ((conn_of s j)\<lparr>cn_worker_in_flight := False\<rparr>)"
    by (simp_all add: process_completions_def)
qed

section \<open>Counters\<close>

text \<open>What each operation does to the tasks, the settings and the counters.\<close>

definition balance :: "server \<Rightarrow> counter" where
  "balance s =
     responses_total (sv_metrics s) + of_nat (length (sv_tasks s)) -
     mt_requests_total (sv_metrics s) - mt_handler_timeouts_total (sv_metrics s)"

definition same_book :: "server \<Rightarrow> server \<Rightarrow> bool" where
  "same_book s s' \<longleftrightarrow>
     sv_settings s' = sv_settings s \<and> sv_tasks s' = sv_tasks s \<and> balance s' = balance s \<and>
     sv_draining s' = sv_draining s \<and> sv_drain_deadline s' = sv_drain_deadline s \<and>
     sv_listening s' = sv_listening s \<and> sv_next s' = sv_next s \<and>
     mt_workers_in_flight (sv_metrics s') = mt_workers_in_flight (sv_metrics s)"

lemma same_book_refl [simp]: "same_book s s"
  by (simp add: same_book_def)

lemma same_book_trans: "same_book a b \<Longrightarrow> same_book b c \<Longrightarrow> same_book a c"
  by (simp add: same_book_def)

lemma same_book_simps [simp]:
  "same_book s (set_conn i c t) \<longleftrightarrow> same_book s t" "same_book s (put_wire i w t) \<longleftrightarrow> same_book s t"
  "same_book s (close_connection fd t) \<longleftrightarrow> same_book s t"
  "same_book s (rearm env fd b t) \<longleftrightarrow> same_book s t"
  "same_book s (t\<lparr>sv_completed := q\<rparr>) \<longleftrightarrow> same_book s t"
  "same_book s (disarm fd t) \<longleftrightarrow> same_book s t"
  "same_book s (t\<lparr>sv_limiter := l\<rparr>) \<longleftrightarrow> same_book s t"
  "same_book s (t\<lparr>sv_closed := cl\<rparr>) \<longleftrightarrow> same_book s t"
  "same_book s (send_minimal_response env fd w t) \<longleftrightarrow> same_book s t"
  by (auto simp: same_book_def balance_def close_counted_def responses_total_def rearm_def disarm_def
      send_minimal_response_def split: option.split)

definition book_step :: "server \<Rightarrow> server \<Rightarrow> bool" where
  "book_step s s' \<longleftrightarrow>
     sv_settings s' = sv_settings s \<and> balance s' = balance s \<and>
     sv_draining s' = sv_draining s \<and> sv_drain_deadline s' = sv_drain_deadline s \<and>
     sv_listening s' = sv_listening s \<and> sv_next s' = sv_next s \<and>
     (sv_tasks s' = sv_tasks s \<or> (\<exists>t. sv_tasks s' = sv_tasks s @ [t]) \<and> \<not> at_capacity s)"

lemma same_book_step: "same_book s s' \<Longrightarrow> book_step s s'"
  by (simp add: same_book_def book_step_def)

lemma book_step_after: "same_book s s1 \<Longrightarrow> book_step s1 s2 \<Longrightarrow> book_step s s2"
  by (auto simp: same_book_def book_step_def at_capacity_def)

lemma rate_allowed_book: "rate_allowed env c s = (ok, s') \<Longrightarrow> same_book s s'"
  by (auto simp: rate_allowed_def split: option.splits prod.splits)

lemma parse_next_steps: "book_step s (close_connection fd (set_conn i c s))"
  by (simp add: same_book_step)

definition keeps_book :: "(metrics \<Rightarrow> metrics) \<Rightarrow> bool" where
  "keeps_book f \<longleftrightarrow>
     (\<forall>m. responses_total (f m) = responses_total m \<and> mt_requests_total (f m) = mt_requests_total m \<and>
          mt_handler_timeouts_total (f m) = mt_handler_timeouts_total m \<and>
          mt_workers_in_flight (f m) = mt_workers_in_flight m)"

lemma keeps_book_simps [simp]:
  "keeps_book (\<lambda>m. m\<lparr>mt_rate_limited_total := x m\<rparr>)" "keeps_book (\<lambda>m. m\<lparr>mt_load_shed_total := x m\<rparr>)"
  by (simp_all add: keeps_book_def responses_total_def)

lemma answer_now_book:
  assumes "200 \<le> status_code st" "keeps_book f"
    "same_book s s1" "s2 = count (\<lambda>m. m\<lparr>mt_requests_total := mt_requests_total m + 1\<rparr>) s1"
    "same_book s2 s3"
  shows "book_step s (answer_now env app st msg f consumed fd i s3)"
proof -
  let ?s4 = "count (record_status (status_code st) \<circ> f) s3"
  have r: "responses_total (f m) = responses_total m" "mt_requests_total (f m) = mt_requests_total m"
    "mt_handler_timeouts_total (f m) = mt_handler_timeouts_total m" for m
    using assms(2) by (auto simp: keeps_book_def)
  have "balance ?s4 = balance s3 + 1"
    using record_status_total [OF assms(1)] by (simp add: balance_def r)
  moreover have "balance s2 = balance s1 - 1"
    using assms(4) by (simp add: balance_def responses_total_def)
  ultimately have "book_step s ?s4"
    using assms(3-5) by (auto simp: same_book_def book_step_def)
  moreover have "same_book ?s4 (answer_now env app st msg f consumed fd i s3)"
    by (simp add: answer_now_def Let_def)
  ultimately show ?thesis by (auto simp: same_book_def book_step_def)
qed

lemma dispatch_next_book:
  assumes "dispatch_next env app fd i s = Some s'"
  shows "book_step s s'"
proof (cases "cn_processing (conn_of s i)")
  case True
  then show ?thesis using assms by (simp add: dispatch_next_def same_book_step)
next
  case idle: False
  then obtain got_one consumed c where p: "parse_next (conn_of s i) = Some (got_one, consumed, c)"
    using assms by (auto simp: dispatch_next_def split: option.splits)
  let ?s1 = "set_conn i c s"
  show ?thesis
  proof (cases got_one)
    case True
    let ?s2 = "count (\<lambda>m. m\<lparr>mt_requests_total := mt_requests_total m + 1\<rparr>) ?s1"
    obtain ok s3 where r: "rate_allowed env c ?s2 = (ok, s3)" by (cases "rate_allowed env c ?s2") simp
    note b = rate_allowed_book [OF r]
    have ans: "book_step s (answer_now env app st msg f consumed fd i s3)"
      if "200 \<le> status_code st" "keeps_book f" for st msg f
      by (rule answer_now_book [OF that, of s ?s1]) (use b in simp_all)
    show ?thesis
    proof (cases ok)
      case False
      then have "s' = answer_now env app TOO_MANY_REQUESTS ''Too Many Requests''
          (\<lambda>m. m\<lparr>mt_rate_limited_total := mt_rate_limited_total m + 1\<rparr>) consumed fd i s3"
        using assms idle p True r by (simp add: dispatch_next_def Let_def)
      then show ?thesis using ans by simp
    next
      case allowed: True
      show ?thesis
      proof (cases "at_capacity s3")
        case full: True
        then have "s' = answer_now env app SERVICE_UNAVAILABLE ''Service Unavailable''
            (\<lambda>m. m\<lparr>mt_load_shed_total := mt_load_shed_total m + 1\<rparr>) consumed fd i s3"
          using assms idle p True r allowed by (simp add: dispatch_next_def Let_def)
        then show ?thesis using ans by simp
      next
        case room: False
        have cap: "\<not> at_capacity s"
          using room b by (simp add: at_capacity_def same_book_def)
        obtain c' t where s': "s' = (count (\<lambda>m. m\<lparr>mt_workers_in_flight := mt_workers_in_flight m + 1\<rparr>)
              (set_conn i c' s3))\<lparr>sv_tasks := sv_tasks s3 @ [t]\<rparr>"
          using assms idle p True r allowed room by (auto simp: dispatch_next_def Let_def)
        have "balance s' = balance s3 + 1" unfolding s' by (simp add: balance_def responses_total_def)
        moreover have "balance ?s2 = balance s - 1" by (simp add: balance_def responses_total_def)
        ultimately have "balance s' = balance s" using b by (simp add: same_book_def)
        then show ?thesis using b cap unfolding s' by (simp add: same_book_def book_step_def)
      qed
    qed
  next
    case False
    obtain w c' where m: "maybe_send_100_continue c = (w, c')" by (metis prod.exhaust)
    have "same_book s s'"
      using assms idle p False m by (auto simp: dispatch_next_def Let_def split: if_splits)
    then show ?thesis by (rule same_book_step)
  qed
qed

lemma drive_tls_book: "drive_tls_handshake env fd i s = (proceed, s') \<Longrightarrow> same_book s s'"
  by (auto simp: drive_tls_handshake_def Let_def split: prod.splits if_splits)

lemma handle_client_data_book:
  assumes "handle_client_data env app fd s = Some s'"
  shows "book_step s s'"
proof (cases "sv_conns s fd")
  case None
  then show ?thesis using assms by (simp add: handle_client_data_def same_book_step)
next
  case (Some i)
  obtain proceed s1 where h:
    "(if needs_handshake (conn_of s i) then drive_tls_handshake env fd i s else (True, s)) = (proceed, s1)"
    by (metis prod.exhaust)
  have b1: "same_book s s1" using h drive_tls_book by (auto split: if_splits)
  obtain n c where r: "read_data (en_now env) (en_recv env) (conn_of s1 i) = (n, c)" by (metis prod.exhaust)
  show ?thesis
  proof (cases "is_open (conn_of s i) \<and> proceed")
    case False
    then have "s' = close_connection fd s \<or> s' = s1"
      using assms Some h by (auto simp: handle_client_data_def split: if_splits)
    then show ?thesis using b1 by (auto simp: same_book_step)
  next
    case True
    have b2: "same_book s (set_conn i c s1)" using b1 by simp
    show ?thesis
    proof (cases "n = 0 \<or> n = -1")
      case True
      then have "s' = close_connection fd (set_conn i c s1)"
        using assms Some h r \<open>is_open (conn_of s i) \<and> proceed\<close> by (auto simp: handle_client_data_def)
      then show ?thesis using b2 by (simp add: same_book_step)
    next
      case False
      then have "dispatch_next env app fd i (set_conn i c s1) = Some s'"
        using assms Some h r \<open>is_open (conn_of s i) \<and> proceed\<close> by (simp add: handle_client_data_def)
      then show ?thesis by (rule book_step_after [OF b2 dispatch_next_book])
    qed
  qed
qed

lemma handle_write_ready_book:
  assumes "handle_write_ready env app fd s = Some s'"
  shows "book_step s s'"
proof (cases "sv_conns s fd")
  case None
  then show ?thesis using assms by (simp add: handle_write_ready_def same_book_step)
next
  case (Some i)
  obtain proceed s1 where h: "drive_tls_handshake env fd i s = (proceed, s1)" by (metis prod.exhaust)
  note b1 = drive_tls_book [OF h]
  obtain n w c where w: "write_data (en_os env) (en_now env) (en_io env) (conn_of s i) = (n, w, c)"
    by (metis prod_cases3)
  let ?s1 = "put_wire i w (set_conn i c s)"
  let ?s2 = "set_conn i (update_activity (en_now env) ((clear_response_state c)\<lparr>cn_processing := False\<rparr>)) ?s1"
  have b2: "same_book s ?s2" by simp
  show ?thesis
  proof (cases "is_open (conn_of s i) \<and> \<not> needs_handshake (conn_of s i)")
    case False
    then have "s' = close_connection fd s \<or> s' = s1 \<or> s' = rearm env fd True s1"
      using assms Some h by (auto simp: handle_write_ready_def split: if_splits)
    then show ?thesis using b1 by (auto simp: same_book_step)
  next
    case ready: True
    show ?thesis
    proof (cases "n < 0 \<or> has_data_to_write c \<or> \<not> cn_keep_alive c \<or> sv_draining s")
      case True
      then have "s' = close_connection fd ?s1 \<or> s' = rearm env fd False ?s1"
        using assms Some w ready by (auto simp: handle_write_ready_def Let_def split: if_splits)
      then show ?thesis by (auto simp: same_book_step)
    next
      case False
      then have "dispatch_next env app fd i ?s2 = Some s'"
        using assms Some w ready by (simp add: handle_write_ready_def Let_def)
      then show ?thesis by (rule book_step_after [OF b2 dispatch_next_book])
    qed
  qed
qed

lemma process_completions_book: "same_book s (process_completions env s)"
proof -
  have "same_book s t \<Longrightarrow> same_book s (fold (complete_one env) q t)" for q t
    by (rule fold_ok) (auto simp: complete_one_def Let_def)
  from this [of "s\<lparr>sv_completed := []\<rparr>" "sv_completed s"] show ?thesis
    by (simp add: process_completions_def)
qed

lemma handler_timeout_book:
  assumes "same_book s t"
  shows "same_book s (handler_timeout env fd t)"
proof -
  let ?f = "\<lambda>m. m\<lparr>mt_handler_timeouts_total := mt_handler_timeouts_total m + 1\<rparr>"
  have "responses_total (?f m) = responses_total m" for m by (simp add: responses_total_def)
  then have "balance (count (record_status 504 \<circ> ?f) t) = balance t"
    by (simp add: balance_def record_status_total)
  with assms have "same_book s (count (record_status 504 \<circ> ?f) t)" by (simp add: same_book_def)
  then show ?thesis by (simp add: handler_timeout_def)
qed

lemma enforce_timeouts_book: "same_book s (enforce_timeouts env s)"
proof -
  have "same_book s (fold close_connection p (fold (handler_timeout env) h (fold (read_timeout env) r s)))" for p h r
    by (intro fold_ok [where P = "same_book s"] handler_timeout_book)
      (simp_all add: read_timeout_def)
  then show ?thesis by (simp add: enforce_timeouts_def Let_def split: option.split)
qed

text \<open>
  Whether a request ends in a response that is counted: not if a foreign exception escapes its
  handler, nor if its status is an informational one, for which there is no class.
\<close>

definition counted :: "app \<Rightarrow> http_request \<Rightarrow> bool" where
  "counted app req \<longleftrightarrow>
     (case handle_request app req of Some (Some res) \<Rightarrow> 200 \<le> status_code (rs_status res) | _ \<Rightarrow> False)"

lemma run_task_book:
  assumes "run_task env app k s = Some s'" "k < length (sv_tasks s)"
  shows "sv_settings s' = sv_settings s" "length (sv_tasks s') < length (sv_tasks s)"
    "sv_draining s' = sv_draining s" "sv_drain_deadline s' = sv_drain_deadline s"
    "sv_listening s' = sv_listening s" "sv_next s' = sv_next s"
    "balance s' = balance s - (if counted app (tk_request (sv_tasks s ! k)) then 0 else 1)"
proof -
  let ?t = "take k (sv_tasks s) @ drop (Suc k) (sv_tasks s)"
  have len: "length (sv_tasks s) = Suc (length ?t)" using assms(2) by simp
  obtain r where r: "handle_request app (tk_request (sv_tasks s ! k)) = Some r"
    using assms(1) by (auto simp: run_task_def Let_def split: option.splits)
  show "sv_settings s' = sv_settings s" "length (sv_tasks s') < length (sv_tasks s)"
    "sv_draining s' = sv_draining s" "sv_drain_deadline s' = sv_drain_deadline s"
    "sv_listening s' = sv_listening s" "sv_next s' = sv_next s"
    using assms r by (auto simp: run_task_def Let_def split: option.splits)
  let ?sent = "\<lambda>v. (observe_duration (rat_of_int (en_now env - tk_start (sv_tasks s ! k)) / rat_of_int nanos) \<circ>
           record_status (status_code (rs_status v)))"
  let ?m = "(sv_metrics s)\<lparr>mt_workers_in_flight := mt_workers_in_flight (sv_metrics s) - 1\<rparr>"
  have s': "sv_tasks s' = ?t" "sv_metrics s' = (case r of None \<Rightarrow> ?m | Some v \<Rightarrow> ?sent v ?m)"
    using assms(1) r by (auto simp: run_task_def Let_def split: option.splits)
  have "responses_total (sv_metrics s') =
      responses_total (sv_metrics s) + (if counted app (tk_request (sv_tasks s ! k)) then 1 else 0)"
  proof (cases r)
    case None
    then show ?thesis using r by (simp add: s' counted_def) (simp add: responses_total_def)
  next
    case (Some v)
    have "responses_total (record_status (status_code (rs_status v)) ?m) =
        responses_total (sv_metrics s) + (if 200 \<le> status_code (rs_status v) then 1 else 0)"
      by (simp add: record_status_total record_status_informational) (simp add: responses_total_def)
    then show ?thesis using r Some by (simp add: s' counted_def)
  qed
  moreover have "mt_requests_total (sv_metrics s') = mt_requests_total (sv_metrics s)"
    "mt_handler_timeouts_total (sv_metrics s') = mt_handler_timeouts_total (sv_metrics s)"
    unfolding s' by (simp_all split: option.split)
  ultimately show "balance s' = balance s - (if counted app (tk_request (sv_tasks s ! k)) then 0 else 1)"
    unfolding balance_def s'(1) len by simp
qed

lemma accept_one_book:
  "sv_settings (accept_one env a s) = sv_settings s" "sv_tasks (accept_one env a s) = sv_tasks s"
  "balance (accept_one env a s) = balance s" "sv_draining (accept_one env a s) = sv_draining s"
  "sv_drain_deadline (accept_one env a s) = sv_drain_deadline s"
  "sv_listening (accept_one env a s) = sv_listening s"
  by (simp_all add: accept_one_def Let_def balance_def responses_total_def)

lemma handle_new_connection_book:
  "sv_settings (handle_new_connection env acs s) = sv_settings s"
  "sv_tasks (handle_new_connection env acs s) = sv_tasks s"
  "balance (handle_new_connection env acs s) = balance s"
  unfolding handle_new_connection_def
  by (induction acs arbitrary: s) (simp_all add: accept_one_book)

lemma loop_tail_book:
  "sv_settings (loop_tail env s) = sv_settings s" "sv_tasks (loop_tail env s) = sv_tasks s"
  "balance (loop_tail env s) = balance s" "sv_next (loop_tail env s) = sv_next s"
proof -
  have e: "sv_settings (enforce_timeouts env t) = sv_settings t \<and> sv_tasks (enforce_timeouts env t) = sv_tasks t \<and>
      balance (enforce_timeouts env t) = balance t \<and> sv_next (enforce_timeouts env t) = sv_next t" for t
    using enforce_timeouts_book [of t env] by (simp add: same_book_def)
  have b: "balance (t\<lparr>sv_running := x\<rparr>) = balance t" "balance (t\<lparr>sv_last_cleanup := n\<rparr>) = balance t"
    "balance (t\<lparr>sv_listening := x\<rparr>) = balance t" "balance (t\<lparr>sv_draining := x\<rparr>) = balance t"
    "balance (t\<lparr>sv_drain_deadline := n\<rparr>) = balance t" for t x n
    by (simp_all add: balance_def)
  show "sv_settings (loop_tail env s) = sv_settings s" "sv_tasks (loop_tail env s) = sv_tasks s"
    "balance (loop_tail env s) = balance s" "sv_next (loop_tail env s) = sv_next s"
    by (simp_all add: loop_tail_def Let_def stop_accepting_def e b)
qed

text \<open>One step of the server, as far as the tasks and the counters are concerned.\<close>

lemma step_book:
  assumes "step app s s'"
  shows "sv_settings s' = sv_settings s" "length (sv_tasks s) \<le> length (sv_tasks s') \<Longrightarrow> balance s' = balance s"
    "length (sv_tasks s') \<le> length (sv_tasks s) \<or>
       length (sv_tasks s') = Suc (length (sv_tasks s)) \<and> \<not> at_capacity s"
    "length (sv_tasks s) \<le> length (sv_tasks s') \<or> (\<exists>k env. k < length (sv_tasks s) \<and> run_task env app k s = Some s')"
proof -
  have d: "book_step s s'" if "book_step (disarm fd s) s'" for fd
    by (rule book_step_after [OF _ that]) simp
  have all: "sv_settings s' = sv_settings s \<and> balance s' = balance s \<and>
      (length (sv_tasks s') \<le> length (sv_tasks s) \<or>
       length (sv_tasks s') = Suc (length (sv_tasks s)) \<and> \<not> at_capacity s) \<and>
      length (sv_tasks s) \<le> length (sv_tasks s')" if "book_step s s'"
    using that by (auto simp: book_step_def)
  have "sv_settings s' = sv_settings s \<and> (length (sv_tasks s) \<le> length (sv_tasks s') \<longrightarrow> balance s' = balance s) \<and>
      (length (sv_tasks s') \<le> length (sv_tasks s) \<or>
       length (sv_tasks s') = Suc (length (sv_tasks s)) \<and> \<not> at_capacity s) \<and>
      (length (sv_tasks s) \<le> length (sv_tasks s') \<or> (\<exists>k env. k < length (sv_tasks s) \<and> run_task env app k s = Some s'))"
    using assms
  proof cases
    case (step_accept acs env)
    then show ?thesis by (simp add: handle_new_connection_book)
  next
    case (step_readable fd env)
    then show ?thesis using all [OF d [OF handle_client_data_book]] by blast
  next
    case (step_writable fd env)
    then show ?thesis using all [OF d [OF handle_write_ready_book]] by blast
  next
    case (step_hangup fd)
    then have "same_book s s'" by simp
    then show ?thesis using all [OF same_book_step] by blast
  next
    case (step_task k env)
    then show ?thesis using run_task_book(1,2) [OF step_task(2,1)] by auto
  next
    case (step_wakeup env)
    then show ?thesis using all [OF same_book_step] process_completions_book [of s env] by blast
  next
    case step_stop
    then show ?thesis by (simp add: request_stop_def balance_def)
  next
    case step_wait_failed
    then show ?thesis by (simp add: balance_def)
  next
    case (step_tail env)
    then show ?thesis by (simp add: loop_tail_book)
  qed
  then show "sv_settings s' = sv_settings s" "length (sv_tasks s) \<le> length (sv_tasks s') \<Longrightarrow> balance s' = balance s"
    "length (sv_tasks s) \<le> length (sv_tasks s') \<or> (\<exists>k env. k < length (sv_tasks s) \<and> run_task env app k s = Some s')"
    "length (sv_tasks s') \<le> length (sv_tasks s) \<or>
       length (sv_tasks s') = Suc (length (sv_tasks s)) \<and> \<not> at_capacity s"
    by simp_all
qed

lemma reachable_settings: "reachable app settings s \<Longrightarrow> sv_settings s = settings"
  by (induction rule: reachable.induct) (simp_all add: server_init_def step_book(1))

text \<open>
  C17: with a limit on the concurrent handlers, no more than that many requests are with the
  workers, in every reachable state: further ones are answered 503 by the event loop.
\<close>

theorem handlers_bounded:
  assumes "reachable app settings s" "0 < st_max_concurrent_handlers settings"
    "st_max_concurrent_handlers settings < 2 ^ 31"
  shows "int (length (sv_tasks s)) \<le> st_max_concurrent_handlers settings"
  using assms(1)
proof (induction rule: reachable.induct)
  case (reachable_init tls limiter0 now)
  then show ?case using assms(2) by (simp add: server_init_def)
next
  case (reachable_step s s')
  let ?n = "length (sv_tasks s)"
  have small: "int ?n < 2 ^ 31" using reachable_step.IH assms(3) by linarith
  have g: "mt_workers_in_flight (sv_metrics s) = of_nat ?n"
    using server_okD(4) [OF reachable_ok [OF reachable_step.hyps(1)]] by (simp add: gauges_ok_def)
  have "sint (of_nat ?n :: counter) = int ?n"
    using small by (simp add: signed_of_nat signed_take_bit_int_eq_self)
  then have "int ?n < st_max_concurrent_handlers settings" if "\<not> at_capacity s"
    using that g assms(2) reachable_settings [OF reachable_step.hyps(1)] by (simp add: at_capacity_def)
  then show ?case
    using step_book(3) [OF reachable_step.hyps(2)] reachable_step.IH by auto
qed

text \<open>The states of the server with the number of tasks that have ended without a counted response.\<close>

inductive lost_tasks :: "app \<Rightarrow> settings \<Rightarrow> nat \<Rightarrow> server \<Rightarrow> bool" for app settings where
  lost_init: "lost_tasks app settings 0 (server_init settings tls limiter0 now)"
| lost_task:
    "lost_tasks app settings n s \<Longrightarrow> k < length (sv_tasks s) \<Longrightarrow> run_task env app k s = Some s' \<Longrightarrow>
     lost_tasks app settings (if counted app (tk_request (sv_tasks s ! k)) then n else Suc n) s'"
| lost_other:
    "lost_tasks app settings n s \<Longrightarrow> step app s s' \<Longrightarrow> length (sv_tasks s) \<le> length (sv_tasks s') \<Longrightarrow>
     lost_tasks app settings n s'"

lemma lost_tasks_reachable: "reachable app settings s \<longleftrightarrow> (\<exists>n. lost_tasks app settings n s)"
proof
  show "\<exists>n. lost_tasks app settings n s" if "reachable app settings s"
    using that
  proof (induction rule: reachable.induct)
    case (reachable_init tls limiter0 now)
    show ?case by (rule exI) (rule lost_init)
  next
    case (reachable_step s s')
    then show ?case using step_book(4) [OF reachable_step(2)] lost_task lost_other by meson
  qed
  show "reachable app settings s" if "\<exists>n. lost_tasks app settings n s"
  proof -
    from that obtain n where "lost_tasks app settings n s" ..
    then show ?thesis
      by (induction rule: lost_tasks.induct) (auto intro: reachable.intros step_task)
  qed
qed

lemma lost_tasks_balance: "lost_tasks app settings n s \<Longrightarrow> balance s = - of_nat n"
proof (induction rule: lost_tasks.induct)
  case (lost_init tls limiter0 now)
  then show ?case by (simp add: server_init_def balance_def metrics_init_def responses_total_def)
next
  case (lost_task n s k env s')
  then show ?case using run_task_book(7) [OF lost_task(3,2)] by simp
next
  case (lost_other n s s')
  then show ?case using step_book(2) [OF lost_other(2,3)] by simp
qed

text \<open>
  C18: the counters balance: every request that was read has been answered and counted once by its
  status class, or is with a worker, or is one of the tasks that ended without a counted response
  (a foreign exception, or an informational status); a request that ran into the handler timeout
  is counted again, as a 504, besides the status of its late result. Every reachable state has such
  a number of lost tasks, and it is 0 when every handler ends in a counted response.
\<close>

theorem counters_balance:
  "(reachable app settings s \<longleftrightarrow> (\<exists>n. lost_tasks app settings n s)) \<and>
   (\<forall>n. lost_tasks app settings n s \<longrightarrow>
      mt_requests_total (sv_metrics s) + mt_handler_timeouts_total (sv_metrics s) =
        responses_total (sv_metrics s) + of_nat (length (sv_tasks s)) + of_nat n \<and>
      ((\<forall>req. handle_request app req \<noteq> None \<longrightarrow> counted app req) \<longrightarrow> n = 0))"
proof (intro conjI allI impI)
  show "reachable app settings s \<longleftrightarrow> (\<exists>n. lost_tasks app settings n s)" by (rule lost_tasks_reachable)
next
  fix n
  assume lost: "lost_tasks app settings n s"
  show "mt_requests_total (sv_metrics s) + mt_handler_timeouts_total (sv_metrics s) =
        responses_total (sv_metrics s) + of_nat (length (sv_tasks s)) + of_nat n"
    using lost_tasks_balance [OF lost] by (simp add: balance_def algebra_simps)
  show "n = 0" if all: "\<forall>req. handle_request app req \<noteq> None \<longrightarrow> counted app req"
    using lost
  proof (induction rule: lost_tasks.induct)
    case (lost_task n s k env s')
    then have "handle_request app (tk_request (sv_tasks s ! k)) \<noteq> None"
      by (auto simp: run_task_def Let_def split: option.splits)
    with all lost_task show ?case by auto
  qed simp_all
qed

end
