(* ===== verification/Server_Loop.thy ===== *)
theory Server_Loop
  imports Server_Props
begin

text \<open>
  The sweep of the timeouts, the graceful shutdown, and two ways a client is served badly: a
  request larger than the read buffer, and a TLS read that waits for the socket to become writable.
\<close>

section \<open>Timeouts\<close>

text \<open>
  The connections of a set of descriptors are closed, each after \<open>say\<close> has been sent to it: the
  others keep their object and are sent nothing.
\<close>

definition closes :: "int set \<Rightarrow> (int \<Rightarrow> connection \<Rightarrow> string) \<Rightarrow> server \<Rightarrow> server \<Rightarrow> bool" where
  "closes fds say s s' \<longleftrightarrow>
     (\<forall>fd. sv_conns s' fd = (if fd \<in> fds then None else sv_conns s fd)) \<and>
     (\<forall>fd i. sv_conns s' fd = Some i \<longrightarrow> conn_of s' i = conn_of s i) \<and>
     sv_settings s' = sv_settings s \<and>
     (\<forall>fd i. sv_conns s fd = Some i \<longrightarrow>
        sv_wire s' i = sv_wire s i @ (if fd \<in> fds then say fd (conn_of s i) else [])) \<and>
     (\<forall>i. i \<notin> ran (sv_conns s) \<longrightarrow> sv_wire s' i = sv_wire s i)"

lemma closes_wire:
  "closes fds say s s' \<Longrightarrow> sv_conns s fd = Some i \<Longrightarrow>
     sv_wire s' i = sv_wire s i @ (if fd \<in> fds then say fd (conn_of s i) else [])"
  by (simp add: closes_def)

lemma closes_trans:
  assumes "conns_ok s" "closes a f s t" "closes b g t u"
  shows "closes (a \<union> b) (\<lambda>fd. if fd \<in> a then f fd else g fd) s u"
proof -
  have wire: "sv_wire u i = sv_wire s i @ (if fd \<in> a then f fd (conn_of s i) else if fd \<in> b then g fd (conn_of s i) else [])"
    if i: "sv_conns s fd = Some i" for fd i
  proof (cases "fd \<in> a")
    case True
    have "i \<notin> ran (sv_conns t)"
    proof
      assume "i \<in> ran (sv_conns t)"
      then obtain fd' where "sv_conns t fd' = Some i" by (auto simp: ran_def)
      moreover from this assms(2) have "sv_conns s fd' = Some i" "fd' \<notin> a" by (auto simp: closes_def split: if_splits)
      ultimately show False using conns_ok_inject [OF assms(1) i] True by blast
    qed
    then show ?thesis using True i assms(2,3) by (simp add: closes_def)
  next
    case False
    then have live: "sv_conns t fd = Some i" using i assms(2) by (simp add: closes_def)
    moreover from this have "conn_of t i = conn_of s i" using assms(2) unfolding closes_def by blast
    ultimately have "sv_conns t fd = Some i" "conn_of t i = conn_of s i" .
    then show ?thesis
      using closes_wire [OF assms(2) i] closes_wire [OF assms(3), of fd i] False by simp
  qed
  have "i \<notin> ran (sv_conns t)" if "i \<notin> ran (sv_conns s)" for i
    using that assms(2) by (auto simp: closes_def ran_def split: if_splits)
  then show ?thesis using assms(2,3) wire by (auto simp: closes_def split: if_splits)
qed

lemma closes_fold:
  assumes "\<And>fd t. conns_ok t \<Longrightarrow> closes {fd} say t (f fd t) \<and> conns_ok (f fd t)" "conns_ok s"
  shows "closes (set fds) say s (fold f fds s) \<and> conns_ok (fold f fds s)"
  using assms(2)
proof (induction fds arbitrary: s)
  case Nil
  then show ?case by (simp add: closes_def)
next
  case (Cons fd fds)
  note one = assms(1) [OF Cons.prems, of fd]
  from Cons.IH [OF conjunct2 [OF one]] closes_trans [OF Cons.prems conjunct1 [OF one], of "set fds" say] show ?case
    by simp
qed

text \<open>Closing after an update that sends something to the one connection.\<close>

lemma close_connection_closes:
  assumes "conns_ok s" "sv_conns t = sv_conns s" "sv_heap t = sv_heap s" "sv_next t = sv_next s"
    "sv_settings t = sv_settings s"
    "\<And>i. sv_wire t i = sv_wire s i @ (if sv_conns s fd = Some i then say fd (conn_of s i) else [])"
  shows "closes {fd} say s (close_connection fd t) \<and> conns_ok (close_connection fd t)"
proof
  have t: "conns_ok t" using assms(1-4) by (simp add: conns_ok_def)
  have "sv_conns s fd \<noteq> Some i" if "sv_conns s fd' = Some i" "fd' \<noteq> fd" for fd' i
    using conns_ok_inject [OF assms(1) that(1)] that(2) by blast
  then show "closes {fd} say s (close_connection fd t)"
    using assms(2,3,5,6) by (auto simp: closes_def close_connection_heap ran_def)
  show "conns_ok (close_connection fd t)"
  proof (cases "sv_conns t fd")
    case None
    then have "sv_conns (close_connection fd t) = sv_conns t" "sv_heap (close_connection fd t) = sv_heap t"
      by (auto simp: close_connection_heap)
    then show ?thesis using t by (simp add: conns_ok_def)
  next
    case (Some i)
    then show ?thesis by (rule close_live_conns_ok [OF t])
  qed
qed

lemma send_minimal_simps [simp]:
  "sv_conns (send_minimal_response env fd w s) = sv_conns s"
  "sv_heap (send_minimal_response env fd w s) = sv_heap s"
  "sv_next (send_minimal_response env fd w s) = sv_next s"
  "sv_settings (send_minimal_response env fd w s) = sv_settings s"
  by (simp_all add: send_minimal_response_def split: option.split)

text \<open>What a best effort sends: not a byte before the handshake is done.\<close>

definition farewell :: "env \<Rightarrow> string \<Rightarrow> int \<Rightarrow> connection \<Rightarrow> string" where
  "farewell env bytes fd c = (if needs_handshake c then [] else take (en_best_effort env fd) bytes)"

lemma send_minimal_wire:
  "conns_ok s \<Longrightarrow> sv_wire (send_minimal_response env fd w s) i =
     sv_wire s i @ (if sv_conns s fd = Some i then farewell env w fd (conn_of s i) else [])"
  by (auto simp: send_minimal_response_def farewell_def put_wire_def is_open_def dest: conns_okD split: option.split)

lemma conns_ok_count: "conns_ok (count f s) = conns_ok s"
  by (simp add: conns_ok_def)

lemma timeout_closes:
  assumes "conns_ok s"
  shows "closes {fd} (farewell env k408) s (read_timeout env fd s) \<and> conns_ok (read_timeout env fd s)"
    "closes {fd} (farewell env k504) s (handler_timeout env fd s) \<and> conns_ok (handler_timeout env fd s)"
    "closes {fd} (\<lambda>fd c. []) s (close_connection fd s) \<and> conns_ok (close_connection fd s)"
  unfolding read_timeout_def handler_timeout_def
  by (rule close_connection_closes [OF assms]; simp add: assms send_minimal_wire conns_ok_count)+

lemma enforce_timeouts_closes:
  assumes "conns_ok s"
  shows "closes (set (timed_out env ReadTimeout s) \<union> set (timed_out env HandlerTimeout s) \<union> set (timed_out env PlainClose s))
     (\<lambda>fd. if fd \<in> set (timed_out env ReadTimeout s) \<union> set (timed_out env HandlerTimeout s)
       then if fd \<in> set (timed_out env ReadTimeout s) then farewell env k408 fd else farewell env k504 fd
       else (\<lambda>c. [])) s (enforce_timeouts env s)"
proof -
  let ?s1 = "fold (read_timeout env) (timed_out env ReadTimeout s) s"
  let ?s2 = "fold (handler_timeout env) (timed_out env HandlerTimeout s) ?s1"
  let ?s3 = "fold close_connection (timed_out env PlainClose s) ?s2"
  note c1 = closes_fold [of "farewell env k408" "read_timeout env" s "timed_out env ReadTimeout s", OF timeout_closes(1) assms]
  note c2 = closes_fold [of "farewell env k504" "handler_timeout env" ?s1 "timed_out env HandlerTimeout s",
      OF timeout_closes(2) conjunct2 [OF c1]]
  note c3 = closes_fold [of "\<lambda>fd c. []" close_connection ?s2 "timed_out env PlainClose s",
      OF timeout_closes(3) conjunct2 [OF c2]]
  note all = closes_trans [OF assms closes_trans [OF assms conjunct1 [OF c1] conjunct1 [OF c2]] conjunct1 [OF c3]]
  then show ?thesis
    by (simp add: enforce_timeouts_def Let_def closes_def split: option.split)
qed

text \<open>
  The deadlines. Durations are truncated to whole seconds, so a limit of \<open>n\<close> seconds has passed
  once \<open>n + 1\<close> have; a limit that is not positive is none. The handler limit counts from the
  dispatch of the request, the others from the last activity; between the result of a worker and
  the first byte of the response there is no limit.
\<close>

definition passed :: "int \<Rightarrow> int \<Rightarrow> int \<Rightarrow> bool" where
  "passed limit since now \<longleftrightarrow> 0 < limit \<and> since + (limit + 1) * nanos \<le> now"

definition receiving :: "connection \<Rightarrow> bool" where
  "receiving c \<longleftrightarrow> \<not> cn_worker_in_flight c \<and> \<not> has_data_to_write c \<and> \<not> cn_processing c \<and> cn_read_buffer c \<noteq> []"

definition idle :: "connection \<Rightarrow> bool" where
  "idle c \<longleftrightarrow> \<not> cn_worker_in_flight c \<and> \<not> has_data_to_write c \<and> \<not> cn_processing c \<and> cn_read_buffer c = []"

definition overdue :: "settings \<Rightarrow> int \<Rightarrow> connection \<Rightarrow> bool" where
  "overdue st now c \<longleftrightarrow>
     cn_worker_in_flight c \<and> passed (st_handler_timeout_sec st) (cn_processing_since c) now \<or>
     \<not> cn_worker_in_flight c \<and> has_data_to_write c \<and> passed (st_write_timeout_sec st) (cn_last_activity c) now \<or>
     receiving c \<and> passed (st_read_timeout_sec st) (cn_last_activity c) now \<or>
     idle c \<and> passed (st_idle_timeout_sec st) (cn_last_activity c) now"

lemma le_div_mult: "0 < (n :: int) \<Longrightarrow> a \<le> d div n \<longleftrightarrow> a * n \<le> d"
proof
  assume n: "0 < n" "a \<le> d div n"
  then have "a * n \<le> d div n * n" by (simp add: mult_right_mono)
  also have "\<dots> \<le> d" using div_mult_mod_eq [of d n] pos_mod_sign [OF n(1), of d] by linarith
  finally show "a * n \<le> d" .
next
  assume n: "0 < n" "a * n \<le> d"
  from zdiv_mono1 [OF n(2,1)] n(1) show "a \<le> d div n" by simp
qed

lemma passed_seconds: "0 < limit \<and> limit < cast_seconds (now - since) \<longleftrightarrow> passed limit since now"
proof (cases "since \<le> now")
  case True
  have "limit < (now - since) div nanos \<longleftrightarrow> limit + 1 \<le> (now - since) div nanos" by linarith
  also have "\<dots> \<longleftrightarrow> (limit + 1) * nanos \<le> now - since" by (rule le_div_mult) (simp add: nanos_def)
  finally show ?thesis using True by (auto simp: passed_def cast_seconds_def)
next
  case False
  have "0 \<le> (since - now) div nanos" using False by (simp add: nanos_def pos_imp_zdiv_nonneg_iff)
  moreover have "0 < limit \<Longrightarrow> 0 < (limit + 1) * nanos" by (simp add: nanos_def)
  ultimately show ?thesis using False by (auto simp: passed_def cast_seconds_def)
qed

lemma timeout_of_overdue:
  "timeout_of st now c = NoTimeout \<longleftrightarrow> \<not> overdue st now c"
  "timeout_of st now c = HandlerTimeout \<longleftrightarrow> overdue st now c \<and> cn_worker_in_flight c"
  "timeout_of st now c = ReadTimeout \<longleftrightarrow> overdue st now c \<and> receiving c"
  by (simp_all add: timeout_of_def passed_seconds overdue_def receiving_def idle_def Let_def)

text \<open>
  C24: the sweep closes exactly the connections whose deadline has passed (\<open>overdue\<close>): every one
  that is left is within its limits and as it was. A client whose request is with a worker is sent
  a prefix of the 504 response, one whose request has not arrived in full a prefix of the 408, no
  other one a byte.
\<close>

theorem timeouts_enforced:
  assumes "reachable app settings s" "set (en_fds env) = dom (sv_conns s)" "s' = enforce_timeouts env s"
  shows "\<forall>fd i. (sv_conns s' fd = Some i \<longleftrightarrow>
        sv_conns s fd = Some i \<and> \<not> overdue settings (en_now env) (conn_of s i)) \<and>
     (sv_conns s' fd = Some i \<longrightarrow> conn_of s' i = conn_of s i) \<and>
     (sv_conns s fd = Some i \<longrightarrow> sv_wire s' i = sv_wire s i @
        (if \<not> overdue settings (en_now env) (conn_of s i) then []
         else if cn_worker_in_flight (conn_of s i) then farewell env k504 fd (conn_of s i)
         else if receiving (conn_of s i) then farewell env k408 fd (conn_of s i) else []))"
proof (intro allI conjI)
  fix fd i
  note c = enforce_timeouts_closes [OF server_okD(1) [OF reachable_ok [OF assms(1)]], of env, folded assms(3)]
  note st = reachable_settings [OF assms(1)]
  have m: "fd \<in> set (timed_out env k s) \<longleftrightarrow>
      timeout_of settings (en_now env) (conn_of s i) = k" if "sv_conns s fd = Some i" for k
    using that assms(2) st by (auto simp: timed_out_def)
  show "sv_conns s' fd = Some i \<longleftrightarrow>
      sv_conns s fd = Some i \<and> \<not> overdue settings (en_now env) (conn_of s i)"
  proof (cases "sv_conns s fd = Some i")
    case True
    then show ?thesis using c m [OF True] unfolding timeout_of_overdue(1) [symmetric]
      by (cases "timeout_of settings (en_now env) (conn_of s i)") (simp_all add: closes_def)
  next
    case False
    then show ?thesis using c by (auto simp: closes_def split: if_splits)
  qed
  show "sv_conns s' fd = Some i \<longrightarrow> conn_of s' i = conn_of s i"
    using c by (simp add: closes_def)
  show "sv_conns s fd = Some i \<longrightarrow> sv_wire s' i = sv_wire s i @
        (if \<not> overdue settings (en_now env) (conn_of s i) then []
         else if cn_worker_in_flight (conn_of s i) then farewell env k504 fd (conn_of s i)
         else if receiving (conn_of s i) then farewell env k408 fd (conn_of s i) else [])"
  proof
    assume i: "sv_conns s fd = Some i"
    show "sv_wire s' i = sv_wire s i @
        (if \<not> overdue settings (en_now env) (conn_of s i) then []
         else if cn_worker_in_flight (conn_of s i) then farewell env k504 fd (conn_of s i)
         else if receiving (conn_of s i) then farewell env k408 fd (conn_of s i) else [])"
      using c i m [OF i] timeout_of_overdue [of settings "en_now env" "conn_of s i"]
      by (cases "timeout_of settings (en_now env) (conn_of s i)") (auto simp: closes_def receiving_def)
  qed
qed

section \<open>Shutdown\<close>

lemma draining_book:
  assumes "step app s s'" "sv_draining s" "\<not> sv_listening s"
  shows "sv_draining s' \<and> \<not> sv_listening s' \<and> sv_drain_deadline s' = sv_drain_deadline s \<and>
     sv_next s' = sv_next s"
proof -
  have d: "book_step s s'" if "book_step (disarm fd s) s'" for fd
    by (rule book_step_after [OF _ that]) simp
  have all: ?thesis if "book_step s s'"
    using that assms(2,3) by (auto simp: book_step_def)
  have e: "sv_draining (enforce_timeouts env t) = sv_draining t \<and> sv_listening (enforce_timeouts env t) = sv_listening t \<and>
      sv_drain_deadline (enforce_timeouts env t) = sv_drain_deadline t \<and> sv_next (enforce_timeouts env t) = sv_next t"
    for t env using enforce_timeouts_book [of t env] by (simp add: same_book_def)
  from assms(1) show ?thesis
  proof cases
    case (step_accept acs env)
    then show ?thesis using assms(3) by simp
  next
    case (step_readable fd env)
    then show ?thesis using all [OF d [OF handle_client_data_book]] by blast
  next
    case (step_writable fd env)
    then show ?thesis using all [OF d [OF handle_write_ready_book]] by blast
  next
    case (step_hangup fd)
    then have "same_book s s'" by simp
    then show ?thesis by (rule all [OF same_book_step])
  next
    case (step_task k env)
    then show ?thesis using run_task_book(3-6) [OF step_task(2,1)] assms(2,3) by simp
  next
    case (step_wakeup env)
    then show ?thesis using all [OF same_book_step] process_completions_book [of s env] by blast
  next
    case step_stop
    then show ?thesis using assms(2,3) by (simp add: request_stop_def)
  next
    case step_wait_failed
    then show ?thesis using assms(2,3) by simp
  next
    case (step_tail env)
    then show ?thesis using assms(2,3) e by (auto simp: loop_tail_def Let_def)
  qed
qed

lemma draining_steps:
  assumes "(step app)\<^sup>*\<^sup>* s s'" "sv_draining s" "\<not> sv_listening s"
  shows "sv_draining s' \<and> \<not> sv_listening s' \<and> sv_drain_deadline s' = sv_drain_deadline s \<and>
     sv_next s' = sv_next s"
  using assms(1)
proof (induction rule: rtranclp_induct)
  case base
  then show ?case using assms by simp
next
  case (step t u)
  then show ?case using draining_book [OF step.hyps(2)] by simp
qed

text \<open>
  C25: a requested stop is carried out: the next iteration stops accepting, no connection is opened
  from then on whatever happens, and the loop ends at the latest in the first iteration after the
  grace period.
\<close>

theorem graceful_shutdown:
  assumes "sv_stop_requested s" "\<not> sv_draining s" "s1 = loop_tail env1 s"
    "(step app)\<^sup>*\<^sup>* s1 s2"
    "en_now env1 + st_shutdown_grace_sec (sv_settings s) * nanos \<le> en_now env2"
  shows "\<not> sv_listening s2 \<and> sv_next s2 = sv_next s \<and> \<not> sv_running (loop_tail env2 s2)"
proof -
  have e: "sv_draining (enforce_timeouts env t) = sv_draining t \<and> sv_listening (enforce_timeouts env t) = sv_listening t \<and>
      sv_drain_deadline (enforce_timeouts env t) = sv_drain_deadline t \<and> sv_next (enforce_timeouts env t) = sv_next t"
    for t env using enforce_timeouts_book [of t env] by (simp add: same_book_def)
  have s1: "sv_draining s1" "\<not> sv_listening s1" "sv_next s1 = sv_next s"
    "sv_drain_deadline s1 = en_now env1 + st_shutdown_grace_sec (sv_settings s) * nanos"
    using assms(1-3) e by (auto simp: loop_tail_def Let_def stop_accepting_def)
  note s2 = draining_steps [OF assms(4) s1(1,2)]
  have "\<not> sv_running (loop_tail env2 s2)"
    using s2 s1(4) assms(5) e by (auto simp: loop_tail_def Let_def)
  with s2 s1 show ?thesis by simp
qed

section \<open>A request larger than the read buffer\<close>

text \<open>
  C40: a request within the parser's limits that is larger than the read buffer is never answered:
  when the buffer is full of it, it is not complete, and the next readable event takes the full
  buffer for the end of the stream and closes the connection without a byte written.
\<close>

theorem oversized_request_dropped:
  assumes "client_ok q" "READ_BUFFER_SIZE < length (client_bytes q)"
    "sv_conns s fd = Some i" "is_open (conn_of s i)" "\<not> needs_handshake (conn_of s i)"
    "cn_read_buffer (conn_of s i) = take READ_BUFFER_SIZE (client_bytes q)"
  shows "(\<forall>r. parse_next (conn_of s i) = Some r \<longrightarrow> \<not> fst r) \<and>
     (\<exists>s'. handle_client_data env app fd s = Some s' \<and> sv_conns s' fd = None \<and> sv_wire s' = sv_wire s)"
proof
  show "\<forall>r. parse_next (conn_of s i) = Some r \<longrightarrow> \<not> fst r"
    using full_buffer_incomplete [OF assms(1,2,6)] by auto
  have "read_data now rs (conn_of s i) = (0, conn_of s i)" for now rs
    using assms(2,6) by (intro read_data_full) simp
  then have "handle_client_data env app fd s = Some (close_connection fd (set_conn i (conn_of s i) s))"
    using assms(3-5) by (simp add: handle_client_data_def)
  then show "\<exists>s'. handle_client_data env app fd s = Some s' \<and> sv_conns s' fd = None \<and> sv_wire s' = sv_wire s"
    by simp
qed

section \<open>A TLS read that wants to write\<close>

text \<open>
  A connection between two requests whose last \<open>SSL_read\<close> reported \<open>SSL_ERROR_WANT_WRITE\<close>: the
  loop waits for the socket to become writable.
\<close>

definition wants_write :: "server \<Rightarrow> int \<Rightarrow> nat \<Rightarrow> bool" where
  "wants_write s fd i \<longleftrightarrow>
     sv_conns s fd = Some i \<and> sv_armed s fd = Some False \<and> \<not> sv_draining s \<and>
     (let c = conn_of s i in
        is_open c \<and> cn_ssl c \<and> cn_tls_handshake_done c \<and> cn_tls_want c = WantWrite \<and>
        cn_keep_alive c \<and> \<not> cn_processing c \<and> \<not> has_data_to_write c \<and> cn_read_buffer c = [] \<and>
        cn_file_fd c < 0 \<and> ps_state (cn_http_parser c) \<notin> {ERROR, BODY})"

definition same_reader :: "connection \<Rightarrow> connection \<Rightarrow> bool" where
  "same_reader c c' \<longleftrightarrow>
     cn_ssl c' = cn_ssl c \<and> cn_tls_handshake_done c' = cn_tls_handshake_done c \<and>
     cn_tls_want c' = cn_tls_want c \<and> cn_read_buffer c' = cn_read_buffer c \<and>
     cn_http_parser c' = cn_http_parser c"

lemma write_data_idle_reader:
  assumes "\<not> has_data_to_write c" "write_data os now ios c = (n, w, c')"
  shows "same_reader c c'"
proof -
  have raw: "cn_raw_headers c = []" using assms(1) by (simp add: has_data_to_write_def split: if_splits)
  have loops: "ssl_file_loop os ios d = (Finished, [], d)" "sendfile_loop os ios d = (Finished, [], d)"
    if "\<not> 0 < cn_file_remaining d" for d
    using that by (subst ssl_file_loop.simps, simp, subst sendfile_loop.simps, simp)
  have content: "same_reader d d'" if "\<not> has_data_to_write d" "write_content os now ios d = (e, v, d')" for d e v d'
    using that loops [of d]
    by (auto simp: has_data_to_write_def write_content_def write_file_def write_body_def update_activity_def
        same_reader_def split: if_splits)
  obtain e v d where r: "write_content os now ios c = (e, v, d)" by (metis prod_cases3)
  obtain e1 v1 d1 where r1: "write_content os now ios (c\<lparr>cn_headers_sent := True\<rparr>) = (e1, v1, d1)"
    by (metis prod_cases3)
  have "same_reader c d" by (rule content [OF assms(1) r])
  moreover have "same_reader (c\<lparr>cn_headers_sent := True\<rparr>) d1"
    using assms(1) by (intro content [OF _ r1]) simp
  ultimately show ?thesis
    using assms(2) r r1 header_call_none [OF raw, of ios]
    by (auto simp: write_data_def same_reader_def split: if_splits)
qed

text \<open>
  The writable event is answered with \<open>write_data\<close>, never with the read that asked for it, and
  the same interest is armed again: however often the socket becomes writable, the connection comes
  back to the same wait and no byte of the client is read.
\<close>

lemma want_write_never_reads:
  assumes "wants_write s fd i" "en_rearm env fd"
  shows "\<exists>s'. handle_write_ready env app fd (disarm fd s) = Some s' \<and> wants_write s' fd i \<and>
     sv_wire s' i = sv_wire s i"
proof -
  let ?c = "conn_of s i"
  obtain n w c where w: "write_data (en_os env) (en_now env) (en_io env) ?c = (n, w, c)" by (metis prod_cases3)
  note idle = write_data_idle [OF _ w]
  note own = write_data_keeps [OF w, unfolded same_owner_def]
  have c: "\<not> has_data_to_write ?c" "is_open ?c" "\<not> needs_handshake ?c" "cn_keep_alive ?c"
    "cn_read_buffer ?c = []" "\<not> cn_processing ?c"
    using assms(1) by (simp_all add: wants_write_def Let_def needs_handshake_def)
  let ?c2 = "update_activity (en_now env) ((clear_response_state c)\<lparr>cn_processing := False\<rparr>)"
  have rd: "same_reader ?c c" by (rule write_data_idle_reader [OF c(1) w])
  let ?s1 = "put_wire i w (set_conn i c (disarm fd s))"
  let ?s2 = "set_conn i ?c2 ?s1"
  have c2: "cn_read_buffer ?c2 = []" "\<not> cn_processing ?c2" "\<not> parser_failed ?c2" "ps_state (cn_http_parser ?c2) \<noteq> BODY"
    "cn_ssl ?c2" "cn_tls_want ?c2 = WantWrite" "cn_tls_handshake_done ?c2" "cn_keep_alive ?c2" "is_open ?c2"
    "\<not> has_data_to_write ?c2" "cn_file_fd ?c2 < 0" "ps_state (cn_http_parser ?c2) \<noteq> ERROR"
    using rd c own assms(1)
    by (simp_all add: same_reader_def wants_write_def Let_def update_activity_def clear_response_state_def
        parser_failed_def is_open_def has_data_to_write_def)
  have pn: "parse_next ?c2 = Some (False, 0, ?c2)" using c2(1) by (simp add: parse_next_def)
  have cont: "maybe_send_100_continue ?c2 = ([], ?c2)" using c2(4) by (simp add: maybe_send_100_continue_def)
  let ?s3 = "put_wire i [] (set_conn i ?c2 (set_conn i ?c2 ?s2))"
  have "dispatch_next env app fd i ?s2 = Some (rearm env fd False ?s3)"
    using pn cont c2 by (simp add: dispatch_next_def Let_def)
  moreover have "handle_write_ready env app fd (disarm fd s) = dispatch_next env app fd i ?s2"
    using w idle [OF c(1)] own c assms(1)
    by (simp add: handle_write_ready_def Let_def wants_write_def disarm_def put_wire_def)
  moreover have "wants_write (rearm env fd False ?s3) fd i"
    using c2 assms by (simp add: wants_write_def Let_def rearm_def disarm_def)
  moreover have "sv_wire (rearm env fd False ?s3) i = sv_wire s i"
    using idle [OF c(1)] assms(2) by (simp add: rearm_def put_wire_def set_conn_def disarm_def)
  ultimately show ?thesis by simp
qed

end
