(* ===== verification/Server_Examples.thy ===== *)
theory Server_Examples
  imports Server_Loop
begin

text \<open>
  Concrete runs: an application without routes, a connection that is accepted and whose request is
  dispatched to a worker, and the properties of the event loop applied to these states.
\<close>

definition app_example :: app where
  "app_example = \<lparr>ap_router = empty_node, ap_middlewares = [], ap_compression = None,
     ap_compressors = gzip_example, ap_files = fs_example, ap_error_json = (\<lambda>m. m)\<rparr>"

definition env_example :: "string \<Rightarrow> env" where
  "env_example bs = \<lparr>en_now = 0, en_os = os_example, en_accept = Accepted, en_recv = [Received bs],
     en_io = [Moved 1000], en_rearm = (\<lambda>fd. True), en_fds = [5], en_best_effort = (\<lambda>fd. 0)\<rparr>"

definition accepted_example :: accepted where
  "accepted_example = \<lparr>ac_fd = 5, ac_ip = ''10.0.0.1'', ac_nonblocking = True, ac_added = True, ac_session = True\<rparr>"

definition capped :: settings where
  "capped = settings_default\<lparr>st_max_concurrent_handlers := 1\<rparr>"

definition started :: server where
  "started = server_init capped False None 0"

definition connected :: server where
  "connected = handle_new_connection (env_example []) [accepted_example] started"

lemma connected_simps:
  "sv_conns connected = [5 \<mapsto> 0]" "sv_armed connected = [5 \<mapsto> True]" "sv_next connected = 1"
  "conn_of connected 0 = (connection_init 0 5)\<lparr>cn_client_ip := ''10.0.0.1'', cn_ssl := False\<rparr>"
  "sv_tasks connected = []" "sv_completed connected = []" "sv_running connected" "sv_limiter connected = None"
  "sv_settings connected = capped" "mt_workers_in_flight (sv_metrics connected) = 0" "\<not> sv_draining connected"
  by (simp_all add: connected_def handle_new_connection_def accept_one_def accepted_example_def started_def
      server_init_def Let_def env_example_def metrics_init_def)

lemma connected_reachable: "reachable app capped connected"
proof (rule reachable_step)
  show "reachable app capped started" unfolding started_def by (rule reachable_init)
  show "step app started connected" unfolding connected_def
    by (rule step_accept) (simp_all add: started_def server_init_def accepted_example_def)
qed

lemma client_example_short: "length (client_bytes client_example) \<le> READ_BUFFER_SIZE"
  using dec_2
  by (simp add: client_bytes_def client_head_def client_example_def client_headers_def request_head_def
      render_headers_def READ_BUFFER_SIZE_def)

text \<open>
  A request arrives on a connection that was just accepted: it is read, parsed and handed to a worker.
\<close>

definition fresh :: "server \<Rightarrow> int \<Rightarrow> nat \<Rightarrow> bool" where
  "fresh s fd i \<longleftrightarrow>
     sv_running s \<and> sv_limiter s = None \<and> \<not> at_capacity s \<and> sv_armed s fd = Some True \<and> sv_conns s fd = Some i \<and>
     is_open (conn_of s i) \<and> \<not> cn_ssl (conn_of s i) \<and> \<not> cn_processing (conn_of s i) \<and> cn_read_buffer (conn_of s i) = []"

definition task_for :: "int \<Rightarrow> nat \<Rightarrow> client_request \<Rightarrow> task" where
  "task_for fd i q = \<lparr>tk_fd = fd, tk_conn = i, tk_request = client_value q, tk_start = 0\<rparr>"

lemma parse_next_ssl: "parse_next c = Some (ok, n, c') \<Longrightarrow> cn_ssl c' = cn_ssl c"
  by (auto simp: parse_next_def Let_def split: if_splits option.splits)

lemma consume_ssl: "cn_ssl (consume n c) = cn_ssl c"
  by (simp add: consume_def)

lemma dispatched_fresh:
  assumes "fresh s fd i" "client_ok q" "length (client_bytes q) \<le> READ_BUFFER_SIZE"
  shows "\<exists>s'. step app s s' \<and> sv_tasks s' = sv_tasks s @ [task_for fd i q] \<and>
     cn_worker_in_flight (conn_of s' i) \<and> cn_processing_since (conn_of s' i) = 0 \<and> \<not> cn_ssl (conn_of s' i) \<and>
     sv_conns s' = sv_conns s \<and> sv_completed s' = sv_completed s \<and> sv_running s' \<and>
     sv_stop_requested s' = sv_stop_requested s \<and> sv_draining s' = sv_draining s \<and>
     sv_listening s' = sv_listening s \<and> sv_tls s' = sv_tls s \<and> sv_limiter s' = None \<and>
     sv_settings s' = sv_settings s \<and> sv_next s' = sv_next s \<and> sv_last_cleanup s' = sv_last_cleanup s"
proof -
  let ?env = "env_example (client_bytes q)" and ?c = "conn_of s i"
  let ?c1 = "update_activity 0 (?c\<lparr>cn_read_buffer := client_bytes q\<rparr>)"
  let ?s1 = "set_conn i ?c1 (disarm fd s)"
  note f = assms(1) [unfolded fresh_def]
  have read: "read_data 0 [Received (client_bytes q)] ?c = (int (length (client_bytes q)), ?c1)"
    using f assms(3) client_bytes_nonempty [of q] by (simp add: read_data_def is_open_def Let_def READ_BUFFER_SIZE_def)
  have "cn_read_buffer ?c1 = client_bytes q @ []" by (simp add: update_activity_def)
  from parse_next_client [OF assms(2) this] obtain c2 where
    p: "parse_next ?c1 = Some (True, length (client_bytes q), c2)" "cn_current_request c2 = client_value q" by blast
  have ssl: "\<not> cn_ssl c2" using parse_next_ssl [OF p(1)] f by (simp add: update_activity_def)
  have cap: "\<not> at_capacity s'"
    if "sv_settings s' = sv_settings s" "mt_workers_in_flight (sv_metrics s') = mt_workers_in_flight (sv_metrics s)" for s'
    using that f by (simp add: at_capacity_def)
  have "\<exists>s'. dispatch_next ?env app fd i ?s1 = Some s' \<and> sv_tasks s' = sv_tasks s @ [task_for fd i q] \<and>
     cn_worker_in_flight (conn_of s' i) \<and> cn_processing_since (conn_of s' i) = 0 \<and> \<not> cn_ssl (conn_of s' i) \<and>
     sv_conns s' = sv_conns s \<and> sv_completed s' = sv_completed s \<and> sv_running s' \<and>
     sv_stop_requested s' = sv_stop_requested s \<and> sv_draining s' = sv_draining s \<and>
     sv_listening s' = sv_listening s \<and> sv_tls s' = sv_tls s \<and> sv_limiter s' = None \<and>
     sv_settings s' = sv_settings s \<and> sv_next s' = sv_next s \<and> sv_last_cleanup s' = sv_last_cleanup s"
    using f p cap ssl by (simp add: consume_ssl dispatch_next_def Let_def rate_allowed_def disarm_def task_for_def
        update_activity_def env_example_def count_def set_conn_def)
  moreover have "handle_client_data ?env app fd (disarm fd s) = dispatch_next ?env app fd i ?s1"
    using f read client_bytes_nonempty [of q]
    by (simp add: handle_client_data_def needs_handshake_def env_example_def)
  moreover have "step app s s'" if "handle_client_data ?env app fd (disarm fd s) = Some s'" for s'
    using f by (intro step_readable [OF _ _ that]) simp_all
  ultimately show ?thesis by auto
qed

lemma connected_fresh: "fresh connected 5 0"
  by (simp add: fresh_def connected_simps is_open_def connection_init_def at_capacity_def capped_def)

lemma dispatched_example:
  "\<exists>s. reachable app capped s \<and> sv_conns s = [5 \<mapsto> 0] \<and> sv_tasks s = [task_for 5 0 client_example] \<and>
     outstanding s 0 = 1 \<and> sv_completed s = [] \<and> step app connected s"
proof -
  from dispatched_fresh [OF connected_fresh client_example_ok client_example_short, of app] obtain s where
    s: "step app connected s" "sv_tasks s = [task_for 5 0 client_example]" "sv_conns s = [5 \<mapsto> 0]" "sv_completed s = []"
    by (auto simp: connected_simps)
  moreover from s(2,4) have "outstanding s 0 = 1" by (simp add: outstanding_def task_for_def)
  moreover have "reachable app capped s" by (rule reachable_step [OF connected_reachable s(1)])
  ultimately show ?thesis by blast
qed

section \<open>Witnesses\<close>

lemma live_connections_witness:
  "mt_connections_active (sv_metrics connected) = of_nat (card (dom [5 \<mapsto> (0::nat)] :: int set))"
  using live_connections [OF connected_reachable [of app_example]] by (simp only: connected_simps)

lemma one_request_in_flight_witness:
  "\<exists>s. sv_conns s 5 = Some 0 \<and> outstanding s 0 = 1 \<and> cn_processing (conn_of s 0) \<and> sv_armed s 5 = None"
proof -
  obtain s where s: "reachable app_example capped s" "sv_conns s = [5 \<mapsto> 0]" "outstanding s 0 = 1"
    using dispatched_example by blast
  from s(2) have l: "sv_conns s 5 = Some 0" by simp
  from one_request_in_flight [OF s(1) l] s(3) l show ?thesis by auto
qed

lemma handlers_bounded_witness:
  "\<exists>s. reachable app_example capped s \<and> length (sv_tasks s) = 1 \<and> int (length (sv_tasks s)) \<le> 1"
proof -
  obtain s where s: "reachable app_example capped s" "length (sv_tasks s) = 1"
    using dispatched_example by fastforce
  have c: "st_max_concurrent_handlers capped = 1" by (simp add: capped_def)
  have "int (length (sv_tasks s)) \<le> 1" using handlers_bounded [OF s(1)] unfolding c by simp
  with s show ?thesis by blast
qed

lemma match_route_empty: "match_route empty_node segs m ps = Some (None, ps)"
  by (cases segs) (simp_all add: empty_node_def match_route.simps)

lemma find_route_empty: "find_route empty_node m path ps = Some (None, ps)"
  by (simp add: find_route_def match_route_empty) (simp add: empty_node_def)

text \<open>
  A handler that lets a foreign exception escape: behind its task one request is counted and no
  response.
\<close>

definition escaping_app :: app where
  "escaping_app = app_example\<lparr>ap_router := build_router [((GET, [''a'']), \<lambda>req res. Escaped)]\<rparr>"

lemma client_example_value:
  "rq_method (client_value client_example) = GET" "rq_path (client_value client_example) = ''/a''"
proof -
  have "find_sub ''?'' ''/a'' = None" by (simp add: find_sub_single_None)
  then show "rq_method (client_value client_example) = GET" "rq_path (client_value client_example) = ''/a''"
    by (simp_all add: client_value_def client_example_def read_head_def add_headers_def parse_query_parameters_def)
qed

lemma escaping_app_escapes: "handle_request escaping_app (client_value client_example) = Some None"
proof -
  have "find_route (ap_router escaping_app) GET ''/a'' Map.empty = Some (Some (\<lambda>req res. Escaped), Map.empty)"
    by (simp add: escaping_app_def find_route_def split_path_pieces path_segments_def build_router_def is_param_def
        empty_node_def)
  then have "find_handler escaping_app (client_value client_example) = Some (Some (\<lambda>req res. Escaped), Map.empty)"
    by (simp add: find_handler_def client_example_value)
  moreover have "ap_middlewares escaping_app = []" by (simp add: escaping_app_def app_example_def)
  ultimately show ?thesis by (simp add: handle_request_def Let_def)
qed

lemma counters_balance_witness:
  "\<exists>s :: server. sv_tasks s = [] \<and> lost_tasks escaping_app capped 1 s \<and>
     mt_requests_total (sv_metrics s) + mt_handler_timeouts_total (sv_metrics s) = responses_total (sv_metrics s) + 1"
proof -
  let ?app = escaping_app
  obtain s where s: "step ?app connected s" "sv_tasks s = [task_for 5 0 client_example]"
    using dispatched_example [of ?app] by blast
  have "lost_tasks ?app capped 0 started" unfolding started_def by (rule lost_init)
  moreover have "step ?app started connected" unfolding connected_def
    by (rule step_accept) (simp_all add: started_def server_init_def accepted_example_def)
  ultimately have "lost_tasks ?app capped 0 connected" by (rule lost_other) (simp add: started_def server_init_def)
  from lost_other [OF this s(1)] have l: "lost_tasks ?app capped 0 s" by (simp add: connected_simps)
  have h: "handle_request ?app (tk_request (sv_tasks s ! 0)) = Some None"
    using escaping_app_escapes by (simp add: s(2) task_for_def)
  then obtain s' where s': "run_task (env_example []) ?app 0 s = Some s'" "sv_tasks s' = []"
    using s(2) by (simp add: run_task_def Let_def)
  from lost_task [OF l _ s'(1)] have "lost_tasks ?app capped 1 s'" using s(2) h by (simp add: counted_def)
  with counters_balance [of ?app capped s'] s'(2) show ?thesis by (intro exI [of _ s']) auto
qed

lemma overdue_handler_example:
  "\<exists>s. reachable app capped s \<and> sv_conns s = [5 \<mapsto> 0] \<and> cn_worker_in_flight (conn_of s 0) \<and>
     overdue capped (31 * nanos) (conn_of s 0) \<and> \<not> overdue capped (31 * nanos - 1) (conn_of s 0) \<and> \<not> cn_ssl (conn_of s 0)"
proof -
  from dispatched_fresh [OF connected_fresh client_example_ok client_example_short, of app] obtain s where
    s: "step app connected s" "sv_conns s = [5 \<mapsto> 0]" "cn_worker_in_flight (conn_of s 0)"
      "cn_processing_since (conn_of s 0) = 0" "\<not> cn_ssl (conn_of s 0)"
    by (auto simp: connected_simps)
  then have "overdue capped (31 * nanos) (conn_of s 0)" "\<not> overdue capped (31 * nanos - 1) (conn_of s 0)"
    by (simp_all add: overdue_def passed_def receiving_def idle_def capped_def settings_default_def nanos_def)
  with s reachable_step [OF connected_reachable s(1)] show ?thesis by blast
qed

text \<open>
  An idle connection is left until 61 seconds have passed, and closed then without a byte; one whose
  request is with a worker is left until 31 seconds have passed, and closed then with as much of the
  504 as the kernel takes.
\<close>

lemma timeouts_enforced_witness:
  "sv_conns (enforce_timeouts ((env_example [])\<lparr>en_now := 61 * nanos - 1\<rparr>) connected) 5 = Some 0 \<and>
   sv_conns (enforce_timeouts ((env_example [])\<lparr>en_now := 61 * nanos\<rparr>) connected) 5 \<noteq> Some 0 \<and>
   (\<exists>s. sv_conns s = [5 \<mapsto> 0] \<and> cn_worker_in_flight (conn_of s 0) \<and>
     sv_conns (enforce_timeouts ((env_example [])\<lparr>en_now := 31 * nanos - 1\<rparr>) s) 5 = Some 0 \<and>
     sv_conns (enforce_timeouts ((env_example [])\<lparr>en_now := 31 * nanos, en_best_effort := \<lambda>_. 12\<rparr>) s) 5 \<noteq> Some 0 \<and>
     sv_wire (enforce_timeouts ((env_example [])\<lparr>en_now := 31 * nanos, en_best_effort := \<lambda>_. 12\<rparr>) s) 0 =
       sv_wire s 0 @ ''HTTP/1.1 504'')"
proof -
  let ?env = "\<lambda>t. (env_example [])\<lparr>en_now := t\<rparr>"
  have fds: "set (en_fds (?env t)) = dom (sv_conns connected)" for t by (simp add: env_example_def connected_simps)
  note t = timeouts_enforced [OF connected_reachable [of app_example] fds refl]
  have "\<not> overdue capped (61 * nanos - 1) (conn_of connected 0)" "overdue capped (61 * nanos) (conn_of connected 0)"
    by (simp_all add: overdue_def passed_def idle_def receiving_def connected_simps connection_init_def
        has_data_to_write_def capped_def settings_default_def nanos_def Let_def)
  then have idle: "sv_conns (enforce_timeouts (?env (61 * nanos - 1)) connected) 5 = Some 0"
    "sv_conns (enforce_timeouts (?env (61 * nanos)) connected) 5 \<noteq> Some 0"
    using t [of "61 * nanos - 1"] t [of "61 * nanos"] by (simp_all add: connected_simps(1))
  obtain s where s: "reachable app_example capped s" "sv_conns s = [5 \<mapsto> 0]" "cn_worker_in_flight (conn_of s 0)"
    "overdue capped (31 * nanos) (conn_of s 0)" "\<not> overdue capped (31 * nanos - 1) (conn_of s 0)" "\<not> cn_ssl (conn_of s 0)"
    using overdue_handler_example by blast
  let ?late = "(?env (31 * nanos))\<lparr>en_best_effort := \<lambda>_. 12\<rparr>"
  have fds': "set (en_fds (?env u)) = dom (sv_conns s)" "set (en_fds ?late) = dom (sv_conns s)" for u
    by (simp_all add: env_example_def s(2))
  note left = timeouts_enforced [OF s(1) fds'(1) refl, of "31 * nanos - 1"]
    and closed = timeouts_enforced [OF s(1) fds'(2) refl]
  have "farewell ?late k504 5 (conn_of s 0) = ''HTTP/1.1 504''"
    using s(6) by (simp add: farewell_def needs_handshake_def k504_def)
  with closed s(2,3,4) have "sv_conns (enforce_timeouts ?late s) 5 \<noteq> Some 0"
    "sv_wire (enforce_timeouts ?late s) 0 = sv_wire s 0 @ ''HTTP/1.1 504''"
    by (auto simp: spec [of _ "5 :: int"])
  moreover have "sv_conns (enforce_timeouts (?env (31 * nanos - 1)) s) 5 = Some 0"
    using left s(2,5) by simp
  ultimately show ?thesis using idle s(2,3) by (intro conjI exI [of _ s]) simp_all
qed

lemma graceful_shutdown_witness:
  "\<not> sv_running (loop_tail ((env_example [])\<lparr>en_now := 10 * nanos\<rparr>)
     (loop_tail (env_example []) (request_stop connected)))"
proof -
  let ?s = "request_stop connected"
  have "sv_stop_requested ?s" "\<not> sv_draining ?s" by (simp_all add: request_stop_def connected_simps)
  from graceful_shutdown [OF this refl, of app_example "env_example []"
      "loop_tail (env_example []) ?s" "(env_example [])\<lparr>en_now := 10 * nanos\<rparr>"]
  show ?thesis
    by (simp add: env_example_def request_stop_def connected_simps capped_def settings_default_def)
qed

definition large_client :: client_request where
  "large_client = client_example\<lparr>cr_body := replicate (2 ^ 20) CHR ''x''\<rparr>"

lemma dec_large: "dec 1048576 = ''1048576''"
  by (simp add: dec.simps digit_char_def digit_chars)

lemma large_client_ok: "client_ok large_client" "READ_BUFFER_SIZE < length (client_bytes large_client)"
proof -
  have h: "client_headers large_client = [(''Content-Length'', ''1048576'')]"
    by (simp add: client_headers_def large_client_def client_example_def dec_large)
  show "client_ok large_client"
    unfolding client_ok_def h
    by (simp add: large_client_def client_example_def well_formed_head_def
        valid_header_def request_head_def render_headers_def isspace_def MAX_HEADER_BYTES_def MAX_BODY_BYTES_def)
  show "READ_BUFFER_SIZE < length (client_bytes large_client)"
    by (simp add: client_bytes_def client_head_def large_client_def READ_BUFFER_SIZE_def)
qed

definition full_server :: server where
  "full_server = set_conn 0 ((conn_of connected 0)\<lparr>cn_read_buffer := take READ_BUFFER_SIZE (client_bytes large_client)\<rparr>)
     connected"

lemma oversized_request_dropped_witness:
  "\<exists>s'. handle_client_data (env_example []) app_example 5 full_server = Some s' \<and> sv_conns s' 5 = None"
proof -
  have "sv_conns full_server 5 = Some 0" "is_open (conn_of full_server 0)"
    "\<not> needs_handshake (conn_of full_server 0)"
    "cn_read_buffer (conn_of full_server 0) = take READ_BUFFER_SIZE (client_bytes large_client)"
    by (simp_all add: full_server_def connected_simps is_open_def needs_handshake_def connection_init_def)
  from oversized_request_dropped [OF large_client_ok this] show ?thesis by blast
qed

definition tls_waiting :: server where
  "tls_waiting = (set_conn 0 ((conn_of connected 0)\<lparr>cn_ssl := True, cn_tls_handshake_done := True,
     cn_tls_want := WantWrite\<rparr>) connected)\<lparr>sv_armed := [5 \<mapsto> False]\<rparr>"

lemma want_write_never_reads_example:
  "\<exists>s'. handle_write_ready (env_example ''GET'') app_example 5 (disarm 5 tls_waiting) = Some s' \<and>
     wants_write s' 5 0"
proof -
  have "wants_write tls_waiting 5 0"
    by (simp add: wants_write_def tls_waiting_def connected_simps is_open_def connection_init_def
        has_data_to_write_def parser_init_def Let_def)
  from want_write_never_reads [OF this, of "env_example ''GET''" app_example] show ?thesis
    by (auto simp: env_example_def)
qed

text \<open>One GET route for the root path, and a handler that answers with the same body for every request.\<close>

definition hello_example :: app where
  "hello_example = app_example\<lparr>ap_router :=
     Node Map.empty None [] ((\<lambda>_. None)(GET \<mapsto> (\<lambda>req res. Handled (res_text ''hello'' res))))\<rparr>"

definition get_root :: http_request where
  "get_root = request_init\<lparr>rq_method := GET, rq_path := ''/''\<rparr>"

lemma head_like_get_example:
  "handle_request hello_example (get_root\<lparr>rq_method := HEAD\<rparr>) =
     Some (Some (res_set_head_only True
       (finish_response hello_example get_root (res_text ''hello'' response_init))))"
proof (rule head_like_get)
  show "find_route (ap_router hello_example) HEAD (rq_path get_root) Map.empty = Some (None, Map.empty)"
    by (simp add: find_route_def hello_example_def get_root_def)
  show "\<forall>mw \<in> set (ap_middlewares hello_example). \<forall>r.
      mw (get_root\<lparr>rq_method := HEAD\<rparr>) r = mw (get_root\<lparr>rq_method := GET\<rparr>) r"
    by (simp add: hello_example_def app_example_def)
  show "\<forall>h ps res. find_route (ap_router hello_example) GET (rq_path get_root) Map.empty = Some (Some h, ps) \<longrightarrow>
      h (get_root\<lparr>rq_method := HEAD, rq_path_params := ps\<rparr>) res =
      h (get_root\<lparr>rq_method := GET, rq_path_params := ps\<rparr>) res"
    by (auto simp: find_route_def hello_example_def get_root_def)
  show "handle_request hello_example (get_root\<lparr>rq_method := GET\<rparr>) =
      Some (Some (finish_response hello_example get_root (res_text ''hello'' response_init)))"
    by (simp add: handle_request_def find_handler_def find_route_def hello_example_def app_example_def
        get_root_def request_init_def Let_def)
qed

end
