(* ===== verification/Thread_Pool.thy ===== *)
theory Thread_Pool
  imports Prelude "HOL-Library.Multiset"
begin

text \<open>
  \<open>ThreadPool\<close> (\<open>include/oreshnek/server/ThreadPool.h\<close>, \<open>src/server/ThreadPool.cpp\<close>): the workers,
  the queue and the stop flag. A step is one critical section under \<open>queue_mutex_\<close>, or the end of a
  task. A worker that waits can go on as soon as the predicate of its wait holds: a notification
  is sent behind every change that makes it hold. \<open>None\<close> is a worker that keeps waiting.
\<close>

section \<open>State\<close>

datatype 'a worker = Waiting | Busy 'a | Exited

record 'a thread_pool =
  tp_workers :: "'a worker list"
  tp_tasks :: "'a list"
  tp_stop :: bool

definition pool_init :: "nat \<Rightarrow> 'a thread_pool" where
  "pool_init threads =
     \<lparr>tp_workers = replicate (if threads = 0 then 1 else threads) Waiting, tp_tasks = [], tp_stop = False\<rparr>"

section \<open>Operations\<close>

definition enqueue :: "'a \<Rightarrow> 'a thread_pool \<Rightarrow> 'a thread_pool throws" where
  "enqueue t p =
     (if tp_stop p then Inl ''enqueue on stopped ThreadPool''
      else Inr (p\<lparr>tp_tasks := tp_tasks p @ [t]\<rparr>))"

text \<open>One round of the loop of worker \<open>i\<close> under the lock: the worker's next state and the pool.\<close>

definition worker_wakes :: "nat \<Rightarrow> 'a thread_pool \<Rightarrow> ('a worker \<times> 'a thread_pool) option" where
  "worker_wakes i p =
     (if \<not> (tp_stop p \<or> tp_tasks p \<noteq> []) then None
      else if tp_stop p \<and> tp_tasks p = [] then
        Some (Exited, p\<lparr>tp_workers := (tp_workers p)[i := Exited]\<rparr>)
      else
        (case tp_tasks p of
           [] \<Rightarrow> None
         | t # rest \<Rightarrow> Some (Busy t, p\<lparr>tp_workers := (tp_workers p)[i := Busy t], tp_tasks := rest\<rparr>)))"

definition task_returns :: "nat \<Rightarrow> 'a thread_pool \<Rightarrow> 'a thread_pool" where
  "task_returns i p = p\<lparr>tp_workers := (tp_workers p)[i := Waiting]\<rparr>"

text \<open>\<open>shutdown\<close> sets the flag, then waits until every worker has exited.\<close>

definition shutdown_begin :: "'a thread_pool \<Rightarrow> 'a thread_pool" where
  "shutdown_begin p = p\<lparr>tp_stop := True\<rparr>"

definition joined :: "'a thread_pool \<Rightarrow> bool" where
  "joined p \<longleftrightarrow> (\<forall>w \<in> set (tp_workers p). w = Exited)"

section \<open>Runs\<close>

datatype 'a pool_event = Enqueued 'a | Took 'a | Returned 'a | Left | Stopped

inductive pool_step :: "'a thread_pool \<Rightarrow> 'a pool_event \<Rightarrow> 'a thread_pool \<Rightarrow> bool" where
  pool_enqueue: "enqueue t p = Inr p' \<Longrightarrow> pool_step p (Enqueued t) p'"
| pool_take:
    "i < length (tp_workers p) \<Longrightarrow> tp_workers p ! i = Waiting \<Longrightarrow> worker_wakes i p = Some (Busy t, p') \<Longrightarrow>
     pool_step p (Took t) p'"
| pool_exit:
    "i < length (tp_workers p) \<Longrightarrow> tp_workers p ! i = Waiting \<Longrightarrow> worker_wakes i p = Some (Exited, p') \<Longrightarrow>
     pool_step p Left p'"
| pool_return:
    "i < length (tp_workers p) \<Longrightarrow> tp_workers p ! i = Busy t \<Longrightarrow>
     pool_step p (Returned t) (task_returns i p)"
| pool_stop: "pool_step p Stopped (shutdown_begin p)"

inductive pool_run :: "'a thread_pool \<Rightarrow> 'a pool_event list \<Rightarrow> 'a thread_pool \<Rightarrow> bool" for p where
  pool_run_Nil: "pool_run p [] p"
| pool_run_snoc: "pool_run p es p' \<Longrightarrow> pool_step p' e p'' \<Longrightarrow> pool_run p (es @ [e]) p''"

inductive_cases pool_stepE: "pool_step p e p'"

fun enqueued_by :: "'a pool_event \<Rightarrow> 'a list" where
  "enqueued_by (Enqueued t) = [t]" | "enqueued_by _ = []"

fun taken_by :: "'a pool_event \<Rightarrow> 'a list" where
  "taken_by (Took t) = [t]" | "taken_by _ = []"

fun returned_by :: "'a pool_event \<Rightarrow> 'a list" where
  "returned_by (Returned t) = [t]" | "returned_by _ = []"

definition enqueued :: "'a pool_event list \<Rightarrow> 'a list" where "enqueued es = concat (map enqueued_by es)"
definition taken :: "'a pool_event list \<Rightarrow> 'a list" where "taken es = concat (map taken_by es)"
definition returned :: "'a pool_event list \<Rightarrow> 'a list" where "returned es = concat (map returned_by es)"

text \<open>What the workers are at.\<close>

primrec worker_task :: "'a worker \<Rightarrow> 'a multiset" where
  "worker_task Waiting = {#}" | "worker_task (Busy t) = {#t#}" | "worker_task Exited = {#}"

definition running :: "'a thread_pool \<Rightarrow> 'a multiset" where
  "running p = sum_list (map worker_task (tp_workers p))"

section \<open>Every task runs\<close>

lemma running_update:
  assumes "i < length (tp_workers p)"
  shows "running (p\<lparr>tp_workers := (tp_workers p)[i := w]\<rparr>) + worker_task (tp_workers p ! i) =
    running p + worker_task w"
  using sum_list_map_update [OF assms, of worker_task w] by (simp add: running_def)

text \<open>What a step does to the queue, the workers and the flag.\<close>

definition pool_ok :: "'a thread_pool \<Rightarrow> bool" where
  "pool_ok p \<longleftrightarrow> tp_workers p \<noteq> [] \<and> (Exited \<in> set (tp_workers p) \<longrightarrow> tp_stop p \<and> tp_tasks p = [])"

lemma worker_wakesD:
  "worker_wakes i p = Some (Exited, p') \<Longrightarrow>
     tp_stop p \<and> tp_tasks p = [] \<and> p' = p\<lparr>tp_workers := (tp_workers p)[i := Exited]\<rparr>"
  "worker_wakes i p = Some (Busy t, p') \<Longrightarrow>
     \<exists>rest. tp_tasks p = t # rest \<and> p' = p\<lparr>tp_workers := (tp_workers p)[i := Busy t], tp_tasks := rest\<rparr>"
  by (auto simp: worker_wakes_def split: if_splits list.splits)

lemma enqueueD: "enqueue t p = Inr p' \<Longrightarrow> \<not> tp_stop p \<and> p' = p\<lparr>tp_tasks := tp_tasks p @ [t]\<rparr>"
  by (simp add: enqueue_def split: if_splits)

lemma pool_step_queue: "pool_step p e p' \<Longrightarrow> tp_tasks p @ enqueued_by e = taken_by e @ tp_tasks p'"
  by (induction rule: pool_step.induct)
    (auto dest!: worker_wakesD enqueueD simp: task_returns_def shutdown_begin_def)

lemma pool_step_running:
  "pool_step p e p' \<Longrightarrow> running p + mset (taken_by e) = running p' + mset (returned_by e)"
proof (induction rule: pool_step.induct)
  case (pool_take i p t p')
  then show ?case using running_update [of i p "Busy t"] by (auto dest!: worker_wakesD simp: running_def)
next
  case (pool_exit i p p')
  then show ?case using running_update [of i p Exited] by (auto dest!: worker_wakesD simp: running_def)
next
  case (pool_return i p t)
  then show ?case using running_update [of i p Waiting] by (simp add: task_returns_def)
qed (auto dest!: enqueueD simp: running_def shutdown_begin_def)

lemma pool_step_ok: "pool_step p e p' \<Longrightarrow> pool_ok p \<Longrightarrow> pool_ok p'"
proof (induction rule: pool_step.induct)
  case (pool_take i p t p')
  then show ?case
    by (auto dest!: worker_wakesD set_update_subset_insert [THEN subsetD] simp: pool_ok_def)
next
  case (pool_exit i p p')
  then show ?case by (auto dest!: worker_wakesD simp: pool_ok_def)
next
  case (pool_return i p t)
  then show ?case
    by (auto dest!: set_update_subset_insert [THEN subsetD] simp: pool_ok_def task_returns_def)
qed (auto dest!: enqueueD simp: pool_ok_def shutdown_begin_def)

lemma no_task: "\<forall>w \<in> set ws. worker_task w = {#} \<Longrightarrow> sum_list (map worker_task ws) = {#}"
  by (induction ws) auto

lemma pool_init_ok: "pool_ok (pool_init n)" "running (pool_init n) = {#}" "tp_tasks (pool_init n) = []"
  using no_task [of "tp_workers (pool_init n)"] by (simp_all add: pool_ok_def pool_init_def running_def)

lemma trace_simps [simp]:
  "enqueued [] = []" "enqueued (es @ [e]) = enqueued es @ enqueued_by e"
  "taken [] = []" "taken (es @ [e]) = taken es @ taken_by e"
  "returned [] = []" "returned (es @ [e]) = returned es @ returned_by e"
  by (simp_all add: enqueued_def taken_def returned_def)

lemma pool_run_queue:
  "pool_run p es p' \<Longrightarrow> tp_tasks p @ enqueued es = taken es @ tp_tasks p' \<and>
     running p + mset (taken es) = running p' + mset (returned es) \<and> (pool_ok p \<longrightarrow> pool_ok p')"
proof (induction rule: pool_run.induct)
  case (pool_run_snoc es p' e p'')
  note q = pool_step_queue [OF pool_run_snoc.hyps(2)] and r = pool_step_running [OF pool_run_snoc.hyps(2)]
  have "tp_tasks p @ enqueued (es @ [e]) = taken (es @ [e]) @ tp_tasks p''"
    using pool_run_snoc.IH q by (metis append_assoc trace_simps(2,4))
  moreover have "running p + mset (taken (es @ [e])) = running p'' + mset (returned (es @ [e]))"
    using pool_run_snoc.IH r by (metis add.assoc add.commute mset_append trace_simps(4,6))
  ultimately show ?case using pool_run_snoc.IH pool_step_ok [OF pool_run_snoc.hyps(2)] by blast
qed simp

lemma joined_ok: "pool_ok p \<Longrightarrow> joined p \<Longrightarrow> tp_stop p \<and> tp_tasks p = [] \<and> running p = {#}"
proof -
  assume ok: "pool_ok p" and j: "joined p"
  then have "Exited \<in> set (tp_workers p)" by (auto simp: pool_ok_def joined_def neq_Nil_conv)
  moreover have "\<forall>w \<in> set (tp_workers p). worker_task w = {#}"
    using j worker_task.simps(3) unfolding joined_def by metis
  then have "running p = {#}" unfolding running_def by (rule no_task)
  ultimately show ?thesis using ok by (simp add: pool_ok_def)
qed

section \<open>Shutdown ends\<close>

text \<open>What is left to do behind the stop flag: for a task to be taken and returned, for a worker to exit.\<close>

primrec worker_weight :: "'a worker \<Rightarrow> nat" where
  "worker_weight Exited = 0" | "worker_weight Waiting = 1" | "worker_weight (Busy t) = 2"

definition left_to_do :: "'a thread_pool \<Rightarrow> nat" where
  "left_to_do p = 2 * length (tp_tasks p) + sum_list (map worker_weight (tp_workers p))"

definition pool_works :: "'a pool_event \<Rightarrow> bool" where
  "pool_works e \<longleftrightarrow> e \<noteq> Stopped"

lemma weight_update:
  assumes "i < length (tp_workers p)"
  shows "sum_list (map worker_weight ((tp_workers p)[i := w])) + worker_weight (tp_workers p ! i) =
    sum_list (map worker_weight (tp_workers p)) + worker_weight w"
  by (rule sum_list_map_update [OF assms])

lemma pool_step_measure:
  "pool_step p e p' \<Longrightarrow> tp_stop p \<Longrightarrow> tp_stop p' \<and> left_to_do p = left_to_do p' + (if pool_works e then 1 else 0)"
proof (induction rule: pool_step.induct)
  case (pool_take i p t p')
  then show ?case using weight_update [of i p "Busy t"]
    by (auto dest!: worker_wakesD simp: left_to_do_def pool_works_def)
next
  case (pool_exit i p p')
  then show ?case using weight_update [of i p Exited]
    by (auto dest!: worker_wakesD simp: left_to_do_def pool_works_def)
next
  case (pool_return i p t)
  then show ?case using weight_update [of i p Waiting]
    by (auto simp: left_to_do_def task_returns_def pool_works_def)
qed (auto dest!: enqueueD simp: left_to_do_def shutdown_begin_def pool_works_def)

lemma pool_run_measure:
  "pool_run p es p' \<Longrightarrow> tp_stop p \<Longrightarrow>
     tp_stop p' \<and> left_to_do p = left_to_do p' + length (filter pool_works es)"
proof (induction rule: pool_run.induct)
  case (pool_run_snoc es p' e p'')
  then show ?case using pool_step_measure [OF pool_run_snoc.hyps(2)] by auto
qed simp

lemma pool_progress:
  assumes "tp_stop p" "\<not> joined p"
  shows "\<exists>e p'. pool_works e \<and> pool_step p e p'"
proof -
  from assms(2) obtain i where i: "i < length (tp_workers p)" "tp_workers p ! i \<noteq> Exited"
    by (auto simp: joined_def in_set_conv_nth)
  show ?thesis
  proof (cases "tp_workers p ! i")
    case Waiting
    show ?thesis
    proof (cases "tp_tasks p")
      case Nil
      then have "worker_wakes i p = Some (Exited, p\<lparr>tp_workers := (tp_workers p)[i := Exited]\<rparr>)"
        using assms(1) by (simp add: worker_wakes_def)
      from pool_exit [OF i(1) Waiting this] show ?thesis by (auto simp: pool_works_def)
    next
      case (Cons t rest)
      then obtain p' where "worker_wakes i p = Some (Busy t, p')" by (simp add: worker_wakes_def)
      from pool_take [OF i(1) Waiting this] show ?thesis by (auto simp: pool_works_def)
    qed
  next
    case (Busy t)
    from pool_return [OF i(1) this] show ?thesis by (auto simp: pool_works_def)
  qed (use i in simp)
qed

section \<open>Properties\<close>

text \<open>
  C28: the pool takes the tasks in the order in which they were enqueued, and when \<open>shutdown\<close>
  returns every task that was accepted has run to its end exactly once, those that were still
  queued when it was called included.
\<close>

theorem every_task_runs:
  assumes "pool_run (pool_init n) es p"
  shows "enqueued es = taken es @ tp_tasks p \<and> mset (taken es) = running p + mset (returned es) \<and>
    (joined p \<longrightarrow> taken es = enqueued es \<and> mset (returned es) = mset (enqueued es))"
  using pool_run_queue [OF assms] joined_ok [of p] by (auto simp: pool_init_ok)

text \<open>
  C29: \<open>shutdown\<close> ends when the tasks do: once the flag is set the workers have a bounded number of
  steps left, two for each queued task, and while one of them has not exited, one can go on.
\<close>

theorem shutdown_terminates:
  assumes "tp_stop p" "pool_run p es p'"
  shows "length (filter pool_works es) \<le> left_to_do p \<and>
    (joined p' \<or> (\<exists>e p''. pool_works e \<and> pool_step p' e p''))"
  using pool_run_measure [OF assms(2,1)] pool_progress [of p'] by auto

definition pool_example :: "nat pool_event list" where
  "pool_example = [Enqueued 7, Stopped, Took 7, Returned 7, Left]"

lemma pool_example_run: "\<exists>p :: nat thread_pool. pool_run (pool_init 1) pool_example p \<and> joined p"
proof -
  let ?p0 = "pool_init 1 :: nat thread_pool"
  let ?p1 = "?p0\<lparr>tp_tasks := [7]\<rparr>"
  let ?p2 = "?p1\<lparr>tp_stop := True\<rparr>"
  let ?p3 = "?p2\<lparr>tp_workers := [Busy 7], tp_tasks := []\<rparr>"
  let ?p4 = "?p3\<lparr>tp_workers := [Waiting]\<rparr>"
  let ?p5 = "?p4\<lparr>tp_workers := [Exited]\<rparr>"
  have r1: "pool_run ?p0 ([] @ [Enqueued 7]) ?p1"
    by (rule pool_run_snoc [OF pool_run_Nil pool_enqueue]) (simp add: enqueue_def pool_init_def)
  have r2: "pool_step ?p1 Stopped ?p2" using pool_stop [of ?p1] by (simp add: shutdown_begin_def)
  have r3: "pool_step ?p2 (Took 7) ?p3"
    by (rule pool_take [of 0]) (simp_all add: worker_wakes_def pool_init_def)
  have r4: "pool_step ?p3 (Returned 7) ?p4"
    using pool_return [of 0 ?p3 7] by (simp add: task_returns_def)
  have r5: "pool_step ?p4 Left ?p5"
    by (rule pool_exit [of 0]) (simp_all add: worker_wakes_def pool_init_def)
  note pool_run_snoc [OF pool_run_snoc [OF pool_run_snoc [OF pool_run_snoc [OF r1 r2] r3] r4] r5]
  moreover have "joined ?p5" by (simp add: joined_def)
  ultimately show ?thesis unfolding pool_example_def by auto
qed

lemma every_task_runs_witness: "mset (returned pool_example) = {#7#}"
proof -
  obtain p :: "nat thread_pool" where "pool_run (pool_init 1) pool_example p" "joined p" using pool_example_run by blast
  with every_task_runs [of 1 pool_example p] have "mset (returned pool_example) = mset (enqueued pool_example)"
    by blast
  then show ?thesis by (simp add: pool_example_def enqueued_def)
qed

lemma shutdown_terminates_witness:
  "\<exists>e p. pool_works e \<and> pool_step (shutdown_begin (pool_init 1 :: nat thread_pool)) e p"
proof -
  let ?p = "shutdown_begin (pool_init 1 :: nat thread_pool)"
  have "tp_stop ?p" "\<not> joined ?p" by (simp_all add: shutdown_begin_def joined_def pool_init_def)
  with shutdown_terminates [OF this(1) pool_run_Nil] show ?thesis by blast
qed

end
