(* ===== verification/Db_Pool.thy ===== *)
theory Db_Pool
  imports Prelude "HOL-Library.Multiset"
begin

text \<open>
  \<open>SqlitePool\<close> and \<open>PgPool\<close> (\<open>include/oreshnek/platform\<close>, \<open>src/platform\<close>): the pools of database
  connections and the handles through which threads hold them. A connection is a value the
  driver gives out; the driver's answers are arguments. A handle is the connection it holds, or
  \<^term>\<open>None\<close> when it was moved from or destroyed.
\<close>

section \<open>Opening a pool\<close>

record 'c db_pool =
  dp_connections :: "'c list"
  dp_available :: "'c list"

definition clamp_size :: "int \<Rightarrow> nat" where
  "clamp_size n = (if n < 1 then 1 else nat n)"

text \<open>
  One round of the loop of the constructor of \<open>SqlitePool\<close>: the open fails (with or without an
  object to close), a \<open>PRAGMA\<close> fails, or the connection is usable.
\<close>

datatype 'c sqlite_open = OpenFailed "'c option" string | PragmaFailed 'c string | SqliteOpened 'c

text \<open>The connections closed, and the exception or the pool; \<open>opened\<close> are those of the earlier rounds.\<close>

fun sqlite_open_loop :: "'c sqlite_open list \<Rightarrow> 'c list \<Rightarrow> 'c list \<times> 'c db_pool throws" where
  "sqlite_open_loop [] opened = ([], Inr \<lparr>dp_connections = opened, dp_available = opened\<rparr>)"
| "sqlite_open_loop (r # rs) opened =
     (case r of
        OpenFailed db msg \<Rightarrow>
          ((case db of None \<Rightarrow> [] | Some c \<Rightarrow> [c]) @ opened, Inl (''Cannot open database: '' @ msg))
      | PragmaFailed c msg \<Rightarrow> ([], Inl (''SQLite failed: '' @ msg))
      | SqliteOpened c \<Rightarrow> sqlite_open_loop rs (opened @ [c]))"

definition sqlite_pool_init :: "(nat \<Rightarrow> 'c sqlite_open) \<Rightarrow> int \<Rightarrow> 'c list \<times> 'c db_pool throws" where
  "sqlite_pool_init drv n = sqlite_open_loop (map drv [0..<clamp_size n]) []"

definition sqlite_pool_close :: "'c db_pool \<Rightarrow> 'c list" where
  "sqlite_pool_close p = dp_connections p"

text \<open>\<open>open_connection\<close> of \<open>PgPool\<close> closes what it could not use; the constructor closes the others.\<close>

datatype 'c pg_open = PgFailed "'c option" string | PgOpened 'c

record 'c pg_pool = "'c db_pool" +
  pp_resets :: "'c list"

fun pg_open_loop :: "'c pg_open list \<Rightarrow> 'c list \<Rightarrow> 'c list \<times> 'c pg_pool throws" where
  "pg_open_loop [] opened =
     ([], Inr \<lparr>dp_connections = opened, dp_available = opened, pp_resets = []\<rparr>)"
| "pg_open_loop (r # rs) opened =
     (case r of
        PgFailed c msg \<Rightarrow>
          ((case c of None \<Rightarrow> [] | Some c \<Rightarrow> [c]) @ opened, Inl (''PostgreSQL connection failed: '' @ msg))
      | PgOpened c \<Rightarrow> pg_open_loop rs (opened @ [c]))"

definition pg_pool_init :: "(nat \<Rightarrow> 'c pg_open) \<Rightarrow> int \<Rightarrow> 'c list \<times> 'c pg_pool throws" where
  "pg_pool_init drv n = pg_open_loop (map drv [0..<clamp_size n]) []"

section \<open>Taking and giving back\<close>

text \<open>\<open>acquire\<close> under the lock; \<^term>\<open>None\<close> is a wait on the condition variable.\<close>

definition pool_acquire :: "('c, 'z) db_pool_scheme \<Rightarrow> ('c \<times> ('c, 'z) db_pool_scheme) option" where
  "pool_acquire p =
     (case dp_available p of [] \<Rightarrow> None | c # rest \<Rightarrow> Some (c, p\<lparr>dp_available := rest\<rparr>))"

definition sqlite_release :: "'c \<Rightarrow> 'c db_pool \<Rightarrow> 'c db_pool" where
  "sqlite_release c p = p\<lparr>dp_available := dp_available p @ [c]\<rparr>"

text \<open>\<open>bad\<close> is \<open>PQstatus(conn) == CONNECTION_BAD\<close> at the call; \<open>pp_resets\<close> lists the calls of \<open>PQreset\<close>.\<close>

definition pg_release :: "bool \<Rightarrow> 'c \<Rightarrow> 'c pg_pool \<Rightarrow> 'c pg_pool" where
  "pg_release bad c p =
     (let p1 = (if bad then p\<lparr>pp_resets := pp_resets p @ [c]\<rparr> else p)
      in p1\<lparr>dp_available := dp_available p1 @ [c]\<rparr>)"

section \<open>Handles\<close>

text \<open>
  The operations of \<open>Handle\<close>, the same in both classes, over the list of the handles in use:
  construction by \<open>acquire\<close>, move construction, move assignment, destruction.
\<close>

definition give_back :: "('c \<Rightarrow> 'p \<Rightarrow> 'p) \<Rightarrow> 'c option \<Rightarrow> 'p \<Rightarrow> 'p" where
  "give_back release h p = (case h of None \<Rightarrow> p | Some c \<Rightarrow> release c p)"

definition handle_destroy :: "('c \<Rightarrow> 'p \<Rightarrow> 'p) \<Rightarrow> nat \<Rightarrow> 'p \<times> 'c option list \<Rightarrow> 'p \<times> 'c option list" where
  "handle_destroy release i s = (case s of (p, hs) \<Rightarrow> (give_back release (hs ! i) p, hs[i := None]))"

definition handle_move :: "nat \<Rightarrow> 'p \<times> 'c option list \<Rightarrow> 'p \<times> 'c option list" where
  "handle_move i s = (case s of (p, hs) \<Rightarrow> (p, hs[i := None] @ [hs ! i]))"

definition handle_assign ::
  "('c \<Rightarrow> 'p \<Rightarrow> 'p) \<Rightarrow> nat \<Rightarrow> nat \<Rightarrow> 'p \<times> 'c option list \<Rightarrow> 'p \<times> 'c option list" where
  "handle_assign release i j s =
     (if i = j then s
      else (case s of (p, hs) \<Rightarrow> (give_back release (hs ! i) p, hs[i := hs ! j, j := None])))"

text \<open>What threads do with a pool, in any order.\<close>

inductive uses ::
  "('p \<Rightarrow> ('c \<times> 'p) option) \<Rightarrow> ('e \<Rightarrow> 'c \<Rightarrow> 'p \<Rightarrow> 'p) \<Rightarrow> 'p \<times> 'c option list \<Rightarrow> 'p \<times> 'c option list \<Rightarrow> bool"
  for acquire :: "'p \<Rightarrow> ('c \<times> 'p) option" and release :: "'e \<Rightarrow> 'c \<Rightarrow> 'p \<Rightarrow> 'p"
    and s :: "'p \<times> 'c option list" where
  uses_refl: "uses acquire release s s"
| uses_acquire:
    "uses acquire release s (p, hs) \<Longrightarrow> acquire p = Some (c, p') \<Longrightarrow>
     uses acquire release s (p', hs @ [Some c])"
| uses_move:
    "uses acquire release s (p, hs) \<Longrightarrow> i < length hs \<Longrightarrow>
     uses acquire release s (handle_move i (p, hs))"
| uses_assign:
    "uses acquire release s (p, hs) \<Longrightarrow> i < length hs \<Longrightarrow> j < length hs \<Longrightarrow>
     uses acquire release s (handle_assign (release e) i j (p, hs))"
| uses_destroy:
    "uses acquire release s (p, hs) \<Longrightarrow> i < length hs \<Longrightarrow>
     uses acquire release s (handle_destroy (release e) i (p, hs))"

section \<open>The contract of a pool\<close>

text \<open>
  What a handle relies on: a connection taken is one of the free ones and no longer free, one given
  back is free again, and the pool always owns the same connections.
\<close>

primrec held_by :: "'c option \<Rightarrow> 'c multiset" where
  "held_by None = {#}" | "held_by (Some c) = {#c#}"

definition held :: "'c option list \<Rightarrow> 'c multiset" where
  "held hs = sum_list (map held_by hs)"

lemma held_simps [simp]: "held [] = {#}" "held (hs @ [h]) = held hs + held_by h"
  by (simp_all add: held_def)

lemma held_update: "i < length hs \<Longrightarrow> held (hs[i := h]) + held_by (hs ! i) = held hs + held_by h"
  using sum_list_map_update [of i hs held_by h] by (simp add: held_def)

lemma held_move:
  assumes "i < length hs" "j < length hs" "i \<noteq> j"
  shows "held (hs[i := hs ! j, j := None]) + held_by (hs ! i) = held hs"
proof -
  have "held (hs[i := hs ! j, j := None]) + held_by (hs ! j) = held (hs[i := hs ! j])"
    using held_update [of j "hs[i := hs ! j]" None] assms by (simp add: nth_list_update)
  with held_update [OF assms(1), of "hs ! j"]
  have "(held (hs[i := hs ! j, j := None]) + held_by (hs ! i)) + held_by (hs ! j) = held hs + held_by (hs ! j)"
    by (simp add: ac_simps)
  then show ?thesis by simp
qed

lemma held_other:
  assumes "i < length hs" "j < length hs" "i \<noteq> j" "hs ! i = Some c" "hs ! j = Some c"
  shows "\<exists>m. held hs = add_mset c (add_mset c m)"
proof -
  have "held hs = add_mset c (held (hs[i := None]))" using held_update [OF assms(1), of None] assms(4) by simp
  moreover have "held (hs[i := None]) = add_mset c (held (hs[i := None, j := None]))"
    using held_update [of j "hs[i := None]" None] assms by simp
  ultimately show ?thesis by simp
qed

text \<open>Where no connection is owned twice, none is held twice.\<close>

lemma held_distinct:
  assumes "F + held hs = M" "\<forall>c. count M c \<le> 1" "i < length hs" "hs ! i = Some c"
  shows "c \<notin># F \<and> (\<forall>j < length hs. hs ! j = Some c \<longrightarrow> j = i)"
proof -
  have one: "count (F + held hs) c \<le> 1" using assms(1,2) by simp
  have "held hs = add_mset c (held (hs[i := None]))" using held_update [OF assms(3), of None] assms(4) by simp
  then have "count F c = 0" using one by simp
  then have "c \<notin># F" by (simp add: count_eq_zero_iff)
  moreover have "j = i" if j: "j < length hs" "hs ! j = Some c" for j
  proof (rule ccontr)
    assume "j \<noteq> i"
    with held_other [OF j(1) assms(3) _ j(2) assms(4)] obtain m where "held hs = add_mset c (add_mset c m)" by blast
    then show False using one by simp
  qed
  ultimately show ?thesis by blast
qed

locale checkout_pool =
  fixes owned :: "'p \<Rightarrow> 'c multiset"
    and free :: "'p \<Rightarrow> 'c multiset"
    and acquire :: "'p \<Rightarrow> ('c \<times> 'p) option"
    and release :: "'e \<Rightarrow> 'c \<Rightarrow> 'p \<Rightarrow> 'p"
  assumes acquire_None: "acquire p = None \<longleftrightarrow> free p = {#}"
    and acquire_Some: "acquire p = Some (c, p') \<Longrightarrow> free p = add_mset c (free p') \<and> owned p' = owned p"
    and release_free: "free (release e c p) = add_mset c (free p)"
    and release_owned: "owned (release e c p) = owned p"
begin

lemma give_back_free: "free (give_back (release e) h p) = free p + held_by h"
  "owned (give_back (release e) h p) = owned p"
  by (cases h; simp add: give_back_def release_free release_owned)+

text \<open>No connection is lost or duplicated.\<close>

lemma uses_conserves:
  "uses acquire release s s' \<Longrightarrow>
     owned (fst s') = owned (fst s) \<and>
     free (fst s') + held (snd s') = free (fst s) + held (snd s)"
proof (induction rule: uses.induct)
  case (uses_acquire p hs c p')
  then show ?case using acquire_Some [OF uses_acquire.hyps(2)] by simp
next
  case (uses_move p hs i)
  then show ?case using held_update [of i hs None] by (simp add: handle_move_def)
next
  case (uses_assign p hs i j e)
  show ?case
  proof (cases "i = j")
    case ij: False
    then have "held (hs[i := hs ! j, j := None]) + held_by (hs ! i) = held hs"
      using uses_assign.hyps by (intro held_move) auto
    then show ?thesis using uses_assign.IH ij
      by (simp add: handle_assign_def give_back_free) (simp add: ac_simps)
  qed (use uses_assign in \<open>simp add: handle_assign_def\<close>)
next
  case (uses_destroy p hs i e)
  then show ?case using held_update [of i hs None]
    by (simp add: handle_destroy_def give_back_free) (simp add: ac_simps)
qed simp

lemma uses_partition:
  assumes "uses acquire release (p, []) (p', hs)" "free p = owned p"
  shows "free p' + held hs = owned p"
  using uses_conserves [OF assms(1)] assms(2) by simp

lemma uses_exclusive:
  assumes "uses acquire release (p, []) (p', hs)" "free p = owned p"
    "\<forall>c. count (owned p) c \<le> 1" "owned p \<noteq> {#}"
  shows "free p' + held hs = owned p \<and>
    (\<forall>i < length hs. \<forall>c. hs ! i = Some c \<longrightarrow>
       c \<notin># free p' \<and> (\<forall>j < length hs. hs ! j = Some c \<longrightarrow> j = i)) \<and>
    (held hs = {#} \<longrightarrow> acquire p' \<noteq> None)"
  using uses_partition [OF assms(1,2)] held_distinct [OF _ assms(3)] assms(4) by (auto simp: acquire_None)

end

interpretation sqlite: checkout_pool "\<lambda>p. mset (dp_connections p)" "\<lambda>p. mset (dp_available p)"
    pool_acquire "\<lambda>_ :: unit. sqlite_release"
  by unfold_locales (auto simp: pool_acquire_def sqlite_release_def split: list.splits)

interpretation pg: checkout_pool "\<lambda>p. mset (dp_connections p)" "\<lambda>p. mset (dp_available p)"
    pool_acquire pg_release
  by unfold_locales (auto simp: pool_acquire_def pg_release_def Let_def split: list.splits)

section \<open>Who holds a connection\<close>

lemma sqlite_open_loop_ok:
  "sqlite_open_loop rs opened = (closed, Inr p) \<Longrightarrow>
     dp_available p = dp_connections p \<and> length (dp_connections p) = length opened + length rs"
  by (induction rs opened rule: sqlite_open_loop.induct) (auto split: sqlite_open.splits option.splits)

lemma pg_open_loop_ok:
  "pg_open_loop rs opened = (closed, Inr p) \<Longrightarrow>
     dp_available p = dp_connections p \<and> length (dp_connections p) = length opened + length rs"
  by (induction rs opened rule: pg_open_loop.induct) (auto split: pg_open.splits option.splits)

lemma sqlite_pool_init_ok:
  "sqlite_pool_init drv n = (closed, Inr p) \<Longrightarrow>
     dp_available p = dp_connections p \<and> dp_connections p \<noteq> []"
  using sqlite_open_loop_ok [of "map drv [0..<clamp_size n]" "[]" closed p]
  by (auto simp: sqlite_pool_init_def clamp_size_def split: if_splits)

lemma pg_pool_init_ok:
  "pg_pool_init drv n = (closed, Inr p) \<Longrightarrow>
     dp_available p = dp_connections p \<and> dp_connections p \<noteq> []"
  using pg_open_loop_ok [of "map drv [0..<clamp_size n]" "[]" closed p]
  by (auto simp: pg_pool_init_def clamp_size_def split: if_splits)

text \<open>
  C30: however threads take, move, reassign and destroy handles of a SQLite pool, each of its
  connections is free or held by exactly one handle, so no two threads use one at the same time;
  when no handle is left, every connection is free again and the next \<open>acquire\<close> does not wait.
\<close>

theorem sqlite_pool_exclusive:
  assumes "sqlite_pool_init drv n = (closed, Inr p)" "distinct (dp_connections p)"
    "uses pool_acquire (\<lambda>_ :: unit. sqlite_release) (p, []) (p', hs)"
  shows "mset (dp_available p') + held hs = mset (dp_connections p) \<and>
    (\<forall>i < length hs. \<forall>c. hs ! i = Some c \<longrightarrow>
       c \<notin> set (dp_available p') \<and> (\<forall>j < length hs. hs ! j = Some c \<longrightarrow> j = i)) \<and>
    (held hs = {#} \<longrightarrow> pool_acquire p' \<noteq> None)"
  using sqlite.uses_exclusive [OF assms(3)] sqlite_pool_init_ok [OF assms(1)] assms(2)
  by (simp add: distinct_count_atmost_1)

text \<open>The same for PostgreSQL, whatever connections the driver reports as bad when they come back.\<close>

lemma pg_pool_exclusive:
  assumes "pg_pool_init drv n = (closed, Inr p)" "distinct (dp_connections p)"
    "uses pool_acquire pg_release (p, []) (p', hs)"
  shows "mset (dp_available p') + held hs = mset (dp_connections p) \<and>
    (\<forall>i < length hs. \<forall>c. hs ! i = Some c \<longrightarrow>
       c \<notin> set (dp_available p') \<and> (\<forall>j < length hs. hs ! j = Some c \<longrightarrow> j = i)) \<and>
    (held hs = {#} \<longrightarrow> pool_acquire p' \<noteq> None)"
  using pg.uses_exclusive [OF assms(3)] pg_pool_init_ok [OF assms(1)] assms(2)
  by (simp add: distinct_count_atmost_1)

section \<open>Constructors that fail\<close>

lemma pg_open_loop_fails:
  "pg_open_loop (map PgOpened cs @ PgFailed c msg # rs) opened =
     ((case c of None \<Rightarrow> [] | Some c \<Rightarrow> [c]) @ opened @ cs, Inl (''PostgreSQL connection failed: '' @ msg))"
  by (induction cs arbitrary: opened) (simp_all split: option.split)

lemma sqlite_open_loop_fails:
  "sqlite_open_loop (map SqliteOpened cs @ OpenFailed c msg # rs) opened =
     ((case c of None \<Rightarrow> [] | Some c \<Rightarrow> [c]) @ opened @ cs, Inl (''Cannot open database: '' @ msg))"
  by (induction cs arbitrary: opened) (simp_all split: option.split)

text \<open>
  A \<open>PRAGMA\<close> that fails throws out of the constructor without closing the connection, or those
  opened before it: the destructor of an object under construction does not run.
\<close>

lemma sqlite_pragma_leaks:
  "sqlite_open_loop (map SqliteOpened cs @ PragmaFailed c msg # rs) opened =
     ([], Inl (''SQLite failed: '' @ msg))"
  by (induction cs arbitrary: opened) simp_all

lemma sqlite_pool_exclusive_witness:
  "\<exists>p'. mset (dp_available p') + held [None, Some (0 :: nat)] = mset [0, 1] \<and>
     0 \<notin> set (dp_available (p' :: nat db_pool))"
proof -
  let ?p = "\<lparr>dp_connections = [0, 1 :: nat], dp_available = [0, 1]\<rparr>"
  have i: "sqlite_pool_init SqliteOpened 2 = ([], Inr ?p)"
    by (simp add: sqlite_pool_init_def clamp_size_def numeral_2_eq_2)
  let ?p1 = "\<lparr>dp_connections = [0, 1 :: nat], dp_available = [1]\<rparr>"
  have a: "uses pool_acquire (\<lambda>_ :: unit. sqlite_release) (?p, []) (?p1, [] @ [Some 0])"
    by (rule uses_acquire [OF uses_refl]) (simp add: pool_acquire_def)
  have "uses pool_acquire (\<lambda>_ :: unit. sqlite_release) (?p, []) (?p1, [None, Some 0])"
    using uses_move [OF a, of 0] by (simp add: handle_move_def)
  from sqlite_pool_exclusive [OF i _ this]
  have "mset (dp_available ?p1) + held [None, Some 0] = mset (dp_connections ?p)" "0 \<notin> set (dp_available ?p1)"
    by auto
  then show ?thesis by (intro exI [of _ ?p1]) simp
qed

end
