(* ===== verification/Sql.thy ===== *)
theory Sql
  imports Db_Pool
begin

text \<open>
  The SQL gateway (\<open>platform/SqlResult.h\<close>, \<open>platform/SqliteBackend.cpp\<close>, \<open>platform/PgBackend.cpp\<close>):
  the generic result of a statement, the conninfo string and the placeholders of PostgreSQL, and
  the translation of what the drivers return. The drivers are the records \<open>sqlite_driver\<close> and
  \<open>pg_driver\<close>: their results for a connection, a statement and its parameters.
\<close>

section \<open>Results\<close>

record sql_result =
  sr_ok :: bool
  sr_error :: string
  sr_affected :: int
  sr_last_insert_id :: int
  sr_columns :: "string list"
  sr_rows :: "string option list list"

definition result_init :: sql_result where
  "result_init = \<lparr>sr_ok = False, sr_error = [], sr_affected = 0, sr_last_insert_id = 0,
     sr_columns = [], sr_rows = []\<rparr>"

definition row_count :: "sql_result \<Rightarrow> nat" where
  "row_count r = length (sr_rows r)"

text \<open>The index of a column, or -1.\<close>

fun column_from :: "string list \<Rightarrow> string \<Rightarrow> int \<Rightarrow> int" where
  "column_from [] name i = -1"
| "column_from (c # cs) name i = (if c = name then i else column_from cs name (i + 1))"

definition column :: "sql_result \<Rightarrow> string \<Rightarrow> int" where
  "column r name = column_from (sr_columns r) name 0"

definition is_null :: "sql_result \<Rightarrow> nat \<Rightarrow> nat \<Rightarrow> bool" where
  "is_null r row col \<longleftrightarrow>
     length (sr_rows r) \<le> row \<or> length (sr_rows r ! row) \<le> col \<or> sr_rows r ! row ! col = None"

definition cell :: "sql_result \<Rightarrow> nat \<Rightarrow> nat \<Rightarrow> string" where
  "cell r row col = (if is_null r row col then [] else the (sr_rows r ! row ! col))"

definition cell_integer :: "sql_result \<Rightarrow> nat \<Rightarrow> nat \<Rightarrow> int \<Rightarrow> int" where
  "cell_integer r row col dflt =
     (if is_null r row col then dflt
      else (case stoll (the (sr_rows r ! row ! col)) of None \<Rightarrow> dflt | Some v \<Rightarrow> v))"

text \<open>\<open>std::stod\<close> is a parameter.\<close>

definition cell_real :: "(string \<Rightarrow> 'd option) \<Rightarrow> sql_result \<Rightarrow> nat \<Rightarrow> nat \<Rightarrow> 'd \<Rightarrow> 'd" where
  "cell_real stod r row col dflt =
     (if is_null r row col then dflt
      else (case stod (the (sr_rows r ! row ! col)) of None \<Rightarrow> dflt | Some v \<Rightarrow> v))"

definition cell_boolean :: "sql_result \<Rightarrow> nat \<Rightarrow> nat \<Rightarrow> bool" where
  "cell_boolean r row col =
     (if is_null r row col then False
      else the (sr_rows r ! row ! col) \<in> {''1'', ''t'', ''true'', ''TRUE''})"

section \<open>SQLite\<close>

text \<open>
  \<open>sqlite3_prepare_v2\<close> gives an error or a statement; the rows that \<open>sqlite3_step\<close> returns with the
  parameters bound end with \<open>SQLITE_DONE\<close> (\<^term>\<open>None\<close>) or an error. A column name may be null.
\<close>

record ('d, 's) sqlite_driver =
  sd_prepare :: "'d \<Rightarrow> string \<Rightarrow> string + 's"
  sd_column_names :: "'s \<Rightarrow> string option list"
  sd_step :: "'d \<Rightarrow> 's \<Rightarrow> string option list \<Rightarrow> string option list list \<times> string option"
  sd_changes :: "'d \<Rightarrow> int"
  sd_last_insert_rowid :: "'d \<Rightarrow> int"

definition sqlite_run :: "('d, 's) sqlite_driver \<Rightarrow> 'd \<Rightarrow> string \<Rightarrow> string option list \<Rightarrow> sql_result" where
  "sqlite_run drv db sql params =
     (case sd_prepare drv db sql of
        Inl msg \<Rightarrow> result_init\<lparr>sr_error := msg\<rparr>
      | Inr stmt \<Rightarrow>
          let r = result_init\<lparr>sr_columns :=
                map (\<lambda>n. case n of None \<Rightarrow> [] | Some n \<Rightarrow> n) (sd_column_names drv stmt)\<rparr>
          in (case sd_step drv db stmt params of
                (rows, Some msg) \<Rightarrow> r\<lparr>sr_error := msg, sr_rows := rows\<rparr>
              | (rows, None) \<Rightarrow>
                  r\<lparr>sr_ok := True, sr_affected := sd_changes drv db,
                    sr_last_insert_id := sd_last_insert_rowid drv db, sr_rows := rows\<rparr>))"

section \<open>PostgreSQL\<close>

text \<open>A value of a conninfo string in single quotes.\<close>

fun quote_chars :: "string \<Rightarrow> string" where
  "quote_chars [] = []"
| "quote_chars (c # cs) =
     (if c = BSL \<or> c = SQ then [BSL, c] else [c]) @ quote_chars cs"

definition quote :: "string \<Rightarrow> string" where
  "quote v = [SQ] @ quote_chars v @ [SQ]"

record db_config =
  dc_backend :: string
  dc_sqlite_path :: string
  dc_sqlite_pool_size :: int
  dc_sqlite_busy_timeout_ms :: int
  dc_pg_host :: string
  dc_pg_port :: int
  dc_pg_dbname :: string
  dc_pg_user :: string
  dc_pg_password :: string
  dc_pg_sslmode :: string
  dc_pg_pool_size :: int
  dc_pg_connect_timeout_sec :: int
  dc_pg_url :: string

definition db_config_init :: db_config where
  "db_config_init = \<lparr>dc_backend = ''sqlite'', dc_sqlite_path = ''./database.db'',
     dc_sqlite_pool_size = 4, dc_sqlite_busy_timeout_ms = 5000, dc_pg_host = ''127.0.0.1'',
     dc_pg_port = 5432, dc_pg_dbname = ''oreshnek'', dc_pg_user = ''oreshnek'', dc_pg_password = [],
     dc_pg_sslmode = ''prefer'', dc_pg_pool_size = 8, dc_pg_connect_timeout_sec = 5, dc_pg_url = []\<rparr>"

definition build_conninfo :: "db_config \<Rightarrow> string" where
  "build_conninfo db =
     (if dc_pg_url db \<noteq> [] then dc_pg_url db
      else ''host='' @ quote (dc_pg_host db) @ '' port='' @ dec_int (dc_pg_port db) @
           '' dbname='' @ quote (dc_pg_dbname db) @ '' user='' @ quote (dc_pg_user db) @
           '' password='' @ quote (dc_pg_password db) @ '' sslmode='' @ quote (dc_pg_sslmode db) @
           '' connect_timeout='' @ dec_int (dc_pg_connect_timeout_sec db))"

text \<open>The loop over the statement, behind \<open>n\<close> placeholders; the flag is \<open>in_string\<close>.\<close>

fun placeholder_loop :: "bool \<Rightarrow> nat \<Rightarrow> string \<Rightarrow> string" where
  "placeholder_loop b n [] = []"
| "placeholder_loop True n (c # cs) =
     (if c = SQ then
        (case cs of
           [] \<Rightarrow> [c]
         | c' # cs' \<Rightarrow>
             if c' = SQ then c # SQ # placeholder_loop True n cs' else c # placeholder_loop False n cs)
      else c # placeholder_loop True n cs)"
| "placeholder_loop False n (c # cs) =
     (if c = SQ then c # placeholder_loop True n cs
      else if c = CHR ''?'' then CHR ''$'' # dec (n + 1) @ placeholder_loop False (n + 1) cs
      else c # placeholder_loop False n cs)"

definition to_pg_placeholders :: "string \<Rightarrow> string" where
  "to_pg_placeholders sql = placeholder_loop False 0 sql"

text \<open>\<open>PQresultStatus\<close> with what the code reads of each result.\<close>

datatype pg_outcome = TuplesOk "string list" "string option list list" | CommandOk string | PgError string

definition pg_run ::
  "('c \<Rightarrow> string \<Rightarrow> string option list \<Rightarrow> pg_outcome) \<Rightarrow> 'c \<Rightarrow> string \<Rightarrow> string option list \<Rightarrow> sql_result" where
  "pg_run exec conn sql params =
     (case exec conn (to_pg_placeholders sql) params of
        TuplesOk names rows \<Rightarrow> result_init\<lparr>sr_ok := True, sr_columns := names, sr_rows := rows\<rparr>
      | CommandOk tuples \<Rightarrow>
          result_init\<lparr>sr_ok := True,
            sr_affected := (if tuples = [] then 0 else case stoll tuples of None \<Rightarrow> 0 | Some v \<Rightarrow> v)\<rparr>
      | PgError msg \<Rightarrow> result_init\<lparr>sr_error := msg\<rparr>)"

section \<open>Placeholders\<close>

text \<open>
  A statement in pieces: code without quotes and question marks, a string literal with its value,
  a placeholder. The same pieces are written for the portable dialect and for PostgreSQL.
\<close>

datatype sql_piece = Code string | Literal string | Hole

fun double_quotes :: "string \<Rightarrow> string" where
  "double_quotes [] = []"
| "double_quotes (c # cs) = (if c = SQ then [SQ, SQ] else [c]) @ double_quotes cs"

fun render_portable :: "sql_piece list \<Rightarrow> string" where
  "render_portable [] = []"
| "render_portable (Code s # ps) = s @ render_portable ps"
| "render_portable (Literal v # ps) = [SQ] @ double_quotes v @ [SQ] @ render_portable ps"
| "render_portable (Hole # ps) = ''?'' @ render_portable ps"

text \<open>For PostgreSQL the \<open>k\<close>-th placeholder is the parameter \<open>k\<close>.\<close>

fun render_pg :: "nat \<Rightarrow> sql_piece list \<Rightarrow> string" where
  "render_pg k [] = []"
| "render_pg k (Code s # ps) = s @ render_pg k ps"
| "render_pg k (Literal v # ps) = [SQ] @ double_quotes v @ [SQ] @ render_pg k ps"
| "render_pg k (Hole # ps) = ''$'' @ dec k @ render_pg (k + 1) ps"

text \<open>Two adjacent literals would read as one with a quote in it.\<close>

fun pieces_ok :: "sql_piece list \<Rightarrow> bool" where
  "pieces_ok [] \<longleftrightarrow> True"
| "pieces_ok (Code s # ps) \<longleftrightarrow> s \<noteq> [] \<and> SQ \<notin> set s \<and> CHR ''?'' \<notin> set s \<and> pieces_ok ps"
| "pieces_ok (Literal v # ps) \<longleftrightarrow> (case ps of Literal _ # _ \<Rightarrow> False | _ \<Rightarrow> True) \<and> pieces_ok ps"
| "pieces_ok (Hole # ps) \<longleftrightarrow> pieces_ok ps"

lemma placeholder_loop_code:
  "SQ \<notin> set s \<Longrightarrow> CHR ''?'' \<notin> set s \<Longrightarrow>
     placeholder_loop False n (s @ rest) = s @ placeholder_loop False n rest"
  by (induction s) auto

lemma placeholder_loop_literal:
  "(rest = [] \<or> hd rest \<noteq> SQ) \<Longrightarrow>
     placeholder_loop True n (double_quotes v @ SQ # rest) =
     double_quotes v @ SQ # placeholder_loop False n rest"
  by (induction v) (auto split: list.split)

lemma render_portable_hd: "pieces_ok (Literal v # ps) \<Longrightarrow> render_portable ps = [] \<or> hd (render_portable ps) \<noteq> SQ"
  by (cases ps rule: pieces_ok.cases) (auto simp: hd_append neq_Nil_conv)

lemma placeholder_loop_render:
  "pieces_ok ps \<Longrightarrow> placeholder_loop False n (render_portable ps) = render_pg (n + 1) ps"
proof (induction ps arbitrary: n rule: pieces_ok.induct)
  case (3 v ps)
  then show ?case using render_portable_hd [OF 3(2)] placeholder_loop_literal by simp
qed (auto simp: placeholder_loop_code)

section \<open>Reading a conninfo string\<close>

text \<open>
  The documented form: settings separated by spaces, a keyword, an equals sign and a value; a value
  in single quotes ends at the next quote that no backslash escapes, another value at a space.
\<close>

fun read_quoted :: "string \<Rightarrow> (string \<times> string) option" where
  "read_quoted [] = None"
| "read_quoted (c # cs) =
     (if c = SQ then Some ([], cs)
      else if c = BSL then
        (case cs of [] \<Rightarrow> None | c' # cs' \<Rightarrow> map_option (apfst ((#) c')) (read_quoted cs'))
      else map_option (apfst ((#) c)) (read_quoted cs))"

definition read_setting :: "string \<Rightarrow> ((string \<times> string) \<times> string) option" where
  "read_setting s =
     (let key = takeWhile (\<lambda>c. c \<noteq> CHR ''='') s; rest = drop (length key + 1) s
      in if rest \<noteq> [] \<and> hd rest = SQ then
           map_option (\<lambda>(v, rest'). ((key, v), rest')) (read_quoted (tl rest))
         else Some ((key, takeWhile (\<lambda>c. c \<noteq> CHR '' '') rest), dropWhile (\<lambda>c. c \<noteq> CHR '' '') rest))"

inductive reads :: "string \<Rightarrow> (string \<times> string) list \<Rightarrow> bool" where
  reads_last: "read_setting s = Some (kv, []) \<Longrightarrow> reads s [kv]"
| reads_more: "read_setting s = Some (kv, CHR '' '' # s') \<Longrightarrow> reads s' kvs \<Longrightarrow> reads s (kv # kvs)"

lemma read_quoted_quote: "read_quoted (quote_chars v @ SQ # rest) = Some (v, rest)"
  by (induction v) auto

lemma takeWhile_key: "d \<notin> set k \<Longrightarrow> takeWhile (\<lambda>c. c \<noteq> d) (k @ d # r) = k"
  by (induction k) auto

lemma read_setting_quote:
  "CHR ''='' \<notin> set k \<Longrightarrow> read_setting (k @ CHR ''='' # quote v @ rest) = Some ((k, v), rest)"
  by (simp add: read_setting_def takeWhile_key quote_def read_quoted_quote)

lemma dec_int_chars: "set (dec_int i) \<subseteq> {c. is_digit c \<or> c = CHR ''-''}" "dec_int i \<noteq> []"
  by (auto simp: dec_int_def dest: dec_digits [THEN bspec])

lemma dec_int_plain: "CHR '' '' \<notin> set (dec_int i)" "hd (dec_int i) \<noteq> SQ"
proof -
  have n: "\<not> is_digit (CHR '' '')" "\<not> is_digit SQ" by (simp_all add: is_digit_def)
  show "CHR '' '' \<notin> set (dec_int i)" using dec_int_chars(1) [of i] n(1) by auto
  have "hd (dec_int i) \<in> set (dec_int i)" using dec_int_chars(2) by simp
  with dec_int_chars(1) [of i] n(2) show "hd (dec_int i) \<noteq> SQ" by auto
qed

lemma read_setting_number:
  assumes "CHR ''='' \<notin> set k" "rest = [] \<or> hd rest = CHR '' ''"
  shows "read_setting (k @ CHR ''='' # dec_int i @ rest) = Some ((k, dec_int i), rest)"
proof -
  have "takeWhile (\<lambda>c. c \<noteq> CHR '' '') (dec_int i @ rest) = dec_int i"
    "dropWhile (\<lambda>c. c \<noteq> CHR '' '') (dec_int i @ rest) = rest"
    using dec_int_plain(1) assms(2) by (cases rest; auto simp: takeWhile_append dropWhile_append)+
  then show ?thesis
    using dec_int_plain(2) dec_int_chars(2) by (simp add: read_setting_def takeWhile_key assms(1) hd_append)
qed

lemma reads_quote:
  "CHR ''='' \<notin> set k \<Longrightarrow> reads s kvs \<Longrightarrow> reads (k @ CHR ''='' # quote v @ CHR '' '' # s) ((k, v) # kvs)"
  by (rule reads_more [OF read_setting_quote])

lemma reads_number:
  "CHR ''='' \<notin> set k \<Longrightarrow> reads s kvs \<Longrightarrow> reads (k @ CHR ''='' # dec_int i @ CHR '' '' # s) ((k, dec_int i) # kvs)"
  by (rule reads_more [OF read_setting_number]) auto

lemma reads_number_last: "CHR ''='' \<notin> set k \<Longrightarrow> reads (k @ CHR ''='' # dec_int i) [(k, dec_int i)]"
  using read_setting_number [of k "[]" i] by (auto intro: reads_last)

section \<open>Properties\<close>

text \<open>
  C35: a statement written once for both backends means the same on PostgreSQL: its placeholders
  become the parameters 1, 2 and so on in their order, and nothing inside a string literal is
  touched, whatever quotes and question marks the literal holds.
\<close>

theorem placeholders_translated:
  assumes "pieces_ok ps"
  shows "to_pg_placeholders (render_portable ps) = render_pg 1 ps"
  using placeholder_loop_render [OF assms, of 0] by (simp add: to_pg_placeholders_def)

text \<open>
  C36: the conninfo string reads back as the settings it was built from: no host, name, user or
  password, whatever quotes, spaces and backslashes it holds, can add a setting or change another.
\<close>

theorem conninfo_reads_back:
  assumes "dc_pg_url db = []"
  shows "reads (build_conninfo db)
    [(''host'', dc_pg_host db), (''port'', dec_int (dc_pg_port db)), (''dbname'', dc_pg_dbname db),
     (''user'', dc_pg_user db), (''password'', dc_pg_password db), (''sslmode'', dc_pg_sslmode db),
     (''connect_timeout'', dec_int (dc_pg_connect_timeout_sec db))]"
proof -
  have "build_conninfo db = ''host'' @ CHR ''='' # quote (dc_pg_host db) @ CHR '' '' #
      (''port'' @ CHR ''='' # dec_int (dc_pg_port db) @ CHR '' '' #
      (''dbname'' @ CHR ''='' # quote (dc_pg_dbname db) @ CHR '' '' #
      (''user'' @ CHR ''='' # quote (dc_pg_user db) @ CHR '' '' #
      (''password'' @ CHR ''='' # quote (dc_pg_password db) @ CHR '' '' #
      (''sslmode'' @ CHR ''='' # quote (dc_pg_sslmode db) @ CHR '' '' #
      (''connect_timeout'' @ CHR ''='' # dec_int (dc_pg_connect_timeout_sec db)))))))"
    using assms by (simp add: build_conninfo_def)
  then show ?thesis
    by (simp only:) (intro reads_quote reads_number reads_number_last; simp)
qed

lemma placeholders_translated_witness:
  "to_pg_placeholders ''a=? AND b='' = ''a=$1 AND b='' \<and>
   to_pg_placeholders (''a=? AND b='' @ [SQ] @ ''?'' @ [SQ, SQ] @ [SQ] @ '' OR c=?'') =
     ''a=$1 AND b='' @ [SQ] @ ''?'' @ [SQ, SQ] @ [SQ] @ '' OR c=$2''"
proof -
  have d: "dec (Suc 0) = ''1''" "dec 2 = ''2''"
    by (simp_all add: dec.simps digit_char_def digit_chars)
  have "pieces_ok [Code ''a='', Hole, Code '' AND b='']"
    "pieces_ok [Code ''a='', Hole, Code '' AND b='', Literal (''?'' @ [SQ]), Code '' OR c='', Hole]"
    by simp_all
  from this [THEN placeholders_translated] show ?thesis by (simp add: d numeral_2_eq_2 [symmetric])
qed

lemma conninfo_reads_back_witness:
  "reads (build_conninfo (db_config_init\<lparr>dc_pg_password := [SQ] @ '' host='' @ [BSL]\<rparr>))
    [(''host'', ''127.0.0.1''), (''port'', ''5432''), (''dbname'', ''oreshnek''),
     (''user'', ''oreshnek''), (''password'', [SQ] @ '' host='' @ [BSL]), (''sslmode'', ''prefer''),
     (''connect_timeout'', ''5'')]"
proof -
  have d: "dec_int 5432 = ''5432''" "dec_int 5 = ''5''"
    by (simp_all add: dec_int_def dec.simps digit_char_def digit_chars)
  show ?thesis
    using conninfo_reads_back [of "db_config_init\<lparr>dc_pg_password := [SQ] @ '' host='' @ [BSL]\<rparr>"]
    by (simp add: db_config_init_def d)
qed

end
