(* ===== verification/Config.thy ===== *)
theory Config
  imports Sql Complex_Main
begin

text \<open>
  \<open>Config::load\<close> (\<open>include/oreshnek/platform/Config.h\<close>, \<open>src/platform/Config.cpp\<close>): defaults, then
  the file, then the environment. The JSON library is the record \<open>json_values\<close>: looking up a key of
  an object, the two type tests and the conversions \<open>get<T>()\<close>, which throw on a value of another
  type. Sizes are naturals, \<open>double\<close> is rational. The warnings logged are not modelled.
\<close>

section \<open>Data\<close>

record tls_config =
  tc_enabled :: bool
  tc_cert_file :: string
  tc_key_file :: string
  tc_min_version :: string

definition tls_config_init :: tls_config where
  "tls_config_init = \<lparr>tc_enabled = False, tc_cert_file = [], tc_key_file = [], tc_min_version = ''1.2''\<rparr>"

record rate_limit_config =
  rc_enabled :: bool
  rc_requests_per_second :: rat
  rc_burst :: rat

definition rate_limit_config_init :: rate_limit_config where
  "rate_limit_config_init = \<lparr>rc_enabled = True, rc_requests_per_second = 50, rc_burst = 100\<rparr>"

record metrics_config =
  mc_enabled :: bool
  mc_path :: string

definition metrics_config_init :: metrics_config where
  "metrics_config_init = \<lparr>mc_enabled = False, mc_path = ''/metrics''\<rparr>"

record compression_config =
  zc_enabled :: bool
  zc_min_bytes :: nat
  zc_brotli :: bool

definition compression_config_init :: compression_config where
  "compression_config_init = \<lparr>zc_enabled = True, zc_min_bytes = 256, zc_brotli = True\<rparr>"

record server_config =
  sc_port :: int
  sc_max_connections :: int
  sc_thread_pool_size :: int
  sc_upload_dir :: string
  sc_static_dir :: string
  sc_jwt_secret :: string
  sc_jwt_expire_hours :: int
  sc_max_file_size :: nat
  sc_host :: string
  sc_read_timeout_sec :: int
  sc_write_timeout_sec :: int
  sc_idle_timeout_sec :: int
  sc_shutdown_grace_sec :: int
  sc_handler_timeout_sec :: int
  sc_max_concurrent_handlers :: int
  sc_log_level :: string
  sc_log_file :: string
  sc_log_max_bytes :: nat
  sc_log_max_files :: int
  sc_db :: db_config
  sc_tls :: tls_config
  sc_rate_limit :: rate_limit_config
  sc_metrics :: metrics_config
  sc_compression :: compression_config
  sc_cors_enabled :: bool
  sc_cors_allow_origin :: string

text \<open>\<open>hw\<close> is \<open>std::thread::hardware_concurrency()\<close>.\<close>

definition server_config_init :: "nat \<Rightarrow> server_config" where
  "server_config_init hw = \<lparr>
     sc_port = 8080, sc_max_connections = 1000, sc_thread_pool_size = int hw * 2,
     sc_upload_dir = ''./uploads/'', sc_static_dir = ''./static/'',
     sc_jwt_secret = ''your-super-secret-jwt-key-change-this'', sc_jwt_expire_hours = 24,
     sc_max_file_size = 500 * 1024 * 1024, sc_host = ''0.0.0.0'', sc_read_timeout_sec = 30,
     sc_write_timeout_sec = 30, sc_idle_timeout_sec = 60, sc_shutdown_grace_sec = 10,
     sc_handler_timeout_sec = 30, sc_max_concurrent_handlers = 0, sc_log_level = ''info'',
     sc_log_file = [], sc_log_max_bytes = 10 * 1024 * 1024, sc_log_max_files = 5,
     sc_db = db_config_init, sc_tls = tls_config_init, sc_rate_limit = rate_limit_config_init,
     sc_metrics = metrics_config_init, sc_compression = compression_config_init,
     sc_cors_enabled = False, sc_cors_allow_origin = ''*''\<rparr>"

section \<open>Reading the file\<close>

record 'j json_values =
  jc_find :: "'j \<Rightarrow> string \<Rightarrow> 'j option"
  jc_is_null :: "'j \<Rightarrow> bool"
  jc_is_object :: "'j \<Rightarrow> bool"
  jc_int :: "'j \<Rightarrow> int throws"
  jc_size :: "'j \<Rightarrow> nat throws"
  jc_double :: "'j \<Rightarrow> rat throws"
  jc_bool :: "'j \<Rightarrow> bool throws"
  jc_string :: "'j \<Rightarrow> string throws"

definition assign_if_present ::
  "'j json_values \<Rightarrow> 'j \<Rightarrow> string \<Rightarrow> ('j \<Rightarrow> 'a throws) \<Rightarrow> (('a \<Rightarrow> 'a) \<Rightarrow> 'c \<Rightarrow> 'c) \<Rightarrow> 'c \<Rightarrow> 'c throws" where
  "assign_if_present js j key get upd c =
     (case jc_find js j key of
        None \<Rightarrow> Inr c
      | Some v \<Rightarrow>
          if jc_is_null js v then Inr c
          else (case get v of Inl e \<Rightarrow> Inl e | Inr x \<Rightarrow> Inr (upd (\<lambda>_. x) c)))"

text \<open>\<open>if (auto s = config.find(key); s != config.end() && s->is_object())\<close>\<close>

definition in_section ::
  "'j json_values \<Rightarrow> 'j \<Rightarrow> string \<Rightarrow> ('j \<Rightarrow> 'c \<Rightarrow> 'c throws) \<Rightarrow> 'c \<Rightarrow> 'c throws" where
  "in_section js j key f c =
     (case jc_find js j key of
        None \<Rightarrow> Inr c
      | Some s \<Rightarrow> if jc_is_object js s then f s c else Inr c)"

text \<open>Assignments one after the other, up to the first that throws; assignments to a member.\<close>

primrec chain :: "('c \<Rightarrow> 'c throws) list \<Rightarrow> 'c \<Rightarrow> 'c throws" where
  "chain [] c = Inr c"
| "chain (f # fs) c = (case f c of Inl e \<Rightarrow> Inl e | Inr c' \<Rightarrow> chain fs c')"

definition on_member ::
  "('c \<Rightarrow> 'm) \<Rightarrow> (('m \<Rightarrow> 'm) \<Rightarrow> 'c \<Rightarrow> 'c) \<Rightarrow> ('m \<Rightarrow> 'm throws) \<Rightarrow> 'c \<Rightarrow> 'c throws" where
  "on_member sel upd f c = (case f (sel c) of Inl e \<Rightarrow> Inl e | Inr m \<Rightarrow> Inr (upd (\<lambda>_. m) c))"

definition top_assignments ::
  "'j json_values \<Rightarrow> 'j \<Rightarrow> (server_config \<Rightarrow> server_config throws) list" where
  "top_assignments js j =
     [assign_if_present js j ''port'' (jc_int js) sc_port_update,
      assign_if_present js j ''max_connections'' (jc_int js) sc_max_connections_update,
      assign_if_present js j ''thread_pool_size'' (jc_int js) sc_thread_pool_size_update,
      assign_if_present js j ''upload_dir'' (jc_string js) sc_upload_dir_update,
      assign_if_present js j ''static_dir'' (jc_string js) sc_static_dir_update,
      assign_if_present js j ''jwt_secret'' (jc_string js) sc_jwt_secret_update,
      assign_if_present js j ''jwt_expire_hours'' (jc_int js) sc_jwt_expire_hours_update,
      assign_if_present js j ''max_file_size'' (jc_size js) sc_max_file_size_update,
      assign_if_present js j ''host'' (jc_string js) sc_host_update,
      assign_if_present js j ''read_timeout_sec'' (jc_int js) sc_read_timeout_sec_update,
      assign_if_present js j ''write_timeout_sec'' (jc_int js) sc_write_timeout_sec_update,
      assign_if_present js j ''idle_timeout_sec'' (jc_int js) sc_idle_timeout_sec_update,
      assign_if_present js j ''shutdown_grace_sec'' (jc_int js) sc_shutdown_grace_sec_update,
      assign_if_present js j ''handler_timeout_sec'' (jc_int js) sc_handler_timeout_sec_update,
      assign_if_present js j ''max_concurrent_handlers'' (jc_int js) sc_max_concurrent_handlers_update,
      assign_if_present js j ''log_level'' (jc_string js) sc_log_level_update,
      assign_if_present js j ''log_file'' (jc_string js) sc_log_file_update,
      assign_if_present js j ''log_max_bytes'' (jc_size js) sc_log_max_bytes_update,
      assign_if_present js j ''log_max_files'' (jc_int js) sc_log_max_files_update]"

definition sqlite_assignments :: "'j json_values \<Rightarrow> 'j \<Rightarrow> (db_config \<Rightarrow> db_config throws) list" where
  "sqlite_assignments js j =
     [assign_if_present js j ''path'' (jc_string js) dc_sqlite_path_update,
      assign_if_present js j ''pool_size'' (jc_int js) dc_sqlite_pool_size_update,
      assign_if_present js j ''busy_timeout_ms'' (jc_int js) dc_sqlite_busy_timeout_ms_update]"

definition postgres_assignments :: "'j json_values \<Rightarrow> 'j \<Rightarrow> (db_config \<Rightarrow> db_config throws) list" where
  "postgres_assignments js j =
     [assign_if_present js j ''host'' (jc_string js) dc_pg_host_update,
      assign_if_present js j ''port'' (jc_int js) dc_pg_port_update,
      assign_if_present js j ''dbname'' (jc_string js) dc_pg_dbname_update,
      assign_if_present js j ''user'' (jc_string js) dc_pg_user_update,
      assign_if_present js j ''password'' (jc_string js) dc_pg_password_update,
      assign_if_present js j ''sslmode'' (jc_string js) dc_pg_sslmode_update,
      assign_if_present js j ''pool_size'' (jc_int js) dc_pg_pool_size_update,
      assign_if_present js j ''connect_timeout_sec'' (jc_int js) dc_pg_connect_timeout_sec_update,
      assign_if_present js j ''url'' (jc_string js) dc_pg_url_update]"

definition db_assignments :: "'j json_values \<Rightarrow> 'j \<Rightarrow> (db_config \<Rightarrow> db_config throws) list" where
  "db_assignments js j =
     [assign_if_present js j ''backend'' (jc_string js) dc_backend_update,
      in_section js j ''sqlite'' (\<lambda>s. chain (sqlite_assignments js s)),
      in_section js j ''postgres'' (\<lambda>p. chain (postgres_assignments js p))]"

definition tls_assignments :: "'j json_values \<Rightarrow> 'j \<Rightarrow> (tls_config \<Rightarrow> tls_config throws) list" where
  "tls_assignments js j =
     [assign_if_present js j ''enabled'' (jc_bool js) tc_enabled_update,
      assign_if_present js j ''cert_file'' (jc_string js) tc_cert_file_update,
      assign_if_present js j ''key_file'' (jc_string js) tc_key_file_update,
      assign_if_present js j ''min_version'' (jc_string js) tc_min_version_update]"

definition rate_limit_assignments :: "'j json_values \<Rightarrow> 'j \<Rightarrow> (rate_limit_config \<Rightarrow> rate_limit_config throws) list" where
  "rate_limit_assignments js j =
     [assign_if_present js j ''enabled'' (jc_bool js) rc_enabled_update,
      assign_if_present js j ''requests_per_second'' (jc_double js) rc_requests_per_second_update,
      assign_if_present js j ''burst'' (jc_double js) rc_burst_update]"

definition metrics_assignments :: "'j json_values \<Rightarrow> 'j \<Rightarrow> (metrics_config \<Rightarrow> metrics_config throws) list" where
  "metrics_assignments js j =
     [assign_if_present js j ''enabled'' (jc_bool js) mc_enabled_update,
      assign_if_present js j ''path'' (jc_string js) mc_path_update]"

definition compression_assignments :: "'j json_values \<Rightarrow> 'j \<Rightarrow> (compression_config \<Rightarrow> compression_config throws) list" where
  "compression_assignments js j =
     [assign_if_present js j ''enabled'' (jc_bool js) zc_enabled_update,
      assign_if_present js j ''min_bytes'' (jc_size js) zc_min_bytes_update,
      assign_if_present js j ''brotli'' (jc_bool js) zc_brotli_update]"

definition file_assignments ::
  "'j json_values \<Rightarrow> 'j \<Rightarrow> (server_config \<Rightarrow> server_config throws) list" where
  "file_assignments js j = top_assignments js j @
     [in_section js j ''db'' (\<lambda>s. on_member sc_db sc_db_update (chain (db_assignments js s))),
      in_section js j ''tls'' (\<lambda>s. on_member sc_tls sc_tls_update (chain (tls_assignments js s))),
      in_section js j ''rate_limit''
        (\<lambda>s. on_member sc_rate_limit sc_rate_limit_update (chain (rate_limit_assignments js s))),
      in_section js j ''metrics'' (\<lambda>s. on_member sc_metrics sc_metrics_update (chain (metrics_assignments js s))),
      in_section js j ''compression''
        (\<lambda>s. on_member sc_compression sc_compression_update (chain (compression_assignments js s))),
      assign_if_present js j ''cors_enabled'' (jc_bool js) sc_cors_enabled_update,
      assign_if_present js j ''cors_allow_origin'' (jc_string js) sc_cors_allow_origin_update]"

section \<open>The environment\<close>

definition env_or_null :: "(string \<Rightarrow> string option) \<Rightarrow> string \<Rightarrow> string option" where
  "env_or_null env name = (case env name of None \<Rightarrow> None | Some v \<Rightarrow> if v = [] then None else Some v)"

definition override ::
  "(string \<Rightarrow> string option) \<Rightarrow> string \<Rightarrow> ((string \<Rightarrow> string) \<Rightarrow> 'c \<Rightarrow> 'c) \<Rightarrow> 'c \<Rightarrow> 'c" where
  "override env name upd c = (case env_or_null env name of None \<Rightarrow> c | Some v \<Rightarrow> upd (\<lambda>_. v) c)"

definition override_port :: "(string \<Rightarrow> string option) \<Rightarrow> server_config \<Rightarrow> server_config" where
  "override_port env c =
     (case env_or_null env ''ORESHNEK_PORT'' of
        None \<Rightarrow> c
      | Some v \<Rightarrow> (case stoi v of None \<Rightarrow> c | Some p \<Rightarrow> c\<lparr>sc_port := p\<rparr>))"

definition env_overrides :: "(string \<Rightarrow> string option) \<Rightarrow> server_config \<Rightarrow> server_config" where
  "env_overrides env c = override_port env (
     fold (\<lambda>f c. f c)
       [override env ''ORESHNEK_JWT_SECRET'' sc_jwt_secret_update,
        override env ''ORESHNEK_HOST'' sc_host_update,
        override env ''ORESHNEK_LOG_LEVEL'' sc_log_level_update,
        override env ''ORESHNEK_LOG_FILE'' sc_log_file_update,
        override env ''ORESHNEK_DB_BACKEND'' (\<lambda>f. sc_db_update (dc_backend_update f)),
        override env ''ORESHNEK_DB_PATH'' (\<lambda>f. sc_db_update (dc_sqlite_path_update f)),
        override env ''ORESHNEK_PG_PASSWORD'' (\<lambda>f. sc_db_update (dc_pg_password_update f)),
        override env ''ORESHNEK_DATABASE_URL'' (\<lambda>f. sc_db_update (dc_pg_url_update f)),
        override env ''ORESHNEK_TLS_CERT'' (\<lambda>f. sc_tls_update (tc_cert_file_update f)),
        override env ''ORESHNEK_TLS_KEY'' (\<lambda>f. sc_tls_update (tc_key_file_update f))] c)"

section \<open>Loading\<close>

datatype 'j config_file = NotFound | Malformed string | Json 'j

definition config_load ::
  "'j json_values \<Rightarrow> nat \<Rightarrow> (string \<Rightarrow> 'j config_file) \<Rightarrow> (string \<Rightarrow> string option) \<Rightarrow> string \<Rightarrow>
   server_config throws" where
  "config_load js hw read_file env path =
     (let cfg = server_config_init hw;
          from_file =
            (if path = [] then Inr cfg
             else (case read_file path of
                 NotFound \<Rightarrow> Inr cfg
               | Malformed msg \<Rightarrow> Inl (''Invalid config file: '' @ msg)
               | Json j \<Rightarrow>
                   if \<not> jc_is_object js j then Inl ''Config file must contain a JSON object''
                   else chain (file_assignments js j) cfg))
      in case from_file of Inl e \<Rightarrow> Inl e | Inr c \<Rightarrow> Inr (env_overrides env c))"

section \<open>The value of each setting\<close>

text \<open>
  The specification: every setting on its own. What the file has under a key, if it has the section
  and the key with a value that is not null, and the default otherwise; over that the environment.
\<close>

definition present ::
  "'j json_values \<Rightarrow> 'j option \<Rightarrow> string \<Rightarrow> ('j \<Rightarrow> 'a throws) \<Rightarrow> 'a \<Rightarrow> 'a" where
  "present js j key get dflt =
     (case j of
        None \<Rightarrow> dflt
      | Some j \<Rightarrow>
          (case jc_find js j key of
             None \<Rightarrow> dflt
           | Some v \<Rightarrow>
               if jc_is_null js v then dflt else (case get v of Inl e \<Rightarrow> dflt | Inr x \<Rightarrow> x)))"

definition section_of :: "'j json_values \<Rightarrow> 'j option \<Rightarrow> string \<Rightarrow> 'j option" where
  "section_of js j key =
     (case j of
        None \<Rightarrow> None
      | Some j \<Rightarrow>
          (case jc_find js j key of
             None \<Rightarrow> None
           | Some s \<Rightarrow> if jc_is_object js s then Some s else None))"

definition from_env :: "(string \<Rightarrow> string option) \<Rightarrow> string \<Rightarrow> string \<Rightarrow> string" where
  "from_env env name v = (case env name of None \<Rightarrow> v | Some w \<Rightarrow> if w = [] then v else w)"

definition port_from_env :: "(string \<Rightarrow> string option) \<Rightarrow> int \<Rightarrow> int" where
  "port_from_env env p =
     (case env ''ORESHNEK_PORT'' of None \<Rightarrow> p | Some w \<Rightarrow> (case stoi w of None \<Rightarrow> p | Some q \<Rightarrow> q))"

definition config_spec ::
  "'j json_values \<Rightarrow> nat \<Rightarrow> 'j option \<Rightarrow> (string \<Rightarrow> string option) \<Rightarrow> server_config" where
  "config_spec js hw j env =
     (let db = section_of js j ''db''; sq = section_of js db ''sqlite''; pg = section_of js db ''postgres'' in \<lparr>
      sc_port = port_from_env env (present js j ''port'' (jc_int js) 8080),
      sc_max_connections = present js j ''max_connections'' (jc_int js) 1000,
      sc_thread_pool_size = present js j ''thread_pool_size'' (jc_int js) (int hw * 2),
      sc_upload_dir = present js j ''upload_dir'' (jc_string js) ''./uploads/'',
      sc_static_dir = present js j ''static_dir'' (jc_string js) ''./static/'',
      sc_jwt_secret = from_env env ''ORESHNEK_JWT_SECRET''
        (present js j ''jwt_secret'' (jc_string js) ''your-super-secret-jwt-key-change-this''),
      sc_jwt_expire_hours = present js j ''jwt_expire_hours'' (jc_int js) 24,
      sc_max_file_size = present js j ''max_file_size'' (jc_size js) (500 * 1024 * 1024),
      sc_host = from_env env ''ORESHNEK_HOST'' (present js j ''host'' (jc_string js) ''0.0.0.0''),
      sc_read_timeout_sec = present js j ''read_timeout_sec'' (jc_int js) 30,
      sc_write_timeout_sec = present js j ''write_timeout_sec'' (jc_int js) 30,
      sc_idle_timeout_sec = present js j ''idle_timeout_sec'' (jc_int js) 60,
      sc_shutdown_grace_sec = present js j ''shutdown_grace_sec'' (jc_int js) 10,
      sc_handler_timeout_sec = present js j ''handler_timeout_sec'' (jc_int js) 30,
      sc_max_concurrent_handlers = present js j ''max_concurrent_handlers'' (jc_int js) 0,
      sc_log_level = from_env env ''ORESHNEK_LOG_LEVEL''
        (present js j ''log_level'' (jc_string js) ''info''),
      sc_log_file = from_env env ''ORESHNEK_LOG_FILE'' (present js j ''log_file'' (jc_string js) []),
      sc_log_max_bytes = present js j ''log_max_bytes'' (jc_size js) (10 * 1024 * 1024),
      sc_log_max_files = present js j ''log_max_files'' (jc_int js) 5,
      sc_db = \<lparr>
        dc_backend = from_env env ''ORESHNEK_DB_BACKEND''
          (present js db ''backend'' (jc_string js) ''sqlite''),
        dc_sqlite_path = from_env env ''ORESHNEK_DB_PATH''
          (present js sq ''path'' (jc_string js) ''./database.db''),
        dc_sqlite_pool_size = present js sq ''pool_size'' (jc_int js) 4,
        dc_sqlite_busy_timeout_ms = present js sq ''busy_timeout_ms'' (jc_int js) 5000,
        dc_pg_host = present js pg ''host'' (jc_string js) ''127.0.0.1'',
        dc_pg_port = present js pg ''port'' (jc_int js) 5432,
        dc_pg_dbname = present js pg ''dbname'' (jc_string js) ''oreshnek'',
        dc_pg_user = present js pg ''user'' (jc_string js) ''oreshnek'',
        dc_pg_password = from_env env ''ORESHNEK_PG_PASSWORD''
          (present js pg ''password'' (jc_string js) []),
        dc_pg_sslmode = present js pg ''sslmode'' (jc_string js) ''prefer'',
        dc_pg_pool_size = present js pg ''pool_size'' (jc_int js) 8,
        dc_pg_connect_timeout_sec = present js pg ''connect_timeout_sec'' (jc_int js) 5,
        dc_pg_url = from_env env ''ORESHNEK_DATABASE_URL'' (present js pg ''url'' (jc_string js) [])\<rparr>,
      sc_tls = \<lparr>
        tc_enabled = present js (section_of js j ''tls'') ''enabled'' (jc_bool js) False,
        tc_cert_file = from_env env ''ORESHNEK_TLS_CERT''
          (present js (section_of js j ''tls'') ''cert_file'' (jc_string js) []),
        tc_key_file = from_env env ''ORESHNEK_TLS_KEY''
          (present js (section_of js j ''tls'') ''key_file'' (jc_string js) []),
        tc_min_version = present js (section_of js j ''tls'') ''min_version'' (jc_string js) ''1.2''\<rparr>,
      sc_rate_limit = \<lparr>
        rc_enabled = present js (section_of js j ''rate_limit'') ''enabled'' (jc_bool js) True,
        rc_requests_per_second = present js (section_of js j ''rate_limit'') ''requests_per_second'' (jc_double js) 50,
        rc_burst = present js (section_of js j ''rate_limit'') ''burst'' (jc_double js) 100\<rparr>,
      sc_metrics = \<lparr>
        mc_enabled = present js (section_of js j ''metrics'') ''enabled'' (jc_bool js) False,
        mc_path = present js (section_of js j ''metrics'') ''path'' (jc_string js) ''/metrics''\<rparr>,
      sc_compression = \<lparr>
        zc_enabled = present js (section_of js j ''compression'') ''enabled'' (jc_bool js) True,
        zc_min_bytes = present js (section_of js j ''compression'') ''min_bytes'' (jc_size js) 256,
        zc_brotli = present js (section_of js j ''compression'') ''brotli'' (jc_bool js) True\<rparr>,
      sc_cors_enabled = present js j ''cors_enabled'' (jc_bool js) False,
      sc_cors_allow_origin = present js j ''cors_allow_origin'' (jc_string js) ''*''\<rparr>)"

text \<open>Updates that change nothing.\<close>

lemma server_config_ids [simp]:
  "sc_port_update (\<lambda>x. x) c = c"
  "sc_max_connections_update (\<lambda>x. x) c = c"
  "sc_thread_pool_size_update (\<lambda>x. x) c = c"
  "sc_upload_dir_update (\<lambda>x. x) c = c"
  "sc_static_dir_update (\<lambda>x. x) c = c"
  "sc_jwt_secret_update (\<lambda>x. x) c = c"
  "sc_jwt_expire_hours_update (\<lambda>x. x) c = c"
  "sc_max_file_size_update (\<lambda>x. x) c = c"
  "sc_host_update (\<lambda>x. x) c = c"
  "sc_read_timeout_sec_update (\<lambda>x. x) c = c"
  "sc_write_timeout_sec_update (\<lambda>x. x) c = c"
  "sc_idle_timeout_sec_update (\<lambda>x. x) c = c"
  "sc_shutdown_grace_sec_update (\<lambda>x. x) c = c"
  "sc_handler_timeout_sec_update (\<lambda>x. x) c = c"
  "sc_max_concurrent_handlers_update (\<lambda>x. x) c = c"
  "sc_log_level_update (\<lambda>x. x) c = c"
  "sc_log_file_update (\<lambda>x. x) c = c"
  "sc_log_max_bytes_update (\<lambda>x. x) c = c"
  "sc_log_max_files_update (\<lambda>x. x) c = c"
  "sc_db_update (\<lambda>x. x) c = c"
  "sc_tls_update (\<lambda>x. x) c = c"
  "sc_rate_limit_update (\<lambda>x. x) c = c"
  "sc_metrics_update (\<lambda>x. x) c = c"
  "sc_compression_update (\<lambda>x. x) c = c"
  "sc_cors_enabled_update (\<lambda>x. x) c = c"
  "sc_cors_allow_origin_update (\<lambda>x. x) c = c"
  by (cases c; simp)+

lemma db_config_ids [simp]:
  "dc_backend_update (\<lambda>x. x) c = c"
  "dc_sqlite_path_update (\<lambda>x. x) c = c"
  "dc_sqlite_pool_size_update (\<lambda>x. x) c = c"
  "dc_sqlite_busy_timeout_ms_update (\<lambda>x. x) c = c"
  "dc_pg_host_update (\<lambda>x. x) c = c"
  "dc_pg_port_update (\<lambda>x. x) c = c"
  "dc_pg_dbname_update (\<lambda>x. x) c = c"
  "dc_pg_user_update (\<lambda>x. x) c = c"
  "dc_pg_password_update (\<lambda>x. x) c = c"
  "dc_pg_sslmode_update (\<lambda>x. x) c = c"
  "dc_pg_pool_size_update (\<lambda>x. x) c = c"
  "dc_pg_connect_timeout_sec_update (\<lambda>x. x) c = c"
  "dc_pg_url_update (\<lambda>x. x) c = c"
  by (cases c; simp)+

lemma tls_config_ids [simp]:
  "tc_enabled_update (\<lambda>x. x) c = c"
  "tc_cert_file_update (\<lambda>x. x) c = c"
  "tc_key_file_update (\<lambda>x. x) c = c"
  "tc_min_version_update (\<lambda>x. x) c = c"
  by (cases c; simp)+

lemma rate_limit_config_ids [simp]:
  "rc_enabled_update (\<lambda>x. x) c = c"
  "rc_requests_per_second_update (\<lambda>x. x) c = c"
  "rc_burst_update (\<lambda>x. x) c = c"
  by (cases c; simp)+

lemma metrics_config_ids [simp]:
  "mc_enabled_update (\<lambda>x. x) c = c"
  "mc_path_update (\<lambda>x. x) c = c"
  by (cases c; simp)+

lemma compression_config_ids [simp]:
  "zc_enabled_update (\<lambda>x. x) c = c"
  "zc_min_bytes_update (\<lambda>x. x) c = c"
  "zc_brotli_update (\<lambda>x. x) c = c"
  by (cases c; simp)+

text \<open>An assignment throws where the value does not convert, and otherwise sets the member to its value.\<close>

definition fits :: "'j json_values \<Rightarrow> 'j \<Rightarrow> string \<Rightarrow> ('j \<Rightarrow> 'a throws) \<Rightarrow> bool" where
  "fits js j key get \<longleftrightarrow>
     (case jc_find js j key of
        None \<Rightarrow> True
      | Some v \<Rightarrow> jc_is_null js v \<or> (case get v of Inl e \<Rightarrow> False | Inr x \<Rightarrow> True))"

lemma assign_if_present_ok:
  assumes "\<And>c. upd (\<lambda>x. x) c = c"
  shows "assign_if_present js j key get upd c = Inr c' \<longleftrightarrow>
    fits js j key get \<and> c' = upd (present js (Some j) key get) c"
  by (auto simp: assign_if_present_def present_def [abs_def] fits_def assms split: option.splits if_splits sum.splits)

lemma chain_Cons: "chain (f # fs) c = Inr c' \<longleftrightarrow> (\<exists>c1. f c = Inr c1 \<and> chain fs c1 = Inr c')"
  by (simp split: sum.split)

declare chain.simps(2) [simp del]

lemma chain_append: "chain (fs @ gs) c = Inr c' \<longleftrightarrow> (\<exists>c1. chain fs c = Inr c1 \<and> chain gs c1 = Inr c')"
  by (induction fs arbitrary: c) (auto simp: chain_Cons)

lemma in_section_ok:
  "in_section js j key f c = Inr c' \<longleftrightarrow>
     (case section_of js (Some j) key of None \<Rightarrow> c' = c | Some s \<Rightarrow> f s c = Inr c')"
  by (auto simp: in_section_def section_of_def split: option.splits)

lemma on_member_ok:
  "on_member sel upd f c = Inr c' \<longleftrightarrow> (\<exists>m. f (sel c) = Inr m \<and> c' = upd (\<lambda>_. m) c)"
  by (auto simp: on_member_def split: sum.splits)

lemmas assignment_rules = chain_Cons assign_if_present_ok

lemma present_None [simp]: "present js None key get d = d" "section_of js None key = None"
  by (simp_all add: present_def section_of_def)


text \<open>The file alone: the sections, then the whole.\<close>

lemma section_ok:
  "chain (tls_assignments js s) tls_config_init = Inr t \<Longrightarrow> section_of js (Some j) ''tls'' = Some s \<Longrightarrow>
     t = sc_tls (config_spec js hw (Some j) (\<lambda>_. None))"
  "chain (rate_limit_assignments js s) rate_limit_config_init = Inr r \<Longrightarrow>
     section_of js (Some j) ''rate_limit'' = Some s \<Longrightarrow> r = sc_rate_limit (config_spec js hw (Some j) (\<lambda>_. None))"
  "chain (metrics_assignments js s) metrics_config_init = Inr m \<Longrightarrow>
     section_of js (Some j) ''metrics'' = Some s \<Longrightarrow> m = sc_metrics (config_spec js hw (Some j) (\<lambda>_. None))"
  "chain (compression_assignments js s) compression_config_init = Inr z \<Longrightarrow>
     section_of js (Some j) ''compression'' = Some s \<Longrightarrow> z = sc_compression (config_spec js hw (Some j) (\<lambda>_. None))"
  by (simp_all add: tls_assignments_def tls_config_init_def rate_limit_assignments_def
      rate_limit_config_init_def metrics_assignments_def metrics_config_init_def
      compression_assignments_def compression_config_init_def
      assignment_rules config_spec_def Let_def from_env_def)

lemma section_absent:
  "section_of js (Some j) ''tls'' = None \<Longrightarrow> sc_tls (config_spec js hw (Some j) (\<lambda>_. None)) = tls_config_init"
  "section_of js (Some j) ''rate_limit'' = None \<Longrightarrow>
     sc_rate_limit (config_spec js hw (Some j) (\<lambda>_. None)) = rate_limit_config_init"
  "section_of js (Some j) ''metrics'' = None \<Longrightarrow>
     sc_metrics (config_spec js hw (Some j) (\<lambda>_. None)) = metrics_config_init"
  "section_of js (Some j) ''compression'' = None \<Longrightarrow>
     sc_compression (config_spec js hw (Some j) (\<lambda>_. None)) = compression_config_init"
  "section_of js (Some j) ''db'' = None \<Longrightarrow> sc_db (config_spec js hw (Some j) (\<lambda>_. None)) = db_config_init"
  by (simp_all add: tls_config_init_def rate_limit_config_init_def metrics_config_init_def
      compression_config_init_def db_config_init_def config_spec_def Let_def from_env_def)

lemma db_section_ok:
  assumes "chain (db_assignments js s) db_config_init = Inr d" "section_of js (Some j) ''db'' = Some s"
  shows "d = sc_db (config_spec js hw (Some j) (\<lambda>_. None))"
  using assms
  by (cases "section_of js (Some s) ''sqlite''"; cases "section_of js (Some s) ''postgres''")
    (simp_all add: db_assignments_def sqlite_assignments_def postgres_assignments_def db_config_init_def
      assignment_rules in_section_ok config_spec_def Let_def from_env_def)

lemma top_ok:
  "chain (top_assignments js j) (server_config_init hw) = Inr c \<Longrightarrow>
     c = (config_spec js hw (Some j) (\<lambda>_. None))\<lparr>sc_db := db_config_init, sc_tls := tls_config_init,
       sc_rate_limit := rate_limit_config_init, sc_metrics := metrics_config_init,
       sc_compression := compression_config_init, sc_cors_enabled := False, sc_cors_allow_origin := ''*''\<rparr>"
  by (simp add: top_assignments_def assignment_rules server_config_init_def config_spec_def Let_def
      from_env_def port_from_env_def)

lemma member_ok:
  assumes "in_section js j key (\<lambda>s. on_member sel upd (chain (f s))) c = Inr c'"
    "\<And>c. upd (\<lambda>_. sel c) c = c" "sel c = d"
    "\<And>s m. chain (f s) d = Inr m \<Longrightarrow> section_of js (Some j) key = Some s \<Longrightarrow> m = v"
    "section_of js (Some j) key = None \<Longrightarrow> v = d"
  shows "c' = upd (\<lambda>_. v) c"
proof (cases "section_of js (Some j) key")
  case None
  with assms(1,3,5) assms(2) [of c] show ?thesis by (simp add: in_section_ok)
next
  case (Some s)
  with assms(1,3) obtain m where "chain (f s) d = Inr m" "c' = upd (\<lambda>_. m) c"
    by (auto simp: in_section_ok on_member_ok)
  with assms(4) Some show ?thesis by blast
qed

lemma file_ok:
  assumes "chain (file_assignments js j) (server_config_init hw) = Inr c"
  shows "c = config_spec js hw (Some j) (\<lambda>_. None)"
proof -
  let ?S = "config_spec js hw (Some j) (\<lambda>_. None)"
  from assms obtain c0 c1 c2 c3 c4 c5 where
    c0: "chain (top_assignments js j) (server_config_init hw) = Inr c0" and
    c1: "in_section js j ''db'' (\<lambda>s. on_member sc_db sc_db_update (chain (db_assignments js s))) c0 = Inr c1" and
    c2: "in_section js j ''tls'' (\<lambda>s. on_member sc_tls sc_tls_update (chain (tls_assignments js s))) c1 = Inr c2" and
    c3: "in_section js j ''rate_limit'' (\<lambda>s. on_member sc_rate_limit sc_rate_limit_update
      (chain (rate_limit_assignments js s))) c2 = Inr c3" and
    c4: "in_section js j ''metrics'' (\<lambda>s. on_member sc_metrics sc_metrics_update
      (chain (metrics_assignments js s))) c3 = Inr c4" and
    c5: "in_section js j ''compression'' (\<lambda>s. on_member sc_compression sc_compression_update
      (chain (compression_assignments js s))) c4 = Inr c5" and
    c: "c = sc_cors_allow_origin_update (present js (Some j) ''cors_allow_origin'' (jc_string js))
      (sc_cors_enabled_update (present js (Some j) ''cors_enabled'' (jc_bool js)) c5)"
    by (auto simp: file_assignments_def chain_append assignment_rules)
  note e0 = top_ok [OF c0]
  have e1: "c1 = c0\<lparr>sc_db := sc_db ?S\<rparr>"
    by (rule member_ok [OF c1]) (simp_all add: e0 db_section_ok section_absent)
  have e2: "c2 = c1\<lparr>sc_tls := sc_tls ?S\<rparr>"
    by (rule member_ok [OF c2]) (simp_all add: e1 e0 section_ok section_absent)
  have e3: "c3 = c2\<lparr>sc_rate_limit := sc_rate_limit ?S\<rparr>"
    by (rule member_ok [OF c3]) (simp_all add: e2 e1 e0 section_ok section_absent)
  have e4: "c4 = c3\<lparr>sc_metrics := sc_metrics ?S\<rparr>"
    by (rule member_ok [OF c4]) (simp_all add: e3 e2 e1 e0 section_ok section_absent)
  have e5: "c5 = c4\<lparr>sc_compression := sc_compression ?S\<rparr>"
    by (rule member_ok [OF c5]) (simp_all add: e4 e3 e2 e1 e0 section_ok section_absent)
  show ?thesis
    unfolding c e5 e4 e3 e2 e1 e0 by (simp add: config_spec_def Let_def)
qed

lemma no_file: "server_config_init hw = config_spec js hw None (\<lambda>_. None)"
  by (simp add: config_spec_def server_config_init_def db_config_init_def tls_config_init_def
      rate_limit_config_init_def metrics_config_init_def compression_config_init_def Let_def
      from_env_def port_from_env_def)

lemma override_member: "override env name upd c = upd (from_env env name) c" if "\<And>c. upd (\<lambda>x. x) c = c"
  using that by (auto simp: override_def env_or_null_def from_env_def [abs_def] split: option.split)

lemma override_port_member: "override_port env c = sc_port_update (port_from_env env) c"
  by (auto simp: override_port_def env_or_null_def port_from_env_def [abs_def] split: option.split)

lemma env_ok: "env_overrides env (config_spec js hw j (\<lambda>_. None)) = config_spec js hw j env"
  by (simp add: env_overrides_def override_member override_port_member config_spec_def Let_def
      from_env_def [of "\<lambda>_. None"] port_from_env_def [of "\<lambda>_. None"])

lemma file_env_ok:
  "chain (file_assignments js j) (config_spec js hw None (\<lambda>_. None)) = Inr c \<Longrightarrow>
     env_overrides env c = config_spec js hw (Some j) env"
  using file_ok [of js j hw c] by (simp add: no_file [of hw js] env_ok)

text \<open>A file that cannot be parsed, and one that is not an object, are errors, whatever the environment.\<close>

lemma config_load_fails:
  "path \<noteq> [] \<Longrightarrow> read_file path = Malformed msg \<or> (read_file path = Json j \<and> \<not> jc_is_object js j) \<Longrightarrow>
     \<exists>e. config_load js hw read_file env path = Inl e"
  by (auto simp: config_load_def)

section \<open>Properties\<close>

text \<open>
  C32: every setting is resolved on its own in the documented order: the environment variable that is
  set and not empty, else the value of the file under its key, else the default; a missing
  file is the same as an empty one.
\<close>

theorem config_resolution:
  assumes "config_load js hw read_file env path = Inr c"
  shows "c = config_spec js hw
    (if path = [] then None else case read_file path of Json j \<Rightarrow> Some j | _ \<Rightarrow> None) env"
  using assms file_env_ok
  by (auto simp: config_load_def Let_def no_file [where js = js] env_ok
      split: if_splits config_file.splits sum.splits)

text \<open>Without a path and without variables the defaults are what is loaded.\<close>

lemma config_spec_default: "config_load js hw read_file (\<lambda>_. None) [] = Inr c \<Longrightarrow> c = server_config_init hw"
  using env_ok [of "\<lambda>_. None" js hw None] by (simp add: config_load_def no_file [of hw js])

section \<open>An example\<close>

datatype json_example = JNull | JInt int | JString string | JObject "(string \<times> json_example) list"

definition values_example :: "json_example json_values" where
  "values_example = \<lparr>
     jc_find = (\<lambda>j k. case j of JObject kvs \<Rightarrow> map_of kvs k | _ \<Rightarrow> None),
     jc_is_null = (\<lambda>j. j = JNull),
     jc_is_object = (\<lambda>j. case j of JObject _ \<Rightarrow> True | _ \<Rightarrow> False),
     jc_int = (\<lambda>j. case j of JInt i \<Rightarrow> Inr i | _ \<Rightarrow> Inl ''type_error''),
     jc_size = (\<lambda>j. case j of JInt i \<Rightarrow> Inr (nat i) | _ \<Rightarrow> Inl ''type_error''),
     jc_double = (\<lambda>j. case j of JInt i \<Rightarrow> Inr (of_int i) | _ \<Rightarrow> Inl ''type_error''),
     jc_bool = (\<lambda>j. Inl ''type_error''),
     jc_string = (\<lambda>j. case j of JString s \<Rightarrow> Inr s | _ \<Rightarrow> Inl ''type_error'')\<rparr>"

definition file_example :: json_example where
  "file_example = JObject [(''port'', JInt 9090), (''jwt_secret'', JNull), (''host'', JString ''10.0.0.1''),
     (''db'', JObject [(''sqlite'', JObject [(''path'', JString ''x.db'')])])]"

definition env_vars_example :: "string \<Rightarrow> string option" where
  "env_vars_example = [''ORESHNEK_PORT'' \<mapsto> ''8443 or so'', ''ORESHNEK_HOST'' \<mapsto> []]"

lemma config_resolution_witness:
  "\<exists>c. config_load values_example 4 (\<lambda>_. Json file_example) env_vars_example ''oreshnek.json'' = Inr c \<and>
     sc_port c = 8443 \<and> sc_host c = ''10.0.0.1'' \<and> dc_sqlite_path (sc_db c) = ''x.db'' \<and>
     sc_jwt_secret c = ''your-super-secret-jwt-key-change-this'' \<and> sc_thread_pool_size c = 8"
proof -
  have "\<exists>c. config_load values_example 4 (\<lambda>_. Json file_example) env_vars_example ''oreshnek.json'' = Inr c"
    by (simp add: config_load_def values_example_def file_example_def file_assignments_def
        top_assignments_def db_assignments_def sqlite_assignments_def assign_if_present_def in_section_def
        on_member_def chain.simps(2) Let_def)
  then obtain c where c: "config_load values_example 4 (\<lambda>_. Json file_example) env_vars_example ''oreshnek.json'' = Inr c"
    by blast
  have p: "stoi ''8443 or so'' = Some 8443" by code_simp
  from config_resolution [OF c] have "c = config_spec values_example 4 (Some file_example) env_vars_example" by simp
  then have "sc_port c = 8443 \<and> sc_host c = ''10.0.0.1'' \<and> dc_sqlite_path (sc_db c) = ''x.db'' \<and>
     sc_jwt_secret c = ''your-super-secret-jwt-key-change-this'' \<and> sc_thread_pool_size c = 8"
    by (simp add: config_spec_def Let_def values_example_def file_example_def env_vars_example_def
        present_def section_of_def from_env_def port_from_env_def p)
  with c show ?thesis by blast
qed

end
