(* ===== verification/Application.thy ===== *)
theory Application
  imports Config Server Router_Props
begin

text \<open>
  The program around the framework (\<open>src/main.cpp\<close>, \<open>src/platform/DatabaseManager.cpp\<close>): what it
  makes of the configuration, its routes, and the static files. Of \<open>std::filesystem\<close> the model has
  \<open>weakly_canonical\<close>, \<open>exists\<close>, \<open>is_directory\<close> and \<open>file_size\<close> as the record \<open>site_fs\<close>; the handlers
  are arguments here; those of the program are the theory Notes.
\<close>

section \<open>The database\<close>

datatype 'd database = PostgresBackend string int | SqliteBackend string int int

definition make_backend :: "server_config \<Rightarrow> 'd database" where
  "make_backend c =
     (let db = sc_db c in
      if dc_backend db = ''postgres'' then PostgresBackend (build_conninfo db) (dc_pg_pool_size db)
      else SqliteBackend (dc_sqlite_path db) (dc_sqlite_pool_size db) (dc_sqlite_busy_timeout_ms db))"

section \<open>The server from the configuration\<close>

definition server_settings :: "server_config \<Rightarrow> settings" where
  "server_settings c = \<lparr>st_read_timeout_sec = sc_read_timeout_sec c,
     st_write_timeout_sec = sc_write_timeout_sec c, st_idle_timeout_sec = sc_idle_timeout_sec c,
     st_shutdown_grace_sec = sc_shutdown_grace_sec c, st_handler_timeout_sec = sc_handler_timeout_sec c,
     st_max_concurrent_handlers = sc_max_concurrent_handlers c\<rparr>"

definition tls_misconfigured :: "server_config \<Rightarrow> bool" where
  "tls_misconfigured c \<longleftrightarrow>
     tc_enabled (sc_tls c) \<and> (tc_cert_file (sc_tls c) = [] \<or> tc_key_file (sc_tls c) = [])"

definition enable_rate_limit :: "server_config \<Rightarrow> limiter option" where
  "enable_rate_limit c =
     (if rc_enabled (sc_rate_limit c)
      then Some (limiter_init (rc_requests_per_second (sc_rate_limit c)) (rc_burst (sc_rate_limit c)))
      else None)"

definition enable_compression :: "bool \<Rightarrow> server_config \<Rightarrow> (nat \<times> bool) option" where
  "enable_compression brotli_available c =
     (if zc_enabled (sc_compression c)
      then Some (zc_min_bytes (sc_compression c), zc_brotli (sc_compression c) \<and> brotli_available)
      else None)"

text \<open>
  The route of the metrics: its handler prints the counters as they are when it is called. A path that
  does not begin with a slash is an exception of the router, which ends \<open>main\<close>.
\<close>

definition metrics_handler :: "(rat \<Rightarrow> string) \<Rightarrow> metrics \<Rightarrow> handler" where
  "metrics_handler num m req res =
     Handled (res_header ''Content-Type'' ''text/plain; version=0.0.4; charset=utf-8''
       (res_body (metrics_render num m) (res_status OK res)))"

definition enable_metrics :: "string \<Rightarrow> 'h \<Rightarrow> 'h node \<Rightarrow> 'h node throws" where
  "enable_metrics path h r = add_route r GET path h"

definition metrics_router :: "server_config \<Rightarrow> 'h \<Rightarrow> 'h node throws" where
  "metrics_router c h =
     (if mc_enabled (sc_metrics c) then enable_metrics (mc_path (sc_metrics c)) h empty_node else Inr empty_node)"

text \<open>The state in which the loop starts; \<^term>\<open>None\<close> is the early exit of \<open>main\<close>.\<close>

definition server_of_config :: "server_config \<Rightarrow> int \<Rightarrow> server option" where
  "server_of_config c now =
     (if tls_misconfigured c then None
      else Some (server_init (server_settings c) (tc_enabled (sc_tls c)) (enable_rate_limit c) now))"

definition app_middlewares :: "server_config \<Rightarrow> middleware list" where
  "app_middlewares c = [request_logger] @
     (if sc_cors_enabled c
      then [cors (sc_cors_allow_origin c) ''GET, POST, PUT, DELETE, PATCH, OPTIONS'' ''Content-Type, Authorization'']
      else [])"

section \<open>Static files\<close>

text \<open>\<^term>\<open>None\<close> of \<open>si_exists\<close> and \<open>si_is_directory\<close>: the call throws a \<open>filesystem_error\<close>.\<close>

record site_fs =
  si_cwd :: string
  si_canonical :: "string \<Rightarrow> string option"
  si_exists :: "string \<Rightarrow> bool option"
  si_is_directory :: "string \<Rightarrow> bool option"
  si_file_size :: "string \<Rightarrow> nat option"

text \<open>\<open>fs::absolute\<close> and \<open>operator/\<close> of POSIX paths.\<close>

definition path_join :: "string \<Rightarrow> string \<Rightarrow> string" where
  "path_join a b =
     (if starts_with ''/'' b then b
      else if a = [] \<or> last a = CHR ''/'' then a @ b else a @ ''/'' @ b)"

definition path_absolute :: "site_fs \<Rightarrow> string \<Rightarrow> string" where
  "path_absolute fs p = (if starts_with ''/'' p then p else path_join (si_cwd fs) p)"

definition resolve_within_dir :: "site_fs \<Rightarrow> string \<Rightarrow> string \<Rightarrow> string option" where
  "resolve_within_dir fs base_dir relative =
     (case si_canonical fs (path_absolute fs base_dir) of
        None \<Rightarrow> None
      | Some base \<Rightarrow>
          (case si_canonical fs (path_join (path_absolute fs base_dir) relative) of
             None \<Rightarrow> None
           | Some target \<Rightarrow>
               if take (length base) target \<noteq> base then None
               else if length base < length target \<and> target ! length base \<noteq> CHR ''/'' then None
               else Some target))"

definition content_type_of :: "string \<Rightarrow> string" where
  "content_type_of p =
     (if ends_with ''.css'' p then ''text/css''
      else if ends_with ''.js'' p then ''application/javascript''
      else if ends_with ''.png'' p then ''image/png''
      else if ends_with ''.jpg'' p \<or> ends_with ''.jpeg'' p then ''image/jpeg''
      else if ends_with ''.html'' p \<or> ends_with ''.htm'' p then ''text/html''
      else ''application/octet-stream'')"

text \<open>\<open>!exists(p) || is_directory(p)\<close>.\<close>

definition no_file :: "site_fs \<Rightarrow> string \<Rightarrow> bool option" where
  "no_file fs p =
     (case si_exists fs p of
        None \<Rightarrow> None
      | Some there \<Rightarrow> if there then si_is_directory fs p else Some True)"

lemma no_file_False: "no_file fs p = Some False \<longleftrightarrow> si_exists fs p = Some True \<and> si_is_directory fs p = Some False"
  by (auto simp: no_file_def split: option.split)

definition static_file :: "site_fs \<Rightarrow> string \<Rightarrow> http_request \<Rightarrow> http_response \<Rightarrow> handled" where
  "static_file fs static_dir req res =
     (case param req ''file_path'' of
        None \<Rightarrow> Handled (res_text ''Missing file path'' (res_status BAD_REQUEST res))
      | Some relative \<Rightarrow>
          (case resolve_within_dir fs static_dir relative of
             None \<Rightarrow> Handled (res_text ''Forbidden'' (res_status FORBIDDEN res))
           | Some resolved \<Rightarrow>
               (case no_file fs resolved of
                  None \<Rightarrow> Threw res
                | Some True \<Rightarrow> Handled (res_text ''File not found'' (res_status NOT_FOUND res))
                | Some False \<Rightarrow>
                    Handled (res_header ''Cache-Control'' ''public, max-age=3600''
                      (res_file (si_file_size fs) resolved (content_type_of relative) (res_status OK res))))))"

section \<open>Routes\<close>

record 'h demo_handlers =
  dh_index :: 'h
  dh_health :: 'h
  dh_create_note :: 'h
  dh_list_notes :: 'h
  dh_get_note :: 'h
  dh_static :: 'h

text \<open>The routes in the order of their registration.\<close>

definition demo_routes :: "'h demo_handlers \<Rightarrow> (HttpMethod \<times> string \<times> 'h) list" where
  "demo_routes h = [(GET, ''/'', dh_index h), (GET, ''/health'', dh_health h),
     (POST, ''/api/notes'', dh_create_note h), (GET, ''/api/notes'', dh_list_notes h),
     (GET, ''/api/notes/:id'', dh_get_note h), (GET, ''/static/:file_path'', dh_static h)]"

fun register :: "(HttpMethod \<times> string \<times> 'h) list \<Rightarrow> 'h node \<Rightarrow> 'h node throws" where
  "register [] n = Inr n"
| "register ((m, path, h) # rs) n =
     (case add_route n m path h of Inl e \<Rightarrow> Inl e | Inr n' \<Rightarrow> register rs n')"

definition demo_router :: "'h demo_handlers \<Rightarrow> 'h node throws" where
  "demo_router h = register (demo_routes h) empty_node"

section \<open>Where the routes lead\<close>

lemma pieces_single: "CHR ''/'' \<notin> set s \<Longrightarrow> s \<noteq> [] \<Longrightarrow> path_segments s = [s]"
  by (simp add: path_segments_def pieces_no_slash)

text \<open>The trie that the registrations build.\<close>

lemma demo_router_trie:
  "demo_router h = Inr
     (Node
       [''health'' \<mapsto> Node Map.empty None [] [GET \<mapsto> dh_health h],
        ''api'' \<mapsto> Node
          [''notes'' \<mapsto> Node Map.empty (Some (Node Map.empty None [] [GET \<mapsto> dh_get_note h])) ''id''
             [POST \<mapsto> dh_create_note h, GET \<mapsto> dh_list_notes h]] None [] Map.empty,
        ''static'' \<mapsto> Node Map.empty (Some (Node Map.empty None [] [GET \<mapsto> dh_static h])) ''file_path'' Map.empty]
       None [] [GET \<mapsto> dh_index h])"
  by (simp add: demo_router_def demo_routes_def add_route_def split_path_pieces path_segments_def
      empty_node_def is_param_def Let_def)

lemma path_segments_under:
  "CHR ''/'' \<notin> set x \<Longrightarrow> x \<noteq> [] \<Longrightarrow> path_segments (''static/'' @ x) = [''static'', x]"
  "CHR ''/'' \<notin> set x \<Longrightarrow> x \<noteq> [] \<Longrightarrow> path_segments (''api/notes/'' @ x) = [''api'', ''notes'', x]"
  by (simp_all add: path_segments_def pieces_no_slash)

lemma resolve_within_dirD:
  assumes "resolve_within_dir fs dir rel = Some target"
  shows "\<exists>base rest. si_canonical fs (path_absolute fs dir) = Some base \<and>
    si_canonical fs (path_join (path_absolute fs dir) rel) = Some target \<and>
    path_segments target = path_segments base @ rest"
proof -
  from assms obtain base where b: "si_canonical fs (path_absolute fs dir) = Some base"
    "si_canonical fs (path_join (path_absolute fs dir) rel) = Some target" "take (length base) target = base"
    "length base < length target \<longrightarrow> target ! length base = CHR ''/''"
    by (auto simp: resolve_within_dir_def split: option.splits if_splits)
  have "\<exists>rest. path_segments target = path_segments base @ rest"
  proof (cases "length base < length target")
    case True
    have "target = take (length base) target @ target ! length base # drop (Suc (length base)) target"
      by (rule id_take_nth_drop [OF True])
    then have "target = base @ CHR ''/'' # drop (Suc (length base)) target" using b(3,4) True by simp
    then show ?thesis by (metis path_segments_slash)
  next
    case False
    then have "target = base" using b(3) by simp
    then show ?thesis by simp
  qed
  with b show ?thesis by blast
qed

section \<open>Properties\<close>

text \<open>
  C31: a request for a static file never leaves the directory: a file that is served lies below the
  canonical path of the directory, its path has no \<open>..\<close>, and it exists and is no directory; every
  other outcome is one of the three error responses, or an exception with the response untouched.
  \<open>weakly_canonical\<close> resolves dots and symbolic links.
\<close>

theorem static_files_contained:
  assumes "\<forall>p q. si_canonical fs p = Some q \<longrightarrow> ''..'' \<notin> set (path_segments q)"
  shows "case static_file fs dir req res of
      Handled r \<Rightarrow>
        (case rs_body_content r of
           FilePath p \<Rightarrow>
             (\<exists>base rest. si_canonical fs (path_absolute fs dir) = Some base \<and>
                path_segments p = path_segments base @ rest) \<and>
             ''..'' \<notin> set (path_segments p) \<and> si_exists fs p = Some True \<and> si_is_directory fs p = Some False \<and>
             rs_status r = OK
         | Text _ \<Rightarrow> rs_status r \<in> {BAD_REQUEST, FORBIDDEN, NOT_FOUND})
    | Threw r \<Rightarrow> r = res
    | Escaped \<Rightarrow> False"
proof (cases "param req ''file_path''")
  case None
  then show ?thesis by (simp add: static_file_def response_setters)
next
  case (Some rel)
  show ?thesis
  proof (cases "resolve_within_dir fs dir rel")
    case None
    with Some show ?thesis by (simp add: static_file_def response_setters)
  next
    case resolved: (Some target)
    from resolve_within_dirD [OF resolved] assms
    have "''..'' \<notin> set (path_segments target)"
      "\<exists>base rest. si_canonical fs (path_absolute fs dir) = Some base \<and>
         path_segments target = path_segments base @ rest" by blast+
    with Some resolved show ?thesis
      by (auto simp: static_file_def no_file_False response_setters Let_def split: option.split bool.split)
  qed
qed

text \<open>
  The routes of the program lead where they were registered: a collection and its members to
  their handlers, by method, with the last segment as the parameter; a path below a subdirectory
  of the static files has no route.
\<close>

lemma demo_routes_served:
  assumes "demo_router h = Inr r" "x \<noteq> []" "CHR ''/'' \<notin> set x" "y \<noteq> []" "CHR ''/'' \<notin> set y"
  shows "find_route r GET ''/'' Map.empty = Some (Some (dh_index h), Map.empty) \<and>
    find_route r GET ''/health'' Map.empty = Some (Some (dh_health h), Map.empty) \<and>
    find_route r POST ''/api/notes'' Map.empty = Some (Some (dh_create_note h), Map.empty) \<and>
    find_route r GET ''/api/notes'' Map.empty = Some (Some (dh_list_notes h), Map.empty) \<and>
    find_route r GET (''/api/notes/'' @ x) Map.empty = Some (Some (dh_get_note h), [''id'' \<mapsto> x]) \<and>
    find_route r GET (''/static/'' @ x) Map.empty = Some (Some (dh_static h), [''file_path'' \<mapsto> x]) \<and>
    (\<exists>ps. find_route r GET (''/static/'' @ x @ ''/'' @ y) Map.empty = Some (None, ps))"
proof -
  have "path_segments (''static/'' @ x @ ''/'' @ y) = [''static'', x, y]"
    using assms(2-5) by (simp add: path_segments_def pieces_slash pieces_no_slash)
  moreover have "path_segments ''health'' = [''health'']" "path_segments ''api/notes'' = [''api'', ''notes'']"
    by (simp_all add: path_segments_def)
  ultimately show ?thesis
    using assms path_segments_under [OF assms(3,2)]
    by (auto simp: demo_router_trie find_route_def split_path_pieces)
qed

lemma same_child_route:
  "children n s = children n' s \<Longrightarrow> param_child n = param_child n' \<Longrightarrow> param_name n = param_name n' \<Longrightarrow>
     match_route n (s # rest) m ps = match_route n' (s # rest) m ps"
  by (simp only: match_route.simps)

text \<open>
  The default path of the metrics next to the routes of the program: it is found, and it hides none
  of them.
\<close>

lemma metrics_served:
  assumes "mc_enabled (sc_metrics c)" "mc_path (sc_metrics c) = ''/metrics''" "metrics_router c m = Inr first" "register (demo_routes h) first = Inr router"
    "demo_router h = Inr plain"
  shows "find_route router GET ''/metrics'' Map.empty = Some (Some m, Map.empty)"
    "hd (path_segments path) \<noteq> ''metrics'' \<Longrightarrow> path_segments path \<noteq> [] \<Longrightarrow>
       find_route router meth path ps = find_route plain meth path ps"
proof -
  from assms(1-3) have r: "first = Node [''metrics'' \<mapsto> Node Map.empty None [] [GET \<mapsto> m]] None [] Map.empty"
    by (simp add: metrics_router_def enable_metrics_def add_route_def split_path_pieces
        path_segments_def empty_node_def is_param_def)
  from assms(4) r have router: "router = Node
       [''metrics'' \<mapsto> Node Map.empty None [] [GET \<mapsto> m],
        ''health'' \<mapsto> Node Map.empty None [] [GET \<mapsto> dh_health h],
        ''api'' \<mapsto> Node
          [''notes'' \<mapsto> Node Map.empty (Some (Node Map.empty None [] [GET \<mapsto> dh_get_note h])) ''id''
             [POST \<mapsto> dh_create_note h, GET \<mapsto> dh_list_notes h]] None [] Map.empty,
        ''static'' \<mapsto> Node Map.empty (Some (Node Map.empty None [] [GET \<mapsto> dh_static h])) ''file_path'' Map.empty]
       None [] [GET \<mapsto> dh_index h]"
    by (simp add: demo_routes_def add_route_def split_path_pieces path_segments_def
        empty_node_def is_param_def Let_def)
  show "find_route router GET ''/metrics'' Map.empty = Some (Some m, Map.empty)"
    by (simp add: router find_route_def split_path_pieces path_segments_def)
  show "find_route router meth path ps = find_route plain meth path ps"
    if "hd (path_segments path) \<noteq> ''metrics''" "path_segments path \<noteq> []"
  proof (cases "path_segments path")
    case (Cons seg rest)
    then have seg: "seg \<noteq> ''metrics''" using that(1) by simp
    note plain = sum.inject(2) [THEN iffD1, OF assms(5) [unfolded demo_router_trie], symmetric]
    have "match_route router (seg # rest) meth ps = match_route plain (seg # rest) meth ps"
      by (rule same_child_route) (use seg in \<open>simp_all add: router plain\<close>)
    then show ?thesis unfolding find_route_segments Cons by (simp only:)
  qed (use that in simp)
qed

text \<open>Without a file and without overrides the server starts with the defaults of the framework.\<close>

lemma default_server:
  assumes "config_load js hw read_file (\<lambda>_. None) [] = Inr c"
  shows "server_of_config c now = Some (server_init settings_default False (Some (limiter_init 50 100)) now)"
proof -
  have c: "c = server_config_init hw"
    using config_spec_default [OF assms] by simp
  show ?thesis
    by (simp add: c server_of_config_def tls_misconfigured_def server_settings_def settings_default_def
        enable_rate_limit_def server_config_init_def tls_config_init_def rate_limit_config_init_def)
qed

section \<open>Witnesses\<close>

text \<open>A file system with one file below the directory; other paths resolve to the root.\<close>

definition site_example :: site_fs where
  "site_example = \<lparr>si_cwd = ''/srv'',
     si_canonical = (\<lambda>p. if p = ''/srv/static'' \<or> p = ''/srv/static/a.css'' then Some p else Some ''/''),
     si_exists = (\<lambda>p. Some (p = ''/srv/static/a.css'')), si_is_directory = (\<lambda>p. Some False),
     si_file_size = (\<lambda>p. Some 3)\<rparr>"

lemma static_files_contained_witness:
  "(\<exists>r. static_file site_example ''static'' (request_init\<lparr>rq_path_params := [''file_path'' \<mapsto> ''a.css'']\<rparr>)
     response_init = Handled r \<and> rs_body_content r = FilePath ''/srv/static/a.css'') \<and>
   (\<exists>base rest. si_canonical site_example ''/srv/static'' = Some base \<and>
      path_segments ''/srv/static/a.css'' = path_segments base @ rest)"
proof -
  let ?req = "request_init\<lparr>rq_path_params := [''file_path'' \<mapsto> ''a.css'']\<rparr>"
  have abs: "path_absolute site_example ''static'' = ''/srv/static''"
    by (simp add: path_absolute_def path_join_def site_example_def)
  have c: "\<forall>p q. si_canonical site_example p = Some q \<longrightarrow> ''..'' \<notin> set (path_segments q)"
    by (auto simp: site_example_def path_segments_def)
  have j: "path_join ''/srv/static'' ''a.css'' = ''/srv/static/a.css''" by (simp add: path_join_def)
  have f: "si_canonical site_example ''/srv/static'' = Some ''/srv/static''"
    "si_canonical site_example ''/srv/static/a.css'' = Some ''/srv/static/a.css''"
    "si_exists site_example ''/srv/static/a.css'' = Some True" "si_is_directory site_example ''/srv/static/a.css'' = Some False"
    "si_file_size site_example ''/srv/static/a.css'' = Some 3"
    by (simp_all add: site_example_def)
  obtain r where r: "static_file site_example ''static'' ?req response_init = Handled r"
    "rs_body_content r = FilePath ''/srv/static/a.css''"
    by (simp add: static_file_def no_file_def param_def resolve_within_dir_def abs j f response_setters Let_def)
  from static_files_contained [OF c, where dir = "''static''" and req = ?req and res = response_init] show ?thesis
    unfolding r(1) abs by (simp add: r(2))
qed

lemma demo_routes_served_example:
  fixes h :: "handler demo_handlers"
  shows "\<exists>r. demo_router h = Inr r \<and>
     find_route r GET ''/static/a.css'' Map.empty = Some (Some (dh_static h), [''file_path'' \<mapsto> ''a.css''])"
  using demo_routes_served [OF demo_router_trie, of "''a.css''" "''a''" h] demo_router_trie [of h] by simp

end
