(* ===== verification/Logger.thy ===== *)
theory Logger
  imports Prelude "HOL-Library.Sublist"
begin

text \<open>
  \<open>Logger\<close> (\<open>include/oreshnek/utils/Logger.h\<close>, \<open>src/utils/Logger.cpp\<close>): levels, the file sink and
  its rotation by size. The disk is a map from paths to contents; the time and the thread of a line
  are an argument, and so are the outcomes of the calls a rotation makes, none of which it looks at.
  Each operation runs under \<open>mutex_\<close> and is one step; byte counts are naturals.
\<close>

section \<open>Levels\<close>

datatype LogLevel = TRACE | DEBUG | INFO | WARN | ERROR | OFF

primrec level_value :: "LogLevel \<Rightarrow> int" where
  "level_value TRACE = 0" | "level_value DEBUG = 1" | "level_value INFO = 2"
| "level_value WARN = 3" | "level_value ERROR = 4" | "level_value OFF = 5"

instantiation LogLevel :: linorder
begin

definition less_eq_LogLevel :: "LogLevel \<Rightarrow> LogLevel \<Rightarrow> bool" where
  "less_eq_LogLevel a b \<longleftrightarrow> level_value a \<le> level_value b"

definition less_LogLevel :: "LogLevel \<Rightarrow> LogLevel \<Rightarrow> bool" where
  "less_LogLevel a b \<longleftrightarrow> level_value a < level_value b"

instance
proof
  fix a b :: LogLevel
  show "a \<le> b \<Longrightarrow> b \<le> a \<Longrightarrow> a = b"
    by (cases a; cases b) (simp_all add: less_eq_LogLevel_def)
qed (auto simp: less_eq_LogLevel_def less_LogLevel_def)

end

primrec level_name :: "LogLevel \<Rightarrow> string" where
  "level_name TRACE = ''TRACE''" | "level_name DEBUG = ''DEBUG''" | "level_name INFO = ''INFO''"
| "level_name WARN = ''WARN''" | "level_name ERROR = ''ERROR''" | "level_name OFF = ''OFF''"

definition level_from_string :: "string \<Rightarrow> LogLevel \<Rightarrow> LogLevel" where
  "level_from_string name fallback =
     (let lower = map to_lower name in
      if lower = ''trace'' then TRACE
      else if lower = ''debug'' then DEBUG
      else if lower = ''info'' then INFO
      else if lower = ''warn'' \<or> lower = ''warning'' then WARN
      else if lower = ''error'' then ERROR
      else if lower = ''off'' \<or> lower = ''none'' then OFF
      else fallback)"

section \<open>The sink\<close>

type_synonym disk = "string \<rightharpoonup> string"

text \<open>
  \<open>lg_stream\<close> is the file the stream \<open>file_\<close> is attached to while it is open, \<open>lg_fail\<close> its failure bit:
  opening a stream that is open fails and leaves it attached, and a stream that failed drops output.
\<close>

record logger =
  lg_level :: LogLevel
  lg_open :: bool
  lg_stream :: string
  lg_fail :: bool
  lg_path :: string
  lg_max_bytes :: nat
  lg_max_files :: int
  lg_current_bytes :: nat

definition logger_init :: logger where
  "logger_init = \<lparr>lg_level = INFO, lg_open = False, lg_stream = [], lg_fail = False, lg_path = [], lg_max_bytes = 0, lg_max_files = 0,
     lg_current_bytes = 0\<rparr>"

definition enabled :: "LogLevel \<Rightarrow> logger \<Rightarrow> bool" where
  "enabled level lg \<longleftrightarrow> lg_level lg \<le> level"

text \<open>\<open>can_open\<close> is the result of opening in append mode, which creates a missing file.\<close>

definition set_file ::
  "bool \<Rightarrow> string \<Rightarrow> nat \<Rightarrow> int \<Rightarrow> logger \<times> disk \<Rightarrow> bool \<times> logger \<times> disk" where
  "set_file can_open path max_bytes max_files s =
     (case s of (lg, d) \<Rightarrow>
        if path = [] then (True, lg\<lparr>lg_open := False, lg_path := []\<rparr>, d)
        else if lg_open lg then
          (True,
           lg\<lparr>lg_fail := True, lg_path := path, lg_max_bytes := max_bytes, lg_max_files := max_files,
             lg_current_bytes := (case d path of None \<Rightarrow> 0 | Some c \<Rightarrow> length c)\<rparr>, d)
        else if \<not> can_open then (False, lg\<lparr>lg_fail := True\<rparr>, d)
        else
          let content = (case d path of None \<Rightarrow> [] | Some c \<Rightarrow> c)
          in (True,
              lg\<lparr>lg_open := True, lg_stream := path, lg_fail := False, lg_path := path,
                lg_max_bytes := max_bytes, lg_max_files := max_files, lg_current_bytes := length content\<rparr>,
              d(path \<mapsto> content)))"

text \<open>
  \<open>fs::remove\<close>, \<open>fs::rename\<close> and the reopening may fail; the error codes are ignored.
  \<open>fo_rename i\<close> is the outcome for the file that becomes \<open><path>.(i+1)\<close>: 0 is the active one.
\<close>

record file_outcomes =
  fo_remove :: bool
  fo_rename :: "nat \<Rightarrow> bool"
  fo_open :: bool

definition rename :: "bool \<Rightarrow> string \<Rightarrow> string \<Rightarrow> disk \<Rightarrow> disk" where
  "rename ok a b d = (case d a of None \<Rightarrow> d | Some c \<Rightarrow> if ok then d(a := None, b := Some c) else d)"

definition archive_path :: "string \<Rightarrow> nat \<Rightarrow> string" where
  "archive_path path i = path @ ''.'' @ dec i"

text \<open>The loop from \<open>i = k\<close> down to 1.\<close>

primrec shift_files :: "file_outcomes \<Rightarrow> string \<Rightarrow> nat \<Rightarrow> disk \<Rightarrow> disk" where
  "shift_files fo path 0 d = d"
| "shift_files fo path (Suc k) d =
     shift_files fo path k
       (rename (fo_rename fo (Suc k)) (archive_path path (Suc k)) (archive_path path (Suc (Suc k))) d)"

definition rotate_files :: "file_outcomes \<Rightarrow> string \<Rightarrow> int \<Rightarrow> disk \<Rightarrow> disk" where
  "rotate_files fo path max_files d =
     (if 0 < max_files then
        rename (fo_rename fo 0) path (archive_path path 1)
          (shift_files fo path (nat max_files - 1)
            (if fo_remove fo then d(archive_path path (nat max_files) := None) else d))
      else d)"

definition rotate_if_needed :: "file_outcomes \<Rightarrow> nat \<Rightarrow> logger \<times> disk \<Rightarrow> logger \<times> disk" where
  "rotate_if_needed fo incoming s =
     (case s of (lg, d) \<Rightarrow>
        if \<not> lg_open lg \<or> lg_max_bytes lg = 0 then s
        else if lg_current_bytes lg + incoming \<le> lg_max_bytes lg then s
        else
          let path = lg_path lg; d1 = rotate_files fo path (lg_max_files lg) d
          in (lg\<lparr>lg_open := fo_open fo, lg_stream := path, lg_fail := \<not> fo_open fo, lg_current_bytes := 0\<rparr>,
              if fo_open fo then d1(path \<mapsto> []) else d1))"

record log_line =
  ll_level :: LogLevel
  ll_time :: string
  ll_tid :: string
  ll_message :: string

definition line_text :: "log_line \<Rightarrow> string" where
  "line_text l = ''['' @ ll_time l @ ''] ['' @ level_name (ll_level l) @ ''] [tid '' @ ll_tid l @ ''] '' @
     ll_message l @ [LF]"

text \<open>The file, or \<open>std::clog\<close>; the text that goes to \<open>std::clog\<close> is the last component.\<close>

definition log_write :: "file_outcomes \<Rightarrow> log_line \<Rightarrow> logger \<times> disk \<Rightarrow> (logger \<times> disk) \<times> string" where
  "log_write fo l s =
     (if \<not> enabled (ll_level l) (fst s) then (s, [])
      else
        let text = line_text l in
        if lg_open (fst s) then
          (case rotate_if_needed fo (length text) s of (lg, d) \<Rightarrow>
             let d' = (if lg_open lg \<and> \<not> lg_fail lg
                       then d(lg_stream lg \<mapsto> (case d (lg_stream lg) of None \<Rightarrow> [] | Some c \<Rightarrow> c) @ text) else d)
             in ((lg\<lparr>lg_current_bytes := lg_current_bytes lg + length text\<rparr>, d'), []))
        else (s, text))"

section \<open>Names of levels\<close>

lemma level_round_trip: "level_from_string (level_name l) fallback = l"
proof -
  have "map to_lower (level_name TRACE) = ''trace''" "map to_lower (level_name DEBUG) = ''debug''"
    "map to_lower (level_name INFO) = ''info''" "map to_lower (level_name WARN) = ''warn''"
    "map to_lower (level_name ERROR) = ''error''" "map to_lower (level_name OFF) = ''off''"
    by code_simp+
  then show ?thesis by (cases l) (simp_all only: level_from_string_def Let_def, simp_all)
qed

section \<open>What the files hold\<close>

definition content_of :: "disk \<Rightarrow> string \<Rightarrow> string" where
  "content_of d p = (case d p of None \<Rightarrow> [] | Some c \<Rightarrow> c)"

text \<open>The rotated files from the oldest to the youngest, then the active one.\<close>

primrec archived :: "string \<Rightarrow> nat \<Rightarrow> disk \<Rightarrow> string" where
  "archived path 0 d = []"
| "archived path (Suc n) d = content_of d (archive_path path (Suc n)) @ archived path n d"

definition log_text :: "logger \<Rightarrow> disk \<Rightarrow> string" where
  "log_text lg d = archived (lg_path lg) (nat (lg_max_files lg)) d @ content_of d (lg_path lg)"

lemma archive_path_inject [simp]:
  "archive_path p i = archive_path p j \<longleftrightarrow> i = j" "archive_path p i \<noteq> p" "p \<noteq> archive_path p i"
  by (auto simp: archive_path_def dest: dec_inject)

section \<open>Rotating when every call succeeds\<close>

definition all_succeed :: "file_outcomes \<Rightarrow> bool" where
  "all_succeed fo \<longleftrightarrow> fo_remove fo \<and> (\<forall>i. fo_rename fo i) \<and> fo_open fo"

lemma shift_files_other:
  "\<forall>i. 1 \<le> i \<and> i \<le> Suc k \<longrightarrow> p \<noteq> archive_path path i \<Longrightarrow> shift_files fo path k d p = d p"
  by (induction k arbitrary: d) (auto simp: rename_def split: option.split)

lemma shift_files_spec:
  assumes "all_succeed fo"
  shows "d (archive_path path (Suc k)) = None \<Longrightarrow>
     shift_files fo path k d (archive_path path 1) = None \<and>
     (\<forall>i. 1 \<le> i \<and> i \<le> k \<longrightarrow> shift_files fo path k d (archive_path path (Suc i)) = d (archive_path path i))"
proof (induction k arbitrary: d)
  case (Suc k)
  let ?d = "rename (fo_rename fo (Suc k)) (archive_path path (Suc k)) (archive_path path (Suc (Suc k))) d"
  have d: "?d (archive_path path (Suc k)) = None"
    "?d (archive_path path (Suc (Suc k))) = d (archive_path path (Suc k))"
    "\<And>i. i \<le> k \<Longrightarrow> ?d (archive_path path i) = d (archive_path path i)"
    using Suc.prems assms by (auto simp: rename_def all_succeed_def split: option.split)
  have "shift_files fo path k ?d (archive_path path (Suc (Suc k))) = ?d (archive_path path (Suc (Suc k)))"
    by (rule shift_files_other) simp
  with Suc.IH [of ?d] d show ?case by (auto simp: le_Suc_eq)
qed simp

lemma archived_shift:
  "\<forall>i. 1 \<le> i \<and> i \<le> n \<longrightarrow> d' (archive_path path (Suc i)) = d (archive_path path i) \<Longrightarrow>
     archived path (Suc n) d' = archived path n d @ content_of d' (archive_path path 1)"
  by (induction n) (auto simp: content_of_def)

lemma archived_cong:
  "\<forall>i. 1 \<le> i \<and> i \<le> n \<longrightarrow> d' (archive_path path i) = d (archive_path path i) \<Longrightarrow>
     archived path n d' = archived path n d"
  by (induction n) (auto simp: content_of_def)

lemma archived_active [simp]: "archived path n (d(path := x)) = archived path n d"
  by (rule archived_cong) simp

text \<open>A rotation drops the oldest file, or the active one when no file is kept.\<close>

definition logger_ok :: "logger \<Rightarrow> disk \<Rightarrow> bool" where
  "logger_ok lg d \<longleftrightarrow> lg_open lg \<and> \<not> lg_fail lg \<and> lg_stream lg = lg_path lg \<and>
     d (lg_path lg) \<noteq> None \<and> lg_current_bytes lg = length (content_of d (lg_path lg))"

lemma rotated_text:
  assumes "all_succeed fo" "d path \<noteq> None" "0 < k" "d' = (rotate_files fo path k d)(path \<mapsto> [])"
  shows "archived path (nat k) d' @ content_of d' path = archived path (nat k - 1) d @ content_of d path"
proof -
  let ?n = "nat k"
  obtain m where n: "?n = Suc m" using assms(3) by (cases ?n) auto
  let ?d0 = "d(archive_path path ?n := None)"
  let ?d1 = "shift_files fo path m ?d0"
  note spec = shift_files_spec [OF assms(1), of ?d0 path m]
  have p: "?d1 path = d path" using shift_files_other [of m path path fo ?d0] by simp
  have d': "d' = (rename True path (archive_path path 1) ?d1)(path \<mapsto> [])"
    using assms(1,3,4) n by (simp add: rotate_files_def all_succeed_def)
  have "\<forall>i. 1 \<le> i \<and> i \<le> m \<longrightarrow> d' (archive_path path (Suc i)) = d (archive_path path i)"
    using spec assms(2) p n unfolding d' by (auto simp: rename_def split: option.split)
  from archived_shift [OF this]
  have "archived path ?n d' = archived path m d @ content_of d' (archive_path path 1)" unfolding n .
  moreover have "content_of d' (archive_path path 1) = content_of d path" "content_of d' path = []"
    using assms(2) p unfolding d' by (auto simp: content_of_def rename_def split: option.split)
  ultimately show ?thesis using n by simp
qed

section \<open>Rotating when calls fail\<close>

text \<open>
  A rename moves the text of one file into the place of the next older one, or does nothing, so the
  texts are dropped but neither repeated nor put in another order.
\<close>

lemma content_rename:
  "a \<noteq> b \<Longrightarrow> content_of (rename ok a b d) p =
     (if ok \<and> d a \<noteq> None then if p = a then [] else if p = b then content_of d a else content_of d p
      else content_of d p)"
  by (auto simp: rename_def content_of_def split: option.split)

lemma archived_rename:
  "1 \<le> i \<Longrightarrow> subseq (archived path n (rename ok (archive_path path i) (archive_path path (Suc i)) d)) (archived path n d)"
proof (induction n)
  case (Suc n)
  let ?d = "rename ok (archive_path path i) (archive_path path (Suc i)) d"
  have c: "content_of ?d p = (if ok \<and> d (archive_path path i) \<noteq> None
      then if p = archive_path path i then [] else if p = archive_path path (Suc i) then content_of d (archive_path path i)
        else content_of d p else content_of d p)" for p
    by (rule content_rename) simp
  consider "n = i" | "Suc n = i" | "n \<noteq> i" "Suc n \<noteq> i" by blast
  then show ?case
  proof cases
    case 1
    then obtain m where m: "i = Suc m" using Suc.prems by (cases i) auto
    have "archived path m ?d = archived path m d"
      by (rule archived_cong) (auto simp: rename_def m split: option.split)
    moreover have "subseq (content_of ?d (archive_path path (Suc i)) @ content_of ?d (archive_path path i))
        (content_of d (archive_path path (Suc i)) @ content_of d (archive_path path i))"
      unfolding c by (auto intro: subseq_drop_many)
    ultimately show ?thesis using 1 m by (simp flip: append_assoc add: list_emb_append_mono)
  next
    case 2
    have "archived path n ?d = archived path n d"
      by (rule archived_cong) (auto simp: rename_def 2 [symmetric] split: option.split)
    moreover have "subseq (content_of ?d (archive_path path (Suc n))) (content_of d (archive_path path (Suc n)))"
      unfolding c using 2 by simp
    ultimately show ?thesis by (simp add: list_emb_append_mono)
  next
    case 3
    then have "content_of ?d (archive_path path (Suc n)) = content_of d (archive_path path (Suc n))"
      unfolding c by simp
    with Suc show ?thesis by (simp add: list_emb_append_mono)
  qed
qed simp

lemma archived_shift_files: "subseq (archived path n (shift_files fo path k d)) (archived path n d)"
proof (induction k arbitrary: d)
  case (Suc k)
  let ?d = "rename (fo_rename fo (Suc k)) (archive_path path (Suc k)) (archive_path path (Suc (Suc k))) d"
  have "subseq (archived path n ?d) (archived path n d)" by (rule archived_rename) simp
  with Suc.IH [of ?d] have "subseq (archived path n (shift_files fo path k ?d)) (archived path n d)"
    by (rule subseq_order.trans)
  then show ?case by simp
qed simp

lemma archived_remove: "subseq (archived path n (d(p := None))) (archived path n d)"
  by (induction n) (auto intro: list_emb_append_mono simp: content_of_def)

text \<open>The last rename puts the active text in front of itself.\<close>

lemma archived_first:
  assumes "d' = rename ok path (archive_path path 1) d"
  shows "subseq (archived path (Suc n) d' @ content_of d' path) (archived path (Suc n) d @ content_of d path)"
proof -
  have c: "content_of d' p = (if ok \<and> d path \<noteq> None then if p = path then []
      else if p = archive_path path 1 then content_of d path else content_of d p else content_of d p)" for p
    unfolding assms by (rule content_rename) simp
  show ?thesis
  proof (induction n)
    case 0
    have "subseq (content_of d' (archive_path path 1) @ content_of d' path)
        (content_of d (archive_path path 1) @ content_of d path)"
      unfolding c by (auto intro: subseq_drop_many)
    then show ?case by simp
  next
    case (Suc n)
    have "content_of d' (archive_path path (Suc (Suc n))) = content_of d (archive_path path (Suc (Suc n)))"
      unfolding c by (simp add: One_nat_def del: One_nat_def)
    then show ?case using list_emb_append_mono [OF _ Suc] by simp
  qed
qed

lemma rotate_files_subseq:
  assumes "d' = rotate_files fo path k d"
  shows "subseq (archived path (nat k) d' @ content_of d' path) (archived path (nat k) d @ content_of d path)"
proof (cases "0 < k")
  case False
  then show ?thesis by (simp add: assms rotate_files_def)
next
  case True
  then obtain m where n: "nat k = Suc m" by (cases "nat k") auto
  let ?d0 = "if fo_remove fo then d(archive_path path (Suc m) := None) else d"
  let ?d1 = "shift_files fo path m ?d0"
  have d': "d' = rename (fo_rename fo 0) path (archive_path path 1) ?d1"
    using True by (simp add: assms rotate_files_def n)
  have p: "content_of ?d1 path = content_of d path"
    using shift_files_other [of m path path fo ?d0] by (simp add: content_of_def)
  have "subseq (archived path (Suc m) ?d0) (archived path (Suc m) d)"
    using archived_remove [of path "Suc m" d] by (cases "fo_remove fo") simp_all
  with archived_shift_files have "subseq (archived path (Suc m) ?d1) (archived path (Suc m) d)"
    by (rule subseq_order.trans)
  then have "subseq (archived path (Suc m) ?d1 @ content_of ?d1 path) (archived path (Suc m) d @ content_of d path)"
    unfolding p by (rule list_emb_append_mono) simp
  with archived_first [OF d', of m] show ?thesis unfolding n using subseq_order.trans by blast
qed

section \<open>Writing\<close>

lemma rotate_ok:
  assumes "all_succeed fo" "logger_ok lg d" "rotate_if_needed fo m (lg, d) = (lg', d')"
  shows "logger_ok lg' d' \<and> suffix (log_text lg' d') (log_text lg d) \<and> lg_path lg' = lg_path lg \<and>
    lg_max_files lg' = lg_max_files lg \<and> lg_max_bytes lg' = lg_max_bytes lg \<and> lg_level lg' = lg_level lg \<and>
    (0 < lg_max_bytes lg \<longrightarrow> lg_current_bytes lg' + m \<le> lg_max_bytes lg \<or> lg_current_bytes lg' = 0)"
proof (cases "lg_max_bytes lg = 0 \<or> lg_current_bytes lg + m \<le> lg_max_bytes lg")
  case True
  then have "lg' = lg" "d' = d" using assms(2,3) by (auto simp: rotate_if_needed_def split: if_splits)
  with assms(2) True show ?thesis by auto
next
  case rotates: False
  let ?path = "lg_path lg" and ?n = "nat (lg_max_files lg)"
  have lg': "lg' = lg\<lparr>lg_open := True, lg_stream := ?path, lg_fail := False, lg_current_bytes := 0\<rparr>"
    and d': "d' = (rotate_files fo ?path (lg_max_files lg) d)(?path \<mapsto> [])"
    using assms rotates by (simp_all add: rotate_if_needed_def logger_ok_def all_succeed_def Let_def)
  have "suffix (log_text lg' d') (log_text lg d)"
  proof (cases "0 < lg_max_files lg")
    case True
    have some: "d ?path \<noteq> None" using assms(2) by (simp add: logger_ok_def)
    obtain k where k: "?n = Suc k" using True by (cases ?n) auto
    have "log_text lg' d' = archived ?path k d @ content_of d ?path"
      using rotated_text [OF assms(1) some True d'] k by (simp add: log_text_def lg')
    then show ?thesis by (simp add: log_text_def k suffix_def)
  next
    case False
    then have "log_text lg' d' = []" by (simp add: log_text_def lg' d' content_of_def)
    then show ?thesis by simp
  qed
  then show ?thesis by (simp add: lg' d' logger_ok_def content_of_def)
qed

lemma write_ok:
  assumes "all_succeed fo" "logger_ok lg d" "log_write fo l (lg, d) = ((lg', d'), clog)"
  shows "logger_ok lg' d' \<and> clog = [] \<and> lg_path lg' = lg_path lg \<and> lg_max_files lg' = lg_max_files lg \<and>
    lg_max_bytes lg' = lg_max_bytes lg \<and> lg_level lg' = lg_level lg \<and>
    suffix (log_text lg' d') (log_text lg d @ (if enabled (ll_level l) lg then line_text l else [])) \<and>
    (enabled (ll_level l) lg \<longrightarrow> suffix (line_text l) (content_of d' (lg_path lg)) \<and>
      (0 < lg_max_bytes lg \<longrightarrow>
         length (content_of d' (lg_path lg)) \<le> lg_max_bytes lg \<or> content_of d' (lg_path lg) = line_text l))"
proof (cases "enabled (ll_level l) lg")
  case False
  with assms show ?thesis by (simp add: log_write_def)
next
  case True
  obtain lg1 d1 where r: "rotate_if_needed fo (length (line_text l)) (lg, d) = (lg1, d1)" by fastforce
  note rot = rotate_ok [OF assms(1,2) r]
  then have keeps: "lg_path lg1 = lg_path lg" "lg_max_files lg1 = lg_max_files lg"
    "lg_max_bytes lg1 = lg_max_bytes lg" "lg_level lg1 = lg_level lg" by blast+
  from rot obtain c where c: "d1 (lg_path lg) = Some c" "lg_current_bytes lg1 = length c"
    "lg_open lg1" "\<not> lg_fail lg1" "lg_stream lg1 = lg_path lg"
    by (auto simp: logger_ok_def content_of_def)
  have lg': "lg' = lg1\<lparr>lg_current_bytes := lg_current_bytes lg1 + length (line_text l)\<rparr>"
    "d' = d1(lg_path lg \<mapsto> c @ line_text l)" "clog = []"
    using assms r True c by (auto simp: log_write_def Let_def logger_ok_def)
  have t: "log_text lg' d' = log_text lg1 d1 @ line_text l"
  proof -
    have "archived (lg_path lg) n d' = archived (lg_path lg) n d1" for n
      by (rule archived_cong) (simp add: lg')
    then show ?thesis using rot c by (simp add: log_text_def lg' content_of_def)
  qed
  have "suffix (log_text lg' d') (log_text lg d @ line_text l)" using rot t by (auto simp: suffix_def)
  moreover have cd: "content_of d' (lg_path lg) = c @ line_text l" by (simp add: lg'(2) content_of_def)
  moreover have "0 < lg_max_bytes lg \<longrightarrow>
      length (c @ line_text l) \<le> lg_max_bytes lg \<or> c @ line_text l = line_text l"
    using rot c(2) by auto
  moreover have "logger_ok lg' d'"
    unfolding logger_ok_def lg'(1) using c keeps(1) cd by (simp add: lg'(2))
  moreover have "lg_path lg' = lg_path lg \<and> lg_max_files lg' = lg_max_files lg \<and>
      lg_max_bytes lg' = lg_max_bytes lg \<and> lg_level lg' = lg_level lg"
    by (simp add: lg'(1) keeps)
  ultimately show ?thesis using True lg'(3) by (simp add: suffix_def)
qed

text \<open>What is left when calls fail: the stream is attached to the active file or closed.\<close>

definition attached :: "logger \<Rightarrow> bool" where
  "attached lg \<longleftrightarrow> (lg_open lg \<longrightarrow> \<not> lg_fail lg \<and> lg_stream lg = lg_path lg)"

definition same_sink :: "logger \<Rightarrow> logger \<Rightarrow> bool" where
  "same_sink lg lg' \<longleftrightarrow> lg_path lg' = lg_path lg \<and> lg_max_files lg' = lg_max_files lg \<and>
     lg_max_bytes lg' = lg_max_bytes lg \<and> lg_level lg' = lg_level lg"

lemma subseq_prefix: "subseq xs (xs @ ys)"
  using list_emb_append_mono [of "(=)" xs xs "[]" ys] by simp

lemma rotate_any:
  assumes "attached lg" "rotate_if_needed fo m (lg, d) = (lg', d')"
  shows "attached lg' \<and> same_sink lg lg' \<and> subseq (log_text lg' d') (log_text lg d)"
proof (cases "\<not> lg_open lg \<or> lg_max_bytes lg = 0 \<or> lg_current_bytes lg + m \<le> lg_max_bytes lg")
  case True
  with assms show ?thesis by (auto simp: rotate_if_needed_def same_sink_def split: if_splits)
next
  case False
  let ?path = "lg_path lg" and ?d1 = "rotate_files fo (lg_path lg) (lg_max_files lg) d"
  have lg': "lg' = lg\<lparr>lg_open := fo_open fo, lg_stream := ?path, lg_fail := \<not> fo_open fo, lg_current_bytes := 0\<rparr>"
    and d': "d' = (if fo_open fo then ?d1(?path \<mapsto> []) else ?d1)"
    using assms(2) False by (simp_all add: rotate_if_needed_def Let_def)
  note sub = rotate_files_subseq [OF refl, of ?path "lg_max_files lg" fo d]
  have "subseq (archived ?path (nat (lg_max_files lg)) ?d1) (log_text lg d)"
    using subseq_order.trans [OF subseq_prefix sub] by (simp add: log_text_def)
  with sub have "subseq (log_text lg' d') (log_text lg d)"
    by (simp add: log_text_def lg' d' content_of_def [of "_(_ \<mapsto> _)"])
  then show ?thesis by (simp add: lg' attached_def same_sink_def)
qed

lemma write_any:
  assumes "attached lg" "log_write fo l (lg, d) = ((lg', d'), clog)"
  shows "attached lg' \<and> same_sink lg lg' \<and>
    subseq (log_text lg' d') (log_text lg d @ (if enabled (ll_level l) lg then line_text l else []))"
proof (cases "enabled (ll_level l) lg \<and> lg_open lg")
  case False
  with assms show ?thesis by (auto simp: log_write_def same_sink_def subseq_prefix split: if_splits)
next
  case True
  obtain lg1 d1 where r: "rotate_if_needed fo (length (line_text l)) (lg, d) = (lg1, d1)" by fastforce
  note rot = rotate_any [OF assms(1) r]
  let ?t = "line_text l"
  have lg': "lg' = lg1\<lparr>lg_current_bytes := lg_current_bytes lg1 + length ?t\<rparr>"
    and d': "d' = (if lg_open lg1 then d1(lg_path lg1 \<mapsto> content_of d1 (lg_path lg1) @ ?t) else d1)"
    using assms True r rot by (auto simp: log_write_def attached_def content_of_def Let_def)
  have "log_text lg' d' = log_text lg1 d1 @ (if lg_open lg1 then ?t else [])"
    by (simp add: log_text_def lg' d' content_of_def [of "_(_ \<mapsto> _)"])
  moreover have "subseq (log_text lg1 d1 @ (if lg_open lg1 then ?t else [])) (log_text lg d @ ?t)"
    using rot by (intro list_emb_append_mono) auto
  ultimately show ?thesis using True rot by (auto simp: lg' attached_def same_sink_def)
qed

text \<open>A run of writes, each with the outcomes of the calls it may make.\<close>

definition log_writes :: "(file_outcomes \<times> log_line) list \<Rightarrow> logger \<times> disk \<Rightarrow> logger \<times> disk" where
  "log_writes ws s = fold (\<lambda>(fo, l) s. fst (log_write fo l s)) ws s"

definition logged :: "logger \<Rightarrow> (file_outcomes \<times> log_line) list \<Rightarrow> string" where
  "logged lg ws = concat (map line_text (filter (\<lambda>l. enabled (ll_level l) lg) (map snd ws)))"

lemma logged_Cons: "logged lg ((fo, l) # ws) = (if enabled (ll_level l) lg then line_text l else []) @ logged lg ws"
  by (simp add: logged_def)

lemma logged_same: "lg_level lg' = lg_level lg \<Longrightarrow> logged lg' ws = logged lg ws"
  by (simp add: logged_def enabled_def)

lemma writes_any:
  "attached lg \<Longrightarrow> log_writes ws (lg, d) = (lg', d') \<Longrightarrow>
     attached lg' \<and> same_sink lg lg' \<and> subseq (log_text lg' d') (log_text lg d @ logged lg ws)"
proof (induction ws arbitrary: lg d)
  case Nil
  then show ?case by (simp add: log_writes_def logged_def same_sink_def)
next
  case (Cons w ws)
  obtain fo l where w: "w = (fo, l)" by (cases w)
  obtain lg1 d1 clog where l: "log_write fo l (lg, d) = ((lg1, d1), clog)" by (metis prod.exhaust)
  note one = write_any [OF Cons.prems(1) l]
  have "log_writes ws (lg1, d1) = (lg', d')" using Cons.prems(2) w l by (simp add: log_writes_def)
  note rest = Cons.IH [OF conjunct1 [OF one] this]
  have same: "logged lg1 ws = logged lg ws" by (rule logged_same) (use one in \<open>simp add: same_sink_def\<close>)
  have "subseq (log_text lg1 d1 @ logged lg ws) (log_text lg d @ logged lg (w # ws))"
    unfolding w logged_Cons append_assoc [symmetric] using one by (intro list_emb_append_mono) simp_all
  with rest show ?case using one subseq_order.trans by (auto simp: same same_sink_def)
qed

lemma writes_ok:
  "logger_ok lg d \<Longrightarrow> \<forall>(fo, l) \<in> set ws. all_succeed fo \<Longrightarrow> log_writes ws (lg, d) = (lg', d') \<Longrightarrow>
     logger_ok lg' d' \<and> lg_level lg' = lg_level lg \<and> suffix (log_text lg' d') (log_text lg d @ logged lg ws)"
proof (induction ws arbitrary: lg d)
  case Nil
  then show ?case by (simp add: log_writes_def logged_def)
next
  case (Cons w ws)
  obtain fo l where w: "w = (fo, l)" by (cases w)
  have good: "all_succeed fo" "\<forall>(fo, l) \<in> set ws. all_succeed fo" using Cons.prems(2) by (auto simp: w)
  obtain lg1 d1 clog where l: "log_write fo l (lg, d) = ((lg1, d1), clog)" by (metis prod.exhaust)
  note ok = write_ok [OF good(1) Cons.prems(1) l]
  have "log_writes ws (lg1, d1) = (lg', d')" using Cons.prems(3) w l by (simp add: log_writes_def)
  note rest = Cons.IH [OF conjunct1 [OF ok] good(2) this]
  have same: "logged lg1 ws = logged lg ws" by (rule logged_same) (use ok in simp)
  have "suffix (log_text lg1 d1 @ logged lg ws) (log_text lg d @ logged lg (w # ws))"
    using ok by (auto simp: suffix_def w logged_Cons)
  then show ?case using rest ok suffix_order.trans by (auto simp: same)
qed

section \<open>Properties\<close>

text \<open>
  C34: rotation. When every remove, rename and reopening succeeds, nothing but the oldest text is
  lost: the rotated files and the active one, read in order, are the end of everything that was
  logged, in the order of the calls and at the levels that are enabled, with what the file held
  before in front; the last line is whole in the active file, which is within its limit or holds
  that line alone. Whichever calls fail, the files hold no text twice and none out of order.
\<close>

theorem log_rotation_keeps_the_end:
  assumes "logger_ok lg d" "log_writes ws (lg, d) = (lg1, d1)"
    "log_write fo l (lg1, d1) = ((lg2, d2), clog)" "enabled (ll_level l) lg"
  shows "subseq (log_text lg2 d2) (log_text lg d @ logged lg ws @ line_text l) \<and>
    ((\<forall>(fo', l') \<in> set ws. all_succeed fo') \<and> all_succeed fo \<longrightarrow>
       clog = [] \<and> suffix (log_text lg2 d2) (log_text lg d @ logged lg ws @ line_text l) \<and>
       suffix (line_text l) (content_of d2 (lg_path lg2)) \<and>
       (0 < lg_max_bytes lg2 \<longrightarrow>
          length (content_of d2 (lg_path lg2)) \<le> lg_max_bytes lg2 \<or> content_of d2 (lg_path lg2) = line_text l))"
proof
  have "attached lg" using assms(1) by (simp add: logger_ok_def attached_def)
  note w = writes_any [OF this assms(2)]
  have "enabled (ll_level l) lg1" using w assms(4) by (simp add: enabled_def same_sink_def)
  with write_any [OF conjunct1 [OF w] assms(3)] have "subseq (log_text lg2 d2) (log_text lg1 d1 @ line_text l)" by simp
  moreover have "subseq (log_text lg1 d1 @ line_text l) ((log_text lg d @ logged lg ws) @ line_text l)"
    using w by (intro list_emb_append_mono) auto
  ultimately show "subseq (log_text lg2 d2) (log_text lg d @ logged lg ws @ line_text l)"
    using subseq_order.trans by auto
next
  show "(\<forall>(fo', l') \<in> set ws. all_succeed fo') \<and> all_succeed fo \<longrightarrow>
       clog = [] \<and> suffix (log_text lg2 d2) (log_text lg d @ logged lg ws @ line_text l) \<and>
       suffix (line_text l) (content_of d2 (lg_path lg2)) \<and>
       (0 < lg_max_bytes lg2 \<longrightarrow>
          length (content_of d2 (lg_path lg2)) \<le> lg_max_bytes lg2 \<or> content_of d2 (lg_path lg2) = line_text l)"
  proof (intro impI, elim conjE)
    assume good: "\<forall>(fo', l') \<in> set ws. all_succeed fo'" "all_succeed fo"
    note w = writes_ok [OF assms(1) good(1) assms(2)]
    have "enabled (ll_level l) lg1" using w assms(4) by (simp add: enabled_def)
    with write_ok [OF good(2) conjunct1 [OF w] assms(3)] have l: "clog = []"
      "suffix (log_text lg2 d2) (log_text lg1 d1 @ line_text l)"
      "suffix (line_text l) (content_of d2 (lg_path lg2))"
      "0 < lg_max_bytes lg2 \<longrightarrow>
         length (content_of d2 (lg_path lg2)) \<le> lg_max_bytes lg2 \<or> content_of d2 (lg_path lg2) = line_text l"
      by auto
    have "suffix (log_text lg1 d1 @ line_text l) ((log_text lg d @ logged lg ws) @ line_text l)"
      using w by (auto simp: suffix_def)
    with l show "clog = [] \<and> suffix (log_text lg2 d2) (log_text lg d @ logged lg ws @ line_text l) \<and>
       suffix (line_text l) (content_of d2 (lg_path lg2)) \<and>
       (0 < lg_max_bytes lg2 \<longrightarrow>
          length (content_of d2 (lg_path lg2)) \<le> lg_max_bytes lg2 \<or> content_of d2 (lg_path lg2) = line_text l)"
      using suffix_order.trans by auto
  qed
qed

text \<open>
  The outcomes nobody looks at: when the active file cannot be renamed but can be opened, its text
  is truncated away; when it cannot be opened, the line is neither in a file nor on \<open>std::clog\<close>.
\<close>

lemma failed_rename_truncates:
  assumes "logger_ok lg d" "0 < lg_max_bytes lg" "lg_max_bytes lg < lg_current_bytes lg + m" "\<not> fo_rename fo 0" "fo_open fo"
    "rotate_if_needed fo m (lg, d) = (lg', d')"
  shows "subseq (log_text lg' d') (archived (lg_path lg) (nat (lg_max_files lg)) d)"
proof -
  let ?path = "lg_path lg" and ?n = "nat (lg_max_files lg)"
  have lg': "lg_path lg' = ?path" "lg_max_files lg' = lg_max_files lg"
    and d': "d' = (rotate_files fo ?path (lg_max_files lg) d)(?path \<mapsto> [])"
    using assms by (auto simp: rotate_if_needed_def logger_ok_def Let_def)
  have "subseq (archived ?path ?n (rotate_files fo ?path (lg_max_files lg) d)) (archived ?path ?n d)"
    using archived_shift_files [of ?path ?n fo "?n - 1" "d(archive_path ?path ?n := None)"]
      archived_shift_files [of ?path ?n fo "?n - 1" d] archived_remove [of ?path ?n d "archive_path ?path ?n"] assms(4)
      subseq_order.trans by (auto simp: rotate_files_def rename_def split: option.split)
  then show ?thesis by (simp add: log_text_def lg' d' content_of_def)
qed

lemma failed_open_drops:
  assumes "logger_ok lg d" "0 < lg_max_bytes lg" "lg_max_bytes lg < lg_current_bytes lg + length (line_text l)"
    "\<not> fo_open fo" "enabled (ll_level l) lg" "log_write fo l (lg, d) = ((lg', d'), clog)"
  shows "clog = [] \<and> subseq (log_text lg' d') (log_text lg d)"
proof -
  have "attached lg" using assms(1) by (simp add: logger_ok_def attached_def)
  obtain lg1 d1 where r: "rotate_if_needed fo (length (line_text l)) (lg, d) = (lg1, d1)" by fastforce
  from rotate_any [OF \<open>attached lg\<close> r] have "subseq (log_text lg1 d1) (log_text lg d)" by simp
  moreover have "\<not> lg_open lg1" using r assms(1-4) by (auto simp: rotate_if_needed_def logger_ok_def Let_def)
  then have "d' = d1" "clog = []" "log_text lg' d' = log_text lg1 d1"
    using assms r by (auto simp: log_write_def logger_ok_def Let_def log_text_def)
  ultimately show ?thesis by simp
qed

text \<open>
  A second \<open>set_file\<close> while a file is open returns success but loses what is logged until the next
  rotation: the stream is still attached to the old file and has failed.
\<close>

lemma second_set_file_loses:
  assumes "logger_ok lg d" "path \<noteq> []" "set_file can_open path 0 n (lg, d) = (ok, lg', d')"
    "enabled (ll_level l) lg'"
  shows "ok \<and> snd (fst (log_write fo l (lg', d'))) = d \<and> snd (log_write fo l (lg', d')) = []"
  using assms by (auto simp: set_file_def logger_ok_def log_write_def rotate_if_needed_def Let_def)

definition logger_example :: logger where
  "logger_example = logger_init\<lparr>lg_open := True, lg_stream := ''log'', lg_path := ''log'', lg_max_bytes := 30,
     lg_max_files := 2\<rparr>"

definition line_example :: "string \<Rightarrow> log_line" where
  "line_example m = \<lparr>ll_level = WARN, ll_time = ''t'', ll_tid = ''1'', ll_message = m\<rparr>"

definition outcomes_ok :: file_outcomes where
  "outcomes_ok = \<lparr>fo_remove = True, fo_rename = (\<lambda>i. True), fo_open = True\<rparr>"

text \<open>The second line rotates the first away.\<close>

lemma log_rotation_keeps_the_end_witness:
  "\<exists>lg d. log_writes [(outcomes_ok, line_example ''a'')] (logger_example, [''log'' \<mapsto> []]) = (lg, d) \<and>
     (\<exists>lg' d'. log_write outcomes_ok (line_example ''b'') (lg, d) = ((lg', d'), []) \<and>
        suffix (log_text lg' d') (line_text (line_example ''a'') @ line_text (line_example ''b'')) \<and>
        content_of d' ''log'' = line_text (line_example ''b'') \<and>
        content_of d' (archive_path ''log'' 1) = line_text (line_example ''a''))"
proof -
  let ?start = "[''log'' \<mapsto> []]" and ?a = "line_text (line_example ''a'')" and ?b = "line_text (line_example ''b'')"
  have ok: "logger_ok logger_example ?start"
    by (simp add: logger_ok_def logger_example_def logger_init_def content_of_def)
  have en: "enabled (ll_level (line_example m)) logger_example" for m
    by (simp add: enabled_def line_example_def logger_example_def logger_init_def less_eq_LogLevel_def)
  have p: "archive_path ''log'' i \<noteq> ''log''" "''log'' \<noteq> archive_path ''log'' i" for i by simp_all
  have t: "log_text logger_example ?start = []"
    by (simp add: log_text_def logger_example_def logger_init_def content_of_def numeral_2_eq_2 p)
  have len: "length ?a = 21" "length ?b = 21" by (simp_all add: line_text_def line_example_def)
  have good: "all_succeed outcomes_ok" by (simp add: all_succeed_def outcomes_ok_def)
  let ?lg = "logger_example\<lparr>lg_current_bytes := 21\<rparr>" and ?d = "[''log'' \<mapsto> ?a]"
  have "rotate_if_needed outcomes_ok 21 (logger_example, ?start) = (logger_example, ?start)"
    by (simp add: rotate_if_needed_def logger_example_def logger_init_def)
  then have "fst (log_write outcomes_ok (line_example ''a'') (logger_example, ?start)) = (?lg, ?d)"
    using en [of "''a''"] len by (simp add: log_write_def Let_def) (simp add: logger_example_def logger_init_def)
  then have w: "log_writes [(outcomes_ok, line_example ''a'')] (logger_example, ?start) = (?lg, ?d)"
    by (simp add: log_writes_def)
  have r: "rotate_if_needed outcomes_ok 21 (?lg, ?d) = (?lg\<lparr>lg_current_bytes := 0\<rparr>, [archive_path ''log'' 1 \<mapsto> ?a, ''log'' \<mapsto> []])"
    using p by (auto simp: rotate_if_needed_def logger_example_def logger_init_def Let_def outcomes_ok_def
        rotate_files_def rename_def fun_eq_iff)
  obtain lg' d' clog where l: "log_write outcomes_ok (line_example ''b'') (?lg, ?d) = ((lg', d'), clog)"
    by (metis prod.exhaust)
  then have "d' = [archive_path ''log'' 1 \<mapsto> ?a, ''log'' \<mapsto> ?b]"
    using en [of "''b''"] r len p
    by (auto simp: log_write_def enabled_def Let_def) (auto simp: logger_example_def logger_init_def)
  then have c: "content_of d' ''log'' = ?b" "content_of d' (archive_path ''log'' 1) = ?a"
    using p by (simp_all add: content_of_def)
  from log_rotation_keeps_the_end [OF ok w l en] good have "clog = []" "suffix (log_text lg' d') (?a @ ?b)"
    using en [of "''a''"] by (simp_all add: t logged_def)
  with w l c show ?thesis by auto
qed

end
