(* ===== verification/Lifecycle.thy ===== *)
theory Lifecycle
  imports Prelude "HOL-Library.Multiset" "HOL-Library.Word"
begin

text \<open>
  The descriptors of the server itself (\<open>src/server/Server.cpp\<close>): how \<open>listen\<close> opens the listening
  socket, the multiplexer and the wakeup pipe, and how the end of \<open>run\<close>, \<open>stop\<close> and the destructor
  close them; with the contexts of TLS (\<open>src/net/TlsContext.cpp\<close>). The results of the system calls
  are the record \<open>setup_calls\<close>; \<open>lf_closed\<close> lists the calls of \<open>close\<close>. Of the client connections
  there are the descriptors that are left in \<open>connections_\<close>; how they get there is the business of
  the event loop, which also has what clearing does to a connection (\<open>Server.loop_teardown\<close>).
\<close>

unbundle bit_operations_syntax

section \<open>State\<close>

record lifecycle =
  lf_listen_fd :: int
  lf_epoll_fd :: int
  lf_wakeup_read :: int
  lf_wakeup_write :: int
  lf_running :: bool
  lf_stop_requested :: bool
  lf_joined :: bool
  lf_clients :: "int list"
  lf_closed :: "int list"

definition lifecycle_init :: lifecycle where
  "lifecycle_init = \<lparr>lf_listen_fd = -1, lf_epoll_fd = -1, lf_wakeup_read = -1, lf_wakeup_write = -1,
     lf_running = False, lf_stop_requested = False, lf_joined = False, lf_clients = [], lf_closed = []\<rparr>"

record setup_calls =
  sa_socket :: int
  sa_reuse_address :: bool
  sa_listen_nonblocking :: bool
  sa_address :: bool
  sa_bind :: bool
  sa_listen :: bool
  sa_epoll_create :: int
  sa_add_listen :: bool
  sa_pipe :: "(int \<times> int) option"
  sa_pipe_nonblocking :: bool
  sa_add_pipe :: bool

definition close_fd :: "int \<Rightarrow> lifecycle \<Rightarrow> lifecycle" where
  "close_fd fd l = l\<lparr>lf_closed := lf_closed l @ [fd]\<rparr>"

section \<open>Opening\<close>

text \<open>
  The descriptor flags behind \<open>fcntl\<close>: what \<open>F_GETFL\<close> returned, and whether \<open>F_SETFL\<close> succeeds. In the
  rest of the model only its outcome is left: a flag of \<open>setup_calls\<close>, and of an accepted connection.
\<close>

definition O_NONBLOCK :: "32 word" where
  "O_NONBLOCK = 2048"

definition set_non_blocking :: "32 word \<Rightarrow> bool \<Rightarrow> 32 word throws" where
  "set_non_blocking flags setfl =
     (if flags = -1 then Inl ''fcntl F_GETFL failed''
      else if \<not> setfl then Inl ''fcntl F_SETFL failed''
      else Inr (flags OR O_NONBLOCK))"

lemma set_non_blocking_keeps:
  "set_non_blocking flags setfl = Inr flags' \<Longrightarrow> flags' AND O_NONBLOCK = O_NONBLOCK \<and> flags' AND flags = flags"
  by (auto simp: set_non_blocking_def O_NONBLOCK_def bit_eq_iff bit_simps split: if_splits)

text \<open>On an error the socket is closed, but \<open>listen_fd_\<close> keeps its number.\<close>

definition setup_socket :: "setup_calls \<Rightarrow> lifecycle \<Rightarrow> bool \<times> lifecycle" where
  "setup_socket a l =
     (let l1 = l\<lparr>lf_listen_fd := sa_socket a\<rparr> in
      if lf_listen_fd l1 < 0 then (False, l1)
      else if \<not> sa_reuse_address a then (False, close_fd (lf_listen_fd l1) l1)
      else if \<not> sa_listen_nonblocking a then (False, close_fd (lf_listen_fd l1) l1)
      else if \<not> sa_address a then (False, close_fd (lf_listen_fd l1) l1)
      else if \<not> sa_bind a then (False, close_fd (lf_listen_fd l1) l1)
      else if \<not> sa_listen a then (False, close_fd (lf_listen_fd l1) l1)
      else (True, l1))"

definition setup_epoll :: "setup_calls \<Rightarrow> lifecycle \<Rightarrow> bool \<times> lifecycle" where
  "setup_epoll a l =
     (let l1 = l\<lparr>lf_epoll_fd := sa_epoll_create a\<rparr> in
      if lf_epoll_fd l1 < 0 then (False, l1)
      else if \<not> sa_add_listen a then (False, close_fd (lf_epoll_fd l1) l1)
      else (True, l1))"

definition setup_wakeup :: "setup_calls \<Rightarrow> lifecycle \<Rightarrow> bool \<times> lifecycle" where
  "setup_wakeup a l =
     (case sa_pipe a of
        None \<Rightarrow> (False, l)
      | Some (r, w) \<Rightarrow>
          (sa_pipe_nonblocking a \<and> sa_add_pipe a, l\<lparr>lf_wakeup_read := r, lf_wakeup_write := w\<rparr>))"

definition listen_on :: "setup_calls \<Rightarrow> lifecycle \<Rightarrow> bool \<times> lifecycle" where
  "listen_on a l =
     (case setup_socket a l of
        (ok1, l1) \<Rightarrow>
          if \<not> ok1 then (False, l1)
          else (case setup_epoll a l1 of
              (ok2, l2) \<Rightarrow>
                if \<not> ok2 then (False, close_fd (lf_listen_fd l2) l2)
                else (case setup_wakeup a l2 of
                    (ok3, l3) \<Rightarrow> if \<not> ok3 then (False, l3) else (True, l3\<lparr>lf_running := True\<rparr>))))"

section \<open>Closing\<close>

definition close_listen :: "lifecycle \<Rightarrow> lifecycle" where
  "close_listen l =
     (if 0 \<le> lf_listen_fd l then (close_fd (lf_listen_fd l) l)\<lparr>lf_listen_fd := -1\<rparr> else l)"

definition close_epoll :: "lifecycle \<Rightarrow> lifecycle" where
  "close_epoll l =
     (if 0 \<le> lf_epoll_fd l then (close_fd (lf_epoll_fd l) l)\<lparr>lf_epoll_fd := -1\<rparr> else l)"

text \<open>
  \<open>connections_.clear()\<close>: a connection that a worker's task or a waiting result still holds loses its
  entry only; the others are destroyed, which closes their sockets.
\<close>

definition clear_clients :: "(int \<Rightarrow> bool) \<Rightarrow> lifecycle \<Rightarrow> lifecycle" where
  "clear_clients held_fd l = l\<lparr>lf_clients := [], lf_closed := lf_closed l @ filter (\<lambda>fd. \<not> held_fd fd) (lf_clients l)\<rparr>"

text \<open>The drain closes the listening socket (\<open>stop_accepting\<close>); behind the loop of \<open>run\<close>.\<close>

definition run_teardown :: "(int \<Rightarrow> bool) \<Rightarrow> lifecycle \<Rightarrow> lifecycle" where
  "run_teardown held_fd l = close_listen (close_epoll (clear_clients held_fd (l\<lparr>lf_running := False\<rparr>)))"

definition close_wakeup :: "lifecycle \<Rightarrow> lifecycle" where
  "close_wakeup l =
     (let l1 = (if 0 \<le> lf_wakeup_read l
                then (close_fd (lf_wakeup_read l) l)\<lparr>lf_wakeup_read := -1\<rparr> else l)
      in if 0 \<le> lf_wakeup_write l1
         then (close_fd (lf_wakeup_write l1) l1)\<lparr>lf_wakeup_write := -1\<rparr> else l1)"

text \<open>\<open>stop\<close>, which is also the destructor: the workers are joined before the pipe is closed.\<close>

definition stop :: "(int \<Rightarrow> bool) \<Rightarrow> lifecycle \<Rightarrow> lifecycle" where
  "stop held_fd l =
     close_wakeup (close_listen (close_epoll (clear_clients held_fd
       (l\<lparr>lf_stop_requested := True, lf_joined := True\<rparr>))))"

section \<open>TLS contexts\<close>

text \<open>
  The calls of OpenSSL on a context: creation, the certificate, the key, whether they match; a
  context that cannot be used is freed. \<open>tx_min\<close> is the minor version of TLS 1 that is required.
\<close>

record tls_calls =
  tl_new :: bool
  tl_certificate :: bool
  tl_key :: bool
  tl_match :: bool

datatype ssl_option = SSL_OP_NO_COMPRESSION | SSL_OP_CIPHER_SERVER_PREFERENCE

datatype ssl_mode = SSL_MODE_ENABLE_PARTIAL_WRITE | SSL_MODE_ACCEPT_MOVING_WRITE_BUFFER

record tls_context =
  tx_min :: nat
  tx_options :: "ssl_option set"
  tx_mode :: "ssl_mode set"

definition tls_context_init ::
  "tls_calls \<Rightarrow> string \<Rightarrow> string \<Rightarrow> string \<Rightarrow> bool \<times> tls_context throws" where
  "tls_context_init a cert_file key_file min_version =
     (if \<not> tl_new a then (False, Inl ''SSL_CTX_new failed'')
      else if \<not> tl_certificate a then (True, Inl (''Failed to load TLS certificate '' @ cert_file))
      else if \<not> tl_key a then (True, Inl (''Failed to load TLS private key '' @ key_file))
      else if \<not> tl_match a then (True, Inl ''TLS private key does not match certificate'')
      else (False, Inr \<lparr>tx_min = (if min_version = ''1.3'' then 3 else 2),
        tx_options = {SSL_OP_NO_COMPRESSION, SSL_OP_CIPHER_SERVER_PREFERENCE},
        tx_mode = {SSL_MODE_ENABLE_PARTIAL_WRITE, SSL_MODE_ACCEPT_MOVING_WRITE_BUFFER}\<rparr>))"

text \<open>
  The loops of \<open>Connection\<close> that present the rest of a buffer behind a short write rely on the mode;
  no configuration value gives a version below 1.2.
\<close>

lemma tls_context_modes:
  "snd (tls_context_init a c k m) = Inr ctx \<Longrightarrow>
     SSL_MODE_ENABLE_PARTIAL_WRITE \<in> tx_mode ctx \<and> SSL_MODE_ACCEPT_MOVING_WRITE_BUFFER \<in> tx_mode ctx \<and> 2 \<le> tx_min ctx"
  by (auto simp: tls_context_init_def split: if_splits)

text \<open>\<open>new_session\<close>: whether there is a session, and whether one was freed.\<close>

definition new_session :: "bool \<Rightarrow> bool \<Rightarrow> bool \<times> bool" where
  "new_session ssl_new set_fd = (if \<not> ssl_new then (False, False) else if \<not> set_fd then (False, True) else (True, False))"

lemma tls_context_never_leaks:
  "snd (tls_context_init a c k m) = Inl e \<Longrightarrow> fst (tls_context_init a c k m) = tl_new a"
  by (auto simp: tls_context_init_def)

section \<open>Properties\<close>

lemmas lifecycle_defs = close_fd_def close_listen_def close_epoll_def close_wakeup_def clear_clients_def run_teardown_def

text \<open>What \<open>listen\<close> leaves behind when it succeeds.\<close>

lemma listen_on_ok:
  assumes "listen_on a lifecycle_init = (True, l)"
  shows "l = lifecycle_init\<lparr>lf_listen_fd := sa_socket a, lf_epoll_fd := sa_epoll_create a,
      lf_wakeup_read := fst (the (sa_pipe a)), lf_wakeup_write := snd (the (sa_pipe a)), lf_running := True\<rparr>"
    "0 \<le> sa_socket a" "0 \<le> sa_epoll_create a" "sa_pipe a \<noteq> None"
  using assms
  by (auto simp: listen_on_def setup_socket_def setup_epoll_def setup_wakeup_def Let_def lifecycle_init_def
      split: if_splits option.splits)

text \<open>
  A server that listened closes each of its descriptors, and each client that no worker holds, exactly
  once: by the drain or the end of the loop, by \<open>stop\<close>, and again by the destructor, in this order,
  whether it drained or not and whether \<open>run\<close> was called or not.
\<close>

lemma descriptors_closed_once:
  assumes "listen_on a lifecycle_init = (True, l)" "sa_pipe a = Some (r, w)" "0 \<le> r" "0 \<le> w"
    "served = l\<lparr>lf_clients := cs\<rparr>" "drained = (if d then close_listen served else served)"
    "ended = (if e then run_teardown h drained else drained)"
  shows "mset (lf_closed (stop h' ended)) = {#sa_socket a, sa_epoll_create a, r, w#} +
      mset (filter (\<lambda>fd. \<not> (if e then h else h') fd) cs) \<and>
    lf_closed (stop h'' (stop h' ended)) = lf_closed (stop h' ended) \<and> lf_joined (stop h' ended)"
proof -
  note l = listen_on_ok [OF assms(1)]
  have "l = lifecycle_init\<lparr>lf_listen_fd := sa_socket a, lf_epoll_fd := sa_epoll_create a,
      lf_wakeup_read := r, lf_wakeup_write := w, lf_running := True\<rparr>"
    using l(1) assms(2) by simp
  then show ?thesis
    using l(2,3) assms(3-7) by (simp add: stop_def lifecycle_defs lifecycle_init_def)
qed

text \<open>
  A \<open>listen\<close> that fails closes the socket without forgetting it, and the destructor closes the
  same number again, which may by then belong to something else.
\<close>

lemma failed_listen_closes_twice:
  assumes "0 \<le> sa_socket a" "\<not> sa_bind a" "sa_reuse_address a" "sa_listen_nonblocking a" "sa_address a"
  shows "listen_on a lifecycle_init = (False, l) \<Longrightarrow> lf_closed (stop h l) = [sa_socket a, sa_socket a]"
  using assms
  by (auto simp: listen_on_def setup_socket_def Let_def lifecycle_init_def stop_def lifecycle_defs)

definition calls_ok :: setup_calls where
  "calls_ok = \<lparr>sa_socket = 3, sa_reuse_address = True, sa_listen_nonblocking = True, sa_address = True,
     sa_bind = True, sa_listen = True, sa_epoll_create = 4, sa_add_listen = True, sa_pipe = Some (5, 6),
     sa_pipe_nonblocking = True, sa_add_pipe = True\<rparr>"

text \<open>Two clients, 8 and 9, and the request of 9 is still with a worker when the loop ends.\<close>

lemma descriptors_closed_once_example:
  "mset (lf_closed (stop (\<lambda>_. False) (run_teardown (\<lambda>fd. fd = 9)
     ((snd (listen_on calls_ok lifecycle_init))\<lparr>lf_clients := [8, 9]\<rparr>)))) = {#3, 4, 5, 6, 8#}"
proof -
  obtain l where l: "listen_on calls_ok lifecycle_init = (True, l)"
    by (simp add: listen_on_def setup_socket_def setup_epoll_def setup_wakeup_def Let_def calls_ok_def
        lifecycle_init_def)
  have p: "sa_pipe calls_ok = Some (5, 6)" by (simp add: calls_ok_def)
  from descriptors_closed_once [where d = False and e = True, OF l p _ _ refl refl refl]
  show ?thesis by (simp add: l) (simp add: calls_ok_def)
qed

end
