(* ===== verification/Compression.thy ===== *)
theory Compression
  imports Response_Semantics
begin

text \<open>
  \<open>gzip_compress\<close> and \<open>brotli_compress\<close> (\<open>src/http/Compression.cpp\<close>) around the libraries. Of zlib the
  model has one call of \<open>deflate\<close> with \<open>Z_FINISH\<close> on an empty output buffer: from a state, what it
  returns, the bytes it put into the buffer and the next state. The loop is a partial function: it
  runs as long as zlib says \<open>Z_OK\<close>.
\<close>

datatype deflate_result = Z_OK | Z_STREAM_END | Z_ERROR

record 's zlib =
  zl_init :: "string \<Rightarrow> int \<Rightarrow> 's option"
  zl_deflate :: "'s \<Rightarrow> deflate_result \<times> string \<times> 's"

partial_function (option) gzip_loop ::
  "('s \<Rightarrow> deflate_result \<times> string \<times> 's) \<Rightarrow> 's \<Rightarrow> string \<Rightarrow> (deflate_result \<times> string) option" where
  "gzip_loop deflate s out =
     (case deflate s of (ret, bytes, s') \<Rightarrow>
        if ret = Z_OK then gzip_loop deflate s' (out @ bytes) else Some (ret, out @ bytes))"

text \<open>\<^term>\<open>None\<close> is a call that does not return; an error is the empty string.\<close>

definition gzip_compress :: "'s zlib \<Rightarrow> string \<Rightarrow> int \<Rightarrow> string option" where
  "gzip_compress z input level =
     (case zl_init z input level of
        None \<Rightarrow> Some []
      | Some s \<Rightarrow>
          (case gzip_loop (zl_deflate z) s [] of
             None \<Rightarrow> None
           | Some (ret, out) \<Rightarrow> Some (if ret \<noteq> Z_STREAM_END then [] else out)))"

text \<open>
  \<open>enc\<close> is \<open>BrotliEncoderCompress\<close> with a buffer of the given size: the bytes, or a failure.
\<close>

definition brotli_compress ::
  "bool \<Rightarrow> (nat \<Rightarrow> nat) \<Rightarrow> (int \<Rightarrow> nat \<Rightarrow> string \<Rightarrow> string option) \<Rightarrow> string \<Rightarrow> int \<Rightarrow> string" where
  "brotli_compress have_brotli max_size enc input quality =
     (if \<not> have_brotli then []
      else
        let out_size = (if max_size (length input) = 0 then length input + 1024 else max_size (length input))
        in case enc quality out_size input of None \<Rightarrow> [] | Some out \<Rightarrow> out)"

text \<open>The bytes of the rounds of a stream that ends, and the loop that collects them.\<close>

inductive deflates :: "('s \<Rightarrow> deflate_result \<times> string \<times> 's) \<Rightarrow> 's \<Rightarrow> string \<Rightarrow> bool"
  for deflate :: "'s \<Rightarrow> deflate_result \<times> string \<times> 's" where
  deflates_end: "deflate s = (Z_STREAM_END, bytes, s') \<Longrightarrow> deflates deflate s bytes"
| deflates_more:
    "deflate s = (Z_OK, bytes, s') \<Longrightarrow> deflates deflate s' rest \<Longrightarrow> deflates deflate s (bytes @ rest)"

lemma gzip_loop_deflates: "deflates deflate s bytes \<Longrightarrow> gzip_loop deflate s out = Some (Z_STREAM_END, out @ bytes)"
proof (induction arbitrary: out rule: deflates.induct)
  case (deflates_end s bytes s')
  then show ?case by (subst gzip_loop.simps) simp
next
  case (deflates_more s bytes s' rest)
  show ?case by (subst gzip_loop.simps) (simp add: deflates_more)
qed

text \<open>
  The loop ends, whatever zlib answers, when each round that says \<open>Z_OK\<close> leaves less to do, as it
  does on an input of bounded size; it returns the whole stream when there is one, and nothing
  else.
\<close>

lemma gzip_loop_returns:
  assumes "\<forall>s bytes s'. zl_deflate z s = (Z_OK, bytes, s') \<longrightarrow> left s' < (left s :: nat)"
  shows "\<exists>ret bytes. gzip_loop (zl_deflate z) s out = Some (ret, out @ bytes) \<and>
    (ret = Z_STREAM_END \<longrightarrow> deflates (zl_deflate z) s bytes)"
proof (induction "left s" arbitrary: s out rule: less_induct)
  case less
  obtain ret bytes s' where d: "zl_deflate z s = (ret, bytes, s')" by (cases "zl_deflate z s")
  show ?case
  proof (cases ret)
    case Z_OK
    with d assms have "left s' < left s" by blast
    from less [OF this, of "out @ bytes"] obtain r b where
      "gzip_loop (zl_deflate z) s' (out @ bytes) = Some (r, (out @ bytes) @ b)"
      "r = Z_STREAM_END \<longrightarrow> deflates (zl_deflate z) s' b" by blast
    with d Z_OK show ?thesis
      by (subst gzip_loop.simps) (auto intro!: exI [of _ "bytes @ b"] deflates_more)
  next
    case Z_STREAM_END
    with d show ?thesis by (subst gzip_loop.simps) (auto intro: deflates_end)
  next
    case Z_ERROR
    with d show ?thesis by (subst gzip_loop.simps) auto
  qed
qed

text \<open>So the whole call returns, and what it returns is a complete stream or empty.\<close>

lemma gzip_compress_returns:
  assumes "\<forall>s bytes s'. zl_deflate z s = (Z_OK, bytes, s') \<longrightarrow> left s' < (left s :: nat)"
  shows "\<exists>out. gzip_compress z input level = Some out \<and>
    (out \<noteq> [] \<longrightarrow> (\<exists>s. zl_init z input level = Some s \<and> deflates (zl_deflate z) s out))"
proof (cases "zl_init z input level")
  case None
  then show ?thesis by (simp add: gzip_compress_def)
next
  case (Some s)
  from gzip_loop_returns [OF assms, of s "[]"] obtain ret bytes where
    "gzip_loop (zl_deflate z) s [] = Some (ret, bytes)" "ret = Z_STREAM_END \<longrightarrow> deflates (zl_deflate z) s bytes"
    by auto
  with Some show ?thesis by (auto simp: gzip_compress_def)
qed

text \<open>Two rounds, of a toy \<open>deflate\<close> that puts out one byte at a time.\<close>

definition zlib_example :: "string zlib" where
  "zlib_example = \<lparr>zl_init = (\<lambda>input level. Some input),
     zl_deflate = (\<lambda>s. case s of [] \<Rightarrow> (Z_STREAM_END, [], []) | c # cs \<Rightarrow> (Z_OK, [c], cs))\<rparr>"

lemma gzip_compress_example: "gzip_compress zlib_example ''ab'' 6 = Some ''ab''"
proof -
  let ?d = "zl_deflate zlib_example"
  have d: "?d ''ab'' = (Z_OK, ''a'', ''b'')" "?d ''b'' = (Z_OK, ''b'', [])" "?d [] = (Z_STREAM_END, [], [])"
    by (simp_all add: zlib_example_def)
  have "deflates ?d ''ab'' (''a'' @ ''b'' @ [])"
    by (rule deflates_more [where deflate = ?d, OF d(1) deflates_more [where deflate = ?d, OF d(2)
        deflates_end [where deflate = ?d, OF d(3)]]])
  from gzip_loop_deflates [OF this, of "[]"] show ?thesis
    by (simp add: gzip_compress_def) (simp add: zlib_example_def)
qed

end
