(* ===== verification/Http_Parser_Stream.thy ===== *)
theory Http_Parser_Stream
  imports Http_Parser_Props
begin

text \<open>
  The parser on a buffer that grows: an error stays an error, an incomplete request leaves the
  buffer alone, and what each call reports about itself. With the stability of complete requests
  this makes the requests of a stream independent of how it is cut into reads.
\<close>

section \<open>Errors are stable\<close>

lemma parse_request_line_error_extend:
  "parse_request_line p d r = (False, p', d', r') \<Longrightarrow> ps_state p' = ERROR \<Longrightarrow> ps_state p \<noteq> ERROR \<Longrightarrow>
     parse_request_line p (d @ s) r = (False, p', d' @ s, r')"
  by (auto simp: parse_request_line_def Let_def find_sub_append split: option.splits if_splits
      dest: find_sub_bound)

lemma parse_headers_error_extend:
  "parse_headers p d r = (False, p', d', r') \<Longrightarrow> ps_state p' = ERROR \<Longrightarrow> ps_state p \<noteq> ERROR \<Longrightarrow>
     parse_headers p (d @ s) r = (False, p', d' @ s, r')"
proof (induction p d r rule: parse_headers.induct)
  case (1 p d r)
  show ?case
  proof (cases "find_sub crlf d")
    case None
    with "1.prems" show ?thesis by (simp add: parse_headers.simps [of p d r])
  next
    case (Some eol)
    let ?line = "take eol d"
    from find_sub_bound [OF Some] have eol: "eol + 2 \<le> length d" by simp
    then have line: "take eol (d @ s) = ?line" "drop (eol + 2) (d @ s) = drop (eol + 2) d @ s"
      by simp_all
    show ?thesis
    proof (cases "?line = [] \<or> find_sub '':'' ?line = None")
      case True
      with "1.prems" Some show ?thesis
        unfolding parse_headers.simps [of p "d @ s" r] parse_headers.simps [of p d r]
          find_sub_append [OF Some] Some option.case Let_def line
        by (auto split: prod.splits option.splits if_splits)
    next
      case False
      then obtain c where c: "find_sub '':'' ?line = Some c" and ne: "?line \<noteq> []" by auto
      let ?r = "r\<lparr>rq_headers := (rq_headers r)(take c ?line \<mapsto>
                  dropWhile isspace (drop (c + 1) ?line))\<rparr>"
      from "1.prems" Some ne c have rec: "parse_headers p (drop (eol + 2) d) ?r = (False, p', d', r')"
        by (simp add: parse_headers.simps [of p d r] Let_def)
      note ih = "1.IH" [OF Some refl refl ne c refl refl rec "1.prems"(2,3)]
      show ?thesis
        unfolding parse_headers.simps [of p "d @ s" r] find_sub_append [OF Some] option.case Let_def
          line c if_not_P [OF ne]
        using ih by simp
    qed
  qed
qed

lemma scan_chunks_error_extend: "scan_chunks d t = ScanError m \<Longrightarrow> scan_chunks (d @ s) t = ScanError m"
proof (induction d t rule: scan_chunks.induct)
  case (1 d t)
  show ?case
  proof (cases rule: chunk_header_cases [of d])
    case (bad eol sz)
    note f = find_sub_append [OF bad(1), of s]
    have line: "take eol (d @ s) = take eol d" using find_sub_bound [OF bad(1)] by simp
    show ?thesis
      using "1.prems" scan_step(2) [OF bad, of t] scan_step(2) [OF f, unfolded line, OF bad(2), of t] by simp
  next
    case (chunk eol sz)
    note f = find_sub_append [OF chunk(1), of s]
    have line: "take eol (d @ s) = take eol d" using find_sub_bound [OF chunk(1)] by simp
    have rest: "drop (eol + 2) (d @ s) = drop (eol + 2) d @ s" using find_sub_bound [OF chunk(1)] by simp
    let ?t = "size_t_wrap (t + sz)" and ?n = "size_t_wrap (sz + 2)" and ?d = "drop (eol + 2) d"
    note step = scan_step(4) [OF chunk, of t] scan_step(4) [OF f, unfolded line rest, OF chunk(2,3), of t]
    show ?thesis
    proof (cases "MAX_BODY_BYTES < ?t")
      case True
      with "1.prems" step show ?thesis by simp
    next
      case False
      with "1.prems" have c: "\<not> length ?d < ?n" and rec: "scan_chunks (drop ?n ?d) ?t = ScanError m"
        unfolding step(1) by (auto split: if_splits)
      from "1.IH" [OF chunk(1) chunk(2) [symmetric] refl refl chunk(3) refl False c rec]
      show ?thesis using False c step(2) by simp
    qed
  qed (use "1.prems" in \<open>simp_all add: scan_step split: if_splits\<close>)
qed

lemma parse_body_error_extend:
  "parse_body p d r = Some (ok, p', d', n, r') \<Longrightarrow> ps_state p' = ERROR \<Longrightarrow> ps_state p \<noteq> ERROR \<Longrightarrow>
     \<exists>d''. parse_body p (d @ s) r = Some (False, p', d'', 0, r')"
  by (auto simp: parse_body_def parse_chunked_body_def parser_error_def
      split: if_splits chunk_scan.splits option.splits dest: scan_chunks_error_extend [of _ _ _ s])

lemma parse_body_incomplete:
  "parse_body p d r = Some (False, p', d', n, r') \<Longrightarrow> ps_state p \<noteq> COMPLETE \<Longrightarrow> ps_state p' \<noteq> COMPLETE"
  by (auto simp: parse_body_def parse_chunked_body_def parser_error_def
      split: if_splits chunk_scan.splits option.splits)

lemma parse_step_error_extend:
  assumes "parse_step p buf pos r = Some (ok, p', buf', pos', r')" "ps_state p' = ERROR"
    "ps_state p \<noteq> ERROR" "ps_state p \<noteq> COMPLETE" "pos \<le> length buf"
  shows "\<exists>buf'' pos''. parse_step p (buf @ s) pos r = Some (False, p', buf'', pos'', r')"
proof (cases "ps_state p")
  case REQUEST_LINE
  with assms(1) obtain d' where d: "parse_request_line p (drop pos buf) r = (ok, p', d', r')"
    by (auto simp: parse_step_def split: prod.splits)
  then have "ok = False" using parse_request_line_data [OF d] assms(2) by (cases ok) auto
  with parse_request_line_error_extend [of p "drop pos buf" r p' d' r' s] d assms REQUEST_LINE
  show ?thesis by (simp add: parse_step_def)
next
  case HEADERS
  with assms(1) obtain d' where d: "parse_headers p (drop pos buf) r = (ok, p', d', r')"
    by (auto simp: parse_step_def split: prod.splits)
  then have "ok = False" using parse_headers_data [OF d] assms(2) by (cases ok) auto
  with parse_headers_error_extend [of p "drop pos buf" r p' d' r' s] d assms HEADERS
  show ?thesis by (simp add: parse_step_def)
next
  case BODY
  with assms(1) obtain d' n where d: "parse_body p (drop pos buf) r = Some (ok, p', d', n, r')"
    by (auto simp: parse_step_def split: prod.splits option.splits)
  from parse_body_error_extend [OF d assms(2,3), of s] assms(5) BODY show ?thesis
    by (auto simp: parse_step_def)
qed (use assms in simp_all)

lemma parse_loop_error_extend:
  "parse_loop p buf pos r = Some res \<Longrightarrow> ps_state (pr_parser res) = ERROR \<Longrightarrow> ps_state p \<noteq> ERROR \<Longrightarrow>
     \<exists>res'. parse_loop p (buf @ s) pos r = Some res' \<and> ps_state (pr_parser res') = ERROR"
proof (induction p buf pos r rule: parse_loop.induct)
  case (1 p buf pos r)
  from "1.prems" have go: "\<not> (ps_state p = COMPLETE \<or> ps_state p = ERROR \<or> length buf \<le> pos)"
    by (auto simp: parse_loop.simps [of p buf])
  with "1.prems"(1) obtain ok p' buf' pos' r' where
    st: "parse_step p buf pos r = Some (ok, p', buf', pos', r')"
    by (auto simp: parse_loop.simps [of p buf] split: option.splits)
  show ?case
  proof (cases "ps_state p' = ERROR")
    case True
    from parse_step_error_extend [OF st True, of s] go obtain buf'' pos'' where
      "parse_step p (buf @ s) pos r = Some (False, p', buf'', pos'', r')" by auto
    then show ?thesis using go True by (simp add: parse_loop.simps [of p "buf @ s"])
  next
    case ne: False
    have np: "\<not> (\<not> ok \<and> pos' = pos)"
      using "1.prems" go st ne by (auto simp: parse_loop.simps [of p buf] split: if_splits)
    with "1.prems"(1) go st ne have rec: "parse_loop p' buf' pos' r' = Some res"
      by (auto simp: parse_loop.simps [of p buf])
    have ok: "ok = True"
      using parse_loop_unfinished_step [of p buf pos r p' buf' pos' r'] st go ne np rec "1.prems"(2)
      by auto
    have "parse_step p (buf @ s) pos r = Some (True, p', buf' @ s, pos', r')"
      using parse_step_extend [OF st [unfolded ok]] go by simp
    moreover obtain res' where "parse_loop p' (buf' @ s) pos' r' = Some res'" "ps_state (pr_parser res') = ERROR"
      using "1.IH" [OF go st refl refl refl refl ne np rec "1.prems"(2) ne] by blast
    ultimately show ?thesis using go ne by (simp add: parse_loop.simps [of p "buf @ s"])
  qed
qed

section \<open>What a call reports\<close>

lemma parse_step_buffer:
  assumes "parse_step p buf pos r = Some (ok, p', buf', pos', r')" "pos \<le> length buf" "ps_state p' \<noteq> COMPLETE"
  shows "buf' = buf"
  using assms
  by (auto simp: parse_step_def split: ParsingState.splits prod.splits option.splits dest!: parse_body_data)

lemma parse_loop_report:
  "parse_loop p buf pos r = Some res \<Longrightarrow> pos \<le> length buf \<Longrightarrow>
     length (pr_buffer res) = length buf \<and> pos \<le> pr_consumed res \<and> pr_consumed res \<le> length buf \<and>
     (pr_ok res \<longleftrightarrow> ps_state (pr_parser res) = COMPLETE) \<and> (\<not> pr_ok res \<longrightarrow> pr_buffer res = buf)"
proof (induction p buf pos r rule: parse_loop.induct)
  case (1 p buf pos r)
  show ?case
  proof (cases "ps_state p = COMPLETE \<or> ps_state p = ERROR \<or> length buf \<le> pos")
    case True
    with "1.prems" show ?thesis by (auto simp: parse_loop.simps [of p buf])
  next
    case go: False
    with "1.prems"(1) obtain ok p' buf' pos' r' where
      st: "parse_step p buf pos r = Some (ok, p', buf', pos', r')"
      by (auto simp: parse_loop.simps [of p buf] split: option.splits)
    note b = parse_step_bound [OF st] parse_step_buffer [OF st]
    show ?thesis
    proof (cases "ps_state p' = ERROR \<or> \<not> ok \<and> pos' = pos")
      case True
      moreover have "ps_state p' \<noteq> COMPLETE"
        using True st go
        by (cases "ps_state p") (auto simp: parse_step_def parser_error_def split: prod.splits option.splits
          dest!: parse_request_line_data parse_headers_data parse_body_incomplete)
      ultimately show ?thesis
        using "1.prems" go st b by (auto simp: parse_loop.simps [of p buf] split: if_splits)
    next
      case False
      then have ne: "ps_state p' \<noteq> ERROR" and np: "\<not> (\<not> ok \<and> pos' = pos)" by auto
      with "1.prems"(1) go st have rec: "parse_loop p' buf' pos' r' = Some res"
        by (auto simp: parse_loop.simps [of p buf])
      have "pr_buffer res = buf" if "\<not> pr_ok res"
      proof -
        have "ps_state p' \<noteq> COMPLETE" using rec that by (auto simp: parse_loop.simps [of p'])
        then show ?thesis
          using "1.IH" [OF go st refl refl refl refl ne np rec] b that "1.prems"(2) by auto
      qed
      then show ?thesis
        using "1.IH" [OF go st refl refl refl refl ne np rec] b "1.prems"(2) by auto
    qed
  qed
qed

lemma parse_request_report:
  assumes "parse_request p buf r = Some res" "ps_state p = REQUEST_LINE"
  shows "length (pr_buffer res) = length buf" "pr_consumed res \<le> length buf"
    "pr_ok res \<longleftrightarrow> ps_state (pr_parser res) = COMPLETE" "\<not> pr_ok res \<Longrightarrow> pr_buffer res = buf"
    "pr_ok res \<Longrightarrow> 0 < pr_consumed res"
proof -
  show "length (pr_buffer res) = length buf" "pr_consumed res \<le> length buf"
    "pr_ok res \<longleftrightarrow> ps_state (pr_parser res) = COMPLETE" "\<not> pr_ok res \<Longrightarrow> pr_buffer res = buf"
    using assms parse_loop_report [of p buf 0 r res]
    by (auto simp: parse_request_def parser_error_def split: if_splits)
  show "0 < pr_consumed res" if "pr_ok res"
  proof -
    from assms that parse_request_complete [OF assms(2), of buf r res]
    obtain p1 d1 r1 p2 d2 r2 where
      rl: "parse_request_line p buf r = (True, p1, d1, r1)" and
      hd: "parse_headers p1 d1 r1 = (True, p2, d2, r2)" and
      "length buf - length d2 \<le> pr_consumed res"
      unfolding complete_parse_def by (auto split: if_splits)
    moreover note d1 = parse_request_line_suffix [OF rl]
    moreover have "length d2 < length d1" using parse_headers_suffix [OF hd d1(2,3)] by simp
    ultimately show ?thesis by linarith
  qed
qed

section \<open>A request that has not arrived in full\<close>

text \<open>A scan that ends inside the bytes of a body that decodes has seen the whole of it.\<close>

lemma dechunk_prefix:
  "dechunk (d @ s) = Some (b, n) \<Longrightarrow> scan_chunks d t = ScanComplete \<Longrightarrow> length (d @ s) < 2 ^ 63 \<Longrightarrow>
     dechunk d = Some (b, n)"
proof (induction d t arbitrary: b n rule: scan_chunks.induct)
  case (1 d t)
  show ?case
  proof (cases rule: chunk_header_cases [of d])
    case (last eol)
    note f = find_sub_append [OF last(1), of s]
    have line: "take eol (d @ s) = take eol d" "drop (eol + 2) (d @ s) = drop (eol + 2) d @ s"
      using find_sub_bound [OF last(1)] by simp_all
    from "1.prems"(2) obtain m where m: "skip_trailers (drop (eol + 2) d) = Some m"
      unfolding scan_step(3) [OF last] by (auto split: if_splits)
    show ?thesis
      using "1.prems"(1) dechunk_step(3) [OF f, unfolded line, OF last(2)] dechunk_step(3) [OF last] m
        skip_trailers_extend [OF m, of s] by simp
  next
    case (chunk eol sz)
    note f = find_sub_append [OF chunk(1), of s]
    have line: "take eol (d @ s) = take eol d" "drop (eol + 2) (d @ s) = drop (eol + 2) d @ s"
      using find_sub_bound [OF chunk(1)] by simp_all
    let ?d = "drop (eol + 2) d" and ?t = "size_t_wrap (t + sz)" and ?n = "size_t_wrap (sz + 2)"
    from "1.prems"(1) obtain b1 n1 where
      len: "sz + 2 \<le> length (?d @ s)" and rec: "dechunk (drop (sz + 2) (?d @ s)) = Some (b1, n1)" and
      bn: "b = take sz (?d @ s) @ b1" "n = eol + 2 + (sz + 2) + n1"
      unfolding dechunk_step(4) [OF f, unfolded line, OF chunk(2,3)] by (auto split: if_splits)
    have w: "?n = sz + 2" using len "1.prems"(3) by (simp add: size_t_wrap_def)
    from "1.prems"(2) have sc: "\<not> MAX_BODY_BYTES < ?t" "\<not> length ?d < ?n" "scan_chunks (drop ?n ?d) ?t = ScanComplete"
      unfolding scan_step(4) [OF chunk] by (auto split: if_splits)
    have "dechunk (drop ?n ?d @ s) = Some (b1, n1)" using rec sc(2) w by simp
    from "1.IH" [OF chunk(1) chunk(2) [symmetric] refl refl chunk(3) refl sc(1,2) this sc(3)] "1.prems"(3)
    have "dechunk (drop (sz + 2) ?d) = Some (b1, n1)" using w by simp
    then show ?thesis using dechunk_step(4) [OF chunk] sc(2) w bn by simp
  qed (use "1.prems" in \<open>simp_all add: scan_step split: if_splits\<close>)
qed

lemma parse_body_prefix:
  assumes "parse_body p (d @ s) r = Some (True, p', d', n, r')" "length (d @ s) < 2 ^ 63"
  shows "parse_body p d r \<noteq> None"
proof
  assume none: "parse_body p d r = None"
  then have ch: "ps_is_chunked p" and pc: "parse_chunked_body p d r = None"
    by (auto simp: parse_body_def split: if_splits)
  from pc have sc: "scan_chunks d 0 = ScanComplete"
    by (auto simp: parse_chunked_body_def split: chunk_scan.splits)
  from assms(1) ch have all: "parse_chunked_body p (d @ s) r = Some (True, p', d', n, r')" by (simp add: parse_body_def)
  then have "scan_chunks (d @ s) 0 = ScanComplete"
    by (auto simp: parse_chunked_body_def split: chunk_scan.splits)
  from parse_chunked_body_complete [OF this assms(2), of p r] all obtain b m where "dechunk (d @ s) = Some (b, m)"
    by (auto split: option.splits)
  from dechunk_prefix [OF this sc assms(2)] parse_chunked_body_complete [OF sc, of p r] assms(2) pc show False
    by (auto split: option.splits)
qed

lemma parse_body_request:
  "parse_body p d r = Some (ok, p', d', n, r') \<Longrightarrow> rq_headers r' = rq_headers r \<and> (\<not> ok \<longrightarrow> r' = r)"
  by (auto simp: parse_body_def parse_chunked_body_def split: if_splits chunk_scan.splits option.splits)

lemma parse_loop_body_headers:
  assumes "ps_state p = BODY" "parse_loop p buf pos r = Some res" "pr_ok res"
  shows "rq_headers (pr_request res) = rq_headers r"
proof -
  from parse_loop_advance [OF assms(2,3)] assms(1) obtain p' d' n r' where
    bd: "parse_body p (drop pos buf) r = Some (True, p', d', n, r')" and
    rec: "parse_loop p' (take pos buf @ d') (pos + n) r' = Some res"
    by (auto simp: parse_step_def split: option.splits)
  from rec parse_body_data [OF bd] have "pr_request res = r'" by (auto simp: parse_loop.simps [of p'])
  then show ?thesis using parse_body_request [OF bd] by simp
qed

text \<open>
  The parser on a prefix of what it accepts: it does not leave the defined behaviour, and once it
  waits for the body it has seen the headers.
\<close>

lemma parse_loop_prefix:
  "parse_loop p (buf @ s) pos r = Some R \<Longrightarrow> pr_ok R \<Longrightarrow> length (buf @ s) < 2 ^ 63 \<Longrightarrow>
     \<exists>res. parse_loop p buf pos r = Some res \<and>
       (ps_state (pr_parser res) = BODY \<longrightarrow> rq_headers (pr_request res) = rq_headers (pr_request R))"
proof (induction p buf pos r rule: parse_loop.induct)
  case (1 p buf pos r)
  show ?case
  proof (cases "ps_state p = COMPLETE \<or> ps_state p = ERROR \<or> length buf \<le> pos")
    case True
    with parse_loop_body_headers [OF _ "1.prems"(1,2)] show ?thesis
      by (auto simp: parse_loop.simps [of p buf])
  next
    case go: False
    then have pos: "pos \<le> length buf" by simp
    from parse_loop_advance [OF "1.prems"(1,2)] go obtain P B N Q where
      all: "parse_step p (buf @ s) pos r = Some (True, P, B, N, Q)" by auto
    have "parse_step p buf pos r \<noteq> None"
    proof
      assume none: "parse_step p buf pos r = None"
      then have b: "ps_state p = BODY" "parse_body p (drop pos buf) r = None"
        by (auto simp: parse_step_def split: ParsingState.splits prod.splits option.splits)
      from all b(1) pos obtain d' n where "parse_body p (drop pos buf @ s) r = Some (True, P, d', n, Q)"
        by (auto simp: parse_step_def split: option.splits)
      moreover have "length (drop pos buf @ s) < 2 ^ 63" using "1.prems"(3) by simp
      ultimately show False using parse_body_prefix b(2) by blast
    qed
    then obtain ok p' buf' pos' r' where st: "parse_step p buf pos r = Some (ok, p', buf', pos', r')" by auto
    consider "ps_state p' = ERROR" | "ps_state p' \<noteq> ERROR" "\<not> ok" "pos' = pos"
      | "ps_state p' \<noteq> ERROR" "\<not> ok" "pos' \<noteq> pos" | "ps_state p' \<noteq> ERROR" "ok" by blast
    then show ?thesis
    proof cases
      case 1
      then show ?thesis using st go by (simp add: parse_loop.simps [of p buf])
    next
      case 2
      have "rq_headers r' = rq_headers (pr_request R)" if "ps_state p' = BODY"
      proof -
        have "ps_state p = BODY"
          using st go 2 that by (cases "ps_state p")
            (auto simp: parse_step_def parser_error_def split: prod.splits option.splits
              dest!: parse_request_line_data parse_headers_data)
        then show ?thesis
          using st parse_loop_body_headers [OF _ "1.prems"(1,2)] 2
          by (auto simp: parse_step_def split: option.splits dest!: parse_body_request)
      qed
      then show ?thesis using st go 2 by (simp add: parse_loop.simps [of p buf])
    next
      case 3
      have "parse_step p buf pos r = Some (False, p', buf', pos', r')" using st 3(2) by simp
      from parse_loop_unfinished_step [OF this] 3 go st show ?thesis
        by (auto simp: parse_loop.simps [of p buf])
    next
      case 4
      then have np: "\<not> (\<not> ok \<and> pos' = pos)" by simp
      have ext: "parse_step p (buf @ s) pos r = Some (True, p', buf' @ s, pos', r')"
        using parse_step_extend [OF _ pos] st 4(2) by simp
      then have "parse_loop p' (buf' @ s) pos' r' = Some R"
        using "1.prems"(1) go 4(1) by (simp add: parse_loop.simps [of p "buf @ s"])
      from "1.IH" [OF go st refl refl refl refl 4(1) np this "1.prems"(2)] "1.prems"(3) parse_step_bound [OF st]
      show ?thesis using st go 4 by (simp add: parse_loop.simps [of p buf])
    qed
  qed
qed

section \<open>All the requests of a stream\<close>

lemma parser_init_start [simp]: "ps_state parser_init = REQUEST_LINE"
  by (simp add: parser_init_def)

lemma parse_request_shrinks:
  "parse_request parser_init buf r = Some res \<Longrightarrow> pr_ok res \<Longrightarrow>
     length (pr_buffer res) - pr_consumed res < length buf"
  using parse_request_report [of parser_init buf r res] by simp

text \<open>
  What a stream means: the requests taken off it one after the other, and whether it ends in an
  error. \<^term>\<open>None\<close> where the parser leaves the defined behaviour.
\<close>

function all_requests :: "string \<Rightarrow> (http_request list \<times> bool) defined" where
  "all_requests buf =
     (case parse_request parser_init buf request_init of
        None \<Rightarrow> None
      | Some res \<Rightarrow>
          if ps_state (pr_parser res) = ERROR then Some ([], True)
          else if \<not> pr_ok res then Some ([], False)
          else map_option (apfst ((#) (pr_request res))) (all_requests (drop (pr_consumed res) (pr_buffer res))))"
  by pat_completeness auto
termination
  by (relation "measure length") (auto intro: parse_request_shrinks)

declare all_requests.simps [simp del]

text \<open>
  The limit on the header block is checked against the whole buffer while the blank line has not
  arrived: three sizes at the limit are accepted or refused by where a read ends. No request of the
  stream has a header block of one of them.
\<close>

function limit_clear :: "string \<Rightarrow> bool" where
  "limit_clear buf \<longleftrightarrow>
     header_span buf \<notin> {MAX_HEADER_BYTES - 2..MAX_HEADER_BYTES} \<and>
     (case parse_request parser_init buf request_init of
        None \<Rightarrow> True
      | Some res \<Rightarrow> if pr_ok res then limit_clear (drop (pr_consumed res) (pr_buffer res)) else True)"
  by pat_completeness auto
termination
  by (relation "measure length") (auto intro: parse_request_shrinks)

declare limit_clear.simps [simp del]

lemma header_span_grows:
  assumes "MAX_HEADER_BYTES < header_span buf" "header_span (buf @ s) \<notin> {MAX_HEADER_BYTES - 2..MAX_HEADER_BYTES}"
  shows "MAX_HEADER_BYTES < header_span (buf @ s)"
proof (cases "find_sub (crlf @ crlf) buf")
  case (Some h)
  then show ?thesis using assms(1) header_span_extend [of buf s] by simp
next
  case none: None
  then have len: "MAX_HEADER_BYTES < length buf" using assms(1) by (simp add: header_span_def)
  have "length buf \<le> header_span (buf @ s) + 3"
  proof (cases "find_sub (crlf @ crlf) (buf @ s)")
    case None
    then show ?thesis by (simp add: header_span_def)
  next
    case (Some h)
    have "length buf < h + 4"
    proof (rule ccontr)
      assume "\<not> length buf < h + 4"
      moreover have "starts_with (crlf @ crlf) (drop h (buf @ s))" using find_sub_SomeD [OF Some] by simp
      ultimately have "starts_with (crlf @ crlf) (drop h buf)"
        by (simp add: starts_with_append_iff starts_with_def)
      with find_sub_None [OF none] show False by blast
    qed
    with Some show ?thesis by (simp add: header_span_def)
  qed
  with len assms(2) show ?thesis by auto
qed

lemma parse_request_error_extend:
  assumes "parse_request parser_init buf request_init = Some res" "ps_state (pr_parser res) = ERROR"
    "limit_clear (buf @ s)"
  shows "\<exists>res'. parse_request parser_init (buf @ s) request_init = Some res' \<and> ps_state (pr_parser res') = ERROR"
proof (cases "MAX_HEADER_BYTES < header_span (buf @ s)")
  case True
  then show ?thesis by (simp add: parse_request_def parser_error_def)
next
  case False
  then have "\<not> MAX_HEADER_BYTES < header_span buf"
    using header_span_grows [of buf s] assms(3) by (auto simp: limit_clear.simps [of "buf @ s"])
  with assms(1) have "parse_loop parser_init buf 0 request_init = Some res"
    by (simp add: parse_request_def)
  from parse_loop_error_extend [OF this assms(2), of s] False show ?thesis
    by (simp add: parse_request_def)
qed

lemma limit_clear_Nil: "limit_clear []"
  by (simp add: limit_clear.simps [of "[]"] header_span_def MAX_HEADER_BYTES_def parse_request_def
      parse_loop.simps [of parser_init "[]"])

text \<open>A proper prefix of one request, whose header block keeps away from the limit, is incomplete.\<close>

lemma parse_request_prefix:
  assumes "parse_request parser_init (pre @ suf) request_init = Some R" "pr_ok R"
    "pr_consumed R = length (pre @ suf)" "suf \<noteq> []" "header_span (pre @ suf) < MAX_HEADER_BYTES - 2"
    "length (pre @ suf) < 2 ^ 63"
  shows "\<exists>res. parse_request parser_init pre request_init = Some res \<and> \<not> pr_ok res \<and>
     ps_state (pr_parser res) \<noteq> ERROR \<and>
     (ps_state (pr_parser res) = BODY \<longrightarrow> rq_headers (pr_request res) = rq_headers (pr_request R))"
proof -
  have span: "header_span (pre @ suf) \<notin> {MAX_HEADER_BYTES - 2..MAX_HEADER_BYTES}" using assms(5) by simp
  then have "\<not> MAX_HEADER_BYTES < header_span pre" using header_span_grows [of pre suf] assms(5) by auto
  then have pre: "parse_request parser_init pre request_init = parse_loop parser_init pre 0 request_init"
    by (simp add: parse_request_def)
  have "\<not> MAX_HEADER_BYTES < header_span (pre @ suf)" using assms(5) by simp
  with assms(1) have "parse_loop parser_init (pre @ suf) 0 request_init = Some R"
    by (simp add: parse_request_def)
  from parse_loop_prefix [OF this assms(2,6)] obtain res where
    res: "parse_request parser_init pre request_init = Some res"
    "ps_state (pr_parser res) = BODY \<longrightarrow> rq_headers (pr_request res) = rq_headers (pr_request R)"
    unfolding pre by blast
  have "\<not> pr_ok res"
  proof
    assume "pr_ok res"
    from parse_request_extend [OF parser_init_start res(1) this, of suf] assms(1)
    have "pr_consumed R = pr_consumed res" by auto
    with parse_request_report(2) [OF res(1)] assms(3,4) show False by simp
  qed
  moreover have "ps_state (pr_parser res) \<noteq> ERROR"
  proof
    assume err: "ps_state (pr_parser res) = ERROR"
    have "limit_clear (pre @ suf)"
      using span assms(1-3) limit_clear_Nil parse_request_report(1) [OF assms(1)]
      by (simp add: limit_clear.simps [of "pre @ suf"])
    from parse_request_error_extend [OF res(1) err this] assms(1,2) parse_request_report(3) [OF assms(1)]
    show False by auto
  qed
  ultimately show ?thesis using res by blast
qed

end
