(* ===== verification/Intake.thy ===== *)
theory Intake
  imports Connection_Props Http_Parser_Stream
begin

text \<open>
  The way of the bytes of a client into requests (\<open>net/Connection.cpp\<close>): reads that deliver pieces,
  and attempts to take the next request off the buffer, in any order. What is taken depends on
  the bytes alone.
\<close>

section \<open>Reads and attempts\<close>

datatype intake_step = Arrive string | Attempt

text \<open>
  A read that delivers bytes at a time, or \<open>parse_next\<close> with \<open>consume\<close> behind a complete request. The
  requests taken, the connection, and whether the parser has failed, which ends the connection.
\<close>

fun intake :: "int \<Rightarrow> intake_step list \<Rightarrow> connection \<Rightarrow> (http_request list \<times> connection \<times> bool) defined" where
  "intake now [] c = Some ([], c, False)"
| "intake now (Arrive bs # steps) c = intake now steps (snd (read_data now [Received bs] c))"
| "intake now (Attempt # steps) c =
     (case parse_next c of
        None \<Rightarrow> None
      | Some (complete, n, c') \<Rightarrow>
          if parser_failed c' then Some ([], c', True)
          else if complete
          then map_option (apfst ((#) (cn_current_request c'))) (intake now steps (consume n c'))
          else intake now steps c')"

text \<open>A read delivers at most what it has asked for: the room left in the buffer.\<close>

fun recv_fits :: "int \<Rightarrow> intake_step list \<Rightarrow> connection \<Rightarrow> bool" where
  "recv_fits now [] c \<longleftrightarrow> True"
| "recv_fits now (Arrive bs # steps) c \<longleftrightarrow>
     length (cn_read_buffer c) + length bs \<le> READ_BUFFER_SIZE \<and>
     recv_fits now steps (snd (read_data now [Received bs] c))"
| "recv_fits now (Attempt # steps) c \<longleftrightarrow>
     (case parse_next c of
        None \<Rightarrow> True
      | Some (complete, n, c') \<Rightarrow>
          parser_failed c' \<or> recv_fits now steps (if complete then consume n c' else c'))"

fun arrived :: "intake_step list \<Rightarrow> string" where
  "arrived [] = []"
| "arrived (Arrive bs # steps) = bs @ arrived steps"
| "arrived (Attempt # steps) = arrived steps"

lemma read_arrives:
  assumes "0 \<le> cn_socket_fd c" "\<not> cn_ssl c" "length (cn_read_buffer c) + length bs \<le> READ_BUFFER_SIZE"
  shows "\<exists>t. snd (read_data now [Received bs] c) = c\<lparr>cn_read_buffer := cn_read_buffer c @ bs, cn_last_activity := t\<rparr>"
proof (cases "bs = []")
  case True
  then show ?thesis
    using assms(1,2) by (intro exI [of _ "cn_last_activity c"]) (simp add: read_data_def Let_def)
next
  case False
  with assms(3) have "take (READ_BUFFER_SIZE - length (cn_read_buffer c)) bs = bs"
    "READ_BUFFER_SIZE - length (cn_read_buffer c) \<noteq> 0" by (cases bs; simp)+
  then show ?thesis
    using assms(1,2) False by (intro exI [of _ now]) (simp add: read_data_def Let_def update_activity_def)
qed

text \<open>What the connection is at: an open plain socket, and a parser that has not failed.\<close>

definition taking :: "connection \<Rightarrow> bool" where
  "taking c \<longleftrightarrow> 0 \<le> cn_socket_fd c \<and> \<not> cn_ssl c \<and> \<not> parser_failed c"

lemma parse_next_outcome:
  assumes "parse_next c = Some (complete, n, c')" "taking c"
  shows "(cn_read_buffer c = [] \<and> \<not> complete \<and> n = 0 \<and> c' = c) \<or>
    (\<exists>res. parse_request parser_init (cn_read_buffer c) request_init = Some res \<and>
       n = pr_consumed res \<and> c' = c\<lparr>cn_http_parser := pr_parser res, cn_current_request := pr_request res,
         cn_read_buffer := pr_buffer res\<rparr> \<and>
       (complete \<longleftrightarrow> pr_ok res) \<and> (parser_failed c' \<longleftrightarrow> ps_state (pr_parser res) = ERROR))"
  using assms
  by (auto simp: parse_next_def parser_reset_all Let_def parser_failed_def
      split: if_splits option.splits dest: parse_request_report(3) [OF _ parser_init_start])

lemma all_requests_step:
  assumes "parse_request parser_init buf request_init = Some res"
  shows "ps_state (pr_parser res) = ERROR \<Longrightarrow> all_requests buf = Some ([], True)"
    "\<not> pr_ok res \<Longrightarrow> ps_state (pr_parser res) \<noteq> ERROR \<Longrightarrow> all_requests buf = Some ([], False)"
    "pr_ok res \<Longrightarrow> all_requests buf =
       map_option (apfst ((#) (pr_request res))) (all_requests (drop (pr_consumed res) (pr_buffer res)))"
  using assms parse_request_report(3) [OF assms parser_init_start] by (simp_all add: all_requests.simps [of buf])

lemma all_requests_Nil: "all_requests [] = Some ([], False)"
proof -
  have "parse_request parser_init [] request_init = Some \<lparr>pr_ok = False, pr_consumed = 0,
      pr_parser = parser_init, pr_buffer = [], pr_request = request_init\<rparr>"
    by (simp add: parse_request_def header_span_def parse_loop.simps [of parser_init] MAX_HEADER_BYTES_def)
  then show ?thesis by (rule all_requests_step) simp_all
qed

text \<open>A request that is complete is taken off every longer buffer in the same way.\<close>

lemma complete_on_stream:
  assumes "parse_request parser_init buf request_init = Some res" "pr_ok res"
  shows "all_requests (buf @ s) =
      map_option (apfst ((#) (pr_request res))) (all_requests (drop (pr_consumed res) (pr_buffer res) @ s))"
    "limit_clear (buf @ s) \<Longrightarrow> limit_clear (drop (pr_consumed res) (pr_buffer res) @ s)"
proof -
  note ext = parse_request_extend [OF parser_init_start assms, of s]
  have d: "drop (pr_consumed res) (pr_buffer res @ s) = drop (pr_consumed res) (pr_buffer res) @ s"
    using parse_request_report(1,2) [OF assms(1) parser_init_start] by simp
  show "all_requests (buf @ s) =
      map_option (apfst ((#) (pr_request res))) (all_requests (drop (pr_consumed res) (pr_buffer res) @ s))"
    using all_requests_step(3) [OF ext] assms(2) d by simp
  show "limit_clear (drop (pr_consumed res) (pr_buffer res) @ s)" if "limit_clear (buf @ s)"
    using that assms(2) d by (simp add: limit_clear.simps [of "buf @ s"] ext)
qed

text \<open>What an attempt does to the stream that is still to be taken, with the bytes \<open>later\<close> to arrive.\<close>

lemma attempt_on_stream:
  assumes "parse_next c = Some (complete, n, c1)" "taking c"
    "all_requests (cn_read_buffer c @ later) = Some (all, err)" "limit_clear (cn_read_buffer c @ later)"
  shows "(\<not> complete \<and> taking c1 \<and> cn_read_buffer c1 = cn_read_buffer c) \<or>
    (parser_failed c1 \<and> \<not> complete \<and> all = [] \<and> err) \<or>
    (complete \<and> \<not> parser_failed c1 \<and> taking (consume n c1) \<and>
      (\<exists>all'. all = cn_current_request c1 # all' \<and>
         all_requests (cn_read_buffer (consume n c1) @ later) = Some (all', err)) \<and>
      limit_clear (cn_read_buffer (consume n c1) @ later))"
  using parse_next_outcome [OF assms(1,2)]
proof (elim disjE exE conjE)
  assume "c1 = c" "\<not> complete"
  then show ?thesis using assms(2) by simp
next
  fix res
  assume res: "parse_request parser_init (cn_read_buffer c) request_init = Some res" and n: "n = pr_consumed res"
    and c1: "c1 = c\<lparr>cn_http_parser := pr_parser res, cn_current_request := pr_request res, cn_read_buffer := pr_buffer res\<rparr>"
    and co: "complete \<longleftrightarrow> pr_ok res" and pf: "parser_failed c1 \<longleftrightarrow> ps_state (pr_parser res) = ERROR"
  note report = parse_request_report [OF res parser_init_start]
  consider "parser_failed c1" | "\<not> parser_failed c1" "pr_ok res" | "\<not> parser_failed c1" "\<not> pr_ok res" by blast
  then show ?thesis
  proof cases
    case 1
    with parse_request_error_extend [OF res _ assms(4)] pf obtain res' where
      "parse_request parser_init (cn_read_buffer c @ later) request_init = Some res'"
      "ps_state (pr_parser res') = ERROR" by auto
    from all_requests_step(1) [OF this] assms(3) 1 pf co report(3) show ?thesis by simp
  next
    case 2
    have b: "cn_read_buffer (consume n c1) = drop (pr_consumed res) (pr_buffer res)" "taking (consume n c1)"
      using assms(2) 2(1) c1 n by (auto simp: consume_def taking_def parser_failed_def)
    note stream = complete_on_stream [OF res 2(2), of later]
    have "\<exists>all'. all = cn_current_request c1 # all' \<and> all_requests (cn_read_buffer (consume n c1) @ later) = Some (all', err)"
      using assms(3) stream(1) b(1) c1 by auto
    then show ?thesis using 2 co b stream(2) assms(4) by simp
  next
    case 3
    then show ?thesis using report(4) c1 co assms(2) by (simp add: taking_def)
  qed
qed

lemma intake_stream:
  assumes "intake now steps c = Some (rs, c', failed)" "taking c"
    "all_requests (cn_read_buffer c @ arrived steps) = Some (all, err)"
    "limit_clear (cn_read_buffer c @ arrived steps)" "recv_fits now steps c"
  shows "\<exists>rest. all = rs @ rest \<and> (failed \<longrightarrow> err \<and> rest = []) \<and>
    (\<not> failed \<longrightarrow> taking c' \<and> all_requests (cn_read_buffer c') = Some (rest, err))"
  using assms
proof (induction steps arbitrary: c rs all)
  case Nil
  then show ?case by simp
next
  case (Cons st steps)
  show ?case
  proof (cases st)
    case (Arrive bs)
    from read_arrives [of c bs now] Cons.prems(2,5) Arrive obtain t where
      "snd (read_data now [Received bs] c) = c\<lparr>cn_read_buffer := cn_read_buffer c @ bs, cn_last_activity := t\<rparr>"
      by (auto simp: taking_def)
    then show ?thesis
      using Cons.IH [of "c\<lparr>cn_read_buffer := cn_read_buffer c @ bs, cn_last_activity := t\<rparr>" rs all]
        Cons.prems Arrive by (simp add: taking_def parser_failed_def)
  next
    case Attempt
    with Cons.prems(1) obtain complete n c1 where pn: "parse_next c = Some (complete, n, c1)"
      by (auto split: option.splits)
    from attempt_on_stream [OF pn Cons.prems(2), of "arrived steps"] Cons.prems(3,4) Attempt
    consider "\<not> complete" "taking c1" "cn_read_buffer c1 = cn_read_buffer c"
      | "parser_failed c1" "\<not> complete" "all = []" "err"
      | all' where "complete" "\<not> parser_failed c1" "taking (consume n c1)" "all = cn_current_request c1 # all'"
        "all_requests (cn_read_buffer (consume n c1) @ arrived steps) = Some (all', err)"
        "limit_clear (cn_read_buffer (consume n c1) @ arrived steps)" by auto
    then show ?thesis
    proof cases
      case 1
      then show ?thesis using Cons.IH [of c1 rs all] Cons.prems Attempt pn by (simp add: taking_def)
    next
      case 2
      then show ?thesis using Cons.prems(1) Attempt pn by simp
    next
      case 3
      from Cons.prems(1) Attempt pn 3(1,2) obtain rs' where
        "intake now steps (consume n c1) = Some (rs', c', failed)" "rs = cn_current_request c1 # rs'" by auto
      moreover have "recv_fits now steps (consume n c1)" using Cons.prems(5) Attempt pn 3(1,2) by simp
      ultimately show ?thesis using Cons.IH [OF _ 3(3,5,6)] 3(4) by auto
    qed
  qed
qed

section \<open>Properties\<close>

text \<open>
  C8: the requests taken from a client depend on its bytes and not on how the network cuts them or
  when the server looks, as long as no header block ends within two bytes of the limit on its size
  (\<open>limit_clear\<close>; at the limit they do depend on it, \<open>header_limit_segmentation\<close>): for any order of
  attempts and reads, each of at most the room in the buffer, they are, one by one, those that the
  whole stream holds; what is left to take is what the buffer holds; and a failure of the parser is
  one of the stream. The stream may be of any length, and is one whose parse is defined.
\<close>

theorem segmentation_independent:
  assumes "intake now steps (connection_init t fd) = Some (rs, c', failed)" "0 \<le> fd"
    "recv_fits now steps (connection_init t fd)"
    "all_requests (arrived steps) = Some (all, err)" "limit_clear (arrived steps)"
  shows "\<exists>rest. all = rs @ rest \<and> (failed \<longrightarrow> err \<and> rest = []) \<and>
    (\<not> failed \<longrightarrow> all_requests (cn_read_buffer c') = Some (rest, err))"
proof -
  have "taking (connection_init t fd)"
    using assms(2) by (simp add: taking_def connection_init_def parser_failed_def)
  moreover have "cn_read_buffer (connection_init t fd) = []" by (simp add: connection_init_def)
  ultimately show ?thesis using intake_stream [OF assms(1)] assms(3-5) by fastforce
qed

section \<open>A stream in two pieces\<close>

definition two_pieces :: "intake_step list" where
  "two_pieces = [Arrive ''GE'', Attempt, Arrive (drop 2 get_example), Attempt, Attempt]"

lemma parse_GE:
  "parse_request parser_init ''GE'' request_init = Some \<lparr>pr_ok = False, pr_consumed = 0,
     pr_parser = parser_init, pr_buffer = ''GE'', pr_request = request_init\<rparr>"
  by (simp add: parse_request_def header_span_def parse_loop.simps [of parser_init] MAX_HEADER_BYTES_def
      parse_step_def parse_request_line_def)

lemma get_example_stream:
  "all_requests get_example = Some ([read_head GET ''/a'' ''HTTP/1.1'' []], False)" "limit_clear get_example"
proof -
  have len: "length get_example = 19" by (simp add: get_example_def request_head_def render_headers_def)
  then have rest: "drop 19 get_example = []" by simp
  show "all_requests get_example = Some ([read_head GET ''/a'' ''HTTP/1.1'' []], False)"
    using all_requests_step(3) [OF get_example_parse] all_requests_Nil rest by simp
  have small: "header_span s \<le> length s" for s :: string
    by (auto simp: header_span_def split: option.split dest: find_sub_bound)
  have "limit_clear []"
    using small [of "[]"] by (simp add: limit_clear.simps [of "[]"] parse_request_def header_span_def
        parse_loop.simps [of parser_init] MAX_HEADER_BYTES_def)
  then show "limit_clear get_example"
    using small [of get_example] len rest
    by (simp add: limit_clear.simps [of get_example] get_example_parse MAX_HEADER_BYTES_def)
qed

lemma segmentation_independent_witness:
  "\<exists>c'. intake 0 two_pieces (connection_init 0 5) = Some ([read_head GET ''/a'' ''HTTP/1.1'' []], c', False) \<and>
     all_requests (cn_read_buffer c') = Some ([], False)"
proof -
  let ?g = "read_head GET ''/a'' ''HTTP/1.1'' []"
  have split: "''GE'' @ drop 2 get_example = get_example"
    by (simp add: get_example_def request_head_def render_headers_def)
  have len: "length get_example = 19" by (simp add: get_example_def request_head_def render_headers_def)
  then have ne: "get_example \<noteq> []" by auto
  have "\<exists>c'. intake 0 two_pieces (connection_init 0 5) = Some ([?g], c', False)"
    "recv_fits 0 two_pieces (connection_init 0 5)"
    using split len ne
    by (simp_all add: two_pieces_def read_data_def connection_init_def READ_BUFFER_SIZE_def update_activity_def Let_def
        parse_next_def parser_reset_init parse_GE parser_failed_def get_example_parse consume_def parser_reset_all)
  then obtain c' where c': "intake 0 two_pieces (connection_init 0 5) = Some ([?g], c', False)"
    "recv_fits 0 two_pieces (connection_init 0 5)" by blast
  have "arrived two_pieces = get_example" using split by (simp add: two_pieces_def)
  with segmentation_independent [OF c'(1) _ c'(2), of "[read_head GET ''/a'' ''HTTP/1.1'' []]" False] get_example_stream c'
  show ?thesis by simp
qed

end
