(* ===== verification/Parser_Fuzz.thy ===== *)
theory Parser_Fuzz
  imports Http_Parser_Stream
begin

text \<open>
  The fuzz target of the parser (\<open>tests/fuzz/parser_fuzz_target.h\<close>): the contract its authors wrote
  down as assertions, run in two modes. Here the contract is proved for every input instead of
  sampled. The accessors and \<open>make_owned\<close>, which the target only calls, are in Request_Views.
\<close>

datatype fuzz_end = Returned | Aborted

definition check_after_parse :: "http_parser \<Rightarrow> bool \<Rightarrow> nat \<Rightarrow> nat \<Rightarrow> bool" where
  "check_after_parse p complete consumed buf_size \<longleftrightarrow>
     consumed \<le> buf_size \<and>
     (if complete then ps_state p = COMPLETE \<and> consumed > 0 else ps_state p \<noteq> COMPLETE)"

definition parse_once :: "string \<Rightarrow> fuzz_end defined" where
  "parse_once data =
     (case parse_request parser_init data request_init of
        None \<Rightarrow> None
      | Some res \<Rightarrow>
          Some (if check_after_parse (pr_parser res) (pr_ok res) (pr_consumed res) (length data)
                then Returned else Aborted))"

text \<open>
  The loop of the second mode: \<open>rounds\<close> counts the guard down, \<open>stream\<close> is what is still to be fed.
\<close>

fun incremental_loop :: "nat \<Rightarrow> nat \<Rightarrow> http_parser \<Rightarrow> string \<Rightarrow> string \<Rightarrow> fuzz_end defined" where
  "incremental_loop 0 step p stream buf = Some Returned"
| "incremental_loop (Suc rounds) step p stream buf =
     (if stream = [] then Some Returned
      else
        let buf1 = buf @ take step stream in
        case parse_request (parser_reset p) buf1 request_init of
          None \<Rightarrow> None
        | Some res \<Rightarrow>
            if \<not> check_after_parse (pr_parser res) (pr_ok res) (pr_consumed res) (length buf1) then Some Aborted
            else if ps_state (pr_parser res) = ERROR then Some Returned
            else incremental_loop rounds step (pr_parser res) (drop step stream)
              (if pr_ok res then drop (pr_consumed res) (pr_buffer res) else pr_buffer res))"

definition kGuard :: nat where
  "kGuard = 200000"

definition parse_incremental :: "string \<Rightarrow> fuzz_end defined" where
  "parse_incremental data = incremental_loop kGuard (ord (hd data) + 1) parser_init (tl data) []"

definition fuzz_run :: "string \<Rightarrow> fuzz_end defined" where
  "fuzz_run data =
     (if length data < 2 then Some Returned
      else if odd (ord (hd data)) then parse_incremental data
      else parse_once (tl data))"

section \<open>The contract\<close>

text \<open>
  \<^term>\<open>None\<close> is undefined behaviour, which a chunk size close to \<open>2^64\<close> reaches: a sanitizer would
  report it, not an assertion.
\<close>

lemma check_holds:
  assumes "parse_request p buf r = Some res" "ps_state p = REQUEST_LINE"
  shows "check_after_parse (pr_parser res) (pr_ok res) (pr_consumed res) (length buf)"
  using parse_request_report [OF assms] by (simp add: check_after_parse_def)

lemma incremental_never_aborts: "incremental_loop n step p stream buf \<noteq> Some Aborted"
proof (induction n arbitrary: p stream buf)
  case (Suc n)
  have "ps_state (parser_reset p) = REQUEST_LINE" by (simp add: parser_reset_def)
  from check_holds [OF _ this, of "buf @ take step stream" request_init] Suc show ?case
    by (auto simp: Let_def split: option.split)
qed simp

text \<open>
  C14: no input makes the fuzz target abort: in both modes and for every step of the second, a call
  of the parser consumes no more than it was given, reports completion exactly in the state
  \<open>COMPLETE\<close>, and makes progress when it completes a request.
\<close>

theorem fuzz_contract:
  "fuzz_run data \<noteq> Some Aborted"
  using check_holds [OF _ parser_init_start, of "tl data" request_init] incremental_never_aborts
  by (auto simp: fuzz_run_def parse_once_def parse_incremental_def split: option.split)

text \<open>The guard is enough: with it the loop has fed any stream the corpus holds to its end.\<close>

definition rounds_needed :: "nat \<Rightarrow> string \<Rightarrow> nat" where
  "rounds_needed step stream = (length stream + step - 1) div step"

lemma guard_suffices:
  assumes "0 < step" "rounds_needed step stream \<le> n" "n \<le> m"
  shows "incremental_loop m step p stream buf = incremental_loop n step p stream buf"
  using assms
proof (induction n arbitrary: m p stream buf)
  case 0
  then have "stream = []" by (cases stream) (auto simp: rounds_needed_def div_eq_0_iff)
  then show ?case by (cases m) simp_all
next
  case (Suc n)
  obtain m' where m: "m = Suc m'" "n \<le> m'" using Suc.prems(3) by (cases m) auto
  have less: "rounds_needed step (drop step stream) \<le> n" if "stream \<noteq> []"
  proof (cases "length stream \<le> step")
    case True
    then show ?thesis using Suc.prems(1) by (simp add: rounds_needed_def)
  next
    case False
    let ?k = "length (drop step stream) + step - 1"
    have "rounds_needed step stream = (?k + step) div step"
      unfolding rounds_needed_def using False by (intro arg_cong [of _ _ "\<lambda>k. k div step"]) simp
    also have "\<dots> = Suc (?k div step)" using Suc.prems(1) div_add_self2 [of step ?k] by linarith
    finally have "rounds_needed step stream = Suc (rounds_needed step (drop step stream))"
      by (simp only: rounds_needed_def)
    then show ?thesis using Suc.prems(2) by simp
  qed
  show ?case
  proof (cases "stream = []")
    case False
    note ih = Suc.IH [OF Suc.prems(1) less [OF False] m(2)]
    show ?thesis unfolding m(1) by (simp add: ih Let_def split: option.split)
  qed (simp add: m(1))
qed

end
