(* ===== verification/System.thy ===== *)
theory System
  imports Server_Examples Thread_Pool
begin

text \<open>
  The event loop and the thread pool together: the set of tasks that Server leaves abstract is the
  queue and the workers of Thread_Pool. A request that is dispatched is enqueued under the lock of
  the pool, a worker takes the tasks in their order, and what \<open>run_task\<close> describes happens when it
  returns. \<open>Server::stop\<close> shuts the pool down behind the end of the loop.
\<close>

section \<open>Steps of the whole\<close>

text \<open>\<open>enqueue\<close> for each task a step of the loop has dispatched.\<close>

fun enqueue_all :: "'a list \<Rightarrow> 'a thread_pool \<Rightarrow> 'a thread_pool throws" where
  "enqueue_all [] p = Inr p"
| "enqueue_all (t # ts) p = (case enqueue t p of Inl e \<Rightarrow> Inl e | Inr p' \<Rightarrow> enqueue_all ts p')"

type_synonym system = "server \<times> task thread_pool"

inductive system_step :: "app \<Rightarrow> system \<Rightarrow> system \<Rightarrow> bool" for app where
  system_loop:
    "step app s s' \<Longrightarrow> sv_tasks s' = sv_tasks s @ new \<Longrightarrow> enqueue_all new p = Inr p' \<Longrightarrow>
     system_step app (s, p) (s', p')"
| system_take: "pool_step p (Took t) p' \<Longrightarrow> system_step app (s, p) (s, p')"
| system_return:
    "i < length (tp_workers p) \<Longrightarrow> tp_workers p ! i = Busy t \<Longrightarrow>
     k < length (sv_tasks s) \<Longrightarrow> sv_tasks s ! k = t \<Longrightarrow> run_task env app k s = Some s' \<Longrightarrow>
     system_step app (s, p) (s', task_returns i p)"
| system_shutdown: "\<not> sv_running s \<Longrightarrow> system_step app (s, p) (s, shutdown_begin p)"
| system_exit: "pool_step p Left p' \<Longrightarrow> system_step app (s, p) (s, p')"

definition system_start :: "settings \<Rightarrow> nat \<Rightarrow> system \<Rightarrow> bool" where
  "system_start settings threads x \<longleftrightarrow> starts settings (fst x) \<and> snd x = pool_init threads"

section \<open>The coupling\<close>

lemma run_task_tasks:
  assumes "run_task env app k s = Some s'"
  shows "sv_tasks s' = take k (sv_tasks s) @ drop (Suc k) (sv_tasks s)" "sv_running s' = sv_running s"
  using assms by (auto simp: run_task_def Let_def split: option.splits)

text \<open>A step of the server dispatches at most one task, and only while the loop runs; or it ends one.\<close>

lemma step_tasks:
  assumes "step app s s'"
  shows "(\<exists>new. sv_tasks s' = sv_tasks s @ new \<and> (new \<noteq> [] \<longrightarrow> sv_running s)) \<or>
    (\<exists>k env. k < length (sv_tasks s) \<and> run_task env app k s = Some s')"
proof -
  have d: "book_step s s'" if "book_step (disarm fd s) s'" for fd
    by (rule book_step_after [OF _ that]) simp
  have app: "\<exists>new. sv_tasks s' = sv_tasks s @ new" if "book_step s s'"
    using that by (auto simp: book_step_def)
  show ?thesis
    using assms
  proof cases
    case (step_accept acs env)
    then show ?thesis by (simp add: handle_new_connection_book)
  next
    case (step_readable fd env)
    then show ?thesis using app [OF d [OF handle_client_data_book]] by blast
  next
    case (step_writable fd env)
    then show ?thesis using app [OF d [OF handle_write_ready_book]] by blast
  next
    case (step_hangup fd)
    then have "same_book s s'" by simp
    then show ?thesis using app [OF same_book_step] step_hangup(2) by blast
  next
    case (step_task k env)
    then show ?thesis by blast
  next
    case (step_wakeup env)
    then show ?thesis using app [OF same_book_step] process_completions_book [of s env] by blast
  next
    case step_stop
    then show ?thesis by (simp add: request_stop_def)
  next
    case step_wait_failed
    then show ?thesis by simp
  next
    case (step_tail env)
    then show ?thesis by (simp add: loop_tail_book)
  qed
qed

definition coupled :: "nat \<Rightarrow> system \<Rightarrow> bool" where
  "coupled threads x \<longleftrightarrow> (case x of (s, p) \<Rightarrow>
     mset (sv_tasks s) = mset (tp_tasks p) + running p \<and> pool_ok p \<and>
     length (tp_workers p) = (if threads = 0 then 1 else threads) \<and> (tp_stop p \<longrightarrow> \<not> sv_running s))"

lemma enqueue_all_run:
  "enqueue_all ts p = Inr p' \<Longrightarrow> p' = p\<lparr>tp_tasks := tp_tasks p @ ts\<rparr> \<and> (ts \<noteq> [] \<longrightarrow> \<not> tp_stop p)"
proof (induction ts arbitrary: p)
  case (Cons t ts)
  then obtain q where "enqueue t p = Inr q" "enqueue_all ts q = Inr p'" by (auto split: sum.splits)
  with Cons.IH [of q] enqueueD [of t p q] show ?case by simp
qed simp

lemma enqueue_all_open: "\<not> tp_stop p \<Longrightarrow> \<exists>p'. enqueue_all ts p = Inr p'"
  by (induction ts arbitrary: p) (auto simp: enqueue_def)

lemma pool_step_workers: "pool_step p e p' \<Longrightarrow> length (tp_workers p') = length (tp_workers p)"
  by (induction rule: pool_step.induct)
    (auto dest!: worker_wakesD enqueueD simp: task_returns_def shutdown_begin_def)

lemma step_running: "step app s s' \<Longrightarrow> sv_running s' \<Longrightarrow> sv_running s"
  by (induction rule: step.induct) (auto dest: run_task_tasks simp: request_stop_def)

lemma system_step_coupled:
  assumes "system_step app x y" "coupled threads x"
  shows "coupled threads y"
  using assms
proof (induction rule: system_step.induct)
  case (system_loop s s' new p p')
  note e = enqueue_all_run [OF system_loop(3)]
  from system_loop e step_running [OF system_loop(1)] show ?case
    by (auto simp: coupled_def running_def pool_ok_def)
next
  case (system_take p t p' s)
  note q = pool_step_queue [OF system_take(1)] and r = pool_step_running [OF system_take(1)]
  have "tp_stop p' = tp_stop p" using system_take(1) by (cases rule: pool_step.cases) (auto dest!: worker_wakesD)
  with system_take q r pool_step_ok [OF system_take(1)] pool_step_workers [OF system_take(1)] show ?case
    by (auto simp: coupled_def)
next
  case (system_return i p t k s env s')
  have ps: "pool_step p (Returned t) (task_returns i p)" by (rule pool_return [OF system_return(1,2)])
  note r = pool_step_running [OF ps] and tasks = run_task_tasks [OF system_return(5)]
  have "mset (sv_tasks s) = add_mset t (mset (sv_tasks s'))"
    using id_take_nth_drop [OF system_return(3)] system_return(4) unfolding tasks(1)
    by (metis mset.simps(2) mset_append union_mset_add_mset_right)
  moreover have "tp_tasks (task_returns i p) = tp_tasks p" "tp_stop (task_returns i p) = tp_stop p"
    by (simp_all add: task_returns_def)
  ultimately show ?case
    using system_return(6) r pool_step_ok [OF ps] pool_step_workers [OF ps] tasks(2) by (auto simp: coupled_def)
next
  case (system_shutdown s p)
  then show ?case by (auto simp: coupled_def shutdown_begin_def running_def pool_ok_def)
next
  case (system_exit p p' s)
  note q = pool_step_queue [OF system_exit(1)] and r = pool_step_running [OF system_exit(1)]
  have "tp_stop p' = tp_stop p" using system_exit(1) by (cases rule: pool_step.cases) (auto dest!: worker_wakesD)
  with system_exit q r pool_step_ok [OF system_exit(1)] pool_step_workers [OF system_exit(1)] show ?case
    by (auto simp: coupled_def)
qed

lemma system_start_coupled: "system_start settings threads x \<Longrightarrow> coupled threads x"
  by (cases x) (auto simp: system_start_def starts_def coupled_def pool_init_ok server_init_def, simp_all add: pool_init_def)

lemma system_step_server: "system_step app (s, p) (s', p') \<Longrightarrow> s' = s \<or> step app s s'"
  by (erule system_step.cases) (auto intro: step_task)

text \<open>With its pool the server refines the server, by the projection to it.\<close>

interpretation pooled: refining "starts settings" "step app" server_ok
  "system_start settings threads" "system_step app" "\<lambda>s x. fst x = s \<and> coupled threads x"
  for settings app threads
proof unfold_locales
  show "\<exists>s. starts settings s \<and> fst x = s \<and> coupled threads x" if "system_start settings threads x" for x
    using that system_start_coupled [OF that] by (auto simp: system_start_def)
  show "\<exists>s'. (step app s s' \<or> s' = s) \<and> fst y = s' \<and> coupled threads y"
    if "fst x = s \<and> coupled threads x" "system_step app x y" for s x y
    using that system_step_coupled [OF that(2)] system_step_server [of app "fst x" "snd x" "fst y" "snd y"] by auto
qed

lemma in_running: "x \<in># running p \<longleftrightarrow> Busy x \<in> set (tp_workers p)"
proof -
  have "x \<in># sum_list (map worker_task ws) \<longleftrightarrow> Busy x \<in> set ws" for ws
  proof (induction ws)
    case (Cons w ws)
    then show ?case by (cases w) auto
  qed simp
  then show ?thesis by (simp add: running_def)
qed

lemma running_workers: "size (running p) \<le> length (tp_workers p)"
proof -
  have "size (sum_list (map worker_task ws)) \<le> length ws" for ws :: "'a worker list"
  proof (induction ws)
    case (Cons w ws)
    then show ?case by (cases w) simp_all
  qed simp
  then show ?thesis by (simp add: running_def)
qed

section \<open>Properties\<close>

text \<open>
  C10: the pool implements what the event loop takes for granted. Whatever the workers do, the server
  is in a state it reaches on its own; its tasks are those queued and those held by a worker, with
  no more workers than threads; \<open>enqueue\<close> does not throw in any step of the loop; and when \<open>stop\<close>
  returns from the pool no task is left.
\<close>

theorem pool_implements_tasks:
  assumes "reach (system_start settings threads) (system_step app) (s, p)"
  shows "reachable app settings s \<and> mset (sv_tasks s) = mset (tp_tasks p) + running p \<and>
    size (running p) \<le> (if threads = 0 then 1 else threads) \<and>
    (\<forall>s'. step app s s' \<longrightarrow> (\<exists>p'. system_step app (s, p) (s', p')) \<or>
       (\<exists>k env. run_task env app k s = Some s' \<and> sv_tasks s ! k \<in> set (tp_tasks p))) \<and>
    (joined p \<longrightarrow> sv_tasks s = [])"
proof -
  from pooled.refined [OF assms] have r: "reachable app settings s" and co: "coupled threads (s, p)"
    by (auto simp: reachable_reach)
  from co have c: "mset (sv_tasks s) = mset (tp_tasks p) + running p" "pool_ok p"
    "length (tp_workers p) = (if threads = 0 then 1 else threads)" "tp_stop p \<longrightarrow> \<not> sv_running s"
    by (simp_all add: coupled_def)
  have steps: "(\<exists>p'. system_step app (s, p) (s', p')) \<or>
      (\<exists>k env. run_task env app k s = Some s' \<and> sv_tasks s ! k \<in> set (tp_tasks p))" if st: "step app s s'" for s'
    using step_tasks [OF st]
  proof (elim disjE exE conjE)
    fix new assume new: "sv_tasks s' = sv_tasks s @ new" "new \<noteq> [] \<longrightarrow> sv_running s"
    have "\<exists>p'. enqueue_all new p = Inr p'"
      using new(2) c(4) enqueue_all_open [of p new] by (cases "new = []") auto
    then show ?thesis using system_loop [OF st new(1)] by blast
  next
    fix k env assume k: "k < length (sv_tasks s)" "run_task env app k s = Some s'"
    then have "sv_tasks s ! k \<in># mset (tp_tasks p) + running p" using c(1) nth_mem_mset by metis
    then consider "sv_tasks s ! k \<in> set (tp_tasks p)" | "sv_tasks s ! k \<in># running p" by auto
    then show ?thesis
    proof cases
      case 2
      then obtain i where "i < length (tp_workers p)" "tp_workers p ! i = Busy (sv_tasks s ! k)"
        by (auto simp: in_running in_set_conv_nth)
      from system_return [OF this k(1) refl k(2)] show ?thesis by blast
    qed (use k in blast)
  qed
  have "joined p \<Longrightarrow> sv_tasks s = []" using joined_ok [OF c(2)] c(1) by simp
  then show ?thesis
    using c(1,3) running_workers [of p] steps r by auto
qed

text \<open>A request that has been read and waits in the queue of a pool of two threads.\<close>

lemma pool_implements_tasks_witness:
  "\<exists>s p. reach (system_start capped 2) (system_step app_example) (s, p) \<and> length (sv_tasks s) = 1 \<and> tp_tasks p = sv_tasks s \<and>
     size (running p) \<le> 2"
proof -
  let ?R = "reach (system_start capped 2) (system_step app_example)"
  obtain s where s: "step app_example connected s" "length (sv_tasks s) = 1"
    using dispatched_example by fastforce
  have "?R (started, pool_init 2)"
    by (rule reach_init) (auto simp: system_start_def starts_def started_def)
  moreover have "system_step app_example (started, pool_init 2) (connected, pool_init 2)"
  proof (rule system_loop)
    show "step app_example started connected" unfolding connected_def
      by (rule step_accept) (simp_all add: started_def server_init_def accepted_example_def)
    show "sv_tasks connected = sv_tasks started @ []"
      by (simp add: connected_simps) (simp add: started_def server_init_def)
  qed simp
  ultimately have r: "?R (connected, pool_init 2)" by (rule reach_next)
  have "\<not> tp_stop (pool_init 2 :: task thread_pool)" by (simp add: pool_init_def)
  then obtain p where p: "enqueue_all (sv_tasks s) (pool_init 2) = Inr p" using enqueue_all_open by blast
  have "system_step app_example (connected, pool_init 2) (s, p)"
    by (rule system_loop [OF s(1) _ p]) (simp add: connected_simps)
  then have sr: "?R (s, p)" by (rule reach_next [OF r])
  moreover have "tp_tasks p = sv_tasks s" using enqueue_all_run [OF p] by (simp add: pool_init_def)
  ultimately show ?thesis using s(2) pool_implements_tasks [OF sr] by auto
qed

end
