(* ===== verification/Gateway.thy ===== *)
theory Gateway
  imports Sql Security_Props Worker
begin

text \<open>
  Handlers that speak to the database through the gateway (\<open>platform/DatabaseBackend.h\<close>,
  \<open>platform/DatabaseManager.cpp\<close>). A handler is a tree: a leaf is its outcome, an inner node a
  statement with its parameters that waits for the result. So the text of the statements can be
  looked at without a database, the handler runs on any database, and the statements of several
  handlers can be interleaved. The database is a function on its own state.
\<close>

section \<open>Handlers as trees of statements\<close>

datatype 'a db_prog =
  Done 'a
| Query string "string option list" "sql_result \<Rightarrow> 'a db_prog"
| Exec string "string option list" "sql_result \<Rightarrow> 'a db_prog"

type_synonym db_handler = "http_request \<Rightarrow> http_response \<Rightarrow> handled db_prog"

type_synonym 's database = "'s \<Rightarrow> string \<Rightarrow> string option list \<Rightarrow> sql_result \<times> 's"

text \<open>\<open>query\<close> and \<open>exec\<close> both forward to \<open>run_impl\<close> of the backend.\<close>

primrec run_prog :: "'s database \<Rightarrow> 'a db_prog \<Rightarrow> 's \<Rightarrow> 'a \<times> 's" where
  "run_prog db (Done a) s = (a, s)"
| "run_prog db (Query sql params k) s = (case db s sql params of (r, s') \<Rightarrow> run_prog db (k r) s')"
| "run_prog db (Exec sql params k) s = (case db s sql params of (r, s') \<Rightarrow> run_prog db (k r) s')"

text \<open>The statements of a run in their order, with their results.\<close>

primrec issued :: "'s database \<Rightarrow> 'a db_prog \<Rightarrow> 's \<Rightarrow> (string \<times> string option list \<times> sql_result) list" where
  "issued db (Done a) s = []"
| "issued db (Query sql params k) s =
     (case db s sql params of (r, s') \<Rightarrow> (sql, params, r) # issued db (k r) s')"
| "issued db (Exec sql params k) s =
     (case db s sql params of (r, s') \<Rightarrow> (sql, params, r) # issued db (k r) s')"

text \<open>Every statement the tree can issue, whatever the database answers.\<close>

primrec all_stmts :: "(string \<Rightarrow> string option list \<Rightarrow> bool) \<Rightarrow> 'a db_prog \<Rightarrow> bool" where
  "all_stmts P (Done a) \<longleftrightarrow> True"
| "all_stmts P (Query sql params k) \<longleftrightarrow> P sql params \<and> (\<forall>r. all_stmts P (k r))"
| "all_stmts P (Exec sql params k) \<longleftrightarrow> P sql params \<and> (\<forall>r. all_stmts P (k r))"

lemma all_stmts_issued:
  "all_stmts P p \<Longrightarrow> (sql, params, r) \<in> set (issued db p s) \<Longrightarrow> P sql params"
  by (induction p arbitrary: s) (auto split: prod.splits)

lemma all_stmts_mono: "all_stmts P p \<Longrightarrow> (\<And>sql params. P sql params \<Longrightarrow> Q sql params) \<Longrightarrow> all_stmts Q p"
  by (induction p) auto

lemma no_stmts_state: "all_stmts (\<lambda>_ _. False) p \<Longrightarrow> snd (run_prog db p s) = s"
  by (cases p) simp_all

text \<open>The placeholders of a statement: question marks outside string literals.\<close>

fun holes :: "bool \<Rightarrow> string \<Rightarrow> nat" where
  "holes in_string [] = 0"
| "holes in_string (c # cs) =
     (if c = SQ then holes (\<not> in_string) cs
      else if c = CHR ''?'' \<and> \<not> in_string then Suc (holes in_string cs)
      else holes in_string cs)"

text \<open>Of a statement written in pieces, they are the pieces that the translation numbers.\<close>

lemma holes_code: "SQ \<notin> set s \<Longrightarrow> CHR ''?'' \<notin> set s \<Longrightarrow> holes False (s @ rest) = holes False rest"
  by (induction s) auto

lemma holes_literal: "holes True (double_quotes v @ SQ # rest) = holes False rest"
  by (induction v) auto

lemma holes_render: "pieces_ok ps \<Longrightarrow> holes False (render_portable ps) = count_list ps Hole"
  by (induction ps rule: pieces_ok.induct) (simp_all add: holes_code holes_literal)

text \<open>A statement of a fixed set, with a value for each of its placeholders, none of them null.\<close>

definition typed_stmt :: "string set \<Rightarrow> string \<Rightarrow> string option list \<Rightarrow> bool" where
  "typed_stmt sqls sql params \<longleftrightarrow> sql \<in> sqls \<and> length params = holes False sql \<and> None \<notin> set params"

section \<open>JSON documents\<close>

text \<open>
  What handlers use of \<open>nlohmann::json\<close> beyond the operations on tokens: the test for an object, the
  conversion of any number to \<open>int\<close>, and arrays.
\<close>

record 'j documents =
  dj_lib :: "'j json_lib"
  dj_is_object :: "'j \<Rightarrow> bool"
  dj_get_int :: "'j \<Rightarrow> int option"
  dj_array :: "'j list \<Rightarrow> 'j"

text \<open>\<open>contains\<close> is false on a value that is no object.\<close>

definition contains_key :: "'j documents \<Rightarrow> 'j \<Rightarrow> string \<Rightarrow> bool" where
  "contains_key dj v k \<longleftrightarrow> js_field (dj_lib dj) v k \<noteq> None"

text \<open>\<open>body[k].get<std::string>()\<close> behind \<open>contains(k)\<close>.\<close>

definition member_string :: "'j documents \<Rightarrow> 'j \<Rightarrow> string \<Rightarrow> string throws" where
  "member_string dj v k =
     (case Option.bind (js_field (dj_lib dj) v k) (js_get_string (dj_lib dj)) of
        None \<Rightarrow> Inl ''type must be string''
      | Some s \<Rightarrow> Inr s)"

text \<open>\<open>body.value(k, dflt)\<close> throws on a value that is no object and on a member of another type.\<close>

definition value_string :: "'j documents \<Rightarrow> 'j \<Rightarrow> string \<Rightarrow> string \<Rightarrow> string throws" where
  "value_string dj v k dflt =
     (if \<not> dj_is_object dj v then Inl ''cannot use value()''
      else (case js_field (dj_lib dj) v k of
          None \<Rightarrow> Inr dflt
        | Some m \<Rightarrow> (case js_get_string (dj_lib dj) m of
              None \<Rightarrow> Inl ''type must be string'' | Some s \<Rightarrow> Inr s)))"

definition value_int :: "'j documents \<Rightarrow> 'j \<Rightarrow> string \<Rightarrow> int \<Rightarrow> int throws" where
  "value_int dj v k dflt =
     (if \<not> dj_is_object dj v then Inl ''cannot use value()''
      else (case js_field (dj_lib dj) v k of
          None \<Rightarrow> Inr dflt
        | Some m \<Rightarrow> (case dj_get_int dj m of
              None \<Rightarrow> Inl ''type must be number'' | Some i \<Rightarrow> Inr i)))"

text \<open>\<open>res.status(st).json(v)\<close>: the status is set before the value is dumped, which may throw.\<close>

definition reply :: "'j documents \<Rightarrow> HttpStatus \<Rightarrow> 'j \<Rightarrow> http_response \<Rightarrow> handled" where
  "reply dj st v res =
     (case js_dump (dj_lib dj) v of
        Inl _ \<Rightarrow> Threw (res_status st res)
      | Inr body \<Rightarrow> Handled (res_json body (res_status st res)))"

definition obj :: "'j documents \<Rightarrow> (string \<times> 'j) list \<Rightarrow> 'j" where
  "obj dj = js_object (dj_lib dj)"

definition str :: "'j documents \<Rightarrow> string \<Rightarrow> 'j" where
  "str dj = js_string (dj_lib dj)"

definition num :: "'j documents \<Rightarrow> int \<Rightarrow> 'j" where
  "num dj = js_integer (dj_lib dj)"

definition error_reply :: "'j documents \<Rightarrow> HttpStatus \<Rightarrow> string \<Rightarrow> http_response \<Rightarrow> handled" where
  "error_reply dj st msg res = reply dj st (obj dj [(''error'', str dj msg)]) res"

text \<open>The beginning of every handler with a body: \<open>try { body = req.json(); } catch (...) { 400 }\<close>.\<close>

definition with_body :: "'j documents \<Rightarrow> http_request \<Rightarrow> http_response \<Rightarrow> ('j \<Rightarrow> handled db_prog) \<Rightarrow> handled db_prog" where
  "with_body dj req res k =
     (case request_json (js_parse (dj_lib dj)) req of
        Inl _ \<Rightarrow> Done (error_reply dj BAD_REQUEST ''invalid JSON'' res)
      | Inr body \<Rightarrow> k body)"

text \<open>A \<open>std::exception\<close> in the middle of a handler leaves the response as it is.\<close>

definition get_or_throw :: "'a throws \<Rightarrow> http_response \<Rightarrow> ('a \<Rightarrow> handled db_prog) \<Rightarrow> handled db_prog" where
  "get_or_throw v res k = (case v of Inl _ \<Rightarrow> Done (Threw res) | Inr x \<Rightarrow> k x)"

lemma all_stmts_with_body [intro!]:
  "(\<And>body. all_stmts P (k body)) \<Longrightarrow> all_stmts P (with_body dj req res k)"
  by (simp add: with_body_def split: sum.split)

lemma all_stmts_get_or_throw [intro!]:
  "(\<And>x. all_stmts P (k x)) \<Longrightarrow> all_stmts P (get_or_throw v res k)"
  by (simp add: get_or_throw_def split: sum.split)

section \<open>Serving a request\<close>

text \<open>
  The routes with their handlers at a state of the database: what the worker runs. The effect of a
  request is that of the handler the worker calls.
\<close>

definition at_state :: "'s database \<Rightarrow> 's \<Rightarrow> db_handler \<Rightarrow> handler" where
  "at_state db s h req res = fst (run_prog db (h req res) s)"

definition app_at :: "app \<Rightarrow> db_handler node \<Rightarrow> 's database \<Rightarrow> 's \<Rightarrow> app" where
  "app_at app router db s = app\<lparr>ap_router := map_node (at_state db s) router\<rparr>"

text \<open>The handler the worker calls, with its request and response.\<close>

definition called :: "app \<Rightarrow> db_handler node \<Rightarrow> http_request \<Rightarrow> handled db_prog option" where
  "called app router req =
     (case run_chain (ap_error_json app) (ap_middlewares app) req response_init of
        (proceed, res) \<Rightarrow>
          if \<not> proceed then None
          else
            (case find_route router (rq_method req) (rq_path req) Map.empty of
               Some (Some h, ps) \<Rightarrow> Some (h (req\<lparr>rq_path_params := ps\<rparr>) res)
             | Some (None, ps) \<Rightarrow>
                 if rq_method req \<noteq> HEAD then None
                 else (case find_route router GET (rq_path req) ps of
                     Some (Some h, ps') \<Rightarrow> Some (h (req\<lparr>rq_path_params := ps'\<rparr>) res)
                   | _ \<Rightarrow> None)
             | None \<Rightarrow> None))"

definition serve ::
  "app \<Rightarrow> db_handler node \<Rightarrow> 's database \<Rightarrow> http_request \<Rightarrow> 's \<Rightarrow> http_response option defined \<times> 's" where
  "serve app router db req s =
     (handle_request (app_at app router db s) req,
      case called app router req of None \<Rightarrow> s | Some p \<Rightarrow> snd (run_prog db p s))"

text \<open>The search does not look at the handlers.\<close>

lemma map_node_simps [simp]:
  "handlers (map_node f n) m = map_option f (handlers n m)"
  "children (map_node f n) s = map_option (map_node f) (children n s)"
  "param_child (map_node f n) = map_option (map_node f) (param_child n)"
  "param_name (map_node f n) = param_name n"
  by (cases n; simp)+

lemma match_route_map:
  "match_route (map_node f n) segs m ps = map_option (apfst (map_option f)) (match_route n segs m ps)"
proof (induction segs arbitrary: n ps rule: length_induct)
  case (1 segs)
  show ?case
  proof (cases segs)
    case (Cons s rest)
    have ih: "match_route (map_node f c) rest m ps' = map_option (apfst (map_option f)) (match_route c rest m ps')"
      for c ps' using "1.IH" Cons by simp
    have ih2: "match_route (map_node f c) cs m ps' = map_option (apfst (map_option f)) (match_route c cs m ps')"
      if "rest = x # cs" for c ps' x cs using "1.IH" Cons that by simp
    show ?thesis
      unfolding Cons match_route.simps map_node_simps
      by (auto simp: ih ih2 split: option.split list.split)
  qed simp
qed

lemma find_route_map:
  "find_route (map_node f n) m p ps = map_option (apfst (map_option f)) (find_route n m p ps)"
  by (simp add: find_route_def match_route_map)

end
