(* ===== verification/Notes.thy ===== *)
theory Notes
  imports Application Gateway
begin

text \<open>
  The demo program (\<open>src/main.cpp\<close>): its handlers over the table of notes, with its routes, and the
  exit code of \<open>main\<close>. A result of the database is whatever the driver returned, so the handlers are
  followed for every answer.
\<close>

section \<open>Statements\<close>

definition notes_schema :: string where
  "notes_schema = ''CREATE TABLE IF NOT EXISTS notes (id INTEGER PRIMARY KEY AUTOINCREMENT, '' @
     ''title TEXT NOT NULL, body TEXT NOT NULL DEFAULT '' @ [SQ, SQ] @
     '', created_at DATETIME DEFAULT CURRENT_TIMESTAMP);''"

definition insert_note_sql :: string where
  "insert_note_sql = ''INSERT INTO notes (title, body) VALUES (?, ?);''"

definition list_notes_sql :: string where
  "list_notes_sql = ''SELECT id, title, body, created_at FROM notes ORDER BY id DESC LIMIT 100;''"

definition get_note_sql :: string where
  "get_note_sql = ''SELECT id, title, body, created_at FROM notes WHERE id = ?;''"

section \<open>Handlers\<close>

definition index_handler :: "'j documents \<Rightarrow> db_handler" where
  "index_handler dj req res = Done (reply dj OK
     (obj dj [(''name'', str dj ''Oreshnek''),
        (''message'', str dj ''general-purpose C++20 web framework'')]) res)"

definition health_handler :: "'j documents \<Rightarrow> db_handler" where
  "health_handler dj req res = Done (reply dj OK (obj dj [(''status'', str dj ''ok'')]) res)"

definition create_note :: "'j documents \<Rightarrow> db_handler" where
  "create_note dj req res = with_body dj req res (\<lambda>body.
     if \<not> contains_key dj body ''title'' then Done (error_reply dj BAD_REQUEST ''missing title'' res)
     else get_or_throw (member_string dj body ''title'') res (\<lambda>title.
       get_or_throw (value_string dj body ''body'' []) res (\<lambda>text.
         Exec insert_note_sql [Some title, Some text] (\<lambda>r.
           Done (if \<not> sr_ok r then error_reply dj INTERNAL_SERVER_ERROR ''insert failed'' res
                 else reply dj CREATED (obj dj [(''id'', num dj (sr_last_insert_id r))]) res)))))"

text \<open>One row as the object both readers make of it.\<close>

definition note_json :: "'j documents \<Rightarrow> sql_result \<Rightarrow> nat \<Rightarrow> 'j" where
  "note_json dj r i = obj dj [(''id'', num dj (cell_integer r i 0 0)), (''title'', str dj (cell r i 1)),
     (''body'', str dj (cell r i 2)), (''created_at'', str dj (cell r i 3))]"

definition list_notes :: "'j documents \<Rightarrow> db_handler" where
  "list_notes dj req res = Query list_notes_sql [] (\<lambda>r.
     Done (reply dj OK (obj dj [(''notes'', dj_array dj (map (note_json dj r) [0..<row_count r]))]) res))"

definition get_note :: "'j documents \<Rightarrow> db_handler" where
  "get_note dj req res =
     Query get_note_sql [Some (case param req ''id'' of None \<Rightarrow> [] | Some v \<Rightarrow> v)] (\<lambda>r.
       Done (if \<not> sr_ok r \<or> sr_rows r = [] then error_reply dj NOT_FOUND ''not found'' res
             else reply dj OK (note_json dj r 0) res))"

definition notes_handlers :: "'j documents \<Rightarrow> site_fs \<Rightarrow> string \<Rightarrow> db_handler demo_handlers" where
  "notes_handlers dj fs static_dir = \<lparr>dh_index = index_handler dj, dh_health = health_handler dj,
     dh_create_note = create_note dj, dh_list_notes = list_notes dj, dh_get_note = get_note dj,
     dh_static = (\<lambda>req res. Done (static_file fs static_dir req res))\<rparr>"

section \<open>The program\<close>

definition config_path :: "string list \<Rightarrow> (string \<Rightarrow> string option) \<Rightarrow> string" where
  "config_path args env =
     (case args of
        a # _ \<Rightarrow> a
      | [] \<Rightarrow> (case env ''ORESHNEK_CONFIG'' of None \<Rightarrow> ''oreshnek.json'' | Some p \<Rightarrow> p))"

text \<open>
  What can end \<open>main\<close> before the loop: an exception of the configuration, of the directories or of
  the database, a TLS setup without files, an exception of the context, a socket that cannot be
  opened. The flags are the outcomes of those calls.
\<close>

record startup =
  su_config :: "server_config throws"
  su_directories :: bool
  su_database :: bool
  su_tls_context :: bool
  su_listens :: bool

definition main_exit :: "startup \<Rightarrow> int" where
  "main_exit su =
     (case su_config su of
        Inl _ \<Rightarrow> 1
      | Inr c \<Rightarrow>
          if \<not> su_directories su \<or> \<not> su_database su then 1
          else if tls_misconfigured c then 1
          else if tc_enabled (sc_tls c) \<and> \<not> su_tls_context su then 1
          else if \<not> su_listens su then 1
          else 0)"

text \<open>The schema is the first statement, before any request.\<close>

definition notes_startup :: "unit db_prog" where
  "notes_startup = Exec notes_schema [] (\<lambda>_. Done ())"

section \<open>Properties\<close>

definition notes_statements :: "string set" where
  "notes_statements = {insert_note_sql, list_notes_sql, get_note_sql}"

lemma notes_holes:
  "holes False insert_note_sql = 2" "holes False list_notes_sql = 0" "holes False get_note_sql = 1"
  "holes False notes_schema = 0"
  by (simp_all add: insert_note_sql_def list_notes_sql_def get_note_sql_def notes_schema_def)

lemma notes_typed:
  assumes "h \<in> {dh_index H, dh_health H, dh_create_note H, dh_list_notes H, dh_get_note H, dh_static H}"
    "H = notes_handlers dj fs dir"
  shows "all_stmts (typed_stmt notes_statements) (h req res)"
  using assms
  by (auto simp: notes_handlers_def index_handler_def health_handler_def create_note_def list_notes_def
      get_note_def typed_stmt_def notes_statements_def notes_holes)

end
