(* ===== verification/Users.thy ===== *)
theory Users
  imports Gateway
begin

text \<open>
  The REST example over the table of users (\<open>examples/03_rest_crud_db.cpp\<close>). The handlers take the
  crypto library, the random bytes of a salt and the time as arguments.
\<close>

section \<open>The model of the application\<close>

record user =
  us_id :: int
  us_username :: string
  us_email :: string
  us_password_hash :: string
  us_role :: string

definition user_init :: user where
  "user_init = \<lparr>us_id = 0, us_username = [], us_email = [], us_password_hash = [], us_role = []\<rparr>"

definition users_schema :: string where
  "users_schema = ''CREATE TABLE IF NOT EXISTS users (id INTEGER PRIMARY KEY AUTOINCREMENT, '' @
     ''username TEXT UNIQUE NOT NULL, email TEXT UNIQUE NOT NULL, password_hash TEXT NOT NULL, '' @
     ''role TEXT NOT NULL DEFAULT '' @ [SQ] @ ''user'' @ [SQ] @ '');''"

definition find_user_sql :: string where
  "find_user_sql = ''SELECT id, username, email, password_hash, role FROM users WHERE username = ?;''"

definition insert_user_sql :: string where
  "insert_user_sql = ''INSERT INTO users (username, email, password_hash, role) VALUES (?, ?, ?, ?);''"

definition user_from_row :: "sql_result \<Rightarrow> nat \<Rightarrow> user" where
  "user_from_row r row = \<lparr>us_id = cell_integer r row 0 0, us_username = cell r row 1,
     us_email = cell r row 2, us_password_hash = cell r row 3, us_role = cell r row 4\<rparr>"

definition find_user :: "string \<Rightarrow> (user \<Rightarrow> 'a db_prog) \<Rightarrow> 'a db_prog" where
  "find_user username k = Query find_user_sql [Some username] (\<lambda>r.
     k (if \<not> sr_ok r \<or> sr_rows r = [] then user_init else user_from_row r 0))"

text \<open>\<open>static_cast<int>\<close> of a 64-bit value.\<close>

definition to_int32 :: "int \<Rightarrow> int" where
  "to_int32 i = (i + 2 ^ 31) mod 2 ^ 32 - 2 ^ 31"

lemma to_int32_id: "- (2 ^ 31) \<le> i \<Longrightarrow> i < 2 ^ 31 \<Longrightarrow> to_int32 i = i"
  by (simp add: to_int32_def)

section \<open>Handlers\<close>

definition create_user :: "crypto \<Rightarrow> 'j documents \<Rightarrow> string option \<Rightarrow> db_handler" where
  "create_user cr dj random req res = with_body dj req res (\<lambda>body.
     if \<not> contains_key dj body ''username'' \<or> \<not> contains_key dj body ''email'' \<or>
        \<not> contains_key dj body ''password''
     then Done (error_reply dj BAD_REQUEST ''missing fields'' res)
     else get_or_throw (member_string dj body ''username'') res (\<lambda>username.
       find_user username (\<lambda>u.
         if us_id u \<noteq> 0 then Done (error_reply dj CONFLICT ''user exists'' res)
         else get_or_throw (member_string dj body ''password'') res (\<lambda>password.
           get_or_throw (hashPassword cr random password) res (\<lambda>hash.
             get_or_throw (member_string dj body ''email'') res (\<lambda>email.
               Exec insert_user_sql [Some username, Some email, Some hash, Some ''user''] (\<lambda>r.
                 Done (reply dj (if sr_ok r then CREATED else INTERNAL_SERVER_ERROR)
                   (obj dj [(''created'', js_bool (dj_lib dj) (sr_ok r))]) res))))))))"

definition token_reply ::
  "crypto \<Rightarrow> 'j documents \<Rightarrow> int \<Rightarrow> string \<Rightarrow> user \<Rightarrow> http_response \<Rightarrow> handled" where
  "token_reply cr dj now secret u res =
     (case generateJWT cr (dj_lib dj) now (to_int32 (us_id u)) (us_username u) secret of
        Inl _ \<Rightarrow> Threw (res_status OK res)
      | Inr token \<Rightarrow> reply dj OK (obj dj [(''token'', str dj token)]) res)"

definition login_user :: "crypto \<Rightarrow> 'j documents \<Rightarrow> int \<Rightarrow> string \<Rightarrow> db_handler" where
  "login_user cr dj now secret req res = with_body dj req res (\<lambda>body.
     get_or_throw (value_string dj body ''username'' []) res (\<lambda>username.
       find_user username (\<lambda>u.
         if us_id u = 0 then Done (error_reply dj UNAUTHORIZED ''invalid credentials'' res)
         else get_or_throw (value_string dj body ''password'' []) res (\<lambda>password.
           Done (if \<not> verifyPassword cr password (us_password_hash u)
                 then error_reply dj UNAUTHORIZED ''invalid credentials'' res
                 else token_reply cr dj now secret u res)))))"

definition fetch_user :: "'j documents \<Rightarrow> db_handler" where
  "fetch_user dj req res =
     find_user (case param req ''name'' of None \<Rightarrow> [] | Some v \<Rightarrow> v) (\<lambda>u.
       Done (if us_id u = 0 then error_reply dj NOT_FOUND ''not found'' res
             else reply dj OK (obj dj [(''id'', num dj (us_id u)), (''username'', str dj (us_username u)),
               (''email'', str dj (us_email u)), (''role'', str dj (us_role u))]) res))"

definition users_routes :: "crypto \<Rightarrow> 'j documents \<Rightarrow> string option \<Rightarrow> int \<Rightarrow> string \<Rightarrow> (HttpMethod \<times> string \<times> db_handler) list" where
  "users_routes cr dj random now secret = [(POST, ''/api/users'', create_user cr dj random),
     (POST, ''/api/login'', login_user cr dj now secret), (GET, ''/api/users/:name'', fetch_user dj)]"

section \<open>Statements\<close>

lemma users_holes: "holes False find_user_sql = 1" "holes False insert_user_sql = 4" "holes False users_schema = 0"
  by (simp_all add: find_user_sql_def insert_user_sql_def users_schema_def)

lemma all_stmts_find_user:
  "P find_user_sql [Some username] \<Longrightarrow> (\<And>u. all_stmts P (k u)) \<Longrightarrow> all_stmts P (find_user username k)"
  by (simp add: find_user_def)

lemma users_typed:
  "(m, p, h) \<in> set (users_routes cr dj random now secret) \<Longrightarrow>
     all_stmts (typed_stmt {find_user_sql, insert_user_sql}) (h req res)"
  by (auto simp: users_routes_def create_user_def login_user_def fetch_user_def typed_stmt_def users_holes
      intro!: all_stmts_find_user)

end
