(* ===== verification/Video_Platform.thy ===== *)
theory Video_Platform
  imports Users Application
begin

text \<open>
  The video platform (\<open>examples/06_video_platform.cpp\<close>): an application with its own models, its
  repository over the gateway, and an API in which publishing needs a token. Users are those of
  Users.
\<close>

section \<open>Models and repository\<close>

record video =
  vd_id :: int
  vd_title :: string
  vd_category :: string
  vd_filename :: string
  vd_user_id :: int
  vd_views :: int
  vd_created_at :: string

definition video_init :: video where
  "video_init = \<lparr>vd_id = 0, vd_title = [], vd_category = [], vd_filename = [], vd_user_id = 0,
     vd_views = 0, vd_created_at = []\<rparr>"

definition viewers_schema :: string where
  "viewers_schema = ''CREATE TABLE IF NOT EXISTS users (id INTEGER PRIMARY KEY AUTOINCREMENT, '' @
     ''username TEXT UNIQUE NOT NULL, email TEXT UNIQUE NOT NULL, password_hash TEXT NOT NULL, '' @
     ''role TEXT NOT NULL DEFAULT '' @ [SQ] @ ''viewer'' @ [SQ] @ '');''"

definition videos_schema :: string where
  "videos_schema = ''CREATE TABLE IF NOT EXISTS videos (id INTEGER PRIMARY KEY AUTOINCREMENT, '' @
     ''title TEXT NOT NULL, category TEXT, filename TEXT NOT NULL, user_id INTEGER NOT NULL, '' @
     ''views INTEGER NOT NULL DEFAULT 0, created_at DATETIME DEFAULT CURRENT_TIMESTAMP, '' @
     ''FOREIGN KEY(user_id) REFERENCES users(id));''"

definition insert_video_sql :: string where
  "insert_video_sql = ''INSERT INTO videos (title, category, filename, user_id) VALUES (?, ?, ?, ?);''"

definition count_view_sql :: string where
  "count_view_sql = ''UPDATE videos SET views = views + 1 WHERE id = ?;''"

definition migrate :: "unit db_prog" where
  "migrate = Exec viewers_schema [] (\<lambda>_. Exec videos_schema [] (\<lambda>_. Done ()))"

definition user_by_name :: "string \<Rightarrow> (user option \<Rightarrow> 'a db_prog) \<Rightarrow> 'a db_prog" where
  "user_by_name username k = Query find_user_sql [Some username] (\<lambda>r.
     k (if \<not> sr_ok r \<or> sr_rows r = [] then None else Some (user_from_row r 0)))"

definition repo_create_user :: "user \<Rightarrow> (bool \<Rightarrow> 'a db_prog) \<Rightarrow> 'a db_prog" where
  "repo_create_user u k = Exec insert_user_sql
     [Some (us_username u), Some (us_email u), Some (us_password_hash u), Some (us_role u)] (\<lambda>r. k (sr_ok r))"

definition create_video :: "video \<Rightarrow> (bool \<Rightarrow> 'a db_prog) \<Rightarrow> 'a db_prog" where
  "create_video v k = Exec insert_video_sql
     [Some (vd_title v), Some (vd_category v), Some (vd_filename v), Some (dec_int (vd_user_id v))] (\<lambda>r. k (sr_ok r))"

definition videos_sql :: "string \<Rightarrow> string" where
  "videos_sql category =
     ''SELECT id, title, category, filename, user_id, views, created_at FROM videos'' @
     (if category \<noteq> [] then '' WHERE category = ?'' else []) @ '' ORDER BY created_at DESC LIMIT ?;''"

definition video_from_row :: "sql_result \<Rightarrow> nat \<Rightarrow> video" where
  "video_from_row r i = \<lparr>vd_id = cell_integer r i 0 0, vd_title = cell r i 1, vd_category = cell r i 2,
     vd_filename = cell r i 3, vd_user_id = cell_integer r i 4 0, vd_views = cell_integer r i 5 0,
     vd_created_at = cell r i 6\<rparr>"

definition videos :: "int \<Rightarrow> string \<Rightarrow> (video list \<Rightarrow> 'a db_prog) \<Rightarrow> 'a db_prog" where
  "videos limit category k =
     Query (videos_sql category)
       ((if category \<noteq> [] then [Some category] else []) @ [Some (dec_int limit)])
       (\<lambda>r. k (map (video_from_row r) [0..<row_count r]))"

definition increment_views :: "int \<Rightarrow> 'a db_prog \<Rightarrow> 'a db_prog" where
  "increment_views video_id k = Exec count_view_sql [Some (dec_int video_id)] (\<lambda>_. k)"

section \<open>Handlers\<close>

definition created_reply :: "'j documents \<Rightarrow> bool \<Rightarrow> http_response \<Rightarrow> handled" where
  "created_reply dj ok res = reply dj (if ok then CREATED else INTERNAL_SERVER_ERROR)
     (obj dj [(''created'', js_bool (dj_lib dj) ok)]) res"

definition register_user :: "crypto \<Rightarrow> 'j documents \<Rightarrow> string option \<Rightarrow> db_handler" where
  "register_user cr dj random req res = with_body dj req res (\<lambda>body.
     if \<not> contains_key dj body ''username'' \<or> \<not> contains_key dj body ''email'' \<or>
        \<not> contains_key dj body ''password''
     then Done (error_reply dj BAD_REQUEST ''missing fields'' res)
     else get_or_throw (member_string dj body ''username'') res (\<lambda>username.
       get_or_throw (member_string dj body ''email'') res (\<lambda>email.
       get_or_throw (value_string dj body ''role'' ''viewer'') res (\<lambda>role.
       get_or_throw (member_string dj body ''password'') res (\<lambda>password.
       get_or_throw (hashPassword cr random password) res (\<lambda>hash.
         user_by_name username (\<lambda>found.
           if found \<noteq> None then Done (error_reply dj CONFLICT ''user exists'' res)
           else repo_create_user
             (user_init\<lparr>us_username := username, us_email := email, us_password_hash := hash, us_role := role\<rparr>)
             (\<lambda>ok. Done (created_reply dj ok res)))))))))"

definition login :: "crypto \<Rightarrow> 'j documents \<Rightarrow> int \<Rightarrow> string \<Rightarrow> db_handler" where
  "login cr dj now secret req res = with_body dj req res (\<lambda>body.
     get_or_throw (value_string dj body ''username'' []) res (\<lambda>username.
       user_by_name username (\<lambda>found.
         (case found of
            None \<Rightarrow> Done (error_reply dj UNAUTHORIZED ''invalid credentials'' res)
          | Some u \<Rightarrow> get_or_throw (value_string dj body ''password'' []) res (\<lambda>password.
              Done (if \<not> verifyPassword cr password (us_password_hash u)
                    then error_reply dj UNAUTHORIZED ''invalid credentials'' res
                    else token_reply cr dj now secret u res))))))"

definition upload :: "'j documents \<Rightarrow> db_handler" where
  "upload dj req res = with_body dj req res (\<lambda>body.
     if \<not> contains_key dj body ''title'' \<or> \<not> contains_key dj body ''filename''
     then Done (error_reply dj BAD_REQUEST ''missing fields'' res)
     else get_or_throw (member_string dj body ''title'') res (\<lambda>title.
       get_or_throw (member_string dj body ''filename'') res (\<lambda>filename.
       get_or_throw (value_string dj body ''category'' []) res (\<lambda>category.
       get_or_throw (value_int dj body ''user_id'' 0) res (\<lambda>user_id.
         create_video (video_init\<lparr>vd_title := title, vd_filename := filename, vd_category := category,
             vd_user_id := user_id\<rparr>)
           (\<lambda>ok. Done (created_reply dj ok res)))))))"

definition video_json :: "'j documents \<Rightarrow> video \<Rightarrow> 'j" where
  "video_json dj v = obj dj [(''id'', num dj (vd_id v)), (''title'', str dj (vd_title v)),
     (''category'', str dj (vd_category v)), (''filename'', str dj (vd_filename v)),
     (''views'', num dj (vd_views v)), (''created_at'', str dj (vd_created_at v))]"

definition list_limit :: "http_request \<Rightarrow> int" where
  "list_limit req = (case query req ''limit'' of
     None \<Rightarrow> 20 | Some l \<Rightarrow> (case stoi l of None \<Rightarrow> 20 | Some n \<Rightarrow> n))"

definition list_videos :: "'j documents \<Rightarrow> db_handler" where
  "list_videos dj req res =
     videos (list_limit req) (case query req ''category'' of None \<Rightarrow> [] | Some c \<Rightarrow> c) (\<lambda>vs.
       Done (reply dj OK (obj dj [(''videos'', dj_array dj (map (video_json dj) vs))]) res))"

definition watch :: "'j documents \<Rightarrow> db_handler" where
  "watch dj req res =
     (let id = (case stoll (case param req ''id'' of None \<Rightarrow> ''0'' | Some v \<Rightarrow> v) of None \<Rightarrow> 0 | Some n \<Rightarrow> n)
      in increment_views id (Done (reply dj OK (obj dj [(''watched'', num dj id)]) res)))"

section \<open>The server\<close>

definition video_secret :: string where
  "video_secret = ''example-secret-change-me''"

definition video_middlewares :: "crypto \<Rightarrow> 'j documents \<Rightarrow> int \<Rightarrow> middleware list" where
  "video_middlewares cr dj now = [require_jwt cr (dj_lib dj) now video_secret [''/api/upload'']]"

definition video_routes ::
  "crypto \<Rightarrow> 'j documents \<Rightarrow> string option \<Rightarrow> int \<Rightarrow> (HttpMethod \<times> string \<times> db_handler) list" where
  "video_routes cr dj random now = [(POST, ''/api/register'', register_user cr dj random),
     (POST, ''/api/login'', login cr dj now video_secret), (POST, ''/api/upload'', upload dj),
     (GET, ''/api/videos'', list_videos dj), (GET, ''/api/videos/:id/watch'', watch dj)]"

definition video_router ::
  "crypto \<Rightarrow> 'j documents \<Rightarrow> string option \<Rightarrow> int \<Rightarrow> db_handler node throws" where
  "video_router cr dj random now = register (video_routes cr dj random now) empty_node"

section \<open>Statements\<close>

definition video_statements :: "string set" where
  "video_statements = {find_user_sql, insert_user_sql, insert_video_sql, videos_sql [],
     videos_sql ''c'', count_view_sql}"

lemma video_holes:
  "holes False insert_video_sql = 4" "holes False count_view_sql = 1" "holes False viewers_schema = 0"
  "holes False videos_schema = 0" "holes False (videos_sql c) = (if c = [] then 1 else 2)"
  by (simp_all add: insert_video_sql_def count_view_sql_def viewers_schema_def videos_schema_def videos_sql_def)

lemma videos_sql_two: "c \<noteq> [] \<Longrightarrow> videos_sql c = videos_sql ''c''"
  by (simp add: videos_sql_def)

lemma videos_typed:
  "(\<And>vs. all_stmts (typed_stmt video_statements) (k vs)) \<Longrightarrow>
     all_stmts (typed_stmt video_statements) (videos limit category k)"
  using videos_sql_two [of category]
  by (cases "category = []") (simp_all add: videos_def typed_stmt_def video_statements_def video_holes)

lemmas typed_other = repo_create_user_def create_video_def increment_views_def typed_stmt_def
  video_statements_def users_holes video_holes

lemma video_typed:
  assumes "(m, p, h) \<in> set (video_routes cr dj random now)"
  shows "all_stmts (typed_stmt video_statements) (h req res)"
proof -
  have "all_stmts (typed_stmt video_statements) (register_user cr dj random req res)"
    by (auto simp: register_user_def user_by_name_def typed_other)
  moreover have "all_stmts (typed_stmt video_statements) (login cr dj now video_secret req res)"
    by (auto simp: login_def user_by_name_def typed_other split: option.split)
  moreover have "all_stmts (typed_stmt video_statements) (upload dj req res)"
    by (auto simp: upload_def typed_other)
  moreover have "all_stmts (typed_stmt video_statements) (list_videos dj req res)"
    by (simp add: list_videos_def videos_typed)
  moreover have "all_stmts (typed_stmt video_statements) (watch dj req res)"
    by (simp add: watch_def Let_def typed_other)
  ultimately show ?thesis using assms by (auto simp: video_routes_def)
qed

end
