(* ===== verification/Gateway_Props.thy ===== *)
theory Gateway_Props
  imports Notes Video_Platform
begin

text \<open>
  What the applications over the gateway promise: the statements they issue, who reaches the
  protected handler, and the way of a user from the registration to a token.
\<close>

section \<open>The routes of the video platform\<close>

lemma video_router_trie:
  "video_router cr dj random now = Inr
     (Node
       [''api'' \<mapsto> Node
          [''register'' \<mapsto> Node Map.empty None [] [POST \<mapsto> register_user cr dj random],
           ''login'' \<mapsto> Node Map.empty None [] [POST \<mapsto> login cr dj now video_secret],
           ''upload'' \<mapsto> Node Map.empty None [] [POST \<mapsto> upload dj],
           ''videos'' \<mapsto> Node Map.empty
              (Some (Node [''watch'' \<mapsto> Node Map.empty None [] [GET \<mapsto> watch dj]] None [] Map.empty)) ''id''
              [GET \<mapsto> list_videos dj]] None [] Map.empty]
       None [] Map.empty)"
  by (simp add: video_router_def video_routes_def add_route_def split_path_pieces path_segments_def
      empty_node_def is_param_def Let_def)

text \<open>What a match through a node without a parameter, a leaf, or a node with one parameter means.\<close>

lemma match_child:
  "match_route (Node ch None pn Map.empty) segs m ps = Some (Some h, ps') \<Longrightarrow>
     \<exists>s rest c. segs = s # rest \<and> ch s = Some c \<and> match_route c rest m ps = Some (Some h, ps')"
  by (cases segs) (auto simp: match_route.simps split: option.splits)

lemma match_leaf: "match_route (Node Map.empty None pn hs) segs m ps = Some (Some h, ps') \<Longrightarrow> segs = [] \<and> hs m = Some h"
  by (cases segs) (auto simp: match_route.simps)

lemma match_param:
  "match_route (Node Map.empty (Some c) pn hs) segs m ps = Some (Some h, ps') \<Longrightarrow>
     segs = [] \<and> hs m = Some h \<or> (\<exists>s rest ps1. segs = s # rest \<and> match_route c rest m ps1 = Some (Some h, ps'))"
  by (cases segs) (auto simp: match_route.simps split: option.splits)

text \<open>Which handler a path leads to: the publishing one only by its own method and segments.\<close>

lemma video_find:
  assumes "video_router cr dj random now = Inr router" "find_route router m path ps = Some (Some h, ps')"
  shows "m = POST \<and> path_segments path = [''api'', ''upload''] \<and> starts_with ''/'' path \<or>
    h \<in> {register_user cr dj random, login cr dj now video_secret, list_videos dj, watch dj}"
proof -
  have path: "path \<noteq> []" "hd path = CHR ''/''" using assms(2) by (auto simp: find_route_segments split: if_splits)
  then have start: "starts_with ''/'' path" by (cases path) auto
  obtain segs where segs: "path_segments path = segs" by simp
  have "match_route router segs m ps = Some (Some h, ps')" using assms(2) path by (simp add: find_route_segments segs)
  then obtain s rest c where one: "segs = s # rest" "s = ''api''" and c: "match_route c rest m ps = Some (Some h, ps')"
    and node: "c = Node [''register'' \<mapsto> Node Map.empty None [] [POST \<mapsto> register_user cr dj random],
        ''login'' \<mapsto> Node Map.empty None [] [POST \<mapsto> login cr dj now video_secret],
        ''upload'' \<mapsto> Node Map.empty None [] [POST \<mapsto> upload dj],
        ''videos'' \<mapsto> Node Map.empty
          (Some (Node [''watch'' \<mapsto> Node Map.empty None [] [GET \<mapsto> watch dj]] None [] Map.empty)) ''id''
          [GET \<mapsto> list_videos dj]] None [] Map.empty"
    using assms(1) unfolding video_router_trie by (auto dest!: match_child split: if_splits)
  from match_child [OF c [unfolded node]] have "m = POST \<and> segs = [''api'', ''upload''] \<or>
      h \<in> {register_user cr dj random, login cr dj now video_secret, list_videos dj, watch dj}"
    using one by (auto dest!: match_leaf match_param match_child split: if_splits)
  then show ?thesis using start segs by blast
qed

lemma video_upload_route:
  assumes "video_router cr dj random now = Inr router" "path_segments path = [''api'', ''upload'']" "starts_with ''/'' path"
  shows "find_route router POST path Map.empty = Some (Some (upload dj), Map.empty)"
proof -
  have "path \<noteq> []" "hd path = CHR ''/''" using assms(3) by (cases path; simp)+
  then show ?thesis using assms(1,2) by (auto simp: video_router_trie find_route_segments)
qed

text \<open>The other handlers do not publish.\<close>

lemma others_do_not_publish:
  assumes "h \<in> {register_user cr dj random, login cr dj now video_secret, list_videos dj, watch dj}"
  shows "all_stmts (\<lambda>sql params. sql \<noteq> insert_video_sql) (h req res)"
proof -
  let ?P = "\<lambda>sql (params :: string option list). sql \<noteq> insert_video_sql"
  have ne: "find_user_sql \<noteq> insert_video_sql" "insert_user_sql \<noteq> insert_video_sql" "count_view_sql \<noteq> insert_video_sql"
    "videos_sql c \<noteq> insert_video_sql" for c
    by (simp_all add: find_user_sql_def insert_user_sql_def insert_video_sql_def count_view_sql_def videos_sql_def)
  have "all_stmts ?P (register_user cr dj random req res)"
    by (auto simp: register_user_def user_by_name_def repo_create_user_def ne)
  moreover have "all_stmts ?P (login cr dj now video_secret req res)"
    by (auto simp: login_def user_by_name_def ne split: option.split)
  moreover have "all_stmts ?P (list_videos dj req res)" by (simp add: list_videos_def videos_def ne)
  moreover have "all_stmts ?P (watch dj req res)" by (simp add: watch_def increment_views_def Let_def ne)
  ultimately show ?thesis using assms by auto
qed

lemma video_chain:
  "run_chain ej (video_middlewares cr dj now) req res =
     (if starts_with ''/api/upload'' (rq_path req) \<and>
         \<not> (bearer_token req \<noteq> [] \<and> validateJWT cr (dj_lib dj) now (bearer_token req) video_secret)
      then (False, snd (run_chain ej (video_middlewares cr dj now) req res)) else (True, res))"
  by (auto simp: video_middlewares_def require_jwt_def starts_with_def Let_def split: sum.split)

lemma called_cases:
  assumes "called app router req = Some p"
  obtains h ps ps' ps0 res where "p = h (req\<lparr>rq_path_params := ps\<rparr>) res"
    "find_route router (rq_method req) (rq_path req) Map.empty = Some (Some h, ps) \<or>
     find_route router GET (rq_path req) ps0 = Some (Some h, ps')"
  using assms by (auto simp: called_def split: prod.splits if_splits option.splits)

text \<open>
  C11: publishing, for requests of any method and path. A request is handled by \<open>upload\<close> if its
  method is \<open>POST\<close>, its path starts with a slash and has the segments of the route, and, when the
  path also begins literally with \<open>/api/upload\<close>, its token is valid; for no other request does a
  handler insert a video. While the token is not valid under that prefix, nothing reaches the
  database. A path such as \<open>//api/upload\<close> has the segments but not the prefix, so it publishes
  without a token.
\<close>

theorem upload_reached:
  fixes req :: http_request
  assumes "video_router cr dj random now = Inr router" "ap_middlewares app = video_middlewares cr dj now"
  defines "allowed \<equiv> bearer_token req \<noteq> [] \<and> validateJWT cr (dj_lib dj) now (bearer_token req) video_secret"
  defines "reaches \<equiv> rq_method req = POST \<and> starts_with ''/'' (rq_path req) \<and>
    path_segments (rq_path req) = [''api'', ''upload''] \<and> (starts_with ''/api/upload'' (rq_path req) \<longrightarrow> allowed)"
  shows "(reaches \<longrightarrow> called app router req = Some (upload dj (req\<lparr>rq_path_params := Map.empty\<rparr>) response_init)) \<and>
    (\<not> reaches \<longrightarrow> (\<forall>p sql params r. called app router req = Some p \<longrightarrow> (sql, params, r) \<in> set (issued db p s) \<longrightarrow>
       sql \<noteq> insert_video_sql)) \<and>
    (starts_with ''/api/upload'' (rq_path req) \<and> \<not> allowed \<longrightarrow>
       called app router req = None \<and> snd (serve app router db req s) = s)"
proof -
  let ?stopped = "starts_with ''/api/upload'' (rq_path req) \<and> \<not> allowed"
  have chain: "run_chain (ap_error_json app) (ap_middlewares app) req response_init =
      (if ?stopped then (False, snd (run_chain (ap_error_json app) (ap_middlewares app) req response_init))
       else (True, response_init))"
    unfolding assms(2) allowed_def by (rule video_chain)
  have stopped: "called app router req = None" if ?stopped
    unfolding called_def by (subst chain) (simp add: that)
  have "called app router req = Some (upload dj (req\<lparr>rq_path_params := Map.empty\<rparr>) response_init)" if reaches
  proof -
    have r: "rq_method req = POST" "\<not> ?stopped" using that by (auto simp: reaches_def)
    from that have "find_route router POST (rq_path req) Map.empty = Some (Some (upload dj), Map.empty)"
      by (intro video_upload_route [OF assms(1)]) (simp_all add: reaches_def)
    then show ?thesis unfolding called_def by (subst chain) (use r in auto)
  qed
  moreover have "sql \<noteq> insert_video_sql"
    if no: "\<not> reaches" and run: "called app router req = Some p" and stmt: "(sql, params, r) \<in> set (issued db p s)"
    for p sql params r
  proof -
    obtain h ps ps' ps0 res where h: "p = h (req\<lparr>rq_path_params := ps\<rparr>) res"
      "find_route router (rq_method req) (rq_path req) Map.empty = Some (Some h, ps) \<or>
       find_route router GET (rq_path req) ps0 = Some (Some h, ps')" by (rule called_cases [OF run])
    have "\<not> ?stopped" using stopped run by auto
    with no h(2) video_find [OF assms(1)]
    have "h \<in> {register_user cr dj random, login cr dj now video_secret, list_videos dj, watch dj}"
      unfolding reaches_def by blast
    from all_stmts_issued [OF others_do_not_publish [OF this] stmt [unfolded h(1)]] show ?thesis .
  qed
  ultimately show ?thesis using stopped by (auto simp: serve_def)
qed

section \<open>From the registration to a token\<close>

text \<open>
  What a table of users does for one user who is not in it: the lookup finds nothing, the insertion
  succeeds, and the lookup behind it returns the row.
\<close>

definition keeps_user :: "'s database \<Rightarrow> 's \<Rightarrow> user \<Rightarrow> 's \<Rightarrow> 's \<Rightarrow> bool" where
  "keeps_user db s u s1 s2 \<longleftrightarrow>
     (\<exists>r0 s0 r1 r2. db s find_user_sql [Some (us_username u)] = (r0, s0) \<and> sr_rows r0 = [] \<and>
        db s0 insert_user_sql
          [Some (us_username u), Some (us_email u), Some (us_password_hash u), Some (us_role u)] = (r1, s1) \<and>
        sr_ok r1 \<and>
        db s1 find_user_sql [Some (us_username u)] = (r2, s2) \<and> sr_ok r2 \<and>
        sr_rows r2 = [[Some (dec_int (us_id u)), Some (us_username u), Some (us_email u),
          Some (us_password_hash u), Some (us_role u)]])"

lemma stoll_dec_int: "0 \<le> i \<Longrightarrow> i < 2 ^ 63 \<Longrightarrow> stoll (dec_int i) = Some i"
  using stoll_dec [of "nat i"] by (simp add: dec_int_def)

lemma user_from_row_kept:
  "sr_rows r = [[Some (dec_int (us_id u)), Some (us_username u), Some (us_email u),
     Some (us_password_hash u), Some (us_role u)]] \<Longrightarrow> 0 \<le> us_id u \<Longrightarrow> us_id u < 2 ^ 63 \<Longrightarrow>
     user_from_row r 0 = u"
  by (simp add: user_from_row_def cell_def cell_integer_def is_null_def stoll_dec_int)

lemma keeps_user_lookup:
  "keeps_user db s u s1 s2 \<Longrightarrow> 0 \<le> us_id u \<Longrightarrow> us_id u < 2 ^ 63 \<Longrightarrow>
     run_prog db (user_by_name (us_username u) k) s1 = run_prog db (k (Some u)) s2"
  by (auto simp: keeps_user_def user_by_name_def user_from_row_kept)

lemma keeps_user_insert:
  assumes "keeps_user db s u s1 s2" "us_username v = us_username u" "us_email v = us_email u"
    "us_password_hash v = us_password_hash u" "us_role v = us_role u"
  shows "run_prog db (user_by_name (us_username u) (\<lambda>found. if found \<noteq> None then k1 else repo_create_user v k2)) s =
    run_prog db (k2 True) s1"
  using assms by (auto simp: keeps_user_def user_by_name_def repo_create_user_def)

text \<open>What a client sends: a document with the fields of a registration or of a login.\<close>

definition registers :: "'j documents \<Rightarrow> http_request \<Rightarrow> user \<Rightarrow> string \<Rightarrow> bool" where
  "registers dj req u password \<longleftrightarrow>
     (\<exists>body. request_json (js_parse (dj_lib dj)) req = Inr body \<and>
        contains_key dj body ''username'' \<and> contains_key dj body ''email'' \<and> contains_key dj body ''password'' \<and>
        member_string dj body ''username'' = Inr (us_username u) \<and> member_string dj body ''email'' = Inr (us_email u) \<and>
        value_string dj body ''role'' ''viewer'' = Inr (us_role u) \<and> member_string dj body ''password'' = Inr password)"

definition logs_in :: "'j documents \<Rightarrow> http_request \<Rightarrow> string \<Rightarrow> string \<Rightarrow> bool" where
  "logs_in dj req username password \<longleftrightarrow>
     (\<exists>body. request_json (js_parse (dj_lib dj)) req = Inr body \<and>
        value_string dj body ''username'' [] = Inr username \<and> value_string dj body ''password'' [] = Inr password)"

lemma register_kept:
  assumes "keeps_user db s u s1 s2" "registers dj req u password"
    "hashPassword cr random password = Inr (us_password_hash u)"
  shows "run_prog db (register_user cr dj random req res) s = (created_reply dj True res, s1)"
proof -
  from assms(2) obtain body where b: "request_json (js_parse (dj_lib dj)) req = Inr body"
    "contains_key dj body ''username''" "contains_key dj body ''email''" "contains_key dj body ''password''"
    "member_string dj body ''username'' = Inr (us_username u)" "member_string dj body ''email'' = Inr (us_email u)"
    "value_string dj body ''role'' ''viewer'' = Inr (us_role u)" "member_string dj body ''password'' = Inr password"
    by (auto simp: registers_def)
  show ?thesis
    by (simp add: register_user_def with_body_def get_or_throw_def b assms(3)
        keeps_user_insert [OF assms(1)] del: not_None_eq)
qed

lemma login_kept:
  assumes "keeps_user db s u s1 s2" "0 \<le> us_id u" "us_id u < 2 ^ 63" "logs_in dj req (us_username u) password"
  shows "run_prog db (login cr dj now secret req res) s1 =
    (if verifyPassword cr password (us_password_hash u) then token_reply cr dj now secret u res
     else error_reply dj UNAUTHORIZED ''invalid credentials'' res, s2)"
proof -
  from assms(4) obtain body where "request_json (js_parse (dj_lib dj)) req = Inr body"
    "value_string dj body ''username'' [] = Inr (us_username u)" "value_string dj body ''password'' [] = Inr password"
    by (auto simp: logs_in_def)
  then show ?thesis
    by (simp add: login_def with_body_def get_or_throw_def keeps_user_lookup [OF assms(1-3)])
qed

text \<open>
  C13: a user who registers while the name is free is created; behind it, a login with the same
  password, and with no password of another derived key, is answered with a token; and with that
  token the protected path is open until it expires.
\<close>

theorem register_login_publish:
  assumes "crypto_ok cr" "json_ok (dj_lib dj)" "\<forall>d k. cr_hmac cr d k \<noteq> []" "length salt = kSaltLength"
    "hashPassword cr (Some salt) password = Inr (us_password_hash u)"
    "keeps_user db s u s1 s2" "0 \<le> us_id u" "us_id u < 2 ^ 31"
    "registers dj req1 u password" "logs_in dj req2 (us_username u) password'"
    "generateJWT cr (dj_lib dj) now (us_id u) (us_username u) video_secret = Inr token"
    "bearer_token req3 = token" "now' < now + 24 * 3600"
  shows "run_prog db (register_user cr dj (Some salt) req1 res1) s = (created_reply dj True res1, s1) \<and>
    run_prog db (login cr dj now video_secret req2 res2) s1 =
      (if cr_pbkdf2 cr password' salt (int kPbkdf2Iterations) kHashLength =
          cr_pbkdf2 cr password salt (int kPbkdf2Iterations) kHashLength
       then reply dj OK (obj dj [(''token'', str dj token)]) res2
       else error_reply dj UNAUTHORIZED ''invalid credentials'' res2, s2) \<and>
    run_chain error_json (video_middlewares cr dj now') req3 res3 = (True, res3)"
proof (intro conjI)
  show "run_prog db (register_user cr dj (Some salt) req1 res1) s = (created_reply dj True res1, s1)"
    by (rule register_kept [OF assms(6,9,5)])
next
  have "to_int32 (us_id u) = us_id u" using assms(7,8) by (intro to_int32_id) simp_all
  then have "token_reply cr dj now video_secret u res2 = reply dj OK (obj dj [(''token'', str dj token)]) res2"
    using assms(11) by (simp add: token_reply_def)
  then show "run_prog db (login cr dj now video_secret req2 res2) s1 =
      (if cr_pbkdf2 cr password' salt (int kPbkdf2Iterations) kHashLength =
          cr_pbkdf2 cr password salt (int kPbkdf2Iterations) kHashLength
       then reply dj OK (obj dj [(''token'', str dj token)]) res2
       else error_reply dj UNAUTHORIZED ''invalid credentials'' res2, s2)"
    using login_kept [OF assms(6,7) _ assms(10), of cr now video_secret res2] assms(8)
      verify_hash [OF assms(1,5,4), of password'] by simp
next
  have "validateJWT cr (dj_lib dj) now' token video_secret"
    using validate_issued [OF assms(2,11) refl assms(3,13)] by simp
  moreover from this have "token \<noteq> []" by (auto simp: validateJWT_def split_getline.simps)
  ultimately show "run_chain error_json (video_middlewares cr dj now') req3 res3 = (True, res3)"
    using assms(12) by (simp add: video_chain)
qed

section \<open>The statements of the three programs\<close>

text \<open>
  C12: whatever a request holds and whatever the database answers, a handler of the three programs
  issues only the statements that stand in the program: no text of a request becomes part of a
  statement, every statement has a value for each of its placeholders.
\<close>

theorem statements_typed:
  assumes "(m, path, h) \<in> set (demo_routes (notes_handlers dj fs dir)) \<union>
      set (users_routes cr dj random now secret) \<union> set (video_routes cr dj random now)"
    "(sql, params, r) \<in> set (issued db (h req res) s)"
  shows "sql \<in> notes_statements \<union> {find_user_sql, insert_user_sql} \<union> video_statements \<and>
    length params = holes False sql \<and> None \<notin> set params"
proof -
  let ?P = "typed_stmt (notes_statements \<union> {find_user_sql, insert_user_sql} \<union> video_statements)"
  have "all_stmts ?P (h req res)"
    using assms(1) notes_typed [of h _ dj fs dir req res] users_typed [of m path h cr dj random now secret req res]
      video_typed [of m path h cr dj random now req res]
    by (auto simp: demo_routes_def typed_stmt_def intro: all_stmts_mono)
  from all_stmts_issued [OF this assms(2)] show ?thesis by (simp add: typed_stmt_def)
qed

section \<open>Witnesses\<close>

text \<open>A table of users as a database, with the identifier 7 for the user inserted.\<close>

definition users_db :: "string option list list database" where
  "users_db rows sql params =
     (if sql = find_user_sql
      then (result_init\<lparr>sr_ok := True, sr_rows := filter (\<lambda>row. row ! 1 = params ! 0) rows\<rparr>, rows)
      else if sql = insert_user_sql
      then (result_init\<lparr>sr_ok := True, sr_last_insert_id := 7\<rparr>, rows @ [Some ''7'' # params])
      else (result_init, rows))"

definition sample_crypto :: crypto where
  "sample_crypto = toy_crypto\<lparr>cr_hmac := cr_hmac keyed_crypto\<rparr>"

definition registration :: toy_json where
  "registration = JObj [(''username'', JStr ''u''), (''email'', JStr ''e''), (''password'', JStr ''pw'')]"

definition sample_lib :: "toy_json json_lib" where
  "sample_lib = toy_json_lib\<lparr>js_parse := (\<lambda>s. if s = ''R'' then Inr registration else js_parse toy_json_lib s)\<rparr>"

definition sample_docs :: "toy_json documents" where
  "sample_docs = \<lparr>dj_lib = sample_lib, dj_is_object = (\<lambda>v. case v of JObj _ \<Rightarrow> True | _ \<Rightarrow> False),
     dj_get_int = (\<lambda>v. case v of JInt i \<Rightarrow> Some i | _ \<Rightarrow> None), dj_array = (\<lambda>vs. JNull)\<rparr>"

definition sample_hash :: string where
  "sample_hash = ''pbkdf2_sha256$'' @ dec kPbkdf2Iterations @ ''$'' @ base64url_encode ''0123456789abcdef'' @ ''$'' @
     base64url_encode (take kHashLength (''pw'' @ ''0123456789abcdef'' @ replicate kHashLength CHR ''0''))"

definition sample_user :: user where
  "sample_user = \<lparr>us_id = 7, us_username = ''u'', us_email = ''e'', us_password_hash = sample_hash, us_role = ''viewer''\<rparr>"

lemma sample_user_kept:
  "keeps_user users_db [] sample_user [Some ''7'' # map Some [''u'', ''e'', sample_hash, ''viewer'']]
     [Some ''7'' # map Some [''u'', ''e'', sample_hash, ''viewer'']]"
proof -
  have "insert_user_sql \<noteq> find_user_sql" by (simp add: insert_user_sql_def find_user_sql_def)
  moreover have "dec_int 7 = ''7''" by (simp add: dec_int_def dec.simps digit_char_def digit_chars)
  ultimately show ?thesis by (simp add: keeps_user_def users_db_def sample_user_def)
qed

lemma sample_requests:
  assumes "rq_body req = ''R''"
  shows "registers sample_docs req sample_user ''pw''" "logs_in sample_docs req ''u'' ''pw''"
  using assms
  by (simp_all add: registers_def logs_in_def request_json_def sample_docs_def sample_lib_def registration_def
      contains_key_def member_string_def value_string_def toy_json_lib_def sample_user_def)

lemma register_login_publish_witness:
  "\<exists>token. generateJWT sample_crypto (dj_lib sample_docs) 0 7 ''u'' video_secret = Inr token \<and>
     fst (run_chain (\<lambda>m. m) (video_middlewares sample_crypto sample_docs 100)
       (request_init\<lparr>rq_path := ''/api/upload'', rq_headers := [''Authorization'' \<mapsto> ''Bearer '' @ token]\<rparr>) response_init)"
proof -
  have "toy_dump toy_header = ''H''" "toy_dump toy_payload = ''P''"
    by (simp_all add: toy_header_def toy_payload_def)
  then obtain token where t: "generateJWT sample_crypto (dj_lib sample_docs) 0 (us_id sample_user)
      (us_username sample_user) video_secret = Inr token"
    by (simp add: generateJWT_def sample_docs_def sample_lib_def sample_user_def toy_json_lib_def toy_header_def
        toy_payload_def Let_def)
  let ?r = "request_init\<lparr>rq_body := ''R''\<rparr>"
  let ?u = "request_init\<lparr>rq_path := ''/api/upload'', rq_headers := [''Authorization'' \<mapsto> ''Bearer '' @ token]\<rparr>"
  have c: "crypto_ok sample_crypto" using toy_crypto_ok by (simp add: crypto_ok_def sample_crypto_def)
  have j: "json_ok (dj_lib sample_docs)"
    using toy_json_ok by (auto simp: json_ok_def sample_docs_def sample_lib_def toy_json_lib_def toy_header_def
        toy_payload_def split: if_splits)
  have m: "\<forall>d k. cr_hmac sample_crypto d k \<noteq> []" by (simp add: sample_crypto_def keyed_crypto_def)
  have h: "hashPassword sample_crypto (Some ''0123456789abcdef'') ''pw'' = Inr (us_password_hash sample_user)"
    by (simp add: hashPassword_def sample_crypto_def toy_crypto_def sample_user_def sample_hash_def
        kHashLength_def numeral_eq_Suc)
  have l: "length ''0123456789abcdef'' = kSaltLength" by (simp add: kSaltLength_def)
  have i: "0 \<le> us_id sample_user" "us_id sample_user < 2 ^ 31" by (simp_all add: sample_user_def)
  have r: "registers sample_docs ?r sample_user ''pw''" "logs_in sample_docs ?r (us_username sample_user) ''pw''"
    using sample_requests [of ?r] by (simp_all add: sample_user_def)
  have b: "bearer_token ?u = token" by (simp add: bearer_token_def header_def)
  have n: "(100 :: int) < 0 + 24 * 3600" by simp
  from register_login_publish [OF c j m l h sample_user_kept i r t b n] t
  show ?thesis by (simp add: sample_user_def)
qed

definition video_app :: app where
  "video_app = \<lparr>ap_router = empty_node, ap_middlewares = video_middlewares sample_crypto sample_docs 0,
     ap_compression = None, ap_compressors = gzip_example, ap_files = fs_example, ap_error_json = (\<lambda>m. m)\<rparr>"

text \<open>A request without any header.\<close>

definition bare_upload :: http_request where
  "bare_upload = request_init\<lparr>rq_method := POST, rq_path := ''//api/upload''\<rparr>"

definition closed_upload :: http_request where
  "closed_upload = request_init\<lparr>rq_method := POST, rq_path := ''/api/upload''\<rparr>"

text \<open>Neither request has a token: the one publishes, the other is stopped.\<close>

lemma upload_reached_witness:
  "\<exists>router. video_router sample_crypto sample_docs None 0 = Inr router \<and>
     called video_app router bare_upload = Some (upload sample_docs bare_upload response_init) \<and>
     called video_app router closed_upload = None \<and>
     snd (serve video_app router users_db closed_upload []) = []"
proof -
  obtain router where r: "video_router sample_crypto sample_docs None 0 = Inr router" by (simp add: video_router_trie)
  have m: "ap_middlewares video_app = video_middlewares sample_crypto sample_docs 0" by (simp add: video_app_def)
  have p: "path_segments (rq_path bare_upload) = [''api'', ''upload'']"
    by (simp add: bare_upload_def path_segments_def)
  have same: "bare_upload\<lparr>rq_path_params := Map.empty\<rparr> = bare_upload" by (simp add: bare_upload_def request_init_def)
  have meth: "rq_method bare_upload = POST" by (simp add: bare_upload_def)
  have s: "starts_with ''/'' (rq_path bare_upload)" "\<not> starts_with ''/api/upload'' (rq_path bare_upload)"
    by (simp_all add: bare_upload_def)
  have c: "starts_with ''/api/upload'' (rq_path closed_upload)" "bearer_token closed_upload = []"
    by (simp_all add: closed_upload_def bearer_token_def header_def request_init_def)
  show ?thesis
    using r upload_reached [OF r m, of bare_upload users_db "[]"] upload_reached [OF r m, of closed_upload users_db "[]"]
      meth p s c unfolding same by auto
qed

lemma statements_typed_witness:
  "length [Some ''u''] = holes False find_user_sql"
proof -
  have m: "(POST, ''/api/login'', login_user sample_crypto sample_docs 0 ''secret'') \<in>
      set (users_routes sample_crypto sample_docs None 0 ''secret'')" by (simp add: users_routes_def)
  have "request_json (js_parse (dj_lib sample_docs)) (request_init\<lparr>rq_body := ''R''\<rparr>) = Inr registration"
    by (simp add: request_json_def sample_docs_def sample_lib_def)
  moreover have "value_string sample_docs registration ''username'' [] = Inr ''u''"
    by (simp add: value_string_def sample_docs_def sample_lib_def toy_json_lib_def registration_def)
  ultimately have "(find_user_sql, [Some ''u''], result_init\<lparr>sr_ok := True\<rparr>) \<in>
      set (issued users_db (login_user sample_crypto sample_docs 0 ''secret'' (request_init\<lparr>rq_body := ''R''\<rparr>) response_init) [])"
    by (simp add: login_user_def with_body_def get_or_throw_def find_user_def users_db_def result_init_def)
  from statements_typed [OF UnI1 [OF UnI2 [OF m]] this] show ?thesis by blast
qed

end
