(* ===== verification/Small_Examples.thy ===== *)
theory Small_Examples
  imports Application Gateway Lifecycle
begin

text \<open>
  The examples without a database: JSON and parameters (\<open>examples/01_hello_json.cpp\<close>), a chain of
  middlewares (\<open>examples/02_middleware.cpp\<close>), files (\<open>examples/04_static_files.cpp\<close>), the server
  made from the configuration (\<open>examples/05_production.cpp\<close>), and the \<open>main\<close> they share
  (\<open>examples/common.h\<close>).
\<close>

section \<open>JSON and parameters\<close>

definition hello_root :: handler where
  "hello_root req res = Handled (res_text (''Hello from Oreshnek'' @ [LF]) (res_status OK res))"

definition hello_name :: "'j documents \<Rightarrow> handler" where
  "hello_name dj req res =
     (let name = (case param req ''name'' of None \<Rightarrow> ''world'' | Some n \<Rightarrow> n);
          loud = (query req ''loud'' = Some ''1'')
      in reply dj OK (obj dj [(''greeting'', str dj (if loud then ''HELLO'' else ''hello'')), (''name'', str dj name)]) res)"

text \<open>The \<open>try\<close> covers the parsing and the dump; the error document may itself fail to dump.\<close>

definition echo_body :: "'j documents \<Rightarrow> handler" where
  "echo_body dj req res =
     (let failed = (\<lambda>res. error_reply dj BAD_REQUEST ''invalid JSON body'' res) in
      case request_json (js_parse (dj_lib dj)) req of
        Inl _ \<Rightarrow> failed (res_status OK res)
      | Inr v \<Rightarrow> (case reply dj OK v res of Threw res' \<Rightarrow> failed res' | out \<Rightarrow> out))"

definition hello_routes :: "'j documents \<Rightarrow> (HttpMethod \<times> string \<times> handler) list" where
  "hello_routes dj = [(GET, ''/'', hello_root), (GET, ''/hello/:name'', hello_name dj), (POST, ''/echo'', echo_body dj)]"

section \<open>A chain of middlewares\<close>

definition kSecret :: string where
  "kSecret = ''example-secret-change-me''"

definition reject_banned :: middleware where
  "reject_banned req res =
     (if header req ''X-Banned'' \<noteq> None then Stop (res_text ''banned'' (res_status FORBIDDEN res))
      else Proceed res)"

definition example_middlewares :: "crypto \<Rightarrow> 'j documents \<Rightarrow> int \<Rightarrow> middleware list" where
  "example_middlewares cr dj now =
     [request_logger,
      cors ''*'' ''GET, POST, PUT, DELETE, PATCH, OPTIONS'' ''Content-Type, Authorization'',
      reject_banned, require_jwt cr (dj_lib dj) now kSecret [''/admin'']]"

definition token_handler :: "crypto \<Rightarrow> 'j documents \<Rightarrow> int \<Rightarrow> handler" where
  "token_handler cr dj now req res =
     (case generateJWT cr (dj_lib dj) now 1 ''demo'' kSecret of
        Inl _ \<Rightarrow> Threw res
      | Inr token \<Rightarrow> reply dj OK (obj dj [(''token'', str dj token)]) res)"

definition public_handler :: handler where
  "public_handler req res = Handled (res_text (''anyone can read this'' @ [LF]) (res_status OK res))"

definition admin_handler :: handler where
  "admin_handler req res = Handled (res_text (''secret admin area'' @ [LF]) (res_status OK res))"

definition guarded_routes :: "crypto \<Rightarrow> 'j documents \<Rightarrow> int \<Rightarrow> (HttpMethod \<times> string \<times> handler) list" where
  "guarded_routes cr dj now =
     [(GET, ''/token'', token_handler cr dj now), (GET, ''/public'', public_handler), (GET, ''/admin'', admin_handler)]"

section \<open>Files\<close>

definition content_type_for :: "string \<Rightarrow> string" where
  "content_type_for path =
     (if ends_with ''.html'' path then ''text/html''
      else if ends_with ''.css'' path then ''text/css''
      else if ends_with ''.js'' path then ''application/javascript''
      else if ends_with ''.json'' path then ''application/json''
      else if ends_with ''.png'' path then ''image/png''
      else if ends_with ''.txt'' path then ''text/plain''
      else ''application/octet-stream'')"

text \<open>\<open>resolve_within\<close> is the function of the demo program under another name.\<close>

definition public_file :: "site_fs \<Rightarrow> string \<Rightarrow> handler" where
  "public_file fs dir req res =
     (case resolve_within_dir fs dir (case param req ''path'' of None \<Rightarrow> [] | Some p \<Rightarrow> p) of
        None \<Rightarrow> Handled (res_text ''forbidden'' (res_status FORBIDDEN res))
      | Some resolved \<Rightarrow>
          (case no_file fs resolved of
             None \<Rightarrow> Threw res
           | Some True \<Rightarrow> Handled (res_text ''not found'' (res_status NOT_FOUND res))
           | Some False \<Rightarrow>
               Handled (res_file (si_file_size fs) resolved (content_type_for resolved) (res_status OK res))))"

section \<open>The server from the configuration\<close>

text \<open>Unlike the demo program, a TLS setup without a certificate or a key is passed over.\<close>

definition production_server :: "server_config \<Rightarrow> int \<Rightarrow> server" where
  "production_server c now =
     server_init (server_settings c)
       (tc_enabled (sc_tls c) \<and> tc_cert_file (sc_tls c) \<noteq> [] \<and> tc_key_file (sc_tls c) \<noteq> [])
       (enable_rate_limit c) now"

text \<open>
  The canonical life cycle with its exit code; \<open>served\<close> is what accepting and closing in the loop did to
  the clients, and a result that was never delivered holds its connection.
\<close>

definition serve_until_stopped ::
  "setup_calls \<Rightarrow> bool \<Rightarrow> (lifecycle \<Rightarrow> lifecycle) \<Rightarrow> (int \<Rightarrow> bool) \<Rightarrow> lifecycle \<Rightarrow> int \<times> lifecycle" where
  "serve_until_stopped a drained served held_fd l =
     (case listen_on a l of
        (False, l1) \<Rightarrow> (1, l1)
      | (True, l1) \<Rightarrow>
          (let l2 = served l1
           in (0, stop held_fd (run_teardown held_fd (if drained then close_listen l2 else l2)))))"

section \<open>Lemmas\<close>

lemma echo_invalid:
  "request_json (js_parse (dj_lib dj)) req = Inl e \<Longrightarrow>
     js_dump (dj_lib dj) (obj dj [(''error'', str dj ''invalid JSON body'')]) = Inr body \<Longrightarrow>
     \<exists>res'. echo_body dj req res = Handled res' \<and> rs_status res' = BAD_REQUEST"
  by (simp add: echo_body_def error_reply_def reply_def Let_def)

text \<open>What a banned client gets, whatever its method but \<open>OPTIONS\<close>.\<close>

lemma banned_stopped:
  assumes "header req ''X-Banned'' = Some v" "rq_method req \<noteq> OPTIONS"
  shows "\<exists>res'. run_chain ej (example_middlewares cr dj now) req res = (False, res') \<and> rs_status res' = FORBIDDEN"
  using assms
  by (simp add: example_middlewares_def request_logger_def cors_def reject_banned_def res_text_def Let_def)

lemma public_file_contained:
  assumes "public_file fs dir req res = Handled res'" "rs_body_content res' = FilePath p"
  shows "\<exists>base rest. si_canonical fs (path_absolute fs dir) = Some base \<and>
     path_segments p = path_segments base @ rest"
proof -
  let ?rel = "case param req ''path'' of None \<Rightarrow> [] | Some p \<Rightarrow> p"
  from assms have "resolve_within_dir fs dir ?rel = Some p"
    by (auto simp: public_file_def response_setters Let_def split: option.splits bool.splits)
  from resolve_within_dirD [OF this] show ?thesis by blast
qed

text \<open>
  A configuration that asks for TLS and names no key ends the demo program, and makes this one
  serve without TLS.
\<close>

lemma production_drops_tls:
  "tls_misconfigured c \<Longrightarrow> server_of_config c now = None \<and> \<not> sv_tls (production_server c now)"
  by (auto simp: server_of_config_def tls_misconfigured_def production_server_def server_init_def)

end
