(* ===== verification/Event_Loop.thy ===== *)
theory Event_Loop
  imports Server_Examples
begin

text \<open>
  The loop of \<open>Server::run\<close> as it is written: \<open>epoll_wait\<close> delivers a batch of events, which spends
  the one-shot interest of every connection in it, the events are handled one behind the other, and
  the iteration ends with the timeouts and the drain. Server describes an event as one step; here
  the loop is shown to do nothing that is not such a step: no event of a batch is stale.
\<close>

section \<open>Events\<close>

text \<open>The bits of \<open>epoll_event::events\<close> that the loop looks at.\<close>

record event_flags =
  fl_in :: bool
  fl_out :: bool
  fl_err :: bool
  fl_hup :: bool

text \<open>The comparisons of the descriptor with that of the wakeup pipe and of the listening socket are the constructors.\<close>

datatype event = Wakeup_Event | Listen_Event event_flags | Client_Event int event_flags

definition MAX_EVENTS :: nat where
  "MAX_EVENTS = 1024"

text \<open>The body of the loop over the batch, on Linux.\<close>

definition handle_event :: "env \<Rightarrow> app \<Rightarrow> accepted list \<Rightarrow> event \<Rightarrow> server \<Rightarrow> server defined" where
  "handle_event env app acs ev s =
     (case ev of
        Wakeup_Event \<Rightarrow> Some (process_completions env s)
      | Listen_Event fl \<Rightarrow> Some (if fl_in fl then handle_new_connection env acs s else s)
      | Client_Event fd fl \<Rightarrow>
          if fl_err fl \<or> fl_hup fl then Some (close_connection fd s)
          else
            (case (if fl_in fl then handle_client_data env app fd s else Some s) of
               None \<Rightarrow> None
             | Some s1 \<Rightarrow> if fl_out fl then handle_write_ready env app fd s1 else Some s1))"

section \<open>The loop\<close>

text \<open>
  What \<open>epoll_wait\<close> may return: at most one event for a descriptor, errors and the direction for
  which the descriptor is armed; the listening socket only while it is open. What it reports of
  connections is disarmed.
\<close>

fun client_fds :: "event list \<Rightarrow> int list" where
  "client_fds [] = []"
| "client_fds (Client_Event fd fl # evs) = fd # client_fds evs"
| "client_fds (ev # evs) = client_fds evs"

definition reportable :: "server \<Rightarrow> event \<Rightarrow> bool" where
  "reportable s ev \<longleftrightarrow>
     (case ev of
        Wakeup_Event \<Rightarrow> True
      | Listen_Event fl \<Rightarrow> sv_listening s
      | Client_Event fd fl \<Rightarrow>
          (case sv_armed s fd of
             None \<Rightarrow> False
           | Some for_read \<Rightarrow> (fl_in fl \<longrightarrow> for_read) \<and> (fl_out fl \<longrightarrow> \<not> for_read) \<and>
               (fl_in fl \<or> fl_out fl \<or> fl_err fl \<or> fl_hup fl)))"

definition batch_ok :: "server \<Rightarrow> event list \<Rightarrow> bool" where
  "batch_ok s evs \<longleftrightarrow> distinct (client_fds evs) \<and> (\<forall>ev \<in> set evs. reportable s ev)"

definition deliver :: "event list \<Rightarrow> server \<Rightarrow> server" where
  "deliver evs s = fold disarm (client_fds evs) s"

text \<open>
  Where the loop is: in front of \<open>epoll_wait\<close>, or with the rest of a batch. An interrupted wait
  changes nothing. Workers and requests to stop come at any time.
\<close>

datatype place = Waiting | Handling "event list"

inductive run_step :: "app \<Rightarrow> server \<times> place \<Rightarrow> server \<times> place \<Rightarrow> bool" for app where
  run_wait:
    "sv_running s \<Longrightarrow> length evs \<le> MAX_EVENTS \<Longrightarrow> batch_ok s evs \<Longrightarrow>
     run_step app (s, Waiting) (deliver evs s, Handling evs)"
| run_wait_failed: "sv_running s \<Longrightarrow> run_step app (s, Waiting) (s\<lparr>sv_running := False\<rparr>, Waiting)"
| run_event:
    "handle_event env app acs ev s = Some s' \<Longrightarrow> distinct (map ac_fd acs) \<Longrightarrow>
     \<forall>a \<in> set acs. 0 \<le> ac_fd a \<and> sv_conns s (ac_fd a) = None \<Longrightarrow>
     run_step app (s, Handling (ev # evs)) (s', Handling evs)"
| run_tail:
    "distinct (en_fds env) \<Longrightarrow> set (en_fds env) = dom (sv_conns s) \<Longrightarrow>
     run_step app (s, Handling []) (loop_tail env s, Waiting)"
| run_worker:
    "k < length (sv_tasks s) \<Longrightarrow> run_task env app k s = Some s' \<Longrightarrow> run_step app (s, pl) (s', pl)"
| run_stop: "run_step app (s, pl) (request_stop s, pl)"

definition run_start :: "settings \<Rightarrow> server \<times> place \<Rightarrow> bool" where
  "run_start settings x \<longleftrightarrow> starts settings (fst x) \<and> snd x = Waiting"

section \<open>Operations on one descriptor leave the interest of the others alone\<close>

definition arm :: "int \<Rightarrow> bool option \<Rightarrow> server \<Rightarrow> server" where
  "arm x v s = s\<lparr>sv_armed := (sv_armed s)(x := v)\<rparr>"

lemma arm_simps [simp]:
  "sv_conns (arm x v s) = sv_conns s" "sv_heap (arm x v s) = sv_heap s" "sv_limiter (arm x v s) = sv_limiter s"
  "sv_settings (arm x v s) = sv_settings s" "sv_metrics (arm x v s) = sv_metrics s"
  "sv_tasks (arm x v s) = sv_tasks s" "sv_draining (arm x v s) = sv_draining s" "sv_tls (arm x v s) = sv_tls s"
  "sv_next (arm x v s) = sv_next s" "sv_completed (arm x v s) = sv_completed s" "sv_closed (arm x v s) = sv_closed s"
  "sv_running (arm x v s) = sv_running s" "sv_listening (arm x v s) = sv_listening s"
  "sv_armed (arm x v s) = (sv_armed s)(x := v)"
  by (simp_all add: arm_def)

lemma arm_moves [simp]:
  "set_conn i c (arm x v s) = arm x v (set_conn i c s)"
  "put_wire i w (arm x v s) = arm x v (put_wire i w s)"
  "count f (arm x v s) = arm x v (count f s)"
  "(arm x v s)\<lparr>sv_tasks := ts\<rparr> = arm x v (s\<lparr>sv_tasks := ts\<rparr>)"
  "(arm x v s)\<lparr>sv_limiter := l\<rparr> = arm x v (s\<lparr>sv_limiter := l\<rparr>)"
  "(arm x v s)\<lparr>sv_completed := q\<rparr> = arm x v (s\<lparr>sv_completed := q\<rparr>)"
  "(arm x v s)\<lparr>sv_closed := cl\<rparr> = arm x v (s\<lparr>sv_closed := cl\<rparr>)"
  "at_capacity (arm x v s) = at_capacity s"
  by (simp_all add: arm_def set_conn_def put_wire_def count_def at_capacity_def)

lemma close_connection_arm [simp]:
  "fd \<noteq> x \<Longrightarrow> close_connection fd (arm x v s) = arm x v (close_connection fd s)"
  by (simp add: close_connection_def arm_def Let_def count_def set_conn_def fun_upd_twist split: option.split)

lemma rearm_arm [simp]: "fd \<noteq> x \<Longrightarrow> rearm env fd b (arm x v s) = arm x v (rearm env fd b s)"
  by (simp add: rearm_def) (simp add: arm_def fun_upd_twist)

lemma answer_now_arm [simp]:
  "fd \<noteq> x \<Longrightarrow> answer_now env app st msg f n fd i (arm x v s) = arm x v (answer_now env app st msg f n fd i s)"
  by (simp add: answer_now_def Let_def)

lemma rate_allowed_arm [simp]: "rate_allowed env c (arm x v s) = apsnd (arm x v) (rate_allowed env c s)"
  by (simp add: rate_allowed_def split: option.split prod.split)

lemma dispatch_next_arm [simp]:
  "fd \<noteq> x \<Longrightarrow> dispatch_next env app fd i (arm x v s) = map_option (arm x v) (dispatch_next env app fd i s)"
  by (auto simp: dispatch_next_def Let_def split: option.split prod.split)

lemma drive_tls_arm [simp]:
  "fd \<noteq> x \<Longrightarrow> drive_tls_handshake env fd i (arm x v s) = apsnd (arm x v) (drive_tls_handshake env fd i s)"
  by (auto simp: drive_tls_handshake_def Let_def split: prod.split)

lemma handle_client_data_arm:
  assumes "fd \<noteq> x"
  shows "handle_client_data env app fd (arm x v s) = map_option (arm x v) (handle_client_data env app fd s)"
  using assms by (auto simp: handle_client_data_def split: option.split prod.split)

lemma handle_write_ready_arm:
  assumes "fd \<noteq> x"
  shows "handle_write_ready env app fd (arm x v s) = map_option (arm x v) (handle_write_ready env app fd s)"
  using assms by (auto simp: handle_write_ready_def Let_def split: option.split prod.split)

lemma accept_one_arm:
  "ac_fd a \<noteq> x \<Longrightarrow> accept_one env a (arm x v s) = arm x v (accept_one env a s)"
  by (simp add: accept_one_def Let_def) (simp add: arm_def set_conn_def count_def fun_upd_twist)

lemma handle_new_connection_arm:
  "x \<notin> ac_fd ` set acs \<Longrightarrow> handle_new_connection env acs (arm x v s) = arm x v (handle_new_connection env acs s)"
  unfolding handle_new_connection_def by (induction acs arbitrary: s) (simp_all add: accept_one_arm)

lemma run_task_arm: "run_task env app k (arm x v s) = map_option (arm x v) (run_task env app k s)"
  by (simp add: run_task_def Let_def split: option.split)

lemma request_stop_arm: "request_stop (arm x v s) = arm x v (request_stop s)"
  by (simp add: request_stop_def arm_def)

text \<open>What is spared keeps its interest.\<close>

lemma spared_armed:
  assumes "\<And>v. f (arm x v s) = arm x v (f s)"
  shows "sv_armed (f s) x = sv_armed s x"
proof -
  have "arm x (sv_armed s x) s = s" by (simp add: arm_def)
  with assms [of "sv_armed s x"] have "f s = arm x (sv_armed s x) (f s)" by simp
  then have "sv_armed (f s) x = sv_armed (arm x (sv_armed s x) (f s)) x" by simp
  then show ?thesis by simp
qed

lemma spared_armed_option:
  assumes "\<And>v. f (arm x v s) = map_option (arm x v) (f s)" "f s = Some s'"
  shows "sv_armed s' x = sv_armed s x"
proof -
  have "arm x (sv_armed s x) s = s" by (simp add: arm_def)
  with assms(1) [of "sv_armed s x"] assms(2) have "s' = arm x (sv_armed s x) s'" by simp
  then have "sv_armed s' x = sv_armed (arm x (sv_armed s x) s') x" by simp
  then show ?thesis by simp
qed

text \<open>
  The results of the workers: a connection that is armed has none, so handling them spares it.
\<close>

lemma complete_one_arm:
  assumes "sv_conns s x \<noteq> Some (cm_conn item) \<or> cm_fd item \<noteq> x"
  shows "complete_one env item (arm x v s) = arm x v (complete_one env item s)"
proof (cases "cm_fd item = x")
  case True
  then show ?thesis using assms by (simp add: complete_one_def)
next
  case False
  then show ?thesis by (simp add: complete_one_def Let_def)
qed

lemma complete_fold_arm:
  assumes "sv_conns s x = Some j" "\<forall>item \<in> set q. cm_conn item \<noteq> j"
  shows "fold (complete_one env) q (arm x v s) = arm x v (fold (complete_one env) q s)"
  using assms
proof (induction q arbitrary: s)
  case (Cons item q)
  then have "cm_conn item \<noteq> j" by simp
  with Cons.prems(1) have c: "complete_one env item (arm x v s) = arm x v (complete_one env item s)"
    by (intro complete_one_arm) auto
  show ?case
    using Cons.IH [OF complete_one_other(1) [OF Cons.prems(1) \<open>cm_conn item \<noteq> j\<close>]] Cons.prems(2) c by simp
qed simp

lemma process_completions_arm:
  assumes "server_ok s" "sv_armed s x \<noteq> None"
  shows "process_completions env (arm x v s) = arm x v (process_completions env s)"
proof -
  from assms obtain j where j: "sv_conns s x = Some j" "\<not> cn_worker_in_flight (conn_of s j)"
    by (auto simp: server_ok_def armed_ok_def)
  have "\<forall>item \<in> set (sv_completed s). cm_conn item \<noteq> j"
    using idle_connection [OF assms(1) j(2)] by (auto simp: outstanding_def filter_empty_conv)
  from complete_fold_arm [OF _ this, of "s\<lparr>sv_completed := []\<rparr>" x env v] j(1) show ?thesis
    by (simp add: process_completions_def)
qed

section \<open>A batch is a sequence of steps\<close>

text \<open>
  The state of the loop is that of Server with the connections of the rest of the batch disarmed.
\<close>

lemma disarm_arm: "disarm x = arm x None"
  by (simp add: disarm_def arm_def fun_eq_iff)

lemma arm_twist: "y \<noteq> x \<Longrightarrow> arm y w (arm x v s) = arm x v (arm y w s)"
  by (simp add: arm_def fun_upd_twist)

lemma client_fds_set: "fd \<in> set (client_fds evs) \<longleftrightarrow> (\<exists>fl. Client_Event fd fl \<in> set evs)"
  by (induction evs rule: client_fds.induct) auto

lemma deliver_arm: "x \<notin> set (client_fds evs) \<Longrightarrow> deliver evs (arm x v s) = arm x v (deliver evs s)"
proof -
  have "x \<notin> set fds \<Longrightarrow> fold disarm fds (arm x v s) = arm x v (fold disarm fds s)" for fds
  proof (induction fds arbitrary: s)
    case (Cons a fds)
    then have "arm a None (arm x v s) = arm x v (arm a None s)" by (intro arm_twist) simp
    with Cons show ?case by (simp add: disarm_arm)
  qed simp
  then show "x \<notin> set (client_fds evs) \<Longrightarrow> ?thesis" by (simp add: deliver_def)
qed

lemma deliver_fields [simp]:
  "sv_conns (deliver evs s) = sv_conns s" "sv_tasks (deliver evs s) = sv_tasks s"
  "sv_running (deliver evs s) = sv_running s" "sv_heap (deliver evs s) = sv_heap s"
proof -
  have "sv_conns (fold disarm fds s) = sv_conns s \<and> sv_tasks (fold disarm fds s) = sv_tasks s \<and>
      sv_running (fold disarm fds s) = sv_running s \<and> sv_heap (fold disarm fds s) = sv_heap s" for fds
    by (induction fds arbitrary: s) (simp_all add: disarm_arm)
  then show "sv_conns (deliver evs s) = sv_conns s" "sv_tasks (deliver evs s) = sv_tasks s"
    "sv_running (deliver evs s) = sv_running s" "sv_heap (deliver evs s) = sv_heap s"
    by (simp_all add: deliver_def)
qed

text \<open>An operation that spares the connections of the batch can be done before or behind their disarming.\<close>

lemma fold_spared:
  assumes "\<And>x v s. x \<in> set fds \<Longrightarrow> P s \<Longrightarrow> sv_armed s x \<noteq> None \<Longrightarrow> f (arm x v s) = map_option (arm x v) (f s)"
    "\<And>x s. P s \<Longrightarrow> P (arm x None s)"
    "P s" "distinct fds" "\<forall>x \<in> set fds. sv_armed s x \<noteq> None"
  shows "f (fold disarm fds s) = map_option (fold disarm fds) (f s)"
  using assms
proof (induction fds arbitrary: s)
  case Nil
  then show ?case by (cases "f s") auto
next
  case (Cons x fds)
  have "f (fold disarm fds (disarm x s)) = map_option (fold disarm fds) (f (disarm x s))"
    by (rule Cons.IH) (use Cons.prems in \<open>auto simp: disarm_arm\<close>)
  also have "f (disarm x s) = map_option (disarm x) (f s)"
    using Cons.prems by (simp add: disarm_arm)
  finally show ?case by (simp add: option.map_comp comp_def)
qed

section \<open>What an event does beside its own connection\<close>

definition beside :: "int \<Rightarrow> server \<Rightarrow> server \<Rightarrow> bool" where
  "beside x s s' \<longleftrightarrow> sv_running s' = sv_running s \<and> sv_listening s' = sv_listening s \<and> sv_conns s' x = sv_conns s x"

lemma beside_refl [simp]: "beside x s s"
  by (simp add: beside_def)

lemma beside_trans: "beside x a b \<Longrightarrow> beside x b c \<Longrightarrow> beside x a c"
  by (simp add: beside_def)

lemma beside_simps [simp]:
  "beside x s (set_conn i c t) \<longleftrightarrow> beside x s t" "beside x s (put_wire i w t) \<longleftrightarrow> beside x s t"
  "beside x s (count f t) \<longleftrightarrow> beside x s t" "beside x s (t\<lparr>sv_tasks := ts\<rparr>) \<longleftrightarrow> beside x s t"
  "beside x s (t\<lparr>sv_limiter := l\<rparr>) \<longleftrightarrow> beside x s t" "beside x s (t\<lparr>sv_completed := q\<rparr>) \<longleftrightarrow> beside x s t"
  "fd \<noteq> x \<Longrightarrow> beside x s (close_connection fd t) \<longleftrightarrow> beside x s t"
  "fd \<noteq> x \<Longrightarrow> beside x s (rearm env fd b t) \<longleftrightarrow> beside x s t"
  "beside x (set_conn i c s) t \<longleftrightarrow> beside x s t" "beside x (put_wire i w s) t \<longleftrightarrow> beside x s t"
  by (auto simp: beside_def rearm_def)

lemma dispatch_next_beside:
  "dispatch_next env app fd i s = Some s' \<Longrightarrow> fd \<noteq> x \<Longrightarrow> beside x s s'"
  by (auto simp: dispatch_next_def Let_def answer_now_def rate_allowed_def split: if_splits option.splits prod.splits)

lemma drive_tls_beside:
  "drive_tls_handshake env fd i s = (proceed, s') \<Longrightarrow> fd \<noteq> x \<Longrightarrow> beside x s s'"
  by (auto simp: drive_tls_handshake_def Let_def split: if_splits prod.splits)

lemma handle_client_data_beside:
  assumes "handle_client_data env app fd s = Some s'" "fd \<noteq> x"
  shows "beside x s s'"
  using assms
  by (auto simp: handle_client_data_def split: option.splits if_splits prod.splits
      dest!: dispatch_next_beside [where x = x] drive_tls_beside [where x = x] intro: beside_trans)

lemma handle_write_ready_beside:
  assumes "handle_write_ready env app fd s = Some s'" "fd \<noteq> x"
  shows "beside x s s'"
  using assms
  by (auto simp: handle_write_ready_def Let_def split: option.splits if_splits prod.splits
      dest!: dispatch_next_beside [where x = x] drive_tls_beside [where x = x] intro: beside_trans)

lemma complete_fold_beside:
  assumes "sv_conns s x = Some j" "\<forall>item \<in> set q. cm_conn item \<noteq> j"
  shows "beside x s (fold (complete_one env) q s)"
  using assms
proof (induction q arbitrary: s)
  case (Cons item q)
  then have n: "cm_conn item \<noteq> j" by simp
  have "beside x s (complete_one env item s)"
    using Cons.prems(1) n by (cases "cm_fd item = x") (simp_all add: complete_one_def Let_def)
  moreover have "beside x (complete_one env item s) (fold (complete_one env) q (complete_one env item s))"
    using Cons.IH [OF complete_one_other(1) [OF Cons.prems(1) n]] Cons.prems(2) by simp
  ultimately show ?case using beside_trans by simp
qed simp

lemma process_completions_beside:
  assumes "server_ok s" "sv_armed s x \<noteq> None"
  shows "beside x s (process_completions env s)"
proof -
  from assms obtain j where j: "sv_conns s x = Some j" "\<not> cn_worker_in_flight (conn_of s j)"
    by (auto simp: server_ok_def armed_ok_def)
  have "\<forall>item \<in> set (sv_completed s). cm_conn item \<noteq> j"
    using idle_connection [OF assms(1) j(2)] by (auto simp: outstanding_def filter_empty_conv)
  from complete_fold_beside [OF _ this, of "s\<lparr>sv_completed := []\<rparr>" x env] j(1) show ?thesis
    by (simp add: process_completions_def beside_def)
qed

lemma accept_beside:
  "x \<notin> ac_fd ` set acs \<Longrightarrow> beside x s (handle_new_connection env acs s)"
proof -
  have one: "beside x s (accept_one env a s)" if "x \<noteq> ac_fd a" for a s
    using that by (simp add: accept_one_def Let_def beside_def)
  show "x \<notin> ac_fd ` set acs \<Longrightarrow> ?thesis"
    unfolding handle_new_connection_def
  proof (induction acs arbitrary: s)
    case (Cons a acs)
    then show ?case using one [of a s] beside_trans [of x s "accept_one env a s"] by simp
  qed simp
qed

text \<open>An event of a connection beside, or of the server itself, spares an armed connection.\<close>

definition fresh_for :: "accepted list \<Rightarrow> server \<Rightarrow> bool" where
  "fresh_for acs s \<longleftrightarrow> (\<forall>a \<in> set acs. 0 \<le> ac_fd a \<and> sv_conns s (ac_fd a) = None)"

lemma armed_not_fresh: "server_ok s \<Longrightarrow> sv_armed s x \<noteq> None \<Longrightarrow> fresh_for acs s \<Longrightarrow> x \<notin> ac_fd ` set acs"
  by (force simp: server_ok_def armed_ok_def fresh_for_def)

lemma handle_event_arm:
  assumes "server_ok s" "sv_armed s x \<noteq> None" "fresh_for acs s" "\<And>fl. ev \<noteq> Client_Event x fl"
  shows "handle_event env app acs ev (arm x v s) = map_option (arm x v) (handle_event env app acs ev s)"
proof (cases ev)
  case Wakeup_Event
  then show ?thesis using process_completions_arm [OF assms(1,2)] by (simp add: handle_event_def)
next
  case (Listen_Event fl)
  then show ?thesis
    using handle_new_connection_arm [OF armed_not_fresh [OF assms(1-3)]] by (simp add: handle_event_def)
next
  case (Client_Event fd fl)
  then have "fd \<noteq> x" using assms(4) by auto
  then show ?thesis
    by (auto simp: handle_event_def Client_Event handle_client_data_arm handle_write_ready_arm split: option.split)
qed

lemma handle_event_beside:
  assumes "handle_event env app acs ev s = Some s'"
    "server_ok s" "sv_armed s x \<noteq> None" "fresh_for acs s" "\<And>fl. ev \<noteq> Client_Event x fl"
  shows "beside x s s'"
proof (cases ev)
  case Wakeup_Event
  then show ?thesis using process_completions_beside [OF assms(2,3)] assms(1) by (auto simp: handle_event_def)
next
  case (Listen_Event fl)
  then show ?thesis
    using accept_beside [OF armed_not_fresh [OF assms(2-4)]] assms(1) by (auto simp: handle_event_def)
next
  case (Client_Event fd fl)
  then have "fd \<noteq> x" using assms(5) by auto
  then show ?thesis
    using assms(1) Client_Event
    by (auto simp: handle_event_def split: if_splits option.splits
        dest: handle_client_data_beside handle_write_ready_beside intro: beside_trans)
qed

section \<open>The simulation\<close>

text \<open>A server state and where the loop is, seen from a state of Server.\<close>

definition simulates :: "server \<Rightarrow> server \<times> place \<Rightarrow> bool" where
  "simulates s0 x \<longleftrightarrow>
     (case x of (s, Waiting) \<Rightarrow> s = s0
      | (s, Handling evs) \<Rightarrow> s = deliver evs s0 \<and> batch_ok s0 evs \<and> sv_running s0)"

lemma batch_armed: "batch_ok s evs \<Longrightarrow> x \<in> set (client_fds evs) \<Longrightarrow> sv_armed s x \<noteq> None"
  by (auto simp: batch_ok_def client_fds_set reportable_def split: option.splits)

lemma batch_ok_keeps:
  assumes "batch_ok s evs" "sv_listening s' = sv_listening s"
    "\<And>x. x \<in> set (client_fds evs) \<Longrightarrow> sv_armed s' x = sv_armed s x"
  shows "batch_ok s' evs"
proof -
  have "reportable s' ev" if "ev \<in> set evs" for ev
  proof (cases ev)
    case (Client_Event fd fl)
    then have "sv_armed s' fd = sv_armed s fd" using assms(3) that by (auto simp: client_fds_set)
    then show ?thesis using assms(1) that Client_Event by (auto simp: batch_ok_def reportable_def)
  qed (use assms(1,2) that in \<open>auto simp: batch_ok_def reportable_def\<close>)
  then show ?thesis using assms(1) by (simp add: batch_ok_def)
qed

text \<open>Handling an event commutes with disarming the rest of the batch.\<close>

lemma handle_event_deliver:
  assumes "server_ok s" "fresh_for acs s" "distinct (client_fds evs)"
    "\<forall>x \<in> set (client_fds evs). sv_armed s x \<noteq> None \<and> (\<forall>fl. ev \<noteq> Client_Event x fl)"
  shows "handle_event env app acs ev (deliver evs s) = map_option (deliver evs) (handle_event env app acs ev s)"
proof -
  let ?P = "\<lambda>s. server_ok s \<and> fresh_for acs s"
  have "handle_event env app acs ev (fold disarm (client_fds evs) s) =
      map_option (fold disarm (client_fds evs)) (handle_event env app acs ev s)"
  proof (rule fold_spared [where P = ?P])
    show "handle_event env app acs ev (arm x v t) = map_option (arm x v) (handle_event env app acs ev t)"
      if "x \<in> set (client_fds evs)" "?P t" "sv_armed t x \<noteq> None" for x v t
      using that assms(4) by (intro handle_event_arm) auto
    show "?P (arm x None t)" if "?P t" for x t
      using that disarm_ok [of t x] by (simp add: disarm_arm fresh_for_def)
  qed (use assms in auto)
  moreover have "deliver evs = fold disarm (client_fds evs)" by (simp add: fun_eq_iff deliver_def)
  ultimately show ?thesis by simp
qed

text \<open>An event that can be reported is a step, or nothing at all.\<close>

lemma handle_event_step:
  assumes "sv_running s" "reportable s ev" "distinct (map ac_fd acs)" "fresh_for acs s"
    "handle_event env app acs ev (deliver [ev] s) = Some s'"
  shows "step app s s' \<or> s' = s"
proof (cases ev)
  case Wakeup_Event
  then show ?thesis using assms step_wakeup by (auto simp: handle_event_def deliver_def)
next
  case (Listen_Event fl)
  then show ?thesis
    using assms step_accept [of s acs app env] by (auto simp: handle_event_def deliver_def reportable_def fresh_for_def)
next
  case (Client_Event fd fl)
  from assms(2) Client_Event obtain b where b: "sv_armed s fd = Some b" "fl_in fl \<longrightarrow> b" "fl_out fl \<longrightarrow> \<not> b"
    "fl_in fl \<or> fl_out fl \<or> fl_err fl \<or> fl_hup fl"
    by (auto simp: reportable_def split: option.splits)
  have h: "handle_event env app acs ev (disarm fd s) = Some s'"
    using assms(5) Client_Event by (simp add: deliver_def)
  have "step app s s'"
  proof (cases "fl_err fl \<or> fl_hup fl")
    case True
    then show ?thesis using h Client_Event step_hangup [OF assms(1), of fd app] b(1) by (simp add: handle_event_def)
  next
    case False
    show ?thesis
    proof (cases b)
      case True
      then show ?thesis
        using h Client_Event False b step_readable [OF assms(1), of fd env app s']
        by (auto simp: handle_event_def split: option.splits)
    next
      case no: False
      then show ?thesis
        using h Client_Event False b step_writable [OF assms(1), of fd env app s']
        by (auto simp: handle_event_def split: option.splits)
    qed
  qed
  then show ?thesis by simp
qed

lemma run_task_deliver: "run_task env app k (deliver evs s) = map_option (deliver evs) (run_task env app k s)"
proof -
  have "run_task env app k (fold disarm fds s) = map_option (fold disarm fds) (run_task env app k s)" for fds
  proof (induction fds arbitrary: s)
    case (Cons x fds)
    have "run_task env app k (disarm x s) = map_option (disarm x) (run_task env app k s)"
      by (simp add: disarm_arm run_task_arm)
    then show ?case using Cons [of "disarm x s"] by (simp add: option.map_comp comp_def)
  qed (simp add: option.map_id)
  moreover have "deliver evs = fold disarm (client_fds evs)" by (simp add: fun_eq_iff deliver_def)
  ultimately show ?thesis by simp
qed

lemma request_stop_deliver: "request_stop (deliver evs s) = deliver evs (request_stop s)"
proof -
  have "request_stop (fold disarm fds s) = fold disarm fds (request_stop s)" for fds
    by (induction fds arbitrary: s) (simp_all add: disarm_arm request_stop_arm)
  then show ?thesis by (simp add: deliver_def)
qed

lemma handle_event_mode:
  assumes "handle_event env app acs ev s = Some s'"
  shows "sv_running s' = sv_running s" "sv_listening s' = sv_listening s"
proof -
  have complete: "sv_running (fold (complete_one env) q t) = sv_running t \<and>
      sv_listening (fold (complete_one env) q t) = sv_listening t" for q t
    by (induction q arbitrary: t) (simp_all add: complete_one_def rearm_def Let_def)
  have accept: "sv_running (fold (accept_one env) as t) = sv_running t \<and>
      sv_listening (fold (accept_one env) as t) = sv_listening t" for as t
    by (induction as arbitrary: t) (simp_all add: accept_one_def Let_def)
  have "sv_running s' = sv_running s \<and> sv_listening s' = sv_listening s"
  proof (cases ev)
    case Wakeup_Event
    then show ?thesis using assms complete by (auto simp: handle_event_def process_completions_def)
  next
    case (Listen_Event fl)
    then show ?thesis using assms accept by (cases "fl_in fl") (auto simp: handle_event_def handle_new_connection_def)
  next
    case (Client_Event fd fl)
    have c: "beside (fd + 1) a b" if "handle_client_data env app fd a = Some b" for a b
      by (rule handle_client_data_beside [OF that]) simp
    have w: "beside (fd + 1) a b" if "handle_write_ready env app fd a = Some b" for a b
      by (rule handle_write_ready_beside [OF that]) simp
    have "beside (fd + 1) s s'"
      using assms Client_Event
      by (auto simp: handle_event_def split: if_splits option.splits dest!: c w intro: beside_trans)
    then show ?thesis by (simp add: beside_def)
  qed
  then show "sv_running s' = sv_running s" "sv_listening s' = sv_listening s" by simp_all
qed

lemma deliver_Cons: "deliver (ev # evs) s = deliver evs (deliver [ev] s)"
  by (cases ev) (simp_all add: deliver_def)

lemma deliver_one_armed:
  "x \<in> set (client_fds evs) \<Longrightarrow> distinct (client_fds (ev # evs)) \<Longrightarrow> sv_armed (deliver [ev] s) x = sv_armed s x"
  by (cases ev) (auto simp: deliver_def)

lemma deliver_one_ok: "server_ok s \<Longrightarrow> server_ok (deliver [ev] s)"
  by (cases ev) (simp_all add: deliver_def disarm_ok)

lemma event_simulated:
  assumes "handle_event env app acs ev s = Some s'" "distinct (map ac_fd acs)" "fresh_for acs s"
    "simulates s0 (s, Handling (ev # evs))" "server_ok s0"
  shows "\<exists>s1. (step app s0 s1 \<or> s1 = s0) \<and> simulates s1 (s', Handling evs) \<and>
    (\<forall>x \<in> set (client_fds evs). sv_conns s1 x = sv_conns s0 x)"
proof -
  let ?t = "deliver [ev] s0"
  from assms(4) have s: "s = deliver evs ?t" and b: "batch_ok s0 (ev # evs)" and r: "sv_running s0"
    by (simp_all add: simulates_def deliver_Cons [of ev evs])
  have d: "distinct (client_fds (ev # evs))" using b by (simp add: batch_ok_def)
  then have de: "distinct (client_fds evs)" by (cases ev) simp_all
  have be: "batch_ok s0 evs" using b de by (simp add: batch_ok_def)
  have other: "ev \<noteq> Client_Event x fl" if "x \<in> set (client_fds evs)" for x fl
    using that d by auto
  have armed: "sv_armed ?t x = sv_armed s0 x \<and> sv_armed ?t x \<noteq> None \<and> (\<forall>fl. ev \<noteq> Client_Event x fl)"
    if "x \<in> set (client_fds evs)" for x
    using deliver_one_armed [OF that d] batch_armed [OF be that] other [OF that] by simp
  have ok: "server_ok ?t" by (rule deliver_one_ok [OF assms(5)])
  have f: "fresh_for acs ?t" "fresh_for acs s0" using assms(3) s by (simp_all add: fresh_for_def)
  have "\<forall>x \<in> set (client_fds evs). sv_armed ?t x \<noteq> None \<and> (\<forall>fl. ev \<noteq> Client_Event x fl)"
    using armed by blast
  from handle_event_deliver [OF ok f(1) de this, of env app] assms(1) s obtain t' where
    t': "handle_event env app acs ev ?t = Some t'" "s' = deliver evs t'" by auto
  have keeps: "sv_armed t' x = sv_armed s0 x \<and> sv_conns t' x = sv_conns s0 x" if x: "x \<in> set (client_fds evs)" for x
  proof -
    note a = armed [OF x]
    have "sv_armed t' x = sv_armed ?t x"
      by (rule spared_armed_option [OF handle_event_arm [OF ok _ f(1)] t'(1)]) (use a in blast)+
    moreover have "beside x ?t t'"
      by (rule handle_event_beside [OF t'(1) ok _ f(1)]) (use a in blast)+
    ultimately show ?thesis using a by (simp add: beside_def)
  qed
  note mode = handle_event_mode [OF t'(1)]
  have m: "sv_listening ?t = sv_listening s0" by (cases ev) (simp_all add: deliver_def disarm_arm)
  have "batch_ok t' evs"
    by (rule batch_ok_keeps [OF be]) (use keeps mode m in simp_all)
  then have "simulates t' (s', Handling evs)" using t'(2) mode r by (simp add: simulates_def)
  moreover have "step app s0 t' \<or> t' = s0"
    by (rule handle_event_step [OF r _ assms(2) f(2) t'(1)]) (use b in \<open>simp add: batch_ok_def\<close>)
  ultimately show ?thesis using keeps by blast
qed

lemma run_step_simulated:
  assumes "run_step app x y" "simulates s0 x" "server_ok s0"
  shows "\<exists>s1. (step app s0 s1 \<or> s1 = s0) \<and> simulates s1 y"
  using assms(1)
proof cases
  case (run_wait s evs)
  then show ?thesis using assms(2) by (auto simp: simulates_def)
next
  case (run_wait_failed s)
  then show ?thesis using assms(2) step_wait_failed by (auto simp: simulates_def)
next
  case (run_event env acs ev s s' evs)
  have "fresh_for acs s" using run_event(5) by (simp add: fresh_for_def)
  from event_simulated [OF run_event(3,4) this assms(2) [unfolded run_event(1)] assms(3)] run_event(2)
  show ?thesis by blast
next
  case (run_tail env s)
  have "deliver [] s0 = s0" by (simp add: deliver_def)
  then show ?thesis
    using run_tail assms(2) step_tail [of s0 env app] by (auto simp: simulates_def)
next
  case (run_worker k s env s' pl)
  show ?thesis
  proof (cases pl)
    case Waiting
    then show ?thesis using run_worker assms(2) step_task by (auto simp: simulates_def)
  next
    case (Handling evs)
    with run_worker assms(2) have s: "s = deliver evs s0" "batch_ok s0 evs" "sv_running s0"
      by (simp_all add: simulates_def)
    from run_worker(4) obtain s1 where s1: "run_task env app k s0 = Some s1" "s' = deliver evs s1"
      by (auto simp: s(1) run_task_deliver)
    have "sv_armed s1 = sv_armed s0 \<and> sv_listening s1 = sv_listening s0 \<and> sv_running s1 = sv_running s0"
      using s1(1) by (auto simp: run_task_def Let_def split: option.splits)
    then have "simulates s1 y"
      using s s1(2) run_worker(2) Handling batch_ok_keeps [OF s(2), of s1] by (simp add: simulates_def)
    moreover have "step app s0 s1" using run_worker(3) s1(1) s(1) by (intro step_task) simp_all
    ultimately show ?thesis by blast
  qed
next
  case (run_stop s pl)
  have a: "sv_armed (request_stop s0) = sv_armed s0" "sv_listening (request_stop s0) = sv_listening s0"
    "sv_running (request_stop s0) = sv_running s0" by (simp_all add: request_stop_def)
  have "simulates (request_stop s0) y"
    using assms(2) run_stop a batch_ok_keeps [of s0 _ "request_stop s0"]
    by (cases pl) (auto simp: simulates_def request_stop_deliver)
  then show ?thesis using step_stop by blast
qed

text \<open>So the loop with its batches refines the server.\<close>

interpretation batched: refining "starts settings" "step app" server_ok "run_start settings" "run_step app" simulates
  for settings app
proof unfold_locales
  show "\<exists>s. starts settings s \<and> simulates s x" if "run_start settings x" for x
    using that by (cases x) (auto simp: run_start_def simulates_def)
  show "\<exists>s'. (step app s s' \<or> s' = s) \<and> simulates s' y"
    if "server_ok s" "simulates s x" "run_step app x y" for s x y
    using run_step_simulated [OF that(3,2,1)] .
qed

text \<open>What is left of a batch keeps its connections.\<close>

lemma pending_keeps:
  assumes "run_step app (s, Handling evs) (s', Handling evs')" "simulates s0 (s, Handling evs)" "server_ok s0"
    "x \<in> set (client_fds evs')"
  shows "sv_conns s' x = sv_conns s x"
  using assms(1)
proof cases
  case (run_event env acs ev)
  have "fresh_for acs s" using run_event(4) by (simp add: fresh_for_def)
  from event_simulated [OF run_event(2,3) this assms(2) [unfolded run_event(1)] assms(3)] obtain s1 where
    "simulates s1 (s', Handling evs')" "sv_conns s1 x = sv_conns s0 x" using assms(4) by blast
  with assms(2) show ?thesis by (simp add: simulates_def)
next
  case (run_worker k env)
  then show ?thesis by (auto simp: run_task_def Let_def split: option.splits)
qed (simp_all add: request_stop_def)

section \<open>Properties\<close>

text \<open>
  C7: the loop as it is written implements the one-event steps that the properties of the event loop
  are about: whatever a batch holds, however handling it interleaves with the workers, its state is
  one that Server reaches, with the connections of the rest of the batch disarmed; and no event is
  stale: until its turn comes the connection it was reported for is open under its descriptor,
  although others are closed and accepted before it in the same batch.
\<close>

theorem run_refines_steps:
  assumes "reach (run_start settings) (run_step app) (s, pl)"
  shows "\<exists>s0. reachable app settings s0 \<and>
    (case pl of
       Waiting \<Rightarrow> s = s0
     | Handling evs \<Rightarrow> s = deliver evs s0 \<and>
         (\<forall>fd fl. Client_Event fd fl \<in> set evs \<longrightarrow>
            (\<exists>i. sv_conns s fd = Some i \<and> is_open (conn_of s i)) \<and>
            (\<forall>s' evs'. run_step app (s, pl) (s', Handling evs') \<and> Client_Event fd fl \<in> set evs' \<longrightarrow>
               sv_conns s' fd = sv_conns s fd)))"
proof -
  from batched.refined [OF assms] obtain s0 where s0: "reachable app settings s0" "simulates s0 (s, pl)"
    by (auto simp: reachable_reach)
  note ok = reachable_ok [OF s0(1)]
  show ?thesis
  proof (cases pl)
    case Waiting
    then show ?thesis using s0 by (auto simp: simulates_def)
  next
    case (Handling evs)
    then have s: "s = deliver evs s0" "batch_ok s0 evs" using s0(2) by (simp_all add: simulates_def)
    have live: "\<exists>i. sv_conns s fd = Some i \<and> is_open (conn_of s i)" if "Client_Event fd fl \<in> set evs" for fd fl
    proof -
      have "sv_armed s0 fd \<noteq> None" using batch_armed [OF s(2)] that by (auto simp: client_fds_set)
      then obtain i where i: "sv_conns s0 fd = Some i" using ok by (auto simp: server_ok_def armed_ok_def)
      then show ?thesis using s(1) conns_okD [OF server_okD(1) [OF ok] i] by (simp add: is_open_def)
    qed
    have "sv_conns s' fd = sv_conns s fd"
      if "run_step app (s, pl) (s', Handling evs')" "Client_Event fd fl \<in> set evs'" for s' evs' fd fl
      using pending_keeps [of app s evs s' evs' s0 fd] that s0(2) ok Handling by (auto simp: client_fds_set)
    with live s0(1) s(1) Handling show ?thesis by auto
  qed
qed

section \<open>A run\<close>

definition readable :: event_flags where
  "readable = \<lparr>fl_in = True, fl_out = False, fl_err = False, fl_hup = False\<rparr>"

text \<open>A client is accepted in one iteration, and its bytes are reported in the next.\<close>

lemma run_example:
  "reach (run_start capped) (run_step app_example) (deliver [Client_Event 5 readable] connected, Handling [Client_Event 5 readable])"
proof -
  let ?R = "reach (run_start capped) (run_step app_example)"
  have mode: "sv_running connected" "\<not> sv_stop_requested connected" "sv_last_cleanup connected = 0"
    by (simp_all add: connected_def handle_new_connection_def accept_one_def accepted_example_def started_def
        server_init_def Let_def env_example_def set_conn_def count_def)
  have "?R (started, Waiting)" by (rule reach_init) (auto simp: run_start_def starts_def started_def)
  moreover have "run_step app_example (started, Waiting) (deliver [Listen_Event readable] started, Handling [Listen_Event readable])"
    by (rule run_wait) (simp_all add: started_def server_init_def batch_ok_def reportable_def MAX_EVENTS_def)
  ultimately have "?R (started, Handling [Listen_Event readable])"
    using reach_next by (fastforce simp: deliver_def)
  moreover have "run_step app_example (started, Handling [Listen_Event readable]) (connected, Handling [])"
    by (rule run_event [of "env_example []" _ "[accepted_example]"])
      (simp_all add: handle_event_def readable_def connected_def accepted_example_def started_def server_init_def)
  ultimately have "?R (connected, Handling [])" by (rule reach_next)
  moreover have "run_step app_example (connected, Handling []) (loop_tail (env_example []) connected, Waiting)"
    by (rule run_tail) (simp_all add: env_example_def connected_simps)
  moreover have "loop_tail (env_example []) connected = connected"
    using mode connected_simps(11) by (simp add: loop_tail_def Let_def env_example_def cast_seconds_def nanos_def)
  ultimately have "?R (connected, Waiting)" using reach_next by metis
  moreover have "run_step app_example (connected, Waiting)
      (deliver [Client_Event 5 readable] connected, Handling [Client_Event 5 readable])"
    by (rule run_wait) (simp_all add: mode connected_simps batch_ok_def reportable_def readable_def MAX_EVENTS_def)
  ultimately show ?thesis by (rule reach_next)
qed

lemma run_refines_steps_witness:
  "\<exists>i. sv_conns connected 5 = Some i \<and> is_open (conn_of connected i)"
  using run_refines_steps [OF run_example] by auto

end
