(* ===== verification/Wakeup.thy ===== *)
theory Wakeup
  imports Machines
begin

text \<open>
  How the results of the workers wake the event loop: the queue \<open>completed_\<close> under its mutex, the
  self-pipe and its edge-triggered event (\<open>notify_event_loop\<close>, \<open>drain_wakeup\<close> and the swap in
  \<open>process_completions\<close> of \<open>src/server/Server.cpp\<close>). Server takes results off the queue whenever the
  wakeup event comes; here it is shown that the event does come for each of them.
\<close>

section \<open>State\<close>

text \<open>
  Where the loop is: in \<open>epoll_wait\<close> or with other events, with the wakeup event in its batch, in
  the loop of reads, in front of the swap.
\<close>

datatype loop_place = Polling | Reported | Draining | Taking

text \<open>
  \<open>wk_ready\<close> is the event on the ready list of the multiplexer, \<open>wk_notifying\<close> the number of workers
  between \<open>completed_.push\<close> and the write. \<open>wk_pushed\<close> and \<open>wk_taken\<close> record what went into the queue
  and what the loop took out.
\<close>

record 'r wakeup =
  wk_pipe_write :: int
  wk_pipe :: nat
  wk_ready :: bool
  wk_completed :: "'r list"
  wk_notifying :: nat
  wk_loop :: loop_place
  wk_pushed :: "'r list"
  wk_taken :: "'r list"

definition wakeup_init :: "int \<Rightarrow> 'r wakeup" where
  "wakeup_init fd = \<lparr>wk_pipe_write = fd, wk_pipe = 0, wk_ready = False, wk_completed = [], wk_notifying = 0,
     wk_loop = Polling, wk_pushed = [], wk_taken = []\<rparr>"

definition wakeup_start :: "int \<Rightarrow> 'r wakeup \<Rightarrow> bool" where
  "wakeup_start fd s \<longleftrightarrow> s = wakeup_init fd"

section \<open>Operations\<close>

definition push_completed :: "'r \<Rightarrow> 'r wakeup \<Rightarrow> 'r wakeup" where
  "push_completed r s = s\<lparr>wk_completed := wk_completed s @ [r], wk_notifying := Suc (wk_notifying s),
     wk_pushed := wk_pushed s @ [r]\<rparr>"

text \<open>
  One byte into the pipe of the given capacity. A full pipe is left as it is, an interrupted write is
  repeated. A write into an empty pipe triggers the event; whether one into a pipe that holds bytes
  does depends on the kernel, and is the argument \<open>again\<close>.
\<close>

fun notify_event_loop :: "nat \<Rightarrow> bool \<Rightarrow> nat \<Rightarrow> 'r wakeup \<Rightarrow> 'r wakeup" where
  "notify_event_loop cap again (Suc interruptions) s =
     (if wk_pipe_write s < 0 then s else notify_event_loop cap again interruptions s)"
| "notify_event_loop cap again 0 s =
     (if wk_pipe_write s < 0 then s
      else if wk_pipe s < cap
      then s\<lparr>wk_pipe := Suc (wk_pipe s), wk_ready := (wk_ready s \<or> wk_pipe s = 0 \<or> again)\<rparr>
      else s)"

definition kDrainBuffer :: nat where
  "kDrainBuffer = 256"

text \<open>One round of the loop of reads; a read of an empty pipe ends it.\<close>

definition drain_wakeup :: "'r wakeup \<Rightarrow> 'r wakeup" where
  "drain_wakeup s =
     (if 0 < wk_pipe s then s\<lparr>wk_pipe := wk_pipe s - min kDrainBuffer (wk_pipe s)\<rparr>
      else s\<lparr>wk_loop := Taking\<rparr>)"

definition take_completed :: "'r wakeup \<Rightarrow> 'r wakeup" where
  "take_completed s =
     s\<lparr>wk_completed := [], wk_taken := wk_taken s @ wk_completed s, wk_loop := Polling\<rparr>"

text \<open>What the loop does next, if the wakeup event concerns it at all.\<close>

definition loop_move :: "'r wakeup \<Rightarrow> 'r wakeup option" where
  "loop_move s =
     (case wk_loop s of
        Polling \<Rightarrow> if wk_ready s then Some (s\<lparr>wk_ready := False, wk_loop := Reported\<rparr>) else None
      | Reported \<Rightarrow> Some (s\<lparr>wk_loop := Draining\<rparr>)
      | Draining \<Rightarrow> Some (drain_wakeup s)
      | Taking \<Rightarrow> Some (take_completed s))"

fun loop_moves :: "nat \<Rightarrow> 'r wakeup \<Rightarrow> 'r wakeup option" where
  "loop_moves 0 s = Some s"
| "loop_moves (Suc n) s = (case loop_move s of None \<Rightarrow> None | Some s' \<Rightarrow> loop_moves n s')"

text \<open>Workers and the loop in any interleaving.\<close>

inductive wakeup_step :: "nat \<Rightarrow> 'r wakeup \<Rightarrow> 'r wakeup \<Rightarrow> bool" for cap where
  worker_pushes: "wakeup_step cap s (push_completed r s)"
| worker_notifies:
    "0 < wk_notifying s \<Longrightarrow>
     wakeup_step cap s (notify_event_loop cap again interruptions (s\<lparr>wk_notifying := wk_notifying s - 1\<rparr>))"
| stop_notifies: "wakeup_step cap s (notify_event_loop cap again interruptions s)"
| loop_goes: "loop_move s = Some s' \<Longrightarrow> wakeup_step cap s s'"

section \<open>The invariant\<close>

text \<open>
  A queued result is announced, and an announcement is seen: a byte in the pipe has its event on the
  ready list, unless the loop is on its way to read it.
\<close>

definition wakeup_ok :: "int \<Rightarrow> 'r wakeup \<Rightarrow> bool" where
  "wakeup_ok fd s \<longleftrightarrow>
     wk_pipe_write s = fd \<and> wk_pushed s = wk_taken s @ wk_completed s \<and>
     (wk_completed s \<noteq> [] \<longrightarrow> 0 < wk_notifying s \<or> 0 < wk_pipe s \<or> wk_loop s \<noteq> Polling) \<and>
     (0 < wk_pipe s \<longrightarrow> wk_ready s \<or> wk_loop s \<in> {Reported, Draining})"

lemma notify_once:
  assumes "0 \<le> wk_pipe_write s" "0 < cap"
  shows "\<exists>p r. notify_event_loop cap again n s = s\<lparr>wk_pipe := p, wk_ready := r\<rparr> \<and> 0 < p \<and>
    (wk_ready s \<longrightarrow> r) \<and> (wk_pipe s = 0 \<longrightarrow> r)"
proof (induction n)
  case 0
  show ?case
  proof (cases "wk_pipe s < cap")
    case True
    then show ?thesis using assms(1) by (intro exI conjI) (simp, simp_all)
  next
    case False
    then show ?thesis
      using assms by (intro exI [of _ "wk_pipe s"] exI [of _ "wk_ready s"]) simp
  qed
qed (use assms(1) in simp)

text \<open>Behind a write every queued result is announced.\<close>

lemma notify_ok:
  assumes "wk_pipe_write s = fd" "wk_pushed s = wk_taken s @ wk_completed s"
    "0 < wk_pipe s \<longrightarrow> wk_ready s \<or> wk_loop s \<in> {Reported, Draining}" "0 < cap" "0 \<le> fd"
  shows "wakeup_ok fd (notify_event_loop cap again n s)"
proof -
  have "0 \<le> wk_pipe_write s" using assms(1,5) by simp
  from notify_once [OF this assms(4), of again n] obtain p r where
    e: "notify_event_loop cap again n s = s\<lparr>wk_pipe := p, wk_ready := r\<rparr>" "0 < p" "wk_ready s \<longrightarrow> r"
    "wk_pipe s = 0 \<longrightarrow> r" by (elim exE conjE) (rule that)
  show ?thesis unfolding e(1) using e(2-4) assms(1-3) by (auto simp: wakeup_ok_def)
qed

lemma wakeup_step_ok:
  assumes "wakeup_step cap s s'" "wakeup_ok fd s" "0 < cap" "0 \<le> fd"
  shows "wakeup_ok fd s'"
  using assms(1)
proof cases
  case (worker_pushes r)
  then show ?thesis using assms(2) by (simp add: wakeup_ok_def push_completed_def)
next
  case (worker_notifies again n)
  show ?thesis unfolding worker_notifies(1)
    by (rule notify_ok) (use assms in \<open>simp_all add: wakeup_ok_def\<close>)
next
  case (stop_notifies again n)
  show ?thesis unfolding stop_notifies
    by (rule notify_ok) (use assms in \<open>simp_all add: wakeup_ok_def\<close>)
next
  case loop_goes
  then show ?thesis
    using assms(2)
    by (auto simp: wakeup_ok_def loop_move_def drain_wakeup_def take_completed_def
        split: loop_place.splits if_splits)
qed

interpretation wakeup_machine: machine "wakeup_start fd" "wakeup_step cap"
  "\<lambda>s. 0 < cap \<and> 0 \<le> fd \<longrightarrow> wakeup_ok fd s" for cap fd
  by unfold_locales (simp add: wakeup_start_def wakeup_ok_def wakeup_init_def, use wakeup_step_ok in blast)

section \<open>The loop takes what is queued\<close>

lemma draining_takes:
  "wk_loop s = Draining \<Longrightarrow> \<exists>n s'. n \<le> wk_pipe s + 2 \<and> loop_moves n s = Some s' \<and> wk_completed s' = []"
proof (induction "wk_pipe s" arbitrary: s rule: less_induct)
  case less
  show ?case
  proof (cases "wk_pipe s = 0")
    case True
    then have "loop_moves 2 s = Some (take_completed (s\<lparr>wk_loop := Taking\<rparr>))"
      using less.prems by (simp add: numeral_2_eq_2 loop_move_def drain_wakeup_def)
    then show ?thesis by (intro exI [of _ 2]) (simp add: take_completed_def)
  next
    case False
    let ?s = "s\<lparr>wk_pipe := wk_pipe s - min kDrainBuffer (wk_pipe s)\<rparr>"
    have m: "loop_move s = Some ?s" using less.prems False by (simp add: loop_move_def drain_wakeup_def)
    have "wk_pipe ?s < wk_pipe s" using False by (simp add: kDrainBuffer_def)
    from less.hyps [OF this] less.prems obtain n s' where
      "n \<le> wk_pipe ?s + 2" "loop_moves n ?s = Some s'" "wk_completed s' = []" by auto
    with m \<open>wk_pipe ?s < wk_pipe s\<close> show ?thesis by (intro exI [of _ "Suc n"] exI [of _ s']) simp
  qed
qed

lemma reported_takes:
  assumes "wk_loop s = Reported"
  shows "\<exists>n s'. n \<le> wk_pipe s + 3 \<and> loop_moves n s = Some s' \<and> wk_completed s' = []"
proof -
  from draining_takes [of "s\<lparr>wk_loop := Draining\<rparr>"] obtain n s' where
    "n \<le> wk_pipe s + 2" "loop_moves n (s\<lparr>wk_loop := Draining\<rparr>) = Some s'" "wk_completed s' = []" by auto
  then show ?thesis using assms by (intro exI [of _ "Suc n"] exI [of _ s']) (simp add: loop_move_def)
qed

text \<open>
  C9: no wakeup is lost. Whatever workers, requests to stop and the loop do between each other's
  steps, the results taken are the results pushed, in their order and once each; and when no worker
  is between its push and its write, the loop takes everything that is queued by its own next
  steps, without another notification, however few of the writes triggered an event and although a
  full pipe drops bytes.
\<close>

theorem no_wakeup_lost:
  assumes "reach (wakeup_start fd) (wakeup_step cap) s" "0 < cap" "0 \<le> fd"
  shows "wk_taken s @ wk_completed s = wk_pushed s \<and>
    (wk_notifying s = 0 \<longrightarrow>
       (\<exists>n s'. n \<le> wk_pipe s + 4 \<and> loop_moves n s = Some s' \<and> wk_completed s' = []))"
proof -
  from wakeup_machine.always_ok [OF assms(1)] assms(2,3) have ok: "wakeup_ok fd s" by simp
  have "\<exists>n s'. n \<le> wk_pipe s + 4 \<and> loop_moves n s = Some s' \<and> wk_completed s' = []" if no: "wk_notifying s = 0"
  proof (cases "wk_completed s = []")
    case True
    then show ?thesis by (intro exI [of _ 0] exI [of _ s]) simp
  next
    case False
    show ?thesis
    proof (cases "wk_loop s")
      case Polling
      with False no ok have r: "wk_ready s" by (auto simp: wakeup_ok_def)
      let ?s = "s\<lparr>wk_ready := False, wk_loop := Reported\<rparr>"
      from reported_takes [of ?s] obtain n s' where
        "n \<le> wk_pipe s + 3" "loop_moves n ?s = Some s'" "wk_completed s' = []" by auto
      then show ?thesis using Polling r by (intro exI [of _ "Suc n"] exI [of _ s']) (simp add: loop_move_def)
    next
      case Reported
      from reported_takes [OF this] obtain n s' where
        "n \<le> wk_pipe s + 3" "loop_moves n s = Some s'" "wk_completed s' = []" by blast
      then show ?thesis by (intro exI [of _ n] exI [of _ s']) simp
    next
      case Draining
      from draining_takes [OF this] obtain n s' where
        "n \<le> wk_pipe s + 2" "loop_moves n s = Some s'" "wk_completed s' = []" by blast
      then show ?thesis by (intro exI [of _ n] exI [of _ s']) simp
    next
      case Taking
      then have "loop_moves 1 s = Some (take_completed s)" by (simp add: loop_move_def)
      then show ?thesis by (intro exI [of _ 1]) (simp add: take_completed_def)
    qed
  qed
  then show ?thesis using ok by (simp add: wakeup_ok_def)
qed

text \<open>A pipe of one byte, two workers, and an event that only the first write triggers.\<close>

definition two_results :: "nat wakeup" where
  "two_results = notify_event_loop 1 False 0
     ((notify_event_loop 1 False 0
        ((push_completed 2 (push_completed 1 (wakeup_init 6)))\<lparr>wk_notifying := 1\<rparr>))\<lparr>wk_notifying := 0\<rparr>)"

lemma two_results_reachable: "reach (wakeup_start 6) (wakeup_step 1) two_results"
proof -
  let ?R = "reach (wakeup_start 6) (wakeup_step 1)"
  define a where "a = push_completed 2 (push_completed (1 :: nat) (wakeup_init 6))"
  define b where "b = notify_event_loop 1 False 0 (a\<lparr>wk_notifying := 1\<rparr>)"
  have n: "wk_notifying a = 2" "wk_notifying b = 1"
    by (simp_all add: a_def b_def push_completed_def wakeup_init_def)
  have t: "two_results = notify_event_loop 1 False 0 (b\<lparr>wk_notifying := 0\<rparr>)"
    by (simp only: two_results_def a_def b_def)
  have "?R (wakeup_init 6 :: nat wakeup)" by (rule reach_init) (simp add: wakeup_start_def)
  then have "?R (push_completed (1 :: nat) (wakeup_init 6))" using worker_pushes by (rule reach_next)
  then have "?R a" unfolding a_def using worker_pushes by (rule reach_next)
  moreover have "wakeup_step 1 a b"
    using worker_notifies [of a 1 False 0] n unfolding b_def by (simp del: notify_event_loop.simps)
  ultimately have "?R b" by (rule reach_next)
  moreover have "wakeup_step 1 b two_results"
    using worker_notifies [of b 1 False 0] n unfolding t by (simp del: notify_event_loop.simps)
  ultimately show ?thesis by (rule reach_next)
qed

lemma no_wakeup_lost_witness:
  "wk_pipe two_results = 1 \<and> wk_completed two_results = [1, 2] \<and>
   (\<exists>n s'. n \<le> 5 \<and> loop_moves n two_results = Some s' \<and> wk_completed s' = [])"
proof -
  have p: "wk_pipe two_results = 1" "wk_completed two_results = [1, 2]" "wk_notifying two_results = 0"
    by (simp_all add: two_results_def push_completed_def wakeup_init_def)
  from no_wakeup_lost [OF two_results_reachable] p show ?thesis by simp
qed

end
