(* ===== verification/Exchange.thy ===== *)
theory Exchange
  imports Server_Examples Http_Parser_Stream
begin

text \<open>
  From the bytes of the client to the bytes it reads back: a plain connection on which requests
  arrive in segments, the worker that answers each of them and the writes of the answers. The clock
  and the files are parameters; the peer takes one byte at a time, the slowest that still takes any.
\<close>

section \<open>The phases of a connection\<close>

definition serve_env :: "os \<Rightarrow> int \<Rightarrow> string \<Rightarrow> env" where
  "serve_env os now bs = \<lparr>en_now = now, en_os = os, en_accept = Accepted, en_recv = [Received bs],
     en_io = [Moved 1], en_rearm = (\<lambda>fd. True), en_fds = [], en_best_effort = (\<lambda>fd. 0)\<rparr>"

lemma serve_env_simps [simp]:
  "en_now (serve_env os now bs) = now" "en_os (serve_env os now bs) = os"
  "en_recv (serve_env os now bs) = [Received bs]" "en_io (serve_env os now bs) = [Moved 1]"
  "en_rearm (serve_env os now bs) fd"
  by (simp_all add: serve_env_def)

text \<open>A server that runs, is not stopping, and neither limits the rate nor sheds load.\<close>

definition serving :: "server \<Rightarrow> bool" where
  "serving s \<longleftrightarrow> sv_running s \<and> \<not> sv_draining s \<and> sv_limiter s = None \<and>
     st_max_concurrent_handlers (sv_settings s) \<le> 0"

text \<open>A plain connection, with the bytes that wait in its buffer; the buffer is never overfull.\<close>

definition plain :: "server \<Rightarrow> int \<Rightarrow> nat \<Rightarrow> string \<Rightarrow> bool" where
  "plain s fd i buf \<longleftrightarrow>
     serving s \<and> sv_conns s fd = Some i \<and> is_open (conn_of s i) \<and> \<not> cn_ssl (conn_of s i) \<and>
     cn_keep_alive (conn_of s i) \<and> cn_read_buffer (conn_of s i) = buf \<and> length buf \<le> READ_BUFFER_SIZE"

text \<open>The connection waits for more, with a part of a request in the buffer, or with nothing.\<close>

definition resting :: "server \<Rightarrow> int \<Rightarrow> nat \<Rightarrow> string \<Rightarrow> bool" where
  "resting s fd i part \<longleftrightarrow>
     plain s fd i part \<and> sv_armed s fd = Some True \<and> \<not> cn_processing (conn_of s i)"

definition waiting :: "server \<Rightarrow> int \<Rightarrow> nat \<Rightarrow> bool" where
  "waiting s fd i \<longleftrightarrow> resting s fd i []"

definition parsed :: "server \<Rightarrow> nat \<Rightarrow> bool" where
  "parsed s i \<longleftrightarrow> ps_state (cn_http_parser (conn_of s i)) = COMPLETE"

definition handed :: "server \<Rightarrow> int \<Rightarrow> nat \<Rightarrow> http_request \<Rightarrow> string \<Rightarrow> bool" where
  "handed s fd i v rest \<longleftrightarrow>
     plain s fd i rest \<and> parsed s i \<and>
     (\<exists>ts t. sv_tasks s = ts @ [t] \<and> tk_fd t = fd \<and> tk_conn t = i \<and> tk_request t = v)"

definition writing :: "os \<Rightarrow> server \<Rightarrow> int \<Rightarrow> nat \<Rightarrow> string \<Rightarrow> string \<Rightarrow> bool" where
  "writing os s fd i left rest \<longleftrightarrow>
     plain s fd i rest \<and> parsed s i \<and> sv_armed s fd = Some False \<and>
     writer_ok (conn_of s i) \<and> file_whole os (conn_of s i) \<and> pending os (conn_of s i) = left"

text \<open>
  Where a connection stands that is sent the requests \<open>qs\<close>, of which \<open>buf\<close> is in its buffer, once
  the loop has looked at it.
\<close>

fun looked_at :: "server \<Rightarrow> int \<Rightarrow> nat \<Rightarrow> string \<Rightarrow> (string \<times> http_request) list \<Rightarrow> bool" where
  "looked_at s fd i buf [] \<longleftrightarrow> resting s fd i buf"
| "looked_at s fd i buf (q # qs) \<longleftrightarrow>
     (if length (fst q) \<le> length buf then handed s fd i (snd q) (drop (length (fst q)) buf)
      else resting s fd i buf)"

section \<open>Runs\<close>

text \<open>
  A run in which the segments \<open>inp\<close> arrive on the connection \<open>fd\<close> and nothing else happens than that
  the loop reads them, workers take tasks, the loop collects their results and writes to \<open>fd\<close>.
\<close>

inductive exchange :: "app \<Rightarrow> int \<Rightarrow> string list \<Rightarrow> server \<Rightarrow> server \<Rightarrow> bool" for app fd where
  exchange_done: "exchange app fd [] s s"
| exchange_read:
    "sv_running s \<Longrightarrow> sv_armed s fd = Some True \<Longrightarrow> en_recv env = [Received bs] \<Longrightarrow> bs \<noteq> [] \<Longrightarrow>
     length bs \<le> READ_BUFFER_SIZE \<Longrightarrow> handle_client_data env app fd (disarm fd s) = Some s1 \<Longrightarrow>
     exchange app fd inp s1 s' \<Longrightarrow> exchange app fd (bs # inp) s s'"
| exchange_write:
    "sv_running s \<Longrightarrow> sv_armed s fd = Some False \<Longrightarrow> handle_write_ready env app fd (disarm fd s) = Some s1 \<Longrightarrow>
     exchange app fd inp s1 s' \<Longrightarrow> exchange app fd inp s s'"
| exchange_task:
    "k < length (sv_tasks s) \<Longrightarrow> run_task env app k s = Some s1 \<Longrightarrow> exchange app fd inp s1 s' \<Longrightarrow>
     exchange app fd inp s s'"
| exchange_wakeup:
    "sv_running s \<Longrightarrow> exchange app fd inp (process_completions env s) s' \<Longrightarrow> exchange app fd inp s s'"

lemma exchange_run: "exchange app fd inp s s' \<Longrightarrow> (step app)\<^sup>*\<^sup>* s s'"
  by (induction rule: exchange.induct)
    (auto intro: converse_rtranclp_into_rtranclp step_readable step_writable step_task step_wakeup)

lemma exchange_ok: "exchange app fd inp s s' \<Longrightarrow> server_ok s \<Longrightarrow> server_ok s'"
  using server_machine.steps_keep [OF exchange_run] .

lemma exchange_trans: "exchange app fd inp s s1 \<Longrightarrow> exchange app fd inp' s1 s' \<Longrightarrow> exchange app fd (inp @ inp') s s'"
  by (induction rule: exchange.induct) (auto intro: exchange.intros)

lemma exchange_on: "exchange app fd [] s s1 \<Longrightarrow> exchange app fd inp s1 s' \<Longrightarrow> exchange app fd inp s s'"
  using exchange_trans [of app fd "[]" s s1 inp s'] by simp

section \<open>Taking a request\<close>

text \<open>The text \<open>raw\<close> of one request, read as \<open>v\<close> whatever arrives behind it and leaving that alone.\<close>

definition request_text :: "string \<Rightarrow> http_request \<Rightarrow> bool" where
  "request_text raw v \<longleftrightarrow> raw \<noteq> [] \<and>
     (\<forall>rest. length (raw @ rest) \<le> READ_BUFFER_SIZE \<longrightarrow>
        (\<exists>p buf. ps_state p = COMPLETE \<and> drop (length raw) buf = rest \<and>
        parse_request parser_init (raw @ rest) request_init =
          Some \<lparr>pr_ok = True, pr_consumed = length raw, pr_parser = p, pr_buffer = buf, pr_request = v\<rparr>))"

text \<open>The requests a client may send: without a body, with one of known length, or chunked.\<close>

lemma request_text_sized: "client_ok q \<Longrightarrow> request_text (client_bytes q) (client_value q)"
  using client_parse [of q] client_bytes_nonempty [of q] by (simp add: request_text_def)

lemma request_text_bodyless:
  assumes "well_formed_head m target version hs" "''Transfer-Encoding'' \<notin> fst ` set hs"
    "''Content-Length'' \<notin> fst ` set hs"
  shows "request_text (request_head m target version hs @ crlf) (read_head m target version hs)"
  using parse_render_bodyless [OF assms] by (simp add: request_text_def)

lemma request_text_chunked:
  assumes "hs' = hs @ [(''Transfer-Encoding'', ''chunked'')]"
    "well_formed_head m target version hs'" "''Content-Length'' \<notin> fst ` set hs"
    "chunks_ok hcs fin ts" "length (concat (map snd hcs)) \<le> MAX_BODY_BYTES"
  shows "request_text (request_head m target version hs' @ crlf @ render_chunks hcs fin ts)
     ((read_head m target version hs')\<lparr>rq_body := concat (map snd hcs)\<rparr>)"
proof -
  have "length (render_chunks hcs fin ts @ rest) < 2 ^ 63"
    if "length ((request_head m target version hs' @ crlf @ render_chunks hcs fin ts) @ rest) \<le> READ_BUFFER_SIZE" for rest
    using that by (simp add: READ_BUFFER_SIZE_def)
  with parse_chunked_request [OF assms(1-3) dechunk_render [OF assms(4)] assms(5)] show ?thesis
    by (simp add: request_text_def)
qed

text \<open>The same with a length that stands anywhere among the headers.\<close>

lemma request_text_length:
  assumes "well_formed_head m target version hs" "''Transfer-Encoding'' \<notin> fst ` set hs"
    "header (read_head m target version hs) ''Content-Length'' = Some (dec (length body))"
    "length body \<le> MAX_BODY_BYTES"
  shows "request_text (request_head m target version hs @ crlf @ body) ((read_head m target version hs)\<lparr>rq_body := body\<rparr>)"
  using parse_sized_request [OF assms] by (simp add: request_text_def)

lemma parse_next_request:
  assumes "request_text raw v" "cn_read_buffer c = raw @ rest" "length (raw @ rest) \<le> READ_BUFFER_SIZE"
  shows "\<exists>p buf. ps_state p = COMPLETE \<and> drop (length raw) buf = rest \<and>
     parse_next c = Some (True, length raw, c\<lparr>cn_http_parser := p, cn_current_request := v, cn_read_buffer := buf\<rparr>)"
proof -
  from assms(1,3) obtain p buf where "ps_state p = COMPLETE" "drop (length raw) buf = rest" "raw \<noteq> []"
    "parse_request parser_init (raw @ rest) request_init =
       Some \<lparr>pr_ok = True, pr_consumed = length raw, pr_parser = p, pr_buffer = buf, pr_request = v\<rparr>"
    unfolding request_text_def by blast
  then show ?thesis using assms(2)
    by (intro exI [of _ p] exI [of _ buf]) (simp add: parse_next_def parser_reset_all Let_def)
qed

lemma consume_buffer: "consume n (c\<lparr>cn_read_buffer := buf\<rparr>) = c\<lparr>cn_read_buffer := drop n buf\<rparr>"
  by (simp add: consume_def)

lemma dispatch_client:
  assumes "plain s fd i (raw @ rest)" "\<not> cn_processing (conn_of s i)" "request_text raw v"
  shows "\<exists>s'. dispatch_next env app fd i s = Some s' \<and> handed s' fd i v rest \<and> sv_wire s' = sv_wire s"
proof -
  from parse_next_request [OF assms(3), of "conn_of s i" rest] assms(1) obtain p buf where
    "ps_state p = COMPLETE" "drop (length raw) buf = rest"
    "parse_next (conn_of s i) = Some (True, length raw,
       (conn_of s i)\<lparr>cn_http_parser := p, cn_current_request := v, cn_read_buffer := buf\<rparr>)"
    by (auto simp: plain_def)
  then show ?thesis
    using assms(1,2)
    by (simp add: plain_def serving_def handed_def parsed_def dispatch_next_def Let_def rate_allowed_def
        at_capacity_def count_def set_conn_def consume_buffer is_open_def)
qed

lemma dispatch_empty:
  assumes "plain s fd i []" "parsed s i" "\<not> cn_processing (conn_of s i)"
  shows "\<exists>s'. dispatch_next (serve_env os now bs) app fd i s = Some s' \<and> resting s' fd i [] \<and> sv_wire s' = sv_wire s"
  using assms
  by (simp add: plain_def serving_def resting_def parsed_def dispatch_next_def Let_def parse_next_def
      parser_failed_def maybe_send_100_continue_def rearm_def set_conn_def put_wire_def is_open_def)

text \<open>
  A request may be cut anywhere if its header block keeps away from the limit, it fits the buffer and
  does not ask for an interim response.
\<close>

definition divisible :: "string \<Rightarrow> http_request \<Rightarrow> bool" where
  "divisible raw v \<longleftrightarrow>
     header_span raw < MAX_HEADER_BYTES - 2 \<and> length raw \<le> READ_BUFFER_SIZE \<and> header v ''Expect'' = None"

lemma divisible_head:
  assumes "raw = request_head m target version hs @ crlf @ rest" "length (request_head m target version hs) < MAX_HEADER_BYTES"
    "length raw \<le> READ_BUFFER_SIZE" "header v ''Expect'' = None"
  shows "divisible raw v"
proof -
  obtain t where t: "request_head m target version hs = t @ crlf" using request_head_ends by blast
  have "header_span (t @ crlf @ crlf @ rest) \<le> length t" by (rule header_span_le) simp_all
  with assms t show ?thesis by (simp add: divisible_def)
qed

lemma parse_next_partial:
  assumes "request_text raw v" "divisible raw v" "raw = pre @ suf" "suf \<noteq> []" "cn_read_buffer c = pre" "pre \<noteq> []"
  shows "\<exists>p n r. ps_state p \<noteq> ERROR \<and> (ps_state p = BODY \<longrightarrow> header r ''Expect'' = None) \<and>
     parse_next c = Some (False, n, c\<lparr>cn_http_parser := p, cn_current_request := r\<rparr>)"
proof -
  from assms(1,2) obtain p buf where
    R: "parse_request parser_init (raw @ []) request_init =
       Some \<lparr>pr_ok = True, pr_consumed = length raw, pr_parser = p, pr_buffer = buf, pr_request = v\<rparr>"
    unfolding request_text_def divisible_def by (metis append_Nil2)
  have "header_span raw < MAX_HEADER_BYTES - 2" "length raw < 2 ^ 63"
    using assms(2) by (simp_all add: divisible_def READ_BUFFER_SIZE_def)
  with parse_request_prefix [of pre suf, OF _ _ _ assms(4)] R assms(3) obtain res where
    res: "parse_request parser_init pre request_init = Some res" "\<not> pr_ok res" "ps_state (pr_parser res) \<noteq> ERROR"
    "ps_state (pr_parser res) = BODY \<longrightarrow> rq_headers (pr_request res) = rq_headers v" by auto
  have "pr_buffer res = cn_read_buffer c" using parse_request_report(4) [OF res(1)] res(2) assms(5) by simp
  then have "parse_next c = Some (False, pr_consumed res,
      c\<lparr>cn_http_parser := pr_parser res, cn_current_request := pr_request res\<rparr>)"
    using res assms(5,6) by (simp add: parse_next_def parser_reset_all Let_def)
  moreover have "header v ''Expect'' = None" using assms(2) by (simp add: divisible_def)
  ultimately show ?thesis using res(3,4)
    by (intro exI [of _ "pr_parser res"] exI [of _ "pr_consumed res"] exI [of _ "pr_request res"])
      (simp add: header_def)
qed

lemma dispatch_partial:
  assumes "plain s fd i pre" "\<not> cn_processing (conn_of s i)" "request_text raw v" "divisible raw v"
    "raw = pre @ suf" "suf \<noteq> []" "pre \<noteq> []"
  shows "\<exists>s'. dispatch_next (serve_env os now bs) app fd i s = Some s' \<and> resting s' fd i pre \<and> sv_wire s' = sv_wire s"
proof -
  have "cn_read_buffer (conn_of s i) = pre" using assms(1) by (simp add: plain_def)
  from parse_next_partial [OF assms(3-6) this assms(7)] obtain p n r where
    "ps_state p \<noteq> ERROR" "ps_state p = BODY \<longrightarrow> header r ''Expect'' = None"
    "parse_next (conn_of s i) = Some (False, n, (conn_of s i)\<lparr>cn_http_parser := p, cn_current_request := r\<rparr>)"
    by blast
  then show ?thesis
    using assms(1,2)
    by (auto simp: plain_def serving_def resting_def dispatch_next_def Let_def parser_failed_def
        maybe_send_100_continue_def rearm_def set_conn_def put_wire_def is_open_def)
qed

definition requests_ok :: "(string \<times> http_request) list \<Rightarrow> bool" where
  "requests_ok qs \<longleftrightarrow> (\<forall>(raw, v) \<in> set qs. request_text raw v \<and> divisible raw v)"

lemma requests_ok_simps [simp]:
  "requests_ok []" "requests_ok ((raw, v) # qs) \<longleftrightarrow> request_text raw v \<and> divisible raw v \<and> requests_ok qs"
  by (auto simp: requests_ok_def)

lemma first_in_buffer:
  assumes "raw @ texts = buf @ later" "length raw \<le> length buf"
  shows "buf = raw @ drop (length raw) buf" "texts = drop (length raw) buf @ later"
  using assms by (auto simp: append_eq_append_conv2)

lemma first_not_in_buffer:
  assumes "raw @ texts = buf @ later" "\<not> length raw \<le> length buf"
  shows "raw = buf @ drop (length buf) raw" "drop (length buf) raw \<noteq> []"
  using assms by (auto simp: append_eq_append_conv2)

lemma dispatch_looks:
  assumes "plain s fd i buf" "buf = [] \<Longrightarrow> parsed s i" "\<not> cn_processing (conn_of s i)"
    "requests_ok qs" "concat (map fst qs) = buf @ later"
  shows "\<exists>s'. dispatch_next (serve_env os now bs) app fd i s = Some s' \<and> looked_at s' fd i buf qs \<and> sv_wire s' = sv_wire s"
proof (cases "buf = []")
  case True
  have "looked_at s' fd i [] qs" if "resting s' fd i []" for s'
    using that assms(4) by (cases qs) (auto simp: request_text_def)
  then show ?thesis using dispatch_empty [of s fd i os now bs app] assms(1-3) True by blast
next
  case False
  then obtain raw v qs' where qs: "qs = (raw, v) # qs'" using assms(5) by (cases qs) auto
  show ?thesis
  proof (cases "length raw \<le> length buf")
    case True
    then have "buf = raw @ drop (length raw) buf"
      using first_in_buffer(1) [of raw "concat (map fst qs')" buf later] assms(5) by (simp add: qs)
    with dispatch_client [of s fd i raw "drop (length raw) buf" v "serve_env os now bs" app] assms qs True
    show ?thesis by simp
  next
    case False
    then have "raw = buf @ drop (length buf) raw" "drop (length buf) raw \<noteq> []"
      using first_not_in_buffer [of raw "concat (map fst qs')" buf later] assms(5) by (simp_all add: qs)
    from dispatch_partial [OF assms(1,3) _ _ this \<open>buf \<noteq> []\<close>, of v os now bs app] assms(4) qs False
    show ?thesis by simp
  qed
qed

lemma read_step:
  assumes "resting s fd i part" "bs \<noteq> []" "length (part @ bs) \<le> READ_BUFFER_SIZE"
    "requests_ok qs" "concat (map fst qs) = (part @ bs) @ later"
  shows "\<exists>s'. exchange app fd [bs] s s' \<and> looked_at s' fd i (part @ bs) qs \<and> sv_wire s' = sv_wire s"
proof -
  let ?env = "serve_env os_example 0" and ?buf = "part @ bs"
  let ?c = "update_activity 0 ((conn_of s i)\<lparr>cn_read_buffer := ?buf\<rparr>)"
  let ?s1 = "set_conn i ?c (disarm fd s)"
  have "length part < READ_BUFFER_SIZE" using assms(2,3) by (cases bs) auto
  then have read: "read_data 0 [Received bs] (conn_of s i) = (int (length bs), ?c)"
    using assms(1-3)
    by (simp add: resting_def plain_def is_open_def read_data_def Let_def READ_BUFFER_SIZE_def)
  have "plain ?s1 fd i ?buf" "\<not> cn_processing (conn_of ?s1 i)"
    using assms(1,3) by (simp_all add: resting_def plain_def serving_def disarm_def set_conn_def update_activity_def is_open_def)
  from dispatch_looks [OF this(1) _ this(2) assms(4,5), of os_example 0 bs app] assms(2) obtain s' where
    s': "dispatch_next (?env bs) app fd i ?s1 = Some s'" "looked_at s' fd i ?buf qs" "sv_wire s' = sv_wire ?s1"
    by auto
  have "handle_client_data (?env bs) app fd (disarm fd s) = Some s'"
    using assms(1,2) read s'(1)
    by (simp add: handle_client_data_def resting_def plain_def disarm_def needs_handshake_def)
  moreover have "sv_running s" "sv_armed s fd = Some True"
    using assms(1) by (simp_all add: resting_def plain_def serving_def)
  ultimately have "exchange app fd [bs] s s'"
    using assms(2,3) by (intro exchange_read [of s fd "?env bs", OF _ _ _ _ _ _ exchange_done]) simp_all
  moreover have "sv_wire ?s1 = sv_wire s" by (simp add: disarm_def set_conn_def)
  ultimately show ?thesis using s' by auto
qed

section \<open>Answering it\<close>

text \<open>What a result does to the rest of the server, whichever connection it belongs to.\<close>

lemma complete_one_frame:
  "sv_running (complete_one env m s) = sv_running s" "sv_draining (complete_one env m s) = sv_draining s"
  "sv_limiter (complete_one env m s) = sv_limiter s" "sv_settings (complete_one env m s) = sv_settings s"
  "sv_wire (complete_one env m s) = sv_wire s"
  by (simp_all add: complete_one_def Let_def rearm_def close_connection_def count_def set_conn_def split: option.split)

lemma complete_fold_frame:
  "serving (fold (complete_one env) q s) = serving s \<and> sv_wire (fold (complete_one env) q s) = sv_wire s"
  by (induction q arbitrary: s) (simp_all add: serving_def complete_one_frame)

lemma task_step:
  assumes "handed s fd i v rest" "handle_request app v = Some (Some res)"
  shows "\<exists>s' ms. exchange app fd [] s s' \<and> plain s' fd i rest \<and> parsed s' i \<and> sv_wire s' = sv_wire s \<and>
     sv_completed s' = ms @ [\<lparr>cm_fd = fd, cm_conn = i, cm_response = res\<rparr>]"
proof -
  from assms(1) obtain ts t where t: "sv_tasks s = ts @ [t]" "tk_fd t = fd" "tk_conn t = i"
    "tk_request t = v" by (auto simp: handed_def)
  obtain s' where s': "run_task (serve_env os_example 0 []) app (length ts) s = Some s'" "plain s' fd i rest"
    "parsed s' i" "sv_wire s' = sv_wire s"
    "sv_completed s' = sv_completed s @ [\<lparr>cm_fd = fd, cm_conn = i, cm_response = res\<rparr>]"
    using assms t by (simp add: run_task_def Let_def handed_def plain_def serving_def parsed_def count_def)
  have "exchange app fd [] s s'" using t(1) by (intro exchange_task [OF _ s'(1) exchange_done]) simp
  with s' show ?thesis by blast
qed

lemma file_whole_response: "file_whole os (set_response_content os res c) = file_whole os (set_response_content os res c')"
  by (simp add: file_whole_def set_response_content_def clear_response_state_def Let_def)

text \<open>A response that can be sent: the part of the file it names, if it names one, is there.\<close>

definition sendable :: "os \<Rightarrow> http_response \<Rightarrow> bool" where
  "sendable os res \<longleftrightarrow>
     0 \<le> rs_file_offset res \<and> file_whole os (set_response_content os res (connection_init 0 0))"

lemma wakeup_step:
  assumes "server_ok s" "plain s fd i rest" "parsed s i" "sendable os res"
    "sv_completed s = ms @ [\<lparr>cm_fd = fd, cm_conn = i, cm_response = res\<rparr>]"
  shows "\<exists>s'. exchange app fd [] s s' \<and> writing os s' fd i (response_bytes os res) rest \<and> sv_wire s' = sv_wire s"
proof -
  let ?env = "serve_env os 0 []" and ?item = "\<lparr>cm_fd = fd, cm_conn = i, cm_response = res\<rparr>"
  let ?s1 = "fold (complete_one ?env) ms (s\<lparr>sv_completed := []\<rparr>)"
  let ?s' = "process_completions ?env s"
  have "outstanding s i \<le> 1" using work_okD(2) [OF server_okD(2) [OF assms(1)]] .
  then have "\<forall>m \<in> set ms. cm_conn m \<noteq> i"
    using assms(5) by (auto simp: outstanding_def filter_empty_conv)
  with complete_fold_other [of "s\<lparr>sv_completed := []\<rparr>" fd i ms ?env] assms(2)
  have s1: "sv_conns ?s1 fd = Some i" "conn_of ?s1 i = conn_of s i" by (simp_all add: plain_def)
  have fr: "serving ?s1" "sv_wire ?s1 = sv_wire s"
    using complete_fold_frame [of ?env ms "s\<lparr>sv_completed := []\<rparr>"] assms(2)
    by (simp_all add: plain_def) (simp_all add: serving_def)
  have s': "?s' = complete_one ?env ?item ?s1" using assms(5) by (simp add: process_completions_def)
  let ?c = "set_response_content os res ((conn_of s i)\<lparr>cn_worker_in_flight := False\<rparr>)"
  have keep: "is_open ?c = is_open (conn_of s i)" "cn_ssl ?c = cn_ssl (conn_of s i)"
    "cn_keep_alive ?c = cn_keep_alive (conn_of s i)" "cn_read_buffer ?c = cn_read_buffer (conn_of s i)"
    "cn_http_parser ?c = cn_http_parser (conn_of s i)"
    by (simp_all add: set_response_content_def clear_response_state_def Let_def is_open_def)
  have c: "writer_ok ?c" "pending os ?c = response_bytes os res" "file_whole os ?c"
    using set_response_pending [of res os] assms(4)
      file_whole_response [of os res "(conn_of s i)\<lparr>cn_worker_in_flight := False\<rparr>" "connection_init 0 0"]
    by (simp_all add: sendable_def)
  have "writing os ?s' fd i (response_bytes os res) rest"
    using s1 fr c keep assms(2,3)
    by (simp add: s' complete_one_def Let_def writing_def plain_def serving_def parsed_def rearm_def set_conn_def)
  moreover have "sv_wire ?s' = sv_wire s" using fr by (simp add: s' complete_one_frame)
  moreover have "exchange app fd [] s ?s'"
    using assms(2) by (intro exchange_wakeup [OF _ exchange_done]) (simp add: plain_def serving_def)
  ultimately show ?thesis by blast
qed

section \<open>Writing the answer\<close>

lemma write_step:
  assumes "writing os s fd i left rest" "left \<noteq> []" "requests_ok qs" "concat (map fst qs) = rest @ later"
  shows "\<exists>s' w left'. exchange app fd [] s s' \<and> left = w @ left' \<and> w \<noteq> [] \<and> sv_wire s' i = sv_wire s i @ w \<and>
     (if left' = [] then looked_at s' fd i rest qs else writing os s' fd i left' rest)"
proof -
  let ?env = "serve_env os 0 []" and ?c = "conn_of s i"
  obtain n w c where w: "write_data os 0 [Moved 1] ?c = (n, w, c)" by (metis prod_cases3)
  have cs: "writer_ok ?c" "0 \<le> cn_socket_fd ?c" "pending os ?c = left" "file_whole os ?c"
    using assms(1) by (simp_all add: writing_def plain_def is_open_def)
  have mv: "0 \<le> n" "w \<noteq> []" using write_data_eager [OF _ cs(1,2) _ w] cs(3) assms(2) by (simp_all add: willing_def)
  have wr: "writer_ok c" "left = w @ pending os c" "file_whole os c"
    using write_data_writes(1) [OF cs(1) w] cs(3,4) by (simp_all add: writes_def)
  note own = write_data_keeps [OF w, unfolded same_owner_def]
  let ?s1 = "put_wire i w (set_conn i c (disarm fd s))"
  have s1: "plain ?s1 fd i rest" "parsed ?s1 i" "sv_wire ?s1 i = sv_wire s i @ w"
    using assms(1) own
    by (simp_all add: writing_def plain_def serving_def parsed_def put_wire_def set_conn_def disarm_def is_open_def)
  have go: "sv_running s" "sv_armed s fd = Some False"
    using assms(1) by (simp_all add: writing_def plain_def serving_def)
  have h: "handle_write_ready ?env app fd (disarm fd s) =
      (if has_data_to_write c then Some (rearm ?env fd False ?s1)
       else dispatch_next ?env app fd i
         (set_conn i (update_activity 0 ((clear_response_state c)\<lparr>cn_processing := False\<rparr>)) ?s1))"
    using assms(1) w mv own
    by (simp add: handle_write_ready_def writing_def plain_def serving_def disarm_def needs_handshake_def
        Let_def put_wire_def set_conn_def)
  show ?thesis
  proof (cases "has_data_to_write c")
    case True
    then have "pending os c \<noteq> []" using has_data_pending [OF wr(1,3)] by simp
    moreover have "writing os (rearm ?env fd False ?s1) fd i (pending os c) rest"
      using s1 wr by (simp add: writing_def plain_def serving_def parsed_def rearm_def put_wire_def set_conn_def)
    moreover have "sv_wire (rearm ?env fd False ?s1) i = sv_wire s i @ w"
      using s1(3) by (simp add: rearm_def)
    moreover have "exchange app fd [] s (rearm ?env fd False ?s1)"
      using h True by (intro exchange_write [OF go _ exchange_done]) simp
    ultimately show ?thesis using wr(2) mv(2) by auto
  next
    case False
    then have "pending os c = []" using nothing_to_write [OF wr(1)] by simp
    let ?s2 = "set_conn i (update_activity 0 ((clear_response_state c)\<lparr>cn_processing := False\<rparr>)) ?s1"
    have "plain ?s2 fd i rest" "parsed ?s2 i" "\<not> cn_processing (conn_of ?s2 i)" "sv_wire ?s2 = sv_wire ?s1"
      using s1 by (simp_all add: plain_def serving_def parsed_def put_wire_def set_conn_def
          update_activity_def clear_response_state_def is_open_def)
    from dispatch_looks [OF this(1) _ this(3) assms(3,4), of os 0 "[]" app] this(2,4) obtain s' where
      s': "dispatch_next ?env app fd i ?s2 = Some s'" "looked_at s' fd i rest qs" "sv_wire s' = sv_wire ?s1"
      by auto
    have "exchange app fd [] s s'" using h False s'(1) by (intro exchange_write [OF go _ exchange_done]) simp
    then show ?thesis using \<open>pending os c = []\<close> wr(2) mv(2) s' s1(3) by (metis append_Nil2)
  qed
qed

lemma write_all:
  "writing os s fd i left rest \<Longrightarrow> left \<noteq> [] \<Longrightarrow> requests_ok qs \<Longrightarrow> concat (map fst qs) = rest @ later \<Longrightarrow>
     \<exists>s'. exchange app fd [] s s' \<and> looked_at s' fd i rest qs \<and> sv_wire s' i = sv_wire s i @ left"
proof (induction "length left" arbitrary: s left rule: less_induct)
  case less
  from write_step [OF less.prems, of app] obtain s1 w left' where
    s1: "exchange app fd [] s s1" "left = w @ left'" "w \<noteq> []" "sv_wire s1 i = sv_wire s i @ w"
    "if left' = [] then looked_at s1 fd i rest qs else writing os s1 fd i left' rest"
    by blast
  show ?case
  proof (cases "left' = []")
    case True
    with s1 show ?thesis by auto
  next
    case False
    with s1 less.hyps [of left' s1] less.prems(3,4) obtain s' where
      "exchange app fd [] s1 s'" "looked_at s' fd i rest qs" "sv_wire s' i = sv_wire s1 i @ left'" by auto
    with s1 show ?thesis by (auto intro: exchange_on)
  qed
qed

section \<open>The exchange\<close>

lemma response_nonempty: "response_bytes os res \<noteq> []"
  by (simp add: response_bytes_def build_headers_string_def)

lemma answer_steps:
  assumes "server_ok s" "handed s fd i v rest" "requests_ok qs" "concat (map fst qs) = rest @ later"
    "handle_request app v = Some (Some res)" "sendable os res"
  shows "\<exists>s'. exchange app fd [] s s' \<and> looked_at s' fd i rest qs \<and> sv_wire s' i = sv_wire s i @ response_bytes os res"
proof -
  from task_step [OF assms(2,5)] obtain s1 ms where s1: "exchange app fd [] s s1"
    "plain s1 fd i rest" "parsed s1 i" "sv_wire s1 = sv_wire s"
    "sv_completed s1 = ms @ [\<lparr>cm_fd = fd, cm_conn = i, cm_response = res\<rparr>]" by blast
  from wakeup_step [OF exchange_ok [OF s1(1) assms(1)] s1(2,3) assms(6) s1(5), of app] obtain s2 where
    s2: "exchange app fd [] s1 s2" "writing os s2 fd i (response_bytes os res) rest"
    "sv_wire s2 = sv_wire s1" by blast
  from write_all [OF s2(2) response_nonempty assms(3,4), of app] obtain s' where
    "exchange app fd [] s2 s'" "looked_at s' fd i rest qs" "sv_wire s' i = sv_wire s2 i @ response_bytes os res" by blast
  with s1 s2 show ?thesis by (auto intro: exchange_on)
qed

text \<open>What the requests of a client are, and that the application answers them.\<close>

definition answered :: "app \<Rightarrow> os \<Rightarrow> (http_request \<Rightarrow> http_response) \<Rightarrow> (string \<times> http_request) list \<Rightarrow> bool" where
  "answered app os resp qs \<longleftrightarrow>
     requests_ok qs \<and> (\<forall>(raw, v) \<in> set qs. handle_request app v = Some (Some (resp v)) \<and> sendable os (resp v))"

definition answers :: "os \<Rightarrow> (http_request \<Rightarrow> http_response) \<Rightarrow> (string \<times> http_request) list \<Rightarrow> string" where
  "answers os resp qs = concat (map (\<lambda>(raw, v). response_bytes os (resp v)) qs)"

lemma answers_simps [simp]:
  "answers os resp [] = []" "answers os resp ((raw, v) # qs) = response_bytes os (resp v) @ answers os resp qs"
  by (simp_all add: answers_def)

text \<open>Of \<open>n\<close> bytes in the buffer and the requests they begin, what is left once the whole ones are taken.\<close>

fun taken :: "nat \<Rightarrow> (string \<times> http_request) list \<Rightarrow> nat \<times> (string \<times> http_request) list" where
  "taken n [] = (n, [])"
| "taken n (q # qs) = (if length (fst q) \<le> n then taken (n - length (fst q)) qs else (n, q # qs))"

lemma taken_settled: "taken n qs = (m, qs') \<Longrightarrow> taken m qs' = (m, qs')"
  by (induction n qs rule: taken.induct) (auto split: if_splits)

lemma taken_le: "taken n qs = (m, qs') \<Longrightarrow> m \<le> n"
  by (induction n qs rule: taken.induct) (auto split: if_splits)

lemma taken_all: "taken (length (concat (map fst qs))) qs = (0, [])"
  by (induction qs) auto

text \<open>The requests in the buffer are answered one after the other, up to one that is not there in full.\<close>

lemma answer_buffer:
  "server_ok s \<Longrightarrow> looked_at s fd i buf qs \<Longrightarrow> answered app os resp qs \<Longrightarrow> concat (map fst qs) = buf @ later \<Longrightarrow>
   taken (length buf) qs = (n, qs') \<Longrightarrow>
     \<exists>s' part. exchange app fd [] s s' \<and> resting s' fd i part \<and> length part = n \<and>
       concat (map fst qs') = part @ later \<and> answered app os resp qs' \<and>
       sv_wire s' i @ answers os resp qs' = sv_wire s i @ answers os resp qs"
proof (induction qs arbitrary: s buf)
  case Nil
  then show ?case by (auto intro: exchange_done)
next
  case (Cons q qs)
  obtain raw v where q: "q = (raw, v)" by (cases q)
  show ?case
  proof (cases "length raw \<le> length buf")
    case False
    with Cons.prems have "resting s fd i buf" "n = length buf" "qs' = q # qs" by (simp_all add: q)
    with Cons.prems(3,4) show ?thesis by (intro exI [of _ s] exI [of _ buf]) (simp add: exchange_done)
  next
    case True
    let ?rest = "drop (length raw) buf"
    have rest: "concat (map fst qs) = ?rest @ later"
      using first_in_buffer(2) [of raw _ buf later] Cons.prems(4) True by (simp add: q)
    from Cons.prems(3) have v: "handle_request app v = Some (Some (resp v))" "sendable os (resp v)"
      and qs: "requests_ok qs" "answered app os resp qs"
      by (auto simp: answered_def q)
    from Cons.prems(2) True have "handed s fd i v ?rest" by (simp add: q)
    from answer_steps [OF Cons.prems(1) this qs(1) rest v] obtain s1 where s1: "exchange app fd [] s s1"
      "looked_at s1 fd i ?rest qs" "sv_wire s1 i = sv_wire s i @ response_bytes os (resp v)" by blast
    have "taken (length ?rest) qs = (n, qs')" using Cons.prems(5) True by (simp add: q)
    from Cons.IH [OF exchange_ok [OF s1(1) Cons.prems(1)] s1(2) qs(2) rest this] obtain s' part where
      "exchange app fd [] s1 s'" "resting s' fd i part" "length part = n" "concat (map fst qs') = part @ later"
      "answered app os resp qs'" "sv_wire s' i @ answers os resp qs' = sv_wire s1 i @ answers os resp qs" by blast
    with s1 show ?thesis by (auto intro: exchange_on simp: q)
  qed
qed

text \<open>
  Whether the buffer holds what arrives, if the segments \<open>cs\<close> of the requests \<open>qs\<close> are read when it
  has \<open>n\<close> bytes of them and the whole ones are answered before the next segment is read.
\<close>

fun buffer_fits :: "nat \<Rightarrow> string list \<Rightarrow> (string \<times> http_request) list \<Rightarrow> bool" where
  "buffer_fits n [] qs \<longleftrightarrow> True"
| "buffer_fits n (bs # cs) qs \<longleftrightarrow>
     n + length bs \<le> READ_BUFFER_SIZE \<and> (case taken (n + length bs) qs of (m, qs') \<Rightarrow> buffer_fits m cs qs')"

lemma buffer_fits_total: "n + length (concat cs) \<le> READ_BUFFER_SIZE \<Longrightarrow> buffer_fits n cs qs"
proof (induction cs arbitrary: n qs)
  case (Cons bs cs n qs)
  obtain m qs' where t: "taken (n + length bs) qs = (m, qs')" by (cases "taken (n + length bs) qs")
  have "m + length (concat cs) \<le> READ_BUFFER_SIZE" using taken_le [OF t] Cons.prems by simp
  from Cons.IH [OF this, of qs'] Cons.prems t show ?case by simp
qed simp

lemma exchange_all:
  "server_ok s \<Longrightarrow> resting s fd i part \<Longrightarrow> concat (map fst qs) = part @ concat cs \<Longrightarrow> [] \<notin> set cs \<Longrightarrow>
   taken (length part) qs = (length part, qs) \<Longrightarrow> buffer_fits (length part) cs qs \<Longrightarrow> answered app os resp qs \<Longrightarrow>
     \<exists>s'. exchange app fd cs s s' \<and> waiting s' fd i \<and> sv_wire s' i = sv_wire s i @ answers os resp qs"
proof (induction cs arbitrary: s part qs)
  case Nil
  then have "part = []" "qs = []" using taken_all [of qs] by auto
  with Nil.prems show ?case by (auto simp: waiting_def intro: exchange_done)
next
  case (Cons bs cs)
  let ?buf = "part @ bs"
  obtain m qs' where t: "taken (length ?buf) qs = (m, qs')" by (cases "taken (length ?buf) qs")
  have all: "concat (map fst qs) = ?buf @ concat cs" "bs \<noteq> []" "length ?buf \<le> READ_BUFFER_SIZE" "requests_ok qs"
    using Cons.prems by (auto simp: answered_def)
  from read_step [OF Cons.prems(2) all(2-4,1), of app] obtain s1 where
    s1: "exchange app fd [bs] s s1" "looked_at s1 fd i ?buf qs" "sv_wire s1 = sv_wire s" by blast
  from answer_buffer [OF exchange_ok [OF s1(1) Cons.prems(1)] s1(2) Cons.prems(7) all(1) t] obtain s2 part' where
    s2: "exchange app fd [] s1 s2" "resting s2 fd i part'" "length part' = m"
    "concat (map fst qs') = part' @ concat cs" "answered app os resp qs'"
    "sv_wire s2 i @ answers os resp qs' = sv_wire s1 i @ answers os resp qs" by blast
  have here: "exchange app fd [bs] s s2" using exchange_trans [OF s1(1) s2(1)] by simp
  have "buffer_fits (length part') cs qs'" using Cons.prems(6) t s2(3) by simp
  from Cons.IH [OF exchange_ok [OF here Cons.prems(1)] s2(2,4) _ _ this s2(5)] taken_settled [OF t] s2(3) Cons.prems(4)
  obtain s' where "exchange app fd cs s2 s'" "waiting s' fd i" "sv_wire s' i = sv_wire s2 i @ answers os resp qs'"
    by auto
  with exchange_trans [OF here] s1(3) s2(6) show ?case by fastforce
qed

lemma exchange_waiting:
  assumes "server_ok s" "waiting s fd i" "concat cs = concat (map fst qs)" "[] \<notin> set cs" "buffer_fits 0 cs qs"
    "answered app os resp qs"
  shows "\<exists>s'. exchange app fd cs s s' \<and> waiting s' fd i \<and> sv_wire s' i = sv_wire s i @ answers os resp qs"
proof -
  have "taken 0 qs = (0, qs)" using assms(6) by (cases qs) (auto simp: answered_def request_text_def)
  then show ?thesis using exchange_all [OF assms(1), of fd i "[]" qs cs app os resp] assms(2-6) by (simp add: waiting_def)
qed

text \<open>
  C1: requests are answered, however their bytes are cut into segments: a request may arrive in
  pieces, and a segment may hold many requests and the beginning of one. From every reachable state
  in which the connection waits, if at no time more arrives than the buffer holds, there is a run in
  which the server reads exactly these segments and at the end of which it has sent, in the order of
  the requests, exactly the bytes of the responses of the application, and the connection waits for
  the next ones.
\<close>

theorem requests_answered_in_order:
  assumes "reachable app settings s" "waiting s fd i" "concat cs = concat (map fst qs)" "[] \<notin> set cs"
    "buffer_fits 0 cs qs"
    "\<forall>(raw, v) \<in> set qs. request_text raw v \<and> divisible raw v \<and>
       handle_request app v = Some (Some (resp v)) \<and> sendable os (resp v)"
  shows "\<exists>s'. exchange app fd cs s s' \<and> (step app)\<^sup>*\<^sup>* s s' \<and> waiting s' fd i \<and>
     sv_wire s' i = sv_wire s i @ concat (map (\<lambda>(raw, v). response_bytes os (resp v)) qs)"
proof -
  have "answered app os resp qs" using assms(6) by (auto simp: answered_def requests_ok_def)
  from exchange_waiting [OF reachable_ok [OF assms(1)] assms(2-5) this] exchange_run show ?thesis
    by (fastforce simp: answers_def)
qed

section \<open>An exchange\<close>

text \<open>Two requests for a route that is not there, the first in two segments, of which one begins the second.\<close>

definition open_server :: server where
  "open_server = server_init settings_default False None 0"

definition waiting_example :: server where
  "waiting_example = handle_new_connection (env_example []) [accepted_example] open_server"

lemma waiting_example_ready: "waiting waiting_example 5 0" "sv_wire waiting_example 0 = []"
  by (simp_all add: waiting_def resting_def plain_def serving_def waiting_example_def handle_new_connection_def accept_one_def
      accepted_example_def open_server_def server_init_def Let_def env_example_def is_open_def
      connection_init_def settings_default_def)

lemma waiting_example_reachable: "reachable app settings_default waiting_example"
proof (rule reachable_step)
  show "reachable app settings_default open_server" unfolding open_server_def by (rule reachable_init)
  show "step app open_server waiting_example" unfolding waiting_example_def
    by (rule step_accept) (simp_all add: open_server_def server_init_def accepted_example_def)
qed

definition not_found :: http_response where
  "not_found = error_response app_example NOT_FOUND ''Not Found'' response_init"

lemma app_example_not_found: "handle_request app_example v = Some (Some (finish_response app_example v not_found))"
proof -
  have "find_handler app_example v = Some (None, Map.empty)"
    by (simp add: find_handler_def app_example_def find_route_empty)
  then show ?thesis by (simp add: handle_request_def not_found_def) (simp add: app_example_def)
qed

lemma not_found_sendable: "sendable os_example (finish_response app_example (client_value client_example) not_found)"
  by (simp add: sendable_def finish_response_def app_example_def semantics_text error_response_def not_found_def
      res_json_def res_body_def res_header_def res_status_def response_init_def file_whole_def Let_def
      set_response_content_def clear_response_state_def res_set_head_only_def connection_init_def)

lemma client_example_sent:
  "length (client_bytes client_example) \<le> 100" "3 < length (client_bytes client_example)"
  "divisible (client_bytes client_example) (client_value client_example)"
proof -
  have bytes: "client_bytes client_example = request_head GET ''/a'' ''HTTP/1.1'' (client_headers client_example) @ crlf @ ''hi''"
    by (simp add: client_bytes_def client_head_def client_example_def)
  have len: "length (request_head GET ''/a'' ''HTTP/1.1'' (client_headers client_example)) = 36"
    using dec_2 by (simp add: request_head_def client_headers_def client_example_def render_headers_def)
  show "length (client_bytes client_example) \<le> 100" "3 < length (client_bytes client_example)"
    using len by (simp_all add: bytes)
  have "header (client_value client_example) ''Expect'' = None"
    by (simp add: client_value_def client_headers_def client_example_def read_head_def add_headers_def
        parse_query_parameters_def header_def request_init_def split: option.split)
  with len show "divisible (client_bytes client_example) (client_value client_example)"
    by (intro divisible_head [OF bytes]) (simp_all add: MAX_HEADER_BYTES_def READ_BUFFER_SIZE_def bytes)
qed

lemma requests_answered_in_order_witness:
  "\<exists>s'. exchange app_example 5 [take 3 (client_bytes client_example),
       drop 3 (client_bytes client_example) @ client_bytes client_example] waiting_example s' \<and>
     waiting s' 5 0 \<and>
     sv_wire s' 0 = response_bytes os_example (finish_response app_example (client_value client_example) not_found) @
       response_bytes os_example (finish_response app_example (client_value client_example) not_found)"
proof -
  let ?raw = "client_bytes client_example" and ?q = "(client_bytes client_example, client_value client_example)"
  let ?cs = "[take 3 ?raw, drop 3 ?raw @ ?raw]"
  have cs: "concat ?cs = concat (map fst [?q, ?q])" by simp
  have ne: "[] \<notin> set ?cs" using client_example_sent(2) by auto
  have "0 + length (concat ?cs) \<le> READ_BUFFER_SIZE"
    unfolding cs using client_example_sent(1) by (simp add: READ_BUFFER_SIZE_def)
  from requests_answered_in_order [OF waiting_example_reachable waiting_example_ready(1) cs ne buffer_fits_total [OF this],
      of app_example "\<lambda>v. finish_response app_example v not_found" os_example]
  show ?thesis
    using request_text_sized [OF client_example_ok] client_example_sent(3) app_example_not_found not_found_sendable
      waiting_example_ready(2) by auto
qed

end
