(* ===== verification/Descriptor_Reuse.thy ===== *)
theory Descriptor_Reuse
  imports Exchange
begin

text \<open>
  A run in which a descriptor is used again while the first connection's request is still with a
  worker: the handler deadline closes connection 0 on descriptor 5, the kernel hands out 5 again for
  connection 1, which sends a request of its own, and only then the worker returns the first result.
\<close>

definition root_client :: client_request where
  "root_client = client_example\<lparr>cr_target := ''/''\<rparr>"

lemma root_client_ok: "client_ok root_client" "length (client_bytes root_client) \<le> READ_BUFFER_SIZE"
  using dec_2
  by (simp_all add: client_ok_def root_client_def client_example_def client_headers_def well_formed_head_def
      valid_header_def request_head_def render_headers_def isspace_def MAX_HEADER_BYTES_def MAX_BODY_BYTES_def
      client_bytes_def client_head_def READ_BUFFER_SIZE_def)

lemma root_client_value: "rq_method (client_value root_client) = GET" "rq_path (client_value root_client) = ''/''"
proof -
  have "find_sub ''?'' ''/'' = None" by (simp add: find_sub_single_None)
  then show "rq_method (client_value root_client) = GET" "rq_path (client_value root_client) = ''/''"
    by (simp_all add: root_client_def client_value_def client_example_def read_head_def add_headers_def
        parse_query_parameters_def)
qed

lemma hello_plain: "ap_middlewares hello_example = []" "ap_compression hello_example = None"
  by (simp_all add: hello_example_def app_example_def)

lemma hello_answers:
  "\<exists>r. handle_request hello_example (client_value client_example) = Some (Some r) \<and> rs_status r = NOT_FOUND"
  "\<exists>r. handle_request hello_example (client_value root_client) = Some (Some r) \<and> rs_status r = OK"
proof -
  have "find_handler hello_example (client_value client_example) = Some (None, Map.empty)"
    by (simp add: find_handler_def client_example_value find_route_def hello_example_def split_path_pieces
        path_segments_def match_route.simps)
  then show "\<exists>r. handle_request hello_example (client_value client_example) = Some (Some r) \<and> rs_status r = NOT_FOUND"
    by (simp add: handle_request_def hello_plain finish_response_def apply_http_semantics_def client_example_value
        error_response_def res_json_def res_header_def res_body_def res_status_def response_init_def Let_def)
  have "find_handler hello_example (client_value root_client) =
      Some (Some (\<lambda>req res. Handled (res_text ''hello'' res)), Map.empty)"
    by (simp add: find_handler_def root_client_value find_route_def hello_example_def)
  then show "\<exists>r. handle_request hello_example (client_value root_client) = Some (Some r) \<and> rs_status r = OK"
    by (simp add: handle_request_def hello_plain finish_response_def apply_http_semantics_def root_client_value
        res_text_def res_header_def res_body_def response_init_def Let_def)
qed

definition plain_server :: "server \<Rightarrow> bool" where
  "plain_server s \<longleftrightarrow> sv_running s \<and> \<not> sv_stop_requested s \<and> \<not> sv_draining s \<and> sv_listening s \<and> \<not> sv_tls s \<and>
     sv_limiter s = None \<and> sv_settings s = settings_default"

definition late :: env where
  "late = (env_example [])\<lparr>en_now := 31 * nanos\<rparr>"

lemma abandoned:
  assumes "plain_server s" "sv_last_cleanup s = 0" "sv_conns s = [5 \<mapsto> i]" "cn_worker_in_flight (conn_of s i)"
    "cn_processing_since (conn_of s i) = 0"
  shows "sv_conns (loop_tail late s) = Map.empty \<and> sv_tasks (loop_tail late s) = sv_tasks s \<and>
     sv_completed (loop_tail late s) = sv_completed s \<and> sv_next (loop_tail late s) = sv_next s \<and>
     plain_server (loop_tail late s) \<and> step app s (loop_tail late s)"
proof -
  note p = assms(1) [unfolded plain_server_def]
  have n: "en_now late = 31 * nanos" "en_fds late = [5]" by (simp_all add: late_def env_example_def)
  have "timeout_of (sv_settings s) (31 * nanos) (conn_of s i) = HandlerTimeout"
    using p assms(4,5) by (simp add: timeout_of_def settings_default_def cast_seconds_def nanos_def)
  then have t: "timed_out late k s = (if k = HandlerTimeout then [5] else [])" for k
    using assms(3) by (auto simp: timed_out_def n)
  let ?h = "handler_timeout late 5 s"
  have h: "sv_conns ?h = Map.empty" "sv_tasks ?h = sv_tasks s" "sv_completed ?h = sv_completed s"
    "sv_next ?h = sv_next s" "plain_server ?h"
    using p assms(3) by (auto simp: plain_server_def handler_timeout_def send_minimal_response_def put_wire_def
        count_def set_conn_def close_connection_def Let_def)
  have e: "enforce_timeouts late s = ?h"
    using h(5) by (simp add: enforce_timeouts_def t Let_def plain_server_def)
  have c: "1 \<le> cast_seconds (31 * nanos - sv_last_cleanup s)" by (simp add: assms(2) cast_seconds_def nanos_def)
  have l: "loop_tail late s = ?h\<lparr>sv_last_cleanup := 31 * nanos\<rparr>"
    using p h(5) c by (simp add: loop_tail_def Let_def e n plain_server_def)
  have "step app s (loop_tail late s)" using p assms(3) by (intro step_tail) (simp_all add: n)
  with h show ?thesis by (simp add: l plain_server_def)
qed

lemma accepted_next:
  assumes "plain_server s" "sv_conns s = Map.empty"
  shows "\<exists>s'. step app s s' \<and> plain_server s' \<and> fresh s' 5 (sv_next s) \<and> sv_conns s' = [5 \<mapsto> sv_next s] \<and>
     sv_next s' = Suc (sv_next s) \<and> sv_tasks s' = sv_tasks s \<and> sv_completed s' = sv_completed s \<and>
     sv_last_cleanup s' = sv_last_cleanup s"
proof -
  note p = assms(1) [unfolded plain_server_def]
  let ?s = "handle_new_connection (env_example []) [accepted_example] s"
  have "step app s ?s" using p assms(2) by (intro step_accept) (simp_all add: accepted_example_def)
  moreover have "sv_conns ?s = [5 \<mapsto> sv_next s]" "sv_armed ?s 5 = Some True" "sv_next ?s = Suc (sv_next s)"
    "sv_tasks ?s = sv_tasks s" "sv_completed ?s = sv_completed s" "sv_last_cleanup ?s = sv_last_cleanup s"
    "conn_of ?s (sv_next s) = (connection_init 0 5)\<lparr>cn_client_ip := ''10.0.0.1'', cn_ssl := False\<rparr>"
    "plain_server ?s"
    using p assms(2)
    by (simp_all add: handle_new_connection_def accept_one_def accepted_example_def env_example_def Let_def
        plain_server_def count_def set_conn_def)
  ultimately show ?thesis
    by (intro exI [of _ ?s])
      (simp add: fresh_def plain_server_def at_capacity_def is_open_def connection_init_def settings_default_def)
qed

lemma result_queued:
  assumes "sv_tasks s = t # ts" "handle_request app (tk_request t) = Some (Some r)"
  shows "\<exists>s'. step app s s' \<and> sv_tasks s' = ts \<and> sv_conns s' = sv_conns s \<and> sv_heap s' = sv_heap s \<and>
     sv_completed s' = sv_completed s @ [\<lparr>cm_fd = tk_fd t, cm_conn = tk_conn t, cm_response = r\<rparr>]"
proof -
  from assms obtain s' where s': "run_task (env_example []) app 0 s = Some s'" "sv_tasks s' = ts"
    "sv_conns s' = sv_conns s" "sv_heap s' = sv_heap s"
    "sv_completed s' = sv_completed s @ [\<lparr>cm_fd = tk_fd t, cm_conn = tk_conn t, cm_response = r\<rparr>]"
    by (simp add: run_task_def Let_def)
  then show ?thesis using step_task [of 0 s "env_example []" app s'] assms(1) by auto
qed

lemma reused_descriptor:
  "\<exists>s s' r0 r1. reachable hello_example settings_default s \<and> reachable hello_example settings_default s' \<and>
     sv_conns s = [5 \<mapsto> 1] \<and> sv_conns s' = [5 \<mapsto> 1] \<and> rs_status r0 = NOT_FOUND \<and> rs_status r1 = OK \<and>
     sv_completed s = [\<lparr>cm_fd = 5, cm_conn = 0, cm_response = r0\<rparr>] \<and>
     sv_completed s' = sv_completed s @ [\<lparr>cm_fd = 5, cm_conn = 1, cm_response = r1\<rparr>]"
proof -
  let ?R = "reachable hello_example settings_default"
  note go = reachable_step [where app = hello_example and settings = settings_default]
  have r: "?R open_server" unfolding open_server_def by (rule reachable_init)
  have p: "plain_server open_server" "sv_conns open_server = Map.empty" "sv_next open_server = 0"
    "sv_tasks open_server = []" "sv_completed open_server = []" "sv_last_cleanup open_server = 0"
    by (simp_all add: open_server_def server_init_def plain_server_def)
  from accepted_next [OF p(1,2), of hello_example] p obtain a where
    a: "?R a" "fresh a 5 0" "sv_conns a = [5 \<mapsto> 0]" "sv_next a = 1" "sv_tasks a = []" "sv_completed a = []"
      "plain_server a" "sv_last_cleanup a = 0" using go [OF r] by auto
  from dispatched_fresh [OF a(2) client_example_ok client_example_short, of hello_example] obtain b where
    b: "step hello_example a b" "sv_tasks b = [task_for 5 0 client_example]" "sv_conns b = [5 \<mapsto> 0]" "sv_completed b = []"
      "sv_next b = 1" "cn_worker_in_flight (conn_of b 0)" "cn_processing_since (conn_of b 0) = 0"
      "plain_server b" "sv_last_cleanup b = 0"
    using a(3-) by (auto simp: plain_server_def)
  from abandoned [OF b(8,9,3,6,7), of hello_example] b(2-5) go [OF go [OF a(1) b(1)]] obtain c where
    c: "?R c" "plain_server c" "sv_conns c = Map.empty" "sv_next c = 1" "sv_tasks c = [task_for 5 0 client_example]"
      "sv_completed c = []" by auto
  from accepted_next [OF c(2,3), of hello_example] c(4-) go [OF c(1)] obtain d where
    d: "?R d" "fresh d 5 1" "sv_conns d = [5 \<mapsto> 1]" "sv_tasks d = [task_for 5 0 client_example]" "sv_completed d = []"
    by auto
  from dispatched_fresh [OF d(2) root_client_ok, of hello_example] d(3-) go [OF d(1)] obtain e where
    e: "?R e" "sv_tasks e = [task_for 5 0 client_example, task_for 5 1 root_client]" "sv_conns e = [5 \<mapsto> 1]"
      "sv_completed e = []" by auto
  obtain r0 where r0: "handle_request hello_example (client_value client_example) = Some (Some r0)" "rs_status r0 = NOT_FOUND"
    using hello_answers(1) by blast
  obtain r1 where r1: "handle_request hello_example (client_value root_client) = Some (Some r1)" "rs_status r1 = OK"
    using hello_answers(2) by blast
  from result_queued [OF e(2), of hello_example r0] r0(1) e(3,4) go [OF e(1)] obtain f where
    f: "?R f" "sv_tasks f = [task_for 5 1 root_client]" "sv_conns f = [5 \<mapsto> 1]"
      "sv_completed f = [\<lparr>cm_fd = 5, cm_conn = 0, cm_response = r0\<rparr>]" by (auto simp: task_for_def)
  from result_queued [OF f(2), of hello_example r1] r1(1) f(3,4) go [OF f(1)] obtain g where
    "?R g" "sv_conns g = [5 \<mapsto> 1]"
    "sv_completed g = sv_completed f @ [\<lparr>cm_fd = 5, cm_conn = 1, cm_response = r1\<rparr>]" by (auto simp: task_for_def)
  with f r0(2) r1(2) show ?thesis by blast
qed

text \<open>
  The late result of connection 0 does not touch connection 1, which holds its descriptor; with the
  result of connection 1 behind it in the queue, connection 1 gets the second and not the first.
\<close>

lemma results_reach_their_connection_witness:
  "\<exists>s s' r0 r1. sv_conns s 5 = Some 1 \<and> sv_conns s' 5 = Some 1 \<and> rs_status r0 = NOT_FOUND \<and> rs_status r1 = OK \<and>
     sv_completed s = [\<lparr>cm_fd = 5, cm_conn = 0, cm_response = r0\<rparr>] \<and>
     sv_completed s' = sv_completed s @ [\<lparr>cm_fd = 5, cm_conn = 1, cm_response = r1\<rparr>] \<and>
     sv_conns (process_completions late s) 5 = Some 1 \<and> conn_of (process_completions late s) 1 = conn_of s 1 \<and>
     sv_conns (process_completions late s') 5 = Some 1 \<and>
     conn_of (process_completions late s') 1 =
       set_response_content os_example r1 ((conn_of s' 1)\<lparr>cn_worker_in_flight := False\<rparr>)"
proof -
  obtain s s' r0 r1 where s: "reachable hello_example settings_default s" "reachable hello_example settings_default s'"
    "sv_conns s = [5 \<mapsto> 1]" "sv_conns s' = [5 \<mapsto> 1]" "rs_status r0 = NOT_FOUND" "rs_status r1 = OK"
    "sv_completed s = [\<lparr>cm_fd = 5, cm_conn = 0, cm_response = r0\<rparr>]"
    "sv_completed s' = sv_completed s @ [\<lparr>cm_fd = 5, cm_conn = 1, cm_response = r1\<rparr>]"
    using reused_descriptor by blast
  have "sv_conns s 5 = Some 1" "sv_conns s' 5 = Some 1" by (simp_all add: s(3,4))
  note r = results_reach_their_connection [OF s(1) this(1) refl, of late]
    results_reach_their_connection [OF s(2) this(2) refl, of late]
  have "en_rearm late 5" "en_os late = os_example" by (simp_all add: late_def env_example_def)
  then show ?thesis using r s(3-) by (intro exI [of _ s] exI [of _ s'] exI [of _ r0] exI [of _ r1]) simp
qed

end
