(* ===== verification/Test_Client.thy ===== *)
theory Test_Client
  imports Connection_Props
begin

text \<open>
  The HTTP client of the tests (\<open>tests/middleware_test.cpp\<close>; those of the tests of metrics and of
  compression read in the same way): it finds the end of the headers, takes the length of the body
  from them and stops at the last byte of the response. It reads back what the server writes.
\<close>

section \<open>The client\<close>

text \<open>\<open>std::stol\<close> of 64 bits; its exceptions are caught.\<close>

definition content_length_of :: "string \<Rightarrow> int" where
  "content_length_of headers =
     (let lower = map to_lower headers in
      case find_sub ''content-length:'' lower of
        None \<Rightarrow> -1
      | Some pos \<Rightarrow>
          (case stoll (drop (pos + length ''content-length:'') headers) of
             None \<Rightarrow> -1
           | Some n \<Rightarrow> n))"

text \<open>The variables \<open>header_end\<close> and \<open>content_length\<close> behind the first part of a round of the loop.\<close>

definition find_frame :: "string \<Rightarrow> nat option \<times> int \<Rightarrow> nat option \<times> int" where
  "find_frame out st =
     (case st of
        (Some h, n) \<Rightarrow> (Some h, n)
      | (None, n) \<Rightarrow>
          (case find_sub (crlf @ crlf) out of
             None \<Rightarrow> (None, n)
           | Some h \<Rightarrow>
               let n' = content_length_of (take h out) in (Some h, if n' < 0 then 0 else n')))"

definition frame_complete :: "string \<Rightarrow> nat option \<times> int \<Rightarrow> bool" where
  "frame_complete out st =
     (case st of (None, n) \<Rightarrow> False | (Some h, n) \<Rightarrow> h + 4 + nat n \<le> length out)"

text \<open>The loop, over the results of \<open>recv\<close> into a buffer of 4096 bytes; none left is the timeout.\<close>

fun read_framed :: "recv list \<Rightarrow> string \<Rightarrow> nat option \<times> int \<Rightarrow> string" where
  "read_framed rs out st =
     (let st' = find_frame out st in
      if frame_complete out st' then out
      else (case rs of
          Received bs # rs' \<Rightarrow>
            let got = take 4096 bs in
            if got = [] then out else read_framed rs' (out @ got) st'
        | _ \<Rightarrow> out))"

declare read_framed.simps [simp del]

definition round_trip :: "bool \<Rightarrow> recv list \<Rightarrow> string" where
  "round_trip connected rs = (if \<not> connected then [] else read_framed rs [] (None, -1))"

section \<open>Lines\<close>

definition lines :: "string list \<Rightarrow> string" where
  "lines ls = concat (map (\<lambda>l. l @ crlf) ls)"

lemma lines_simps [simp]:
  "lines [] = []" "lines (l # ls) = l @ crlf @ lines ls" "lines (ks @ ls) = lines ks @ lines ls"
  by (simp_all add: lines_def)

text \<open>The blank line behind them is the first one.\<close>

lemma find_blank_after_lines:
  "ls \<noteq> [] \<Longrightarrow> \<forall>l \<in> set ls. l \<noteq> [] \<and> CR \<notin> set l \<Longrightarrow>
     find_sub (crlf @ crlf) (lines ls @ crlf @ rest) = Some (length (lines ls) - 2)"
proof (induction ls)
  case Nil
  then show ?case by simp
next
  case (Cons l ls)
  have l: "CR \<notin> set l" using Cons.prems(2) by simp
  show ?case
  proof (cases "ls = []")
    case True
    then show ?thesis using find_sub_here [OF l, of "LF # crlf" rest] by simp
  next
    case False
    with Cons have ih: "find_sub (crlf @ crlf) (lines ls @ crlf @ rest) = Some (length (lines ls) - 2)" by simp
    obtain k ks where ls: "ls = k # ks" using False by (cases ls) auto
    then obtain c cs where k: "k = c # cs" "c \<noteq> CR" using Cons.prems(2) by (cases k) auto
    then have "2 \<le> length (lines ls)" "\<not> starts_with crlf (lines ls @ crlf @ rest)" using ls by simp_all
    then have "find_sub (CR # LF # crlf) (crlf @ lines ls @ crlf @ rest) = Some (length (lines ls))"
      using ih by simp
    then show ?thesis
      using find_sub_skip [OF l, of "LF # crlf" "crlf @ lines ls @ crlf @ rest"] by simp
  qed
qed

text \<open>A word without CR and LF is not found across the end of a line.\<close>

lemma starts_within_line:
  assumes "starts_with p (l @ crlf @ t)" "CR \<notin> set p"
  shows "starts_with p l"
proof (cases "length p \<le> length l")
  case True
  then show ?thesis using assms(1) starts_with_append_iff by blast
next
  case False
  from assms(1) obtain ta where "l @ crlf @ t = p @ ta" by (auto simp: starts_with_iff)
  then have "(l @ crlf @ t) ! length l = (p @ ta) ! length l" by simp
  then have "p ! length l = CR" using False by (simp add: nth_append)
  moreover have "p ! length l \<in> set p" using False by simp
  ultimately show ?thesis using assms(2) by simp
qed

lemma find_sub_line:
  assumes "CR \<notin> set p" "LF \<notin> set p" "p \<noteq> []"
  shows "find_sub p l = None \<Longrightarrow> find_sub p (l @ crlf @ t) = map_option ((+) (length l + 2)) (find_sub p t)"
proof (induction l)
  case Nil
  from assms obtain a q where "p = a # q" "a \<noteq> CR" "a \<noteq> LF" by (cases p) auto
  then show ?case by (simp add: option.map_comp comp_def)
next
  case (Cons x l)
  then have l: "find_sub p l = None" and x: "\<not> starts_with p (x # l)" by (auto split: if_splits)
  from x starts_within_line [of p "x # l" t] assms(1) have "\<not> starts_with p (x # l @ crlf @ t)" by auto
  with Cons.IH [OF l] show ?case by (simp add: option.map_comp comp_def)
qed

lemma find_sub_lines:
  assumes "CR \<notin> set p" "LF \<notin> set p" "p \<noteq> []"
  shows "\<forall>l \<in> set ls. find_sub p l = None \<Longrightarrow>
    find_sub p (lines ls @ t) = map_option ((+) (length (lines ls))) (find_sub p t)"
proof (induction ls)
  case Nil
  then show ?case by (simp add: option.map_ident_strong)
next
  case (Cons l ls)
  then show ?case
    using find_sub_line [OF assms, of l "lines ls @ t"] by (simp add: option.map_comp comp_def add.assoc)
qed

section \<open>Responses that frame themselves\<close>

text \<open>
  The headers are lines, none of the others looks like \<open>Content-Length\<close>, and this one is the
  length of the body that is sent.
\<close>

abbreviation announces_length :: "string \<Rightarrow> bool" where
  "announces_length l \<equiv> find_sub ''content-length:'' (map to_lower l) \<noteq> None"

definition framed :: "os \<Rightarrow> http_response \<Rightarrow> string \<Rightarrow> bool" where
  "framed os res body \<longleftrightarrow>
     iterates (os_map_iter os) (rs_headers res) \<and> CR \<notin> set (os_date os) \<and> \<not> announces_length (os_date os) \<and>
     (\<forall>k v. rs_headers res k = Some v \<longrightarrow> CR \<notin> set k \<and> CR \<notin> set v \<and>
        (k \<noteq> ''Content-Length'' \<longrightarrow> \<not> announces_length (k @ '': '' @ v))) \<and>
     rs_headers res ''Content-Length'' = Some (dec (length body)) \<and> length body < 2 ^ 63 \<and>
     response_bytes os res = build_headers_string (os_map_iter os) (os_date os) res @ body"

definition header_line :: "string \<times> string \<Rightarrow> string" where
  "header_line kv = (case kv of (k, v) \<Rightarrow> k @ '': '' @ v)"

definition status_line :: "http_response \<Rightarrow> string" where
  "status_line r = ''HTTP/1.1 '' @ dec (status_code (rs_status r)) @ '' '' @ http_status_to_string (rs_status r)"

lemma build_headers_lines:
  "build_headers_string iter date r =
     lines (status_line r # (''Date: '' @ date) # map header_line (iter (rs_headers r))) @ crlf"
  by (simp add: build_headers_string_def status_line_def header_lines_def lines_def header_line_def comp_def
      split_def)

lemma to_lower_dec: "map to_lower (dec n) = dec n"
  using dec_digits [of n] by (intro map_idI) (auto simp: is_digit_def to_lower_def)

lemma status_text_lower: "find_sub ''content-length:'' (map to_lower (http_status_to_string st)) = None"
  by (induction st; code_simp)

lemma status_line_facts:
  "CR \<notin> set (status_line r)" "\<not> announces_length (status_line r)" "status_line r \<noteq> []"
proof -
  show "CR \<notin> set (status_line r)"
    by (cases "rs_status r") (simp_all add: status_line_def dec_no_delim is_digit_def)
  let ?a = "''http/1.1 '' @ dec (status_code (rs_status r)) @ '' ''"
  have "CHR ''c'' \<notin> set ?a" by (simp add: dec_no_delim is_digit_def)
  moreover have "map to_lower ''HTTP/1.1 '' = ''http/1.1 ''" "map to_lower '' '' = '' ''" by code_simp+
  then have "map to_lower (status_line r) = ?a @ map to_lower (http_status_to_string (rs_status r))"
    unfolding status_line_def map_append by (simp only: to_lower_dec append.assoc)
  ultimately show "\<not> announces_length (status_line r)"
    using find_sub_skip [of "CHR ''c''" ?a "''ontent-length:''"] status_text_lower by simp
  show "status_line r \<noteq> []" by (simp add: status_line_def)
qed

text \<open>What the client finds in the headers: their end, and the length of the body.\<close>

lemma lower_lines: "map to_lower (lines ls) = lines (map (map to_lower) ls)"
  by (induction ls) (simp_all add: to_lower_def)

lemma length_line_found:
  assumes "\<forall>l \<in> set ls. \<not> announces_length l"
  shows "find_sub ''content-length:'' (map to_lower (lines ls @ ''Content-Length: '' @ t)) = Some (length (lines ls))"
proof -
  let ?p = "''content-length:''"
  have low: "map to_lower ''Content-Length: '' = ''content-length: ''" by code_simp
  have "find_sub ?p (map to_lower (''Content-Length: '' @ t)) = Some 0"
    unfolding map_append low by (rule find_sub_starts) simp
  moreover have "\<forall>l \<in> set (map (map to_lower) ls). find_sub ?p l = None" using assms by auto
  ultimately show ?thesis
    using find_sub_lines [of ?p "map (map to_lower) ls" "map to_lower (''Content-Length: '' @ t)"]
    by (simp only: map_append lower_lines [symmetric]) simp
qed

lemma strto_split_space: "strto_split (CHR '' '' # s) = strto_split s"
  by (simp add: strto_split_def isspace_def)

lemma content_length_at:
  assumes "\<forall>l \<in> set ls. \<not> announces_length l" "rest = [] \<or> \<not> is_digit (hd rest)" "n < 2 ^ 63"
  shows "content_length_of (lines ls @ ''Content-Length: '' @ dec n @ rest) = int n"
proof -
  have "stoll (CHR '' '' # dec n @ rest) = Some (int n)"
    using strto_split_dec [OF assms(2), of n] assms(3) by (simp add: stoll_def strto_signed_def strto_split_space)
  then show ?thesis using length_line_found [OF assms(1), of "dec n @ rest"]
    by (simp add: content_length_of_def Let_def)
qed

lemma framed_lines:
  assumes "framed os res body"
  obtains ls ls' where
    "build_headers_string (os_map_iter os) (os_date os) res =
       lines (ls @ (''Content-Length: '' @ dec (length body)) # ls') @ crlf"
    "\<forall>l \<in> set (ls @ ls'). l \<noteq> [] \<and> CR \<notin> set l" "\<forall>l \<in> set ls. \<not> announces_length l"
proof -
  let ?hs = "os_map_iter os (rs_headers res)"
  have it: "distinct (map fst ?hs)" "map_of ?hs = rs_headers res"
    using assms by (simp_all add: framed_def iterates_def)
  have "map_of ?hs ''Content-Length'' = Some (dec (length body))"
    using it(2) assms by (simp add: framed_def)
  then obtain as bs where sp: "?hs = as @ (''Content-Length'', dec (length body)) # bs"
    by (meson map_of_SomeD split_list)
  have hdr: "\<forall>kv \<in> set as \<union> set bs. header_line kv \<noteq> [] \<and> CR \<notin> set (header_line kv) \<and> \<not> announces_length (header_line kv)"
  proof
    fix kv assume kv: "kv \<in> set as \<union> set bs"
    obtain k v where k: "kv = (k, v)" by (cases kv)
    have "rs_headers res k = Some v" using kv k sp it
      by (metis Un_iff in_set_conv_decomp map_of_is_SomeI set_append list.set_intros(2) UnCI)
    moreover have "k \<noteq> ''Content-Length''" using kv k it(1) sp by (auto simp: image_iff)
    ultimately have "CR \<notin> set k \<and> CR \<notin> set v \<and> \<not> announces_length (k @ '': '' @ v)"
      using assms unfolding framed_def by blast
    then show "header_line kv \<noteq> [] \<and> CR \<notin> set (header_line kv) \<and> \<not> announces_length (header_line kv)"
      by (simp add: header_line_def k)
  qed
  let ?ls = "status_line res # (''Date: '' @ os_date os) # map header_line as"
  have date: "CR \<notin> set (os_date os)" "\<not> announces_length (os_date os)" using assms by (simp_all add: framed_def)
  have "map to_lower ''Date: '' = ''date: ''" by code_simp
  then have "map to_lower (''Date: '' @ os_date os) = ''date: '' @ map to_lower (os_date os)"
    by (simp only: map_append)
  then have d: "\<not> announces_length (''Date: '' @ os_date os)"
    using date(2) find_sub_skip [of "CHR ''c''" "''date: ''" "''ontent-length:''" "map to_lower (os_date os)"] by simp
  have "build_headers_string (os_map_iter os) (os_date os) res =
      lines (?ls @ (''Content-Length: '' @ dec (length body)) # map header_line bs) @ crlf"
    by (simp add: build_headers_lines sp header_line_def [of "(''Content-Length'', _)"])
  moreover have "\<forall>l \<in> set (?ls @ map header_line bs). l \<noteq> [] \<and> CR \<notin> set l"
    using hdr date(1) status_line_facts [of res] by auto
  moreover have "\<forall>l \<in> set ?ls. \<not> announces_length l"
    using hdr d status_line_facts(2) [of res] by auto
  ultimately show thesis using that by blast
qed

text \<open>The first blank line is that behind the headers, and the length stands in front of it.\<close>

lemma framed_headers:
  assumes "framed os res body"
  obtains ls rest where
    "response_bytes os res = (lines ls @ ''Content-Length: '' @ dec (length body) @ rest) @ crlf @ crlf @ body"
    "find_sub (crlf @ crlf) (response_bytes os res) =
       Some (length (lines ls @ ''Content-Length: '' @ dec (length body) @ rest))"
    "\<forall>l \<in> set ls. \<not> announces_length l" "rest = [] \<or> \<not> is_digit (hd rest)"
proof -
  let ?cl = "''Content-Length: '' @ dec (length body)"
  from framed_lines [OF assms] obtain ls ls' where
    h: "build_headers_string (os_map_iter os) (os_date os) res = lines (ls @ ?cl # ls') @ crlf" and
    ok: "\<forall>l \<in> set (ls @ ls'). l \<noteq> [] \<and> CR \<notin> set l" and no: "\<forall>l \<in> set ls. \<not> announces_length l" by blast
  let ?all = "ls @ ?cl # ls'"
  have r: "response_bytes os res = lines ?all @ crlf @ body" using assms h by (simp add: framed_def)
  obtain rest where rest: "lines ?all = (lines ls @ ?cl @ rest) @ crlf" "rest = [] \<or> \<not> is_digit (hd rest)"
  proof (cases ls' rule: rev_cases)
    case Nil
    then show thesis using that [of "[]"] by simp
  next
    case (snoc ks k)
    then show thesis using that [of "crlf @ lines ks @ k"] by (simp add: is_digit_def)
  qed
  have "\<forall>l \<in> set ?all. l \<noteq> [] \<and> CR \<notin> set l" using ok by (auto simp: dec_no_delim is_digit_def)
  from find_blank_after_lines [OF _ this, of body]
  have f: "find_sub (crlf @ crlf) (response_bytes os res) = Some (length (lines ls @ ?cl @ rest))"
    unfolding r rest(1) by simp
  have "response_bytes os res = (lines ls @ ?cl @ rest) @ crlf @ crlf @ body" using r rest(1) by simp
  then show thesis using that [of ls rest] f no rest(2) by simp
qed

lemma framed_found:
  assumes "framed os res body"
  shows "find_sub (crlf @ crlf) (response_bytes os res) = Some (length (response_bytes os res) - length body - 4)"
    "content_length_of (take (length (response_bytes os res) - length body - 4) (response_bytes os res)) = int (length body)"
    "length body + 4 \<le> length (response_bytes os res)"
proof -
  from framed_headers [OF assms] obtain ls rest where
    r: "response_bytes os res = (lines ls @ ''Content-Length: '' @ dec (length body) @ rest) @ crlf @ crlf @ body" and
    f: "find_sub (crlf @ crlf) (response_bytes os res) =
       Some (length (lines ls @ ''Content-Length: '' @ dec (length body) @ rest))" and
    no: "\<forall>l \<in> set ls. \<not> announces_length l" and rest: "rest = [] \<or> \<not> is_digit (hd rest)" .
  define p where "p = lines ls @ ''Content-Length: '' @ dec (length body) @ rest"
  have rp: "response_bytes os res = p @ crlf @ crlf @ body" using r by (simp add: p_def)
  show "length body + 4 \<le> length (response_bytes os res)" using rp by simp
  show "find_sub (crlf @ crlf) (response_bytes os res) = Some (length (response_bytes os res) - length body - 4)"
    using f [folded p_def] rp by simp
  have "length body < 2 ^ 63" using assms by (simp add: framed_def)
  from content_length_at [OF no rest this, folded p_def] rp
  show "content_length_of (take (length (response_bytes os res) - length body - 4) (response_bytes os res)) =
      int (length body)" by simp
qed

section \<open>The client reads the response\<close>

definition frame_state_ok :: "os \<Rightarrow> http_response \<Rightarrow> string \<Rightarrow> nat option \<times> int \<Rightarrow> bool" where
  "frame_state_ok os res body st \<longleftrightarrow>
     fst st = None \<or> st = (Some (length (response_bytes os res) - length body - 4), int (length body))"

lemma find_frame_ok:
  assumes "framed os res body" "response_bytes os res = out @ rest" "frame_state_ok os res body st"
  shows "frame_state_ok os res body (find_frame out st)" "frame_complete out (find_frame out st) \<longleftrightarrow> rest = []"
proof -
  let ?h = "length (response_bytes os res) - length body - 4"
  note f = framed_found [OF assms(1)]
  have found: "find_sub (crlf @ crlf) out = Some j \<Longrightarrow>
      j = ?h \<and> content_length_of (take j out) = int (length body)" for j
  proof -
    assume j: "find_sub (crlf @ crlf) out = Some j"
    have "j = ?h" using find_sub_append [OF j, of rest] f(1) assms(2) by simp
    moreover have "j \<le> length out" using find_sub_bound [OF j] by simp
    then have "take j out = take j (response_bytes os res)" using assms(2) by simp
    ultimately show ?thesis using f(2) by simp
  qed
  show st: "frame_state_ok os res body (find_frame out st)"
    using assms(3) found
    by (auto simp: frame_state_ok_def find_frame_def Let_def split: option.splits prod.splits)
  show "frame_complete out (find_frame out st) \<longleftrightarrow> rest = []"
  proof (cases "fst (find_frame out st)")
    case None
    then have "find_sub (crlf @ crlf) out = None"
      by (auto simp: find_frame_def Let_def split: option.splits prod.splits)
    then have "rest \<noteq> []" using f(1) assms(2) by auto
    then show ?thesis using None by (auto simp: frame_complete_def split: prod.splits)
  next
    case (Some h)
    then have "find_frame out st = (Some ?h, int (length body))" using st by (auto simp: frame_state_ok_def)
    then show ?thesis using f(3) assms(2) by (auto simp: frame_complete_def)
  qed
qed

lemma read_framed_all:
  "framed os res body \<Longrightarrow> response_bytes os res = out @ concat cs \<Longrightarrow> frame_state_ok os res body st \<Longrightarrow>
     \<forall>c \<in> set cs. c \<noteq> [] \<and> length c \<le> 4096 \<Longrightarrow>
     read_framed (map Received cs @ rs) out st = response_bytes os res"
proof (induction cs arbitrary: out st)
  case Nil
  then show ?case
    using find_frame_ok(2) [OF Nil.prems(1,2,3)] by (subst read_framed.simps) (simp add: Let_def)
next
  case (Cons c cs)
  note ff = find_frame_ok [OF Cons.prems(1-3)]
  have c: "c \<noteq> []" "take 4096 c = c" using Cons.prems(4) by simp_all
  have "read_framed (map Received (c # cs) @ rs) out st =
      read_framed (map Received cs @ rs) (out @ c) (find_frame out st)"
    using ff(2) c by (subst read_framed.simps) (simp add: Let_def)
  with Cons.IH [of "out @ c" "find_frame out st"] Cons.prems ff(1) show ?case by simp
qed

text \<open>
  The responses frame themselves: however the bytes of a response are cut on their way, the
  client of the tests ends behind its last byte, without waiting for anything more, with exactly
  the response.
\<close>

lemma client_reads_response:
  assumes "framed os res body" "concat cs = response_bytes os res"
    "\<forall>c \<in> set cs. c \<noteq> [] \<and> length c \<le> 4096"
  shows "round_trip True (map Received cs @ rs) = response_bytes os res"
  using read_framed_all [of os res body "[]" cs "(None, -1)" rs] assms
  by (simp add: round_trip_def frame_state_ok_def)

section \<open>A response\<close>

definition header_names :: "string list" where
  "header_names = [''Server'', ''Connection'', ''Content-Type'', ''Content-Length'']"

definition os_ordered :: os where
  "os_ordered = os_example\<lparr>os_map_iter :=
     (\<lambda>m. concat (map (\<lambda>k. case m k of None \<Rightarrow> [] | Some v \<Rightarrow> [(k, v)]) header_names))\<rparr>"

definition greeting :: http_response where
  "greeting = res_text ''hi'' response_init"

lemma greeting_iter: "os_map_iter os_ordered (rs_headers greeting) =
    [(''Server'', ''Oreshnek/1.0.0''), (''Connection'', ''keep-alive''), (''Content-Type'', ''text/plain''),
     (''Content-Length'', ''2'')]"
  using dec_2 by (simp add: os_ordered_def header_names_def greeting_def res_text_def)

lemma greeting_framed: "framed os_ordered greeting ''hi''"
proof -
  have hs: "rs_headers greeting = map_of [(''Server'', ''Oreshnek/1.0.0''), (''Connection'', ''keep-alive''),
      (''Content-Type'', ''text/plain''), (''Content-Length'', ''2'')]"
    using dec_2 by (simp add: greeting_def res_text_def fun_eq_iff)
  have kv: "CR \<notin> set k \<and> CR \<notin> set v \<and> (k \<noteq> ''Content-Length'' \<longrightarrow> \<not> announces_length (k @ '': '' @ v))"
    if "rs_headers greeting k = Some v" for k v
  proof -
    from that have "(k, v) \<in> set [(''Server'', ''Oreshnek/1.0.0''), (''Connection'', ''keep-alive''),
      (''Content-Type'', ''text/plain''), (''Content-Length'', ''2'')]" unfolding hs by (rule map_of_SomeD)
    then have "k = ''Server'' \<and> v = ''Oreshnek/1.0.0'' \<or> k = ''Connection'' \<and> v = ''keep-alive'' \<or>
      k = ''Content-Type'' \<and> v = ''text/plain'' \<or> k = ''Content-Length'' \<and> v = ''2''" by simp
    then show ?thesis by (elim disjE conjE; hypsubst_thin; code_simp)
  qed
  have date: "CR \<notin> set (os_date os_ordered)" "\<not> announces_length (os_date os_ordered)"
    unfolding os_ordered_def os_example_def os.simps by code_simp+
  have it: "iterates (os_map_iter os_ordered) (rs_headers greeting)"
    by (simp add: iterates_def greeting_iter) (simp add: hs)
  have bytes: "response_bytes os_ordered greeting =
      build_headers_string (os_map_iter os_ordered) (os_date os_ordered) greeting @ ''hi''"
    by (simp add: response_bytes_def greeting_def res_text_def text_of_def)
  have len: "rs_headers greeting ''Content-Length'' = Some (dec (length ''hi''))" "length ''hi'' < 2 ^ 63"
    using dec_2 by (simp_all add: hs)
  show ?thesis
    unfolding framed_def using it date bytes len kv by blast
qed

lemma client_reads_response_example:
  "round_trip True [Received (take 10 (response_bytes os_ordered greeting)),
     Received (drop 10 (response_bytes os_ordered greeting)), ReadBroken] = response_bytes os_ordered greeting"
proof -
  let ?r = "response_bytes os_ordered greeting"
  have "dec 200 = ''200''" by code_simp
  moreover have "response_bytes os_ordered greeting =
      build_headers_string (os_map_iter os_ordered) (os_date os_ordered) greeting @ ''hi''"
    using greeting_framed by (simp add: framed_def)
  moreover have "rs_status greeting = OK" by (simp add: greeting_def res_text_def)
  moreover have "os_date os_ordered = ''Thu, 01 Jan 1970 00:00:00 GMT''" by (simp add: os_ordered_def os_example_def)
  ultimately have "10 < length ?r \<and> length ?r \<le> 4096"
    by (simp add: build_headers_string_def greeting_iter header_lines_def)
  then have "\<forall>c \<in> set [take 10 ?r, drop 10 ?r]. c \<noteq> [] \<and> length c \<le> 4096" by auto
  moreover have "concat [take 10 ?r, drop 10 ?r] = ?r" by simp
  ultimately show ?thesis using client_reads_response [OF greeting_framed, of "[take 10 ?r, drop 10 ?r]" "[ReadBroken]"]
    by simp
qed

end
