(* ===== verification/Unit_Tests.thy ===== *)
theory Unit_Tests
  imports Test_Client Parser_Fuzz Small_Examples Multipart "HOL-Library.List_Lexorder" "HOL-Library.Char_ord"
begin

text \<open>
  Tests of the repository, run on the model: the form of \<open>tests/multipart_test.cpp\<close>, the token
  bucket of \<open>tests/rate_limit_test.cpp\<close>, the passwords and tokens of \<open>tests/security_test.cpp\<close>, the
  server of \<open>tests/middleware_test.cpp\<close> and the replay of \<open>tests/fuzz/fuzz_replay.cpp\<close>. The checks of
  a test are a list of truth values in the order of the source. Time and random bytes are arguments,
  and what a test takes for granted of them and of the libraries is a premise.
\<close>

abbreviation passes :: "bool list \<Rightarrow> bool" where
  "passes checks \<equiv> list_all (\<lambda>b. b) checks"

section \<open>Forms\<close>

definition find_part :: "multipart_part list \<Rightarrow> string \<Rightarrow> multipart_part option" where
  "find_part parts name = find (\<lambda>p. mp_name p = name) parts"

definition form_boundary :: string where
  "form_boundary = ''----WebKitFormBoundary7MA4YWxkTrZu0gW''"

definition file_data :: string where
  "file_data = ''binary'' @ crlf @ ''data'' @ crlf @ ''with--dashes and '' @ [DQ] @ ''quotes'' @ [DQ]"

definition quoted :: "string \<Rightarrow> string" where
  "quoted s = [DQ] @ s @ [DQ]"

definition form_body :: string where
  "form_body =
     ''--'' @ form_boundary @ crlf @
     ''Content-Disposition: form-data; name='' @ quoted ''title'' @ crlf @ crlf @
     ''My Video'' @ crlf @
     ''--'' @ form_boundary @ crlf @
     ''Content-Disposition: form-data; name='' @ quoted ''category'' @ crlf @ crlf @
     ''education'' @ crlf @
     ''--'' @ form_boundary @ crlf @
     ''Content-Disposition: form-data; name='' @ quoted ''video'' @ ''; filename='' @ quoted ''clip.mp4'' @ crlf @
     ''Content-Type: video/mp4'' @ crlf @ crlf @
     file_data @ crlf @
     ''--'' @ form_boundary @ ''--'' @ crlf"

definition multipart_checks :: "bool list" where
  "multipart_checks =
     (let parts = multipart_parse form_body form_boundary;
          checked = (\<lambda>name f. case find_part parts name of None \<Rightarrow> False | Some p \<Rightarrow> f p)
      in [boundary_from_content_type (''multipart/form-data; boundary='' @ form_boundary) = form_boundary,
          boundary_from_content_type (''multipart/form-data; boundary='' @ quoted ''abc'') = ''abc'',
          boundary_from_content_type ''text/plain'' = [],
          length parts = 3,
          checked ''title'' (\<lambda>p. mp_content p = ''My Video''),
          checked ''title'' (\<lambda>p. \<not> is_file p),
          checked ''category'' (\<lambda>p. mp_content p = ''education''),
          checked ''video'' is_file,
          checked ''video'' (\<lambda>p. mp_filename p = ''clip.mp4''),
          checked ''video'' (\<lambda>p. mp_content_type p = ''video/mp4''),
          checked ''video'' (\<lambda>p. mp_content p = file_data),
          multipart_parse form_body [] = [],
          multipart_parse ''garbage without boundary'' form_boundary = []])"

definition form_parts :: "multipart_part list" where
  "form_parts =
     [part_init\<lparr>mp_name := ''title'', mp_content := ''My Video''\<rparr>,
      part_init\<lparr>mp_name := ''category'', mp_content := ''education''\<rparr>,
      \<lparr>mp_name = ''video'', mp_filename = ''clip.mp4'', mp_content_type = ''video/mp4'', mp_content = file_data\<rparr>]"

lemma form_body_rendered: "form_body = render_multipart form_boundary form_parts"
  by (simp add: form_body_def render_multipart_def form_parts_def render_part_def render_part_headers_def
      render_disposition_def part_init_def quoted_def)

lemma form_parts_ok: "\<forall>p \<in> set form_parts. part_ok (crlf @ ''--'' @ form_boundary) p"
  by (simp add: form_parts_def part_ok_def part_init_def trim_def form_boundary_def file_data_def)

lemma form_parsed: "multipart_parse form_body form_boundary = form_parts"
proof -
  let ?delim = "''--'' @ form_boundary"
  have ne: "?delim \<noteq> []" "form_boundary \<noteq> []" by (simp_all add: form_boundary_def)
  have "find_sub ?delim form_body = Some 0"
    unfolding form_body_rendered render_multipart_def by (rule find_sub_starts) (simp add: starts_with_iff)
  with ne(2) parse_parts_render [OF _ form_parts_ok, of ?delim crlf] show ?thesis
    unfolding multipart_parse_def form_body_rendered render_multipart_def Let_def by simp
qed

lemma multipart_test: "passes multipart_checks"
proof -
  have "boundary_from_content_type (''multipart/form-data; boundary='' @ form_boundary) = form_boundary"
    "boundary_from_content_type (''multipart/form-data; boundary='' @ quoted ''abc'') = ''abc''"
    "boundary_from_content_type ''text/plain'' = []" by code_simp+
  moreover have "find_sub (''--'' @ form_boundary) ''garbage without boundary'' = None" by code_simp
  moreover have "form_boundary \<noteq> []" by (simp add: form_boundary_def)
  ultimately show ?thesis
    by (simp add: multipart_checks_def form_parsed form_parts_def find_part_def is_file_def part_init_def
        multipart_parse_def [of _ "[]"] multipart_parse_def [of "''garbage without boundary''"] Let_def)
qed

section \<open>The token bucket\<close>

text \<open>The times of the calls are those at which the calls happen to run.\<close>

fun allows :: "(rat \<times> string) list \<Rightarrow> limiter \<Rightarrow> bool list \<times> limiter" where
  "allows [] l = ([], l)"
| "allows ((t, k) # calls) l =
     (case allow t k l of (ok, l1) \<Rightarrow> (case allows calls l1 of (oks, l2) \<Rightarrow> (ok # oks, l2)))"

definition token_bucket_checks :: "rat list \<Rightarrow> bool list" where
  "token_bucket_checks ts =
     (let calls = zip (take 6 ts) [''1.2.3.4'', ''1.2.3.4'', ''1.2.3.4'', ''1.2.3.4'', ''5.6.7.8'', ''1.2.3.4''];
          oks = fst (allows calls (limiter_init 1000 3));
          ev = evict_idle (ts ! 7) (snd (allow (ts ! 6) ''x'' (limiter_init 1000 2)))
      in [oks ! 0, oks ! 1, oks ! 2, \<not> oks ! 3, oks ! 4, oks ! 5, rl_buckets ev = Map.empty])"

text \<open>
  The fourth check holds only if the first four calls run within a millisecond, which the test takes
  for granted: the bucket is refilled between them.
\<close>

lemma token_bucket_test:
  assumes "sorted [t1, t2, t3, t4, t5, t6]" "t4 - t1 < 1 / 1000" "5 / 1000 \<le> t6 - t5" "5 / 1000 \<le> t8 - t7"
  shows "passes (token_bucket_checks [t1, t2, t3, t4, t5, t6, t7, t8])"
  using assms
  by (simp add: token_bucket_checks_def Let_def allow_def limiter_init_def refilled_def evict_idle_def
      numeral_nat fun_eq_iff split: if_splits)

section \<open>The server of the middleware test\<close>

lemma contains_middle: "contains_sub p (a @ p @ b)"
  using find_sub_None [of p "a @ p @ b" "length a"] by (auto simp: contains_sub_def)

definition block_path :: middleware where
  "block_path req res =
     (if rq_path req = ''/blocked'' then Stop (res_text ''blocked'' (res_status FORBIDDEN res)) else Proceed res)"

definition open_handler :: handler where
  "open_handler req res = Handled (res_text ''open'' (res_status OK res))"

definition secure_handler :: handler where
  "secure_handler req res = Handled (res_text ''secret'' (res_status OK res))"

definition test_secret :: string where
  "test_secret = ''middleware-test-secret''"

definition test_routes :: "(HttpMethod \<times> string \<times> handler) list" where
  "test_routes = [(GET, ''/open'', open_handler), (GET, ''/secure'', secure_handler)]"

text \<open>The server with default settings: no compression. The library functions come with \<open>base\<close>.\<close>

definition test_app :: "app \<Rightarrow> handler node \<Rightarrow> crypto \<Rightarrow> 'j json_lib \<Rightarrow> int \<Rightarrow> app" where
  "test_app base router cr js now =
     base\<lparr>ap_router := router,
       ap_middlewares :=
         [request_logger,
          cors ''*'' ''GET, POST, PUT, DELETE, PATCH, OPTIONS'' ''Content-Type, Authorization'',
          block_path, require_jwt cr js now test_secret [''/secure'']],
       ap_compression := None\<rparr>"

text \<open>What the server answers to the bytes of one request; \<^term>\<open>[]\<close> when it does not answer.\<close>

definition answer :: "os \<Rightarrow> app \<Rightarrow> string \<Rightarrow> string" where
  "answer os app raw =
     (case parse_request parser_init raw request_init of
        Some r \<Rightarrow>
          if pr_ok r then
            (case handle_request app (pr_request r) of
               Some (Some res) \<Rightarrow> response_bytes os res
             | _ \<Rightarrow> [])
          else []
      | None \<Rightarrow> [])"

definition test_request_bytes :: "string \<Rightarrow> string \<Rightarrow> string" where
  "test_request_bytes line authorization =
     line @ '' HTTP/1.1'' @ crlf @ ''Host: x'' @ crlf @ authorization @ ''Connection: close'' @ crlf @ crlf"

definition middleware_checks :: "os \<Rightarrow> app \<Rightarrow> string \<Rightarrow> bool list" where
  "middleware_checks os app token =
     (let r1 = answer os app (test_request_bytes ''GET /open'' []);
          r2 = answer os app (test_request_bytes ''OPTIONS /secure'' []);
          r3 = answer os app (test_request_bytes ''GET /blocked'' []);
          r4 = answer os app (test_request_bytes ''GET /secure'' []);
          r5 = answer os app (test_request_bytes ''GET /secure'' (''Authorization: Bearer '' @ token @ crlf))
      in [contains_sub ''200'' r1, contains_sub ''open'' r1,
          contains_sub ''Access-Control-Allow-Origin'' r1, contains_sub ''204'' r2, contains_sub ''403'' r3,
          contains_sub ''401'' r4, contains_sub ''200'' r5, contains_sub ''secret'' r5])"

lemma answer_head:
  assumes "well_formed_head m target ''HTTP/1.1'' hs" "''Transfer-Encoding'' \<notin> fst ` set hs"
    "''Content-Length'' \<notin> fst ` set hs"
  shows "answer os app (request_head m target ''HTTP/1.1'' hs @ crlf) =
     (case handle_request app (read_head m target ''HTTP/1.1'' hs) of
        Some (Some res) \<Rightarrow> response_bytes os res | _ \<Rightarrow> [])"
  using parse_render_bodyless [OF assms, of "[]"] by (simp add: answer_def)

lemma response_bytes_contain:
  "contains_sub (dec (status_code (rs_status res))) (response_bytes os res)"
  "\<not> rs_is_file res \<Longrightarrow> \<not> rs_head_only res \<Longrightarrow> contains_sub (text_of res) (response_bytes os res)"
  "iterates (os_map_iter os) (rs_headers res) \<Longrightarrow> rs_headers res k = Some v \<Longrightarrow> contains_sub k (response_bytes os res)"
proof -
  show "contains_sub (dec (status_code (rs_status res))) (response_bytes os res)"
    using contains_middle [of _ "''HTTP/1.1 ''"] by (simp add: response_bytes_def build_headers_string_def)
  show "contains_sub (text_of res) (response_bytes os res)" if "\<not> rs_is_file res" "\<not> rs_head_only res"
    using that contains_middle [of "text_of res" "build_headers_string (os_map_iter os) (os_date os) res" "[]"]
    by (simp add: response_bytes_def)
  assume "iterates (os_map_iter os) (rs_headers res)" "rs_headers res k = Some v"
  then have "(k, v) \<in> set (os_map_iter os (rs_headers res))" by (simp add: iterates_def map_of_SomeD)
  then obtain as bs where sp: "os_map_iter os (rs_headers res) = as @ (k, v) # bs" by (meson split_list)
  let ?a = "''HTTP/1.1 '' @ dec (status_code (rs_status res)) @ '' '' @ http_status_to_string (rs_status res) @
      crlf @ ''Date: '' @ os_date os @ crlf @ header_lines as"
  let ?b = "'': '' @ v @ crlf @ header_lines bs @ crlf"
  have "build_headers_string (os_map_iter os) (os_date os) res = ?a @ k @ ?b"
    unfolding build_headers_string_def sp by (simp add: header_lines_def)
  moreover obtain rest where "response_bytes os res = build_headers_string (os_map_iter os) (os_date os) res @ rest"
    by (simp add: response_bytes_def)
  ultimately have "response_bytes os res = ?a @ k @ (?b @ rest)" by simp
  then show "contains_sub k (response_bytes os res)" by (simp only: contains_middle)
qed

definition test_router :: "handler node" where
  "test_router = build_router [((GET, [''open'']), open_handler), ((GET, [''secure'']), secure_handler)]"

text \<open>The registration of the two routes gives that tree.\<close>

lemma test_router_registered: "register test_routes empty_node = Inr test_router"
  by (simp add: test_routes_def test_router_def build_router_def add_route_def split_path_pieces path_segments_def)

lemma test_find:
  "find_route test_router GET ''/open'' Map.empty = Some (Some open_handler, Map.empty)"
  "find_route test_router GET ''/secure'' Map.empty = Some (Some secure_handler, Map.empty)"
  by (simp_all add: test_router_def find_route_def split_path_pieces path_segments_def build_router_def
      is_param_def empty_node_def)

definition cors_response :: http_response where
  "cors_response =
     res_header ''Access-Control-Allow-Headers'' ''Content-Type, Authorization''
       (res_header ''Access-Control-Allow-Methods'' ''GET, POST, PUT, DELETE, PATCH, OPTIONS''
         (res_header ''Access-Control-Allow-Origin'' ''*'' response_init))"

lemma not_file [simp]: "\<not> rs_is_file cors_response" "\<not> rs_head_only cors_response"
  by (simp_all add: cors_response_def)

lemma test_app_answers:
  assumes "rq_method req = GET"
  shows "rq_path req = ''/open'' \<Longrightarrow> handle_request (test_app base test_router cr js now) req =
      Some (Some (res_text ''open'' (res_status OK cors_response)))"
    "rq_path req = ''/blocked'' \<Longrightarrow> handle_request (test_app base test_router cr js now) req =
      Some (Some (res_text ''blocked'' (res_status FORBIDDEN cors_response)))"
    "rq_path req = ''/secure'' \<Longrightarrow> bearer_token req = [] \<Longrightarrow>
      js_dump js (js_object js [(''success'', js_bool js False), (''message'', js_string js ''Unauthorized'')]) = Inr body \<Longrightarrow>
      handle_request (test_app base test_router cr js now) req =
      Some (Some (res_json body (res_status UNAUTHORIZED cors_response)))"
    "rq_path req = ''/secure'' \<Longrightarrow> bearer_token req \<noteq> [] \<Longrightarrow> validateJWT cr js now (bearer_token req) test_secret \<Longrightarrow>
      handle_request (test_app base test_router cr js now) req =
      Some (Some (res_text ''secret'' (res_status OK cors_response)))"
  using assms test_find
  by (simp_all add: handle_request_def test_app_def request_logger_def cors_def block_path_def require_jwt_def
      Let_def find_handler_def finish_response_def semantics_text cors_response_def [symmetric]
      open_handler_def secure_handler_def res_text_def)

lemma preflight_answer:
  assumes "rq_method req = OPTIONS"
  shows "handle_request (test_app base test_router cr js now) req =
      Some (Some (res_header ''Content-Length'' ''0'' (res_status NO_CONTENT cors_response)))"
  using assms
  by (simp add: handle_request_def test_app_def request_logger_def cors_def Let_def finish_response_def
      semantics_text cors_response_def [symmetric])

text \<open>The requests as the parser reads them.\<close>

definition test_headers :: "(string \<times> string) list \<Rightarrow> (string \<times> string) list" where
  "test_headers extra = [(''Host'', ''x'')] @ extra @ [(''Connection'', ''close'')]"

abbreviation test_request :: "HttpMethod \<Rightarrow> string \<Rightarrow> (string \<times> string) list \<Rightarrow> http_request" where
  "test_request m path extra \<equiv> read_head m path ''HTTP/1.1'' (test_headers extra)"

lemma test_request_simps:
  "rq_method (test_request m path extra) = m"
  "CHR ''?'' \<notin> set path \<Longrightarrow> rq_path (test_request m path extra) = path"
  "bearer_token (test_request m path []) = []"
  "bearer_token (test_request m path [(''Authorization'', ''Bearer '' @ token)]) = token"
proof -
  show "rq_path (test_request m path extra) = path" if "CHR ''?'' \<notin> set path"
    using find_sub_single_None [of "CHR ''?''" path] that
    by (simp add: read_head_def parse_query_parameters_def add_headers_def)
qed (simp_all add: read_head_def parse_query_parameters_def add_headers_def bearer_token_def header_def
    test_headers_def request_init_def split: option.split)

lemma test_request_bytes_head:
  "test_request_bytes (http_method_to_string m @ '' '' @ path) [] = request_head m path ''HTTP/1.1'' (test_headers []) @ crlf"
  "test_request_bytes (http_method_to_string m @ '' '' @ path) (''Authorization: Bearer '' @ token @ crlf) =
     request_head m path ''HTTP/1.1'' (test_headers [(''Authorization'', ''Bearer '' @ token)]) @ crlf"
  by (simp_all add: test_request_bytes_def request_head_def render_headers_def test_headers_def)

lemma test_answer:
  assumes "m \<in> {GET, OPTIONS}" "path \<in> {''/open'', ''/blocked'', ''/secure''}"
  shows "answer os app (test_request_bytes (http_method_to_string m @ '' '' @ path) []) =
      (case handle_request app (test_request m path []) of Some (Some res) \<Rightarrow> response_bytes os res | _ \<Rightarrow> [])"
    "CR \<notin> set token \<Longrightarrow> length token \<le> 4000 \<Longrightarrow>
     answer os app (test_request_bytes (http_method_to_string m @ '' '' @ path) (''Authorization: Bearer '' @ token @ crlf)) =
      (case handle_request app (test_request m path [(''Authorization'', ''Bearer '' @ token)]) of
         Some (Some res) \<Rightarrow> response_bytes os res | _ \<Rightarrow> [])"
proof -
  have wf: "well_formed_head m path ''HTTP/1.1'' (test_headers [])"
    "CR \<notin> set token \<Longrightarrow> length token \<le> 4000 \<Longrightarrow>
       well_formed_head m path ''HTTP/1.1'' (test_headers [(''Authorization'', ''Bearer '' @ token)])" for token
    using assms by (auto simp: well_formed_head_def valid_header_def isspace_def request_head_def
        render_headers_def test_headers_def MAX_HEADER_BYTES_def)
  show "answer os app (test_request_bytes (http_method_to_string m @ '' '' @ path) []) =
      (case handle_request app (test_request m path []) of Some (Some res) \<Rightarrow> response_bytes os res | _ \<Rightarrow> [])"
    unfolding test_request_bytes_head by (rule answer_head [OF wf(1)]) (simp_all add: test_headers_def)
  assume "CR \<notin> set token" "length token \<le> 4000"
  from answer_head [OF wf(2) [OF this], of os app]
  show "answer os app (test_request_bytes (http_method_to_string m @ '' '' @ path) (''Authorization: Bearer '' @ token @ crlf)) =
      (case handle_request app (test_request m path [(''Authorization'', ''Bearer '' @ token)]) of
         Some (Some res) \<Rightarrow> response_bytes os res | _ \<Rightarrow> [])"
    unfolding test_request_bytes_head by (simp add: test_headers_def)
qed

lemma token_no_cr:
  assumes "generateJWT cr js now user_id username secret = Inr token"
  shows "CR \<notin> set token" "token \<noteq> []"
proof -
  from assms obtain h p g where t: "token = (base64url_encode h @ ''.'' @ base64url_encode p) @ ''.'' @ base64url_encode g"
    by (auto simp: generateJWT_def Let_def split: sum.splits)
  have "CR \<notin> set b64_alphabet" by (simp add: b64_alphabet_def)
  then show "CR \<notin> set token" using t b64_spec_alphabet by (auto simp: base64url_encode_eq)
  show "token \<noteq> []" using t by simp
qed

lemma status_digits: "dec 200 = ''200''" "dec 204 = ''204''" "dec 401 = ''401''" "dec 403 = ''403''"
  by code_simp+

text \<open>
  Every check of the middleware test holds of the server it sets up, for every file system,
  date and header order, and every cryptographic and JSON library of the documented behaviour: the
  open route answers, with the headers of \<open>cors\<close>; the preflight is answered at once; the blocked
  path is; the protected route asks for a token and, with the token just issued, answers.
\<close>

lemma middleware_test_passes:
  assumes "register test_routes empty_node = Inr router" "\<And>m. finite (dom m) \<Longrightarrow> iterates (os_map_iter os) m" "json_ok js"
    "\<forall>d k. cr_hmac cr d k \<noteq> []"
    "js_dump js (js_object js [(''success'', js_bool js False), (''message'', js_string js ''Unauthorized'')]) = Inr body"
    "generateJWT cr js issue_time 1 ''u'' test_secret = Inr token" "length token \<le> 4000" "now < issue_time + 24 * 3600"
  shows "passes (middleware_checks os (test_app base router cr js now) token)"
proof -
  have router: "router = test_router" using assms(1) test_router_registered by simp
  have valid: "validateJWT cr js now token test_secret"
    using validate_issued [OF assms(3,6) refl assms(4,8)] by simp
  note t = token_no_cr [OF assms(6)]
  note a = test_answer(1) [of GET "''/open''"] test_answer(1) [of OPTIONS "''/secure''"]
    test_answer(1) [of GET "''/blocked''"] test_answer(1) [of GET "''/secure''"]
    test_answer(2) [of GET "''/secure''", OF _ _ t(1) assms(7)]
  note h = test_app_answers [OF test_request_simps(1)] preflight_answer [OF test_request_simps(1)]
  note c = response_bytes_contain [where os = os]
  have cors: "iterates (os_map_iter os) (rs_headers (res_text ''open'' (res_status OK cors_response)))"
    by (rule assms(2)) (simp add: cors_response_def res_text_def)
  have r1: "answer os (test_app base router cr js now) (test_request_bytes ''GET /open'' []) =
      response_bytes os (res_text ''open'' (res_status OK cors_response))"
    by (simp add: router a(1) [simplified] h(1) [OF test_request_simps(2)])
  have r2: "answer os (test_app base router cr js now) (test_request_bytes ''OPTIONS /secure'' []) =
      response_bytes os (res_header ''Content-Length'' ''0'' (res_status NO_CONTENT cors_response))"
    by (simp add: router a(2) [simplified] h(5))
  have r3: "answer os (test_app base router cr js now) (test_request_bytes ''GET /blocked'' []) =
      response_bytes os (res_text ''blocked'' (res_status FORBIDDEN cors_response))"
    by (simp add: router a(3) [simplified] h(2) [OF test_request_simps(2)])
  have r4: "answer os (test_app base router cr js now) (test_request_bytes ''GET /secure'' []) =
      response_bytes os (res_json body (res_status UNAUTHORIZED cors_response))"
    by (simp add: router a(4) [simplified] h(3) [OF test_request_simps(2,3) assms(5)])
  have r5: "answer os (test_app base router cr js now) (test_request_bytes ''GET /secure'' (''Authorization: Bearer '' @ token @ crlf)) =
      response_bytes os (res_text ''secret'' (res_status OK cors_response))"
    using valid t(2) by (simp add: router a(5) [simplified] h(4) [OF test_request_simps(2)] test_request_simps(4) [simplified])
  show ?thesis
    unfolding middleware_checks_def Let_def r1 r2 r3 r4 r5
    using c(1) [where res = "res_text ''open'' (res_status OK cors_response)"]
      c(2) [where res = "res_text ''open'' (res_status OK cors_response)"] c(3) [OF cors, where k = "''Access-Control-Allow-Origin''"]
      c(1) [where res = "res_header ''Content-Length'' ''0'' (res_status NO_CONTENT cors_response)"]
      c(1) [where res = "res_text ''blocked'' (res_status FORBIDDEN cors_response)"]
      c(1) [where res = "res_json body (res_status UNAUTHORIZED cors_response)"]
      c(1) [where res = "res_text ''secret'' (res_status OK cors_response)"]
      c(2) [where res = "res_text ''secret'' (res_status OK cors_response)"]
    by (simp add: status_digits res_text_def text_of_def) (simp add: cors_response_def)
qed

text \<open>Libraries for which the premises hold: a map is iterated in the order of its keys.\<close>

definition ordered_iter :: map_iter where
  "ordered_iter m = map (\<lambda>k. (k, the (m k))) (sorted_list_of_set (dom m))"

lemma ordered_iterates: "finite (dom m) \<Longrightarrow> iterates ordered_iter m"
  by (auto simp: iterates_def ordered_iter_def comp_def map_of_map_restrict restrict_map_def fun_eq_iff)
    (metis not_None_eq)

definition test_payload :: toy_json where
  "test_payload = JObj [(''user_id'', JInt 1), (''username'', JStr ''u''), (''exp'', JInt 86400)]"

definition refusal :: toy_json where
  "refusal = JObj [(''success'', JBool False), (''message'', JStr ''Unauthorized'')]"

definition test_lib :: "toy_json json_lib" where
  "test_lib = toy_json_lib
     \<lparr>js_parse := (\<lambda>s. if s = ''H'' then Inr toy_header else if s = ''P'' then Inr test_payload
        else if s = ''U'' then Inr refusal else Inl ''parse error''),
      js_dump := (\<lambda>v. if v = toy_header then Inr ''H'' else if v = test_payload then Inr ''P''
        else if v = refusal then Inr ''U'' else Inl ''dump error'')\<rparr>"

lemma test_lib_ok: "json_ok test_lib"
  by (auto simp: json_ok_def test_lib_def toy_json_lib_def toy_header_def test_payload_def refusal_def split: if_splits)

definition test_token :: string where
  "test_token = (''SA'' @ ''.'' @ ''UA'') @ ''.'' @ base64url_encode (''m'' @ test_secret @ ''SA.UA'')"

lemma test_token_issued: "generateJWT keyed_crypto test_lib 0 1 ''u'' test_secret = Inr test_token"
proof -
  have "base64url_encode ''H'' = ''SA''" "base64url_encode ''P'' = ''UA''"
    unfolding base64url_encode_eq by code_simp+
  moreover have "js_dump test_lib toy_header = Inr ''H''" "js_dump test_lib test_payload = Inr ''P''"
    by (simp_all add: test_lib_def toy_header_def test_payload_def)
  ultimately show ?thesis
    by (simp add: generateJWT_def Let_def test_token_def keyed_crypto_def test_lib_def toy_json_lib_def
        toy_header_def test_payload_def)
qed

definition test_base :: app where
  "test_base = \<lparr>ap_router = empty_node, ap_middlewares = [], ap_compression = None,
     ap_compressors = gzip_example, ap_files = fs_example, ap_error_json = (\<lambda>m. m)\<rparr>"

lemma middleware_test_passes_example:
  "passes (middleware_checks (os_example\<lparr>os_map_iter := ordered_iter\<rparr>)
     (test_app test_base test_router keyed_crypto test_lib 100) test_token)"
proof (rule middleware_test_passes [OF test_router_registered _ test_lib_ok _ _ test_token_issued])
  show "iterates (os_map_iter (os_example\<lparr>os_map_iter := ordered_iter\<rparr>)) m" if "finite (dom m)" for m
    using ordered_iterates [OF that] by simp
  show "\<forall>d k. cr_hmac keyed_crypto d k \<noteq> []" by (simp add: keyed_crypto_def)
  show "js_dump test_lib (js_object test_lib [(''success'', js_bool test_lib False),
      (''message'', js_string test_lib ''Unauthorized'')]) = Inr ''U''"
    by (simp add: test_lib_def toy_json_lib_def refusal_def toy_header_def test_payload_def)
  show "length test_token \<le> 4000" unfolding test_token_def base64url_encode_eq by code_simp
qed simp

section \<open>Passwords and tokens\<close>

definition unit_test_secret :: string where
  "unit_test_secret = ''unit-test-secret''"

definition unit_test_password :: string where
  "unit_test_password = ''s3cret-passw0rd!''"

definition tamper :: "string \<Rightarrow> nat \<Rightarrow> string" where
  "tamper s pos = s[pos := (if s ! pos = CHR ''A'' then CHR ''B'' else CHR ''A'')]"

text \<open>The positions behind the first and behind the last dot of a token.\<close>

definition behind_first_dot :: "string \<Rightarrow> nat" where
  "behind_first_dot s = (case find_sub ''.'' s of None \<Rightarrow> 0 | Some i \<Rightarrow> i + 1)"

definition behind_last_dot :: "string \<Rightarrow> nat" where
  "behind_last_dot s = length s - length (takeWhile (\<lambda>c. c \<noteq> CHR ''.'') (rev s))"

definition password_checks :: "crypto \<Rightarrow> string \<Rightarrow> string \<Rightarrow> bool list" where
  "password_checks cr hash hash2 =
     [starts_with ''pbkdf2_sha256$'' hash,
      verifyPassword cr unit_test_password hash,
      \<not> verifyPassword cr ''wrong'' hash,
      \<not> verifyPassword cr unit_test_password ''not-a-valid-hash'',
      \<not> verifyPassword cr unit_test_password [],
      hash \<noteq> hash2,
      verifyPassword cr unit_test_password hash2]"

definition token_checks :: "crypto \<Rightarrow> 'j json_lib \<Rightarrow> int \<Rightarrow> string \<Rightarrow> bool list" where
  "token_checks cr js now token =
     (let valid = (\<lambda>t. validateJWT cr js now t unit_test_secret);
          field = (\<lambda>k. js_field js (decodeJWT js token) k)
      in [valid token,
          \<not> validateJWT cr js now token ''other-secret'',
          \<not> valid (tamper token (behind_last_dot token)),
          \<not> valid (tamper token (behind_first_dot token)),
          \<not> valid ''not.a.jwt'',
          \<not> valid ''onlyonepart'',
          (case field ''user_id'' of None \<Rightarrow> False | Some v \<Rightarrow> js_get_number js v = Some 42),
          (case field ''username'' of None \<Rightarrow> False | Some v \<Rightarrow> js_get_string js v = Some ''alice''),
          field ''exp'' \<noteq> None])"

text \<open>An exception, of \<open>hashPassword\<close> or of the JSON library, ends the test.\<close>

definition security_checks :: "crypto \<Rightarrow> 'j json_lib \<Rightarrow> int \<Rightarrow> string option \<Rightarrow> string option \<Rightarrow> bool list throws" where
  "security_checks cr js now random random2 =
     (case hashPassword cr random unit_test_password of
        Inl e \<Rightarrow> Inl e
      | Inr hash \<Rightarrow>
          (case hashPassword cr random2 unit_test_password of
             Inl e \<Rightarrow> Inl e
           | Inr hash2 \<Rightarrow>
               (case generateJWT cr js now 42 ''alice'' unit_test_secret of
                  Inl e \<Rightarrow> Inl e
                | Inr token \<Rightarrow> Inr (password_checks cr hash hash2 @ token_checks cr js now token))))"

text \<open>A changed first symbol changes the first byte.\<close>

lemma decode_first:
  assumes "g \<noteq> []"
  shows "base64url_decode (tamper (base64url_encode g) 0) \<noteq> g"
proof -
  obtain a g' where g: "g = a # g'" using assms by (cases g) auto
  have "\<exists>k rest. base64url_encode g = b64_alphabet ! (ord a div 4) # b64_alphabet ! (ord a mod 4 * 16 + k) # rest \<and> k < 16"
  proof (cases g')
    case Nil
    then show ?thesis using g by (intro exI [of _ 0]) (simp add: base64url_encode_eq)
  next
    case (Cons b bs)
    have "ord b div 16 < 16" using ord_less [of b] by (simp add: less_mult_imp_div_less)
    then show ?thesis using g Cons
      by (intro exI [of _ "ord b div 16"]) (cases bs; simp add: base64url_encode_eq)
  qed
  then obtain k rest where k: "base64url_encode g = b64_alphabet ! (ord a div 4) # b64_alphabet ! (ord a mod 4 * 16 + k) # rest"
    "k < 16" by blast
  let ?e = "ord a mod 4 * 16 + k"
  have e: "?e < 64" "?e div 16 = ord a mod 4" using k(2) by (simp_all add: div_add1_eq)
  define d where "d = (if b64_alphabet ! (ord a div 4) = CHR ''A'' then 1 else 0 :: nat)"
  have "ord a div 4 < 64" using ord_less [of a] by (simp add: less_mult_imp_div_less)
  moreover have "b64_alphabet ! 0 = CHR ''A''" "b64_alphabet ! 1 = CHR ''B''" by (simp_all add: b64_alphabet_def)
  ultimately have d: "d < 64" "d \<noteq> ord a div 4"
    by (cases "ord a div 4 = 0"; auto simp: d_def split: if_splits)+
  have t: "tamper (base64url_encode g) 0 = b64_alphabet ! d # b64_alphabet ! ?e # rest"
    by (simp add: tamper_def k(1) d_def b64_alphabet_def)
  have u: "unat (push_bit 6 0 + of_nat d :: 32 word) mod 64 = d" using push6_values(4) [OF d(1), of 0] by simp
  have "hd (base64url_decode (tamper (base64url_encode g) 0)) = char_of (d * 4 + ?e div 16)"
    using u unfolding t base64url_decode_def b64_decode_loop_step(1) [OF d(1)] b64_decode_loop_step(2) [OF e(1)] by simp
  moreover have "ord (char_of (d * 4 + ?e div 16) :: char) = d * 4 + ord a mod 4"
    using d(1) e(2) by simp
  moreover have "d * 4 + ord a mod 4 \<noteq> ord a" using d(2) by presburger
  ultimately show ?thesis using g by (metis list.sel(1))
qed

text \<open>
  What the tests take for granted of the libraries: keys and texts that differ have codes that
  differ, and a code has 32 bytes.
\<close>

definition hmac_separates :: "crypto \<Rightarrow> string \<Rightarrow> bool" where
  "hmac_separates cr d \<longleftrightarrow>
     (\<forall>d k. length (cr_hmac cr d k) = 32) \<and>
     cr_hmac cr d ''other-secret'' \<noteq> cr_hmac cr d unit_test_secret \<and>
     cr_hmac cr (tamper d (behind_first_dot d)) unit_test_secret \<noteq> cr_hmac cr d unit_test_secret"

definition signed_part :: "string \<Rightarrow> string" where
  "signed_part token = take (behind_last_dot token - 1) token"

lemma behind_dots:
  assumes "CHR ''.'' \<notin> set h" "CHR ''.'' \<notin> set p" "CHR ''.'' \<notin> set g"
  shows "behind_first_dot ((h @ ''.'' @ p) @ ''.'' @ g) = length h + 1"
    "behind_first_dot (h @ ''.'' @ p) = length h + 1"
    "behind_last_dot ((h @ ''.'' @ p) @ ''.'' @ g) = length h + length p + 2"
    "signed_part ((h @ ''.'' @ p) @ ''.'' @ g) = h @ ''.'' @ p"
proof -
  show "behind_first_dot ((h @ ''.'' @ p) @ ''.'' @ g) = length h + 1" "behind_first_dot (h @ ''.'' @ p) = length h + 1"
    using find_sub_here [OF assms(1), of "[]"] by (simp_all add: behind_first_dot_def)
  have "takeWhile (\<lambda>c. c \<noteq> CHR ''.'') (rev g @ CHR ''.'' # rev (h @ ''.'' @ p)) = rev g"
    using assms(3) by (subst takeWhile_append2) auto
  then show l: "behind_last_dot ((h @ ''.'' @ p) @ ''.'' @ g) = length h + length p + 2"
    by (simp add: behind_last_dot_def)
  show "signed_part ((h @ ''.'' @ p) @ ''.'' @ g) = h @ ''.'' @ p"
    unfolding signed_part_def l by simp
qed

lemma tamper_no_dot: "CHR ''.'' \<notin> set s \<Longrightarrow> CHR ''.'' \<notin> set (tamper s 0)"
  by (cases s) (auto simp: tamper_def)

lemma tamper_at: "s \<noteq> [] \<Longrightarrow> tamper (a @ s @ b) (length a) = a @ tamper s 0 @ b"
  by (cases s) (auto simp: tamper_def nth_append list_update_append)

lemma tampered_rejected:
  assumes "CHR ''.'' \<notin> set h" "CHR ''.'' \<notin> set p" "CHR ''.'' \<notin> set g" "g \<noteq> []"
    "base64url_decode g \<noteq> cr_hmac cr (h @ ''.'' @ p) secret"
  shows "\<not> validateJWT cr js now ((h @ ''.'' @ p) @ ''.'' @ g) secret"
  unfolding validateJWT_parts [OF split_three [OF assms(1-4)]] using assms(5) by simp

text \<open>The parts of the token that the tests tamper with: neither is empty.\<close>

lemma issued_parts:
  assumes "generateJWT cr js issued_at user_id username unit_test_secret = Inr token"
    "hmac_separates cr (signed_part token)"
  obtains h p m where "token = (h @ ''.'' @ p) @ ''.'' @ base64url_encode m"
    "m = cr_hmac cr (h @ ''.'' @ p) unit_test_secret"
    "CHR ''.'' \<notin> set h" "CHR ''.'' \<notin> set p" "CHR ''.'' \<notin> set (base64url_encode m)"
    "hmac_separates cr (h @ ''.'' @ p)" "p \<noteq> []" "base64url_encode m \<noteq> []"
proof -
  from assms(1) obtain hd pl where t: "token = (base64url_encode hd @ ''.'' @ base64url_encode pl) @ ''.'' @
      base64url_encode (cr_hmac cr (base64url_encode hd @ ''.'' @ base64url_encode pl) unit_test_secret)"
    by (auto simp: generateJWT_def Let_def split: sum.splits)
  define h p where "h = base64url_encode hd" and "p = base64url_encode pl"
  define m where "m = cr_hmac cr (h @ ''.'' @ p) unit_test_secret"
  have tok: "token = (h @ ''.'' @ p) @ ''.'' @ base64url_encode m" using t by (simp add: h_def p_def m_def)
  have nd: "CHR ''.'' \<notin> set h" "CHR ''.'' \<notin> set p" "CHR ''.'' \<notin> set (base64url_encode m)"
    by (simp_all add: h_def p_def base64url_encode_no_delim)
  have sep: "hmac_separates cr (h @ ''.'' @ p)" using assms(2) behind_dots(4) [OF nd] by (simp add: tok)
  then have "length m = 32" by (simp add: hmac_separates_def m_def)
  then have "base64url_encode m \<noteq> []" by (auto simp: base64url_encode_empty)
  moreover have "p \<noteq> []"
  proof
    assume "p = []"
    then have "tamper (h @ ''.'' @ p) (behind_first_dot (h @ ''.'' @ p)) = h @ ''.'' @ p"
      using behind_dots(2) [OF nd] by (simp add: tamper_def list_update_beyond)
    with sep show False by (simp add: hmac_separates_def)
  qed
  ultimately show thesis using that [OF tok m_def nd sep] by simp
qed

lemma tokens_test:
  assumes "json_ok js" "generateJWT cr js issued_at 42 ''alice'' unit_test_secret = Inr token"
    "hmac_separates cr (signed_part token)" "now < issued_at + 24 * 3600"
  shows "passes (token_checks cr js now token)"
proof -
  from issued_parts [OF assms(2,3)] obtain h p m where
    tok: "token = (h @ ''.'' @ p) @ ''.'' @ base64url_encode m" and
    m: "m = cr_hmac cr (h @ ''.'' @ p) unit_test_secret" and
    nd: "CHR ''.'' \<notin> set h" "CHR ''.'' \<notin> set p" "CHR ''.'' \<notin> set (base64url_encode m)" and
    hs: "hmac_separates cr (h @ ''.'' @ p)" and pne: "p \<noteq> []" and g: "base64url_encode m \<noteq> []" .
  have sep: "cr_hmac cr (h @ ''.'' @ p) ''other-secret'' \<noteq> m" "\<And>d k. length (cr_hmac cr d k) = 32"
    "cr_hmac cr (h @ ''.'' @ tamper p 0) unit_test_secret \<noteq> m"
    using hs behind_dots(2) [OF nd] tamper_at [OF pne, of "h @ ''.''" "[]"]
    by (simp_all add: hmac_separates_def m)
  have mne: "m \<noteq> []" using g by (auto simp: base64url_encode_empty)
  have tp: "tamper token (behind_first_dot token) = (h @ ''.'' @ tamper p 0) @ ''.'' @ base64url_encode m"
    using tamper_at [OF pne, of "h @ ''.''" "''.'' @ base64url_encode m"] behind_dots(1) [OF nd] by (simp add: tok)
  have tg: "tamper token (behind_last_dot token) = (h @ ''.'' @ p) @ ''.'' @ tamper (base64url_encode m) 0"
    using tamper_at [OF g, of "(h @ ''.'' @ p) @ ''.''" "[]"] behind_dots(3) [OF nd] by (simp add: tok)
  have "tamper (base64url_encode m) 0 \<noteq> []" using g by (simp add: tamper_def)
  note rej = tampered_rejected [OF nd(1,2) tamper_no_dot [OF nd(3)] this]
    tampered_rejected [OF nd(1) tamper_no_dot [OF nd(2)] nd(3) g] tampered_rejected [OF nd g]
  have "length (base64url_decode ''jwt'') = 2" by code_simp
  then have jwt: "base64url_decode ''jwt'' \<noteq> cr_hmac cr d k" for d k using sep(2) [of d k] by auto
  have garbage: "\<not> validateJWT cr js now ''not.a.jwt'' unit_test_secret"
    using tampered_rejected [of "''not''" "''a''" "''jwt''", OF _ _ _ _ jwt] by simp
  have onlyone: "\<not> validateJWT cr js now ''onlyonepart'' unit_test_secret"
    using split_getline_piece(2) [of "CHR ''.''" "''onlyonepart''"] by (simp add: validateJWT_def)
  have "\<forall>d k. cr_hmac cr d k \<noteq> []" using sep(2) by (metis list.size(3) zero_neq_numeral)
  note issued = validate_issued [OF assms(1,2) refl this assms(4)]
  have js: "js_get_number js (js_integer js 42) = Some 42" "js_get_string js (js_string js ''alice'') = Some ''alice''"
    using assms(1) by (simp_all add: json_ok_def)
  note parts = split_three [OF nd g]
  have exp: "js_field js (decodeJWT js token) ''exp'' \<noteq> None"
    using issued unfolding tok validateJWT_parts [OF parts]
    by (auto simp: token_claims_def decodeJWT_def parts simp del: append.simps append_assoc)
  have "\<not> validateJWT cr js now token ''other-secret''"
    unfolding tok by (rule rej(3)) (use sep(1) base64url_round_trip in simp)
  moreover have "\<not> validateJWT cr js now (tamper token (behind_last_dot token)) unit_test_secret"
    unfolding tg by (rule rej(1)) (use decode_first [OF mne] m in simp)
  moreover have "\<not> validateJWT cr js now (tamper token (behind_first_dot token)) unit_test_secret"
    unfolding tp by (rule rej(2)) (use sep(3) base64url_round_trip in simp)
  ultimately show ?thesis using garbage onlyone issued js exp by (simp add: token_checks_def Let_def)
qed

text \<open>The hash of a password, with a salt of the length the code asks for.\<close>

lemma hash_form:
  assumes "hashPassword cr (Some salt) pw = Inr hash"
  shows "\<exists>t. hash = ''pbkdf2_sha256$'' @ dec kPbkdf2Iterations @ ''$'' @ base64url_encode salt @ ''$'' @ t \<and>
     CHR ''$'' \<notin> set t"
  using assms by (auto simp: hashPassword_def base64url_encode_no_delim split: option.splits)

lemma hash_salt:
  assumes "hashPassword cr (Some salt) pw = Inr hash" "hashPassword cr (Some salt2) pw = Inr hash" 
  shows "salt = salt2"
proof -
  from hash_form [OF assms(1)] hash_form [OF assms(2)] obtain t t2 where
    "base64url_encode salt @ ''$'' @ t = base64url_encode salt2 @ ''$'' @ t2" by auto
  moreover have "takeWhile (\<lambda>c. c \<noteq> CHR ''$'') (base64url_encode x @ ''$'' @ u) = base64url_encode x" for x u
    using base64url_encode_no_delim(2) [of x] by (subst takeWhile_append2) auto
  ultimately have "base64url_encode salt = base64url_encode salt2" by metis
  then show ?thesis using base64url_round_trip by metis
qed

lemma passwords_test:
  assumes "crypto_ok cr" "hashPassword cr (Some salt) unit_test_password = Inr hash"
    "hashPassword cr (Some salt2) unit_test_password = Inr hash2"
    "length salt = kSaltLength" "length salt2 = kSaltLength" "salt \<noteq> salt2"
    "cr_pbkdf2 cr ''wrong'' salt (int kPbkdf2Iterations) kHashLength \<noteq>
     cr_pbkdf2 cr unit_test_password salt (int kPbkdf2Iterations) kHashLength"
  shows "passes (password_checks cr hash hash2)"
proof -
  have one: "split_getline CHR ''$'' ''not-a-valid-hash'' = [''not-a-valid-hash'']"
    by (rule split_getline_piece(2)) simp_all
  have "starts_with ''pbkdf2_sha256$'' hash" using hash_form [OF assms(2)] by auto
  moreover have "hash \<noteq> hash2" using hash_salt [OF assms(2)] assms(3,6) by auto
  ultimately show ?thesis
    using verify_hash [OF assms(1,2,4)] verify_hash [OF assms(1,3,5)] assms(7)
    by (simp add: password_checks_def verifyPassword_def [of _ _ "''not-a-valid-hash''"]
        verifyPassword_def [of _ _ "[]"] one split_getline_piece(3))
qed

lemma security_test:
  assumes "crypto_ok cr" "json_ok js" "length salt = kSaltLength" "length salt2 = kSaltLength" "salt \<noteq> salt2"
    "cr_pbkdf2 cr ''wrong'' salt (int kPbkdf2Iterations) kHashLength \<noteq>
     cr_pbkdf2 cr unit_test_password salt (int kPbkdf2Iterations) kHashLength"
    "\<And>token. generateJWT cr js now 42 ''alice'' unit_test_secret = Inr token \<Longrightarrow> hmac_separates cr (signed_part token)"
    "security_checks cr js now (Some salt) (Some salt2) = Inr checks"
  shows "passes checks"
proof -
  from assms(8) obtain hash hash2 token where
    "hashPassword cr (Some salt) unit_test_password = Inr hash" "hashPassword cr (Some salt2) unit_test_password = Inr hash2"
    "generateJWT cr js now 42 ''alice'' unit_test_secret = Inr token"
    "checks = password_checks cr hash hash2 @ token_checks cr js now token"
    by (auto simp: security_checks_def split: sum.splits)
  with passwords_test [OF assms(1) _ _ assms(3-6)] tokens_test [OF assms(2) _ assms(7)] show ?thesis by simp
qed

section \<open>Replaying the corpus\<close>

text \<open>
  An entry of a directory is a regular file or not, with its bytes. \<^term>\<open>None\<close> inside is the abort
  of the target, and outside undefined behaviour.
\<close>

fun replay_entries :: "(bool \<times> string) list \<Rightarrow> nat option defined" where
  "replay_entries [] = Some (Some 0)"
| "replay_entries ((regular, bytes) # es) =
     (if \<not> regular then replay_entries es
      else
        (case fuzz_run bytes of
           None \<Rightarrow> None
         | Some Aborted \<Rightarrow> Some None
         | Some Returned \<Rightarrow> map_option (map_option Suc) (replay_entries es)))"

definition replay_dir :: "(bool \<times> string) list option \<Rightarrow> nat option defined" where
  "replay_dir dir = (case dir of None \<Rightarrow> Some (Some 0) | Some es \<Rightarrow> replay_entries es)"

definition replay_main :: "(bool \<times> string) list option \<Rightarrow> (bool \<times> string) list option \<Rightarrow> nat option defined" where
  "replay_main corpus regressions =
     (case replay_dir corpus of
        Some (Some n) \<Rightarrow> map_option (map_option ((+) n)) (replay_dir regressions)
      | r \<Rightarrow> r)"

text \<open>No corpus makes the replay abort: it counts the files.\<close>

lemma fuzz_run_returns: "fuzz_run bytes = None \<or> fuzz_run bytes = Some Returned"
proof -
  have "fuzz_run bytes \<noteq> Some Aborted"
    using check_holds [OF _ parser_init_start, of "tl bytes" request_init] incremental_never_aborts
    by (auto simp: fuzz_run_def parse_once_def parse_incremental_def split: option.split)
  then show ?thesis by (metis fuzz_end.exhaust option.exhaust)
qed

lemma replay_counts:
  "replay_entries es = None \<or> replay_entries es = Some (Some (length (filter fst es)))"
proof (induction es)
  case (Cons e es)
  obtain regular bytes where e: "e = (regular, bytes)" by (cases e)
  show ?case using Cons fuzz_run_returns [of bytes] by (auto simp: e)
qed simp

lemma replay_test:
  "replay_main (Some c) (Some r) = None \<or>
   replay_main (Some c) (Some r) = Some (Some (length (filter fst (c @ r))))"
  using replay_counts [of c] replay_counts [of r] by (auto simp: replay_main_def replay_dir_def)

end
