(* ===== verification/Integration_Client.thy ===== *)
theory Integration_Client
  imports Exchange Test_Client
begin

text \<open>
  The client of \<open>tests/integration_test.cpp\<close>, which keeps what it has read behind a response for the
  next one. With the server of \<open>Exchange\<close> it closes the circle: what it sends is answered, and what
  it reads are the answers.
\<close>

section \<open>The client\<close>

text \<open>\<open>struct Response\<close>.\<close>

record client_response =
  rp_status :: int
  rp_headers :: string
  rp_body :: string

definition client_response_init :: client_response where
  "client_response_init = \<lparr>rp_status = 0, rp_headers = [], rp_body = []\<rparr>"

definition has_header :: "client_response \<Rightarrow> string \<Rightarrow> bool" where
  "has_header r needle = contains_sub (map to_lower needle) (map to_lower (rp_headers r))"

text \<open>\<open>std::strtoul\<close> of 64 bits does not fail; \<open>std::atoi\<close> is undefined on what is no \<open>int\<close>.\<close>

definition strtoul :: "string \<Rightarrow> nat" where
  "strtoul s =
     (let (neg, ds) = strto_split s; v = dec_val ds in
      if ds = [] then 0
      else if 2 ^ 64 \<le> v then 2 ^ 64 - 1
      else if neg then (2 ^ 64 - v) mod 2 ^ 64 else v)"

definition atoi :: "string \<Rightarrow> int defined" where
  "atoi s =
     (let (neg, ds) = strto_split s; v = (if neg then - int (dec_val ds) else int (dec_val ds)) in
      if ds = [] then Some 0
      else if - (2 ^ 31) \<le> v \<and> v < 2 ^ 31 then Some v else None)"

definition parse_content_length :: "string \<Rightarrow> nat" where
  "parse_content_length headers =
     (case find_sub ''content-length:'' (map to_lower headers) of
        None \<Rightarrow> 0
      | Some pos \<Rightarrow> strtoul (drop (pos + length ''content-length:'') headers))"

text \<open>
  One \<open>recv\<close> into a buffer of 65536 bytes. The results that are still to come are an input; none
  left is the timeout of the socket.
\<close>

definition client_fill :: "recv list \<Rightarrow> string \<Rightarrow> bool \<times> recv list \<times> string" where
  "client_fill rs buf =
     (case rs of
        Received bs # rs' \<Rightarrow>
          let got = take 65536 bs in if got = [] then (False, rs', buf) else (True, rs', buf @ got)
      | _ # rs' \<Rightarrow> (False, rs', buf)
      | [] \<Rightarrow> (False, [], buf))"

text \<open>The two loops: \<open>fill\<close> until there is enough, or until it fails.\<close>

function fill_until :: "(string \<Rightarrow> bool) \<Rightarrow> recv list \<Rightarrow> string \<Rightarrow> bool \<times> recv list \<times> string" where
  "fill_until enough rs buf =
     (if enough buf then (True, rs, buf)
      else (case client_fill rs buf of
          (True, rs', buf') \<Rightarrow> fill_until enough rs' buf'
        | (False, rs', buf') \<Rightarrow> (False, rs', buf')))"
  by pat_completeness auto
termination
  by (relation "measure (\<lambda>(enough, rs, buf). length rs)")
    (auto simp: client_fill_def Let_def split: list.splits recv.splits if_splits)

declare fill_until.simps [simp del]

text \<open>\<open>buf_\<close> and the response to be filled in are passed and returned; the code adds sizes in \<open>size_t\<close>.\<close>

definition read_response ::
  "bool \<Rightarrow> recv list \<Rightarrow> string \<Rightarrow> client_response \<Rightarrow> (bool \<times> recv list \<times> string \<times> client_response) defined" where
  "read_response read_body rs buf out =
     (let (found, rs1, buf1) = fill_until (\<lambda>b. find_sub (crlf @ crlf) b \<noteq> None) rs buf in
      if \<not> found then Some (False, rs1, buf1, out)
      else case find_sub (crlf @ crlf) buf1 of
        None \<Rightarrow> None
      | Some header_end \<Rightarrow>
          (case (case find_sub '' '' buf1 of None \<Rightarrow> Some 0 | Some sp \<Rightarrow> atoi (drop (sp + 1) buf1)) of
             None \<Rightarrow> None
           | Some status \<Rightarrow>
               let out1 = out\<lparr>rp_status := status, rp_headers := take header_end buf1\<rparr>;
                   body_start = header_end + 4 in
               if \<not> read_body then Some (True, rs1, drop body_start buf1, out1)
               else
                 (let content_length = parse_content_length (rp_headers out1);
                      stop = size_t_wrap (body_start + content_length);
                      (all, rs2, buf2) = fill_until (\<lambda>b. stop \<le> length b) rs1 buf1 in
                  if \<not> all then Some (False, rs2, buf2, out1)
                  else Some (True, rs2, drop stop buf2,
                    out1\<lparr>rp_body := take content_length (drop body_start buf2)\<rparr>))))"

definition make_request :: "string \<Rightarrow> string \<Rightarrow> string \<Rightarrow> string \<Rightarrow> string" where
  "make_request meth path body extra_headers =
     meth @ '' '' @ path @ '' HTTP/1.1'' @ crlf @ ''Host: localhost'' @ crlf @
     (if body \<noteq> [] \<or> meth = ''POST''
      then ''Content-Length: '' @ dec (length body) @ crlf @ ''Content-Type: text/plain'' @ crlf
      else []) @
     extra_headers @ crlf @ body"

definition extract_header :: "string \<Rightarrow> string \<Rightarrow> string" where
  "extract_header headers name =
     (case find_sub (name @ '':'') (map to_lower headers) of
        None \<Rightarrow> []
      | Some p \<Rightarrow>
          let value = dropWhile (\<lambda>c. c = CHR '' '' \<or> c = CHR 0x09) (drop (p + length (name @ '':'')) headers) in
          (case find_sub crlf value of None \<Rightarrow> value | Some e \<Rightarrow> take e value))"

text \<open>Several responses in turn, each into a fresh one.\<close>

fun read_responses :: "nat \<Rightarrow> recv list \<Rightarrow> string \<Rightarrow> ((bool \<times> client_response) list \<times> recv list \<times> string) defined" where
  "read_responses 0 rs buf = Some ([], rs, buf)"
| "read_responses (Suc n) rs buf =
     (case read_response True rs buf client_response_init of
        None \<Rightarrow> None
      | Some (ok, rs', buf', r) \<Rightarrow>
          (case read_responses n rs' buf' of
             None \<Rightarrow> None
           | Some (out, rest) \<Rightarrow> Some ((ok, r) # out, rest)))"

section \<open>Reading one response\<close>

text \<open>A loop stops at the first segment with which there is enough.\<close>

lemma fill_until_reads:
  "enough (buf @ concat cs) \<Longrightarrow> \<forall>c \<in> set cs. c \<noteq> [] \<and> length c \<le> 65536 \<Longrightarrow>
     \<exists>as bs. cs = as @ bs \<and> enough (buf @ concat as) \<and>
       fill_until enough (map Received cs @ rs) buf = (True, map Received bs @ rs, buf @ concat as)"
proof (induction cs arbitrary: buf)
  case Nil
  then show ?case by (simp add: fill_until.simps)
next
  case (Cons c cs)
  show ?case
  proof (cases "enough buf")
    case True
    then show ?thesis by (intro exI [of _ "[]"] exI [of _ "c # cs"]) (simp add: fill_until.simps)
  next
    case False
    from Cons.IH [of "buf @ c"] Cons.prems obtain as bs where
      "cs = as @ bs" "enough ((buf @ c) @ concat as)"
      "fill_until enough (map Received cs @ rs) (buf @ c) = (True, map Received bs @ rs, (buf @ c) @ concat as)" by auto
    moreover have "fill_until enough (map Received (c # cs) @ rs) buf = fill_until enough (map Received cs @ rs) (buf @ c)"
      using False Cons.prems(2) by (subst fill_until.simps) (simp add: client_fill_def)
    ultimately show ?thesis by (intro exI [of _ "c # as"] exI [of _ bs]) simp
  qed
qed

lemma strtoul_dec: "n < 2 ^ 64 \<Longrightarrow> rest = [] \<or> \<not> is_digit (hd rest) \<Longrightarrow> strtoul (CHR '' '' # dec n @ rest) = n"
  by (simp add: strtoul_def strto_split_space strto_split_dec)

lemma atoi_dec: "n < 2 ^ 31 \<Longrightarrow> rest = [] \<or> \<not> is_digit (hd rest) \<Longrightarrow> atoi (dec n @ rest) = Some (int n)"
  by (simp add: atoi_def strto_split_dec)

lemma status_code_small: "status_code st < 2 ^ 31"
  by (cases st) simp_all

lemma parse_content_length_at:
  assumes "\<forall>l \<in> set ls. \<not> announces_length l" "rest = [] \<or> \<not> is_digit (hd rest)" "n < 2 ^ 64"
  shows "parse_content_length (lines ls @ ''Content-Length: '' @ dec n @ rest) = n"
  using length_line_found [OF assms(1), of "dec n @ rest"] strtoul_dec [OF assms(3,2)]
  by (simp add: parse_content_length_def)

lemma before_char: "a \<notin> set s \<Longrightarrow> s @ y = p @ a # z \<Longrightarrow> \<exists>w. p = s @ w"
  by (auto simp: append_eq_append_conv2 append_eq_Cons_conv)

text \<open>What the client sees in a buffer that reaches beyond the headers.\<close>

lemma framed_prefix:
  assumes "framed os res body" "buf @ x = response_bytes os res @ extra" "find_sub (crlf @ crlf) buf \<noteq> None"
  obtains h where "find_sub (crlf @ crlf) buf = Some h" "h + 4 + length body = length (response_bytes os res)"
    "drop (h + 4) (response_bytes os res) = body" "parse_content_length (take h buf) = length body"
    "take h buf @ crlf @ crlf @ body = response_bytes os res"
    "\<exists>sp. find_sub '' '' buf = Some sp \<and> atoi (drop (sp + 1) buf) = Some (int (status_code (rs_status res)))"
proof -
  from framed_headers [OF assms(1)] obtain ls rest where
    r: "response_bytes os res = (lines ls @ ''Content-Length: '' @ dec (length body) @ rest) @ crlf @ crlf @ body" and
    f: "find_sub (crlf @ crlf) (response_bytes os res) =
       Some (length (lines ls @ ''Content-Length: '' @ dec (length body) @ rest))" and
    no: "\<forall>l \<in> set ls. \<not> announces_length l" and rest: "rest = [] \<or> \<not> is_digit (hd rest)" .
  define p where "p = lines ls @ ''Content-Length: '' @ dec (length body) @ rest"
  have rp: "response_bytes os res = p @ crlf @ crlf @ body" using r by (simp add: p_def)
  obtain j where j: "find_sub (crlf @ crlf) buf = Some j" using assms(3) by auto
  have "find_sub (crlf @ crlf) (buf @ x) = Some (length p)"
    unfolding assms(2) using find_sub_append [OF f] by (simp add: p_def)
  then have h: "find_sub (crlf @ crlf) buf = Some (length p)" using find_sub_append [OF j, of x] j by simp
  have len: "length p + 4 \<le> length buf" using find_sub_bound [OF h] by simp
  have t: "take (length p) buf = p"
    using assms(2) len unfolding rp by (metis add_leD1 append.assoc append_eq_append_conv_if append_take_drop_id)
  have cl: "parse_content_length (take (length p) buf) = length body"
    unfolding t using parse_content_length_at [OF no rest, of "length body"] assms(1)
    by (simp add: p_def framed_def)
  let ?s = "''HTTP/1.1 '' @ dec (status_code (rs_status res)) @ '' ''"
  obtain y where y: "response_bytes os res = ?s @ y"
    using assms(1) by (auto simp: framed_def build_headers_string_def)
  have "CR \<notin> set ?s" by (simp add: dec_no_delim is_digit_def)
  moreover have "?s @ y = p @ CR # LF # crlf @ body" using y rp by simp
  ultimately have "\<exists>z. p = ?s @ z" by (rule before_char)
  then obtain z where z: "p = ?s @ z" ..
  define d where "d = drop (length p) buf"
  have "buf = p @ d" using t append_take_drop_id [of "length p" buf] by (simp add: d_def)
  then have b: "buf = ''HTTP/1.1'' @ CHR '' '' # dec (status_code (rs_status res)) @ CHR '' '' # z @ d"
    by (simp add: z)
  have "find_sub '' '' buf = Some 8"
    unfolding b using find_sub_here [of "CHR '' ''" "''HTTP/1.1''" "[]"] by simp
  moreover have "atoi (drop (8 + 1) buf) = Some (int (status_code (rs_status res)))"
    using atoi_dec [OF status_code_small, of "CHR '' '' # z @ d"] by (simp add: b is_digit_def)
  ultimately show thesis using that [OF h] cl rp t by simp
qed

text \<open>One response is read to its last byte, however it is cut, and what follows is kept.\<close>

definition is_read :: "os \<Rightarrow> http_response \<Rightarrow> string \<Rightarrow> client_response \<Rightarrow> bool" where
  "is_read os res body r \<longleftrightarrow>
     rp_status r = int (status_code (rs_status res)) \<and> rp_body r = body \<and>
     rp_headers r @ crlf @ crlf @ body = response_bytes os res"

lemma read_response_framed:
  assumes "framed os res body" "buf @ concat cs = response_bytes os res @ extra"
    "length (response_bytes os res) < 2 ^ 64" "\<forall>c \<in> set cs. c \<noteq> [] \<and> length c \<le> 65536"
  shows "\<exists>cs' buf' r. read_response True (map Received cs @ rs) buf out = Some (True, map Received cs' @ rs, buf', r) \<and>
     is_read os res body r \<and> buf' @ concat cs' = extra \<and> set cs' \<subseteq> set cs"
proof -
  let ?bytes = "response_bytes os res"
  have "find_sub (crlf @ crlf) (buf @ concat cs) \<noteq> None"
    using assms(2) framed_found(1) [OF assms(1)] find_sub_append by (metis option.distinct(1))
  from fill_until_reads [of "\<lambda>b. find_sub (crlf @ crlf) b \<noteq> None", OF this assms(4), of rs] obtain as bs where
    cs: "cs = as @ bs" and found: "find_sub (crlf @ crlf) (buf @ concat as) \<noteq> None" and
    fill: "fill_until (\<lambda>b. find_sub (crlf @ crlf) b \<noteq> None) (map Received cs @ rs) buf =
      (True, map Received bs @ rs, buf @ concat as)" by blast
  define b1 where "b1 = buf @ concat as"
  have b1: "b1 @ concat bs = ?bytes @ extra" using assms(2) by (simp add: b1_def cs)
  from framed_prefix [OF assms(1) this found [folded b1_def]] obtain h sp where
    h: "find_sub (crlf @ crlf) b1 = Some h" "h + 4 + length body = length ?bytes" "drop (h + 4) ?bytes = body"
      "parse_content_length (take h b1) = length body" "take h b1 @ crlf @ crlf @ body = ?bytes" and
    sp: "find_sub '' '' b1 = Some sp" "atoi (drop (sp + 1) b1) = Some (int (status_code (rs_status res)))" by blast
  let ?n = "length ?bytes"
  have stop: "size_t_wrap (h + 4 + length body) = ?n" using h(2) assms(3) by (simp add: size_t_wrap_def)
  have "?n \<le> length (b1 @ concat bs)" unfolding b1 by simp
  from fill_until_reads [of "\<lambda>b. ?n \<le> length b", OF this, of rs] assms(4) cs obtain as2 bs2 where
    bs: "bs = as2 @ bs2" and n: "?n \<le> length (b1 @ concat as2)" and
    fill2: "fill_until (\<lambda>b. ?n \<le> length b) (map Received bs @ rs) b1 = (True, map Received bs2 @ rs, b1 @ concat as2)"
    by auto
  define b2 where "b2 = b1 @ concat as2"
  have b2: "b2 @ concat bs2 = ?bytes @ extra" using b1 by (simp add: b2_def bs)
  then have t: "take ?n b2 = ?bytes" "drop ?n b2 @ concat bs2 = extra"
    using n [folded b2_def] by (metis append_eq_append_conv_if append_eq_conv_conj append_take_drop_id)+
  have body: "take (length body) (drop (h + 4) b2) = body"
    using h(2,3) t(1) by (metis add.commute add_diff_cancel_right' drop_take)
  have "read_response True (map Received cs @ rs) buf out = Some (True, map Received bs2 @ rs, drop ?n b2,
      out\<lparr>rp_status := int (status_code (rs_status res)), rp_headers := take h b1, rp_body := body\<rparr>)"
    using fill [folded b1_def] h sp stop fill2 [folded b2_def] body by (simp add: read_response_def Let_def)
  with t(2) h(5) bs cs show ?thesis
    by (intro exI [of _ bs2] exI [of _ "drop ?n b2"] exI) (auto simp: is_read_def)
qed

section \<open>The server answers, the client reads\<close>

lemma read_responses_framed:
  "\<forall>(res, body) \<in> set rbs. framed os res body \<and> length (response_bytes os res) < 2 ^ 64 \<Longrightarrow>
     buf @ concat cs = concat (map (response_bytes os \<circ> fst) rbs) \<Longrightarrow>
     \<forall>c \<in> set cs. c \<noteq> [] \<and> length c \<le> 65536 \<Longrightarrow>
     \<exists>out. read_responses (length rbs) (map Received cs @ rs) buf = Some (out, rs, []) \<and>
       list_all2 (\<lambda>(ok, r) (res, body). ok \<and> is_read os res body r) out rbs"
proof (induction rbs arbitrary: buf cs)
  case Nil
  then have "buf = []" "cs = []" by (auto simp: concat_eq_Nil_conv)
  then show ?case by simp
next
  case (Cons rb rbs)
  obtain res body where rb: "rb = (res, body)" by (cases rb)
  have "framed os res body" "length (response_bytes os res) < 2 ^ 64"
    "buf @ concat cs = response_bytes os res @ concat (map (response_bytes os \<circ> fst) rbs)"
    using Cons.prems(1,2) by (auto simp: rb comp_def)
  from read_response_framed [OF this(1,3,2) Cons.prems(3), of rs client_response_init] obtain cs' buf' r where
    one: "read_response True (map Received cs @ rs) buf client_response_init = Some (True, map Received cs' @ rs, buf', r)"
      "is_read os res body r" "buf' @ concat cs' = concat (map (response_bytes os \<circ> fst) rbs)" "set cs' \<subseteq> set cs" by blast
  from Cons.IH [OF _ one(3)] Cons.prems(1,3) one(4) obtain out where
    "read_responses (length rbs) (map Received cs' @ rs) buf' = Some (out, rs, [])"
    "list_all2 (\<lambda>(ok, r) (res, body). ok \<and> is_read os res body r) out rbs" by auto
  with one(1,2) show ?case by (auto simp: rb)
qed

text \<open>What a batch of requests leads to, and how the answers are read.\<close>

definition served :: "app \<Rightarrow> os \<Rightarrow> (http_request \<Rightarrow> http_response) \<Rightarrow> (http_request \<Rightarrow> string) \<Rightarrow> (string \<times> http_request) list \<Rightarrow> bool" where
  "served app os resp body qs \<longleftrightarrow>
     (\<forall>(raw, v) \<in> set qs. request_text raw v \<and> divisible raw v \<and> handle_request app v = Some (Some (resp v)) \<and>
        sendable os (resp v) \<and> framed os (resp v) (body v) \<and> length (response_bytes os (resp v)) < 2 ^ 64)"

definition all_read ::
  "os \<Rightarrow> (http_request \<Rightarrow> http_response) \<Rightarrow> (http_request \<Rightarrow> string) \<Rightarrow> (string \<times> http_request) list \<Rightarrow>
   (bool \<times> client_response) list \<Rightarrow> bool" where
  "all_read os resp body qs out \<longleftrightarrow> list_all2 (\<lambda>(ok, r) (raw, v). ok \<and> is_read os (resp v) (body v) r) out qs"

lemma batch_steps:
  assumes "server_ok s" "waiting s fd i" "concat ins = concat (map fst qs)" "[] \<notin> set ins" "buffer_fits 0 ins qs"
    "served app os resp body qs"
  shows "\<exists>s' w. exchange app fd ins s s' \<and> waiting s' fd i \<and> sv_wire s' i = sv_wire s i @ w \<and>
     (\<forall>cs rs. concat cs = w \<longrightarrow> (\<forall>c \<in> set cs. c \<noteq> [] \<and> length c \<le> 65536) \<longrightarrow>
        (\<exists>out. read_responses (length qs) (map Received cs @ rs) [] = Some (out, rs, []) \<and>
           all_read os resp body qs out))"
proof -
  let ?rbs = "map (\<lambda>(raw, v). (resp v, body v)) qs"
  have "answered app os resp qs" using assms(6) by (auto simp: answered_def served_def requests_ok_def)
  from exchange_waiting [OF assms(1-5) this] obtain s' where
    s': "exchange app fd ins s s'" "waiting s' fd i" "sv_wire s' i = sv_wire s i @ answers os resp qs" by blast
  have "answers os resp qs = concat (map (response_bytes os \<circ> fst) ?rbs)"
    by (simp add: answers_def comp_def split_def)
  moreover have "\<forall>(res, body) \<in> set ?rbs. framed os res body \<and> length (response_bytes os res) < 2 ^ 64"
    using assms(6) by (auto simp: served_def)
  ultimately have "\<exists>out. read_responses (length qs) (map Received cs @ rs) [] = Some (out, rs, []) \<and>
      all_read os resp body qs out"
    if "concat cs = answers os resp qs" "\<forall>c \<in> set cs. c \<noteq> [] \<and> length c \<le> 65536" for cs rs
    using read_responses_framed [of ?rbs os "[]" cs rs] that
    by (simp add: all_read_def list.rel_map split_def)
  with s' show ?thesis by blast
qed

text \<open>
  C2: what a client of the tests sends to a waiting connection, whatever mix of requests and however
  it is cut into segments, is answered: from every reachable state there is a run in which the server
  reads exactly those segments and at the end of which the connection waits again, and however the
  bytes written in it are cut on their way back, the client reads as many responses as it sent
  requests, in their order, each with the status, the headers and the body the application gave it,
  and nothing is left over.
\<close>

theorem client_gets_answers:
  assumes "reachable app settings s" "waiting s fd i" "concat ins = concat (map fst qs)" "[] \<notin> set ins"
    "buffer_fits 0 ins qs"
    "\<forall>(raw, v) \<in> set qs. request_text raw v \<and> divisible raw v \<and> handle_request app v = Some (Some (resp v)) \<and>
       sendable os (resp v) \<and> framed os (resp v) (body v) \<and> length (response_bytes os (resp v)) < 2 ^ 64"
  shows "\<exists>s' w. exchange app fd ins s s' \<and> waiting s' fd i \<and> sv_wire s' i = sv_wire s i @ w \<and>
     (\<forall>cs rs. concat cs = w \<longrightarrow> (\<forall>c \<in> set cs. c \<noteq> [] \<and> length c \<le> 65536) \<longrightarrow>
        (\<exists>out. read_responses (length qs) (map Received cs @ rs) [] = Some (out, rs, []) \<and>
           list_all2 (\<lambda>(ok, r) (raw, v). ok \<and> rp_status r = int (status_code (rs_status (resp v))) \<and>
             rp_body r = body v \<and> rp_headers r @ crlf @ crlf @ body v = response_bytes os (resp v)) out qs))"
  using batch_steps [OF reachable_ok [OF assms(1)] assms(2-5), of app os resp body] assms(6)
  by (simp add: served_def all_read_def is_read_def)

end
