(* ===== verification/Integration_Tests.thy ===== *)
theory Integration_Tests
  imports Integration_Client Unit_Tests
begin

text \<open>
  Tests of \<open>tests/integration_test.cpp\<close>, run on the model: the server and its three routes, what
  the tests send and what they check of the responses they read. A test passes if the loop and the
  workers have a way on by which it is served; it then passes however the answers are cut.
\<close>

section \<open>The server of the tests\<close>

definition ping_handler :: handler where
  "ping_handler req res = Handled (res_text ''pong'' (res_status OK res))"

definition echo_handler :: handler where
  "echo_handler req res = Handled (res_body (rq_body req) (res_status OK res))"

text \<open>\<open>file_size\<close> is the file system, \<open>path\<close> the global \<open>g_file_path\<close>.\<close>

definition file_handler :: "(string \<Rightarrow> nat option) \<Rightarrow> string \<Rightarrow> handler" where
  "file_handler file_size path req res =
     Handled (res_file file_size path ''application/octet-stream'' (res_status OK res))"

definition g_file_path :: string where
  "g_file_path = ''/tmp/oreshnek_it_file.bin''"

definition g_file_content :: string where
  "g_file_content = map (\<lambda>i. char_of (65 + i mod 26)) [0..<100000]"

definition it_routes :: "(string \<Rightarrow> nat option) \<Rightarrow> (HttpMethod \<times> string \<times> handler) list" where
  "it_routes file_size =
     [(GET, ''/ping'', ping_handler), (POST, ''/echo'', echo_handler),
      (GET, ''/file'', file_handler file_size g_file_path)]"

definition it_app :: "app \<Rightarrow> file_sys \<Rightarrow> handler node \<Rightarrow> app" where
  "it_app base fs router = base\<lparr>ap_router := router, ap_middlewares := [], ap_compression := None, ap_files := fs\<rparr>"

section \<open>What the tests send, and what they check\<close>

definition ping_request :: string where
  "ping_request = make_request ''GET'' ''/ping'' [] []"

definition pipelining_batch :: string where
  "pipelining_batch = concat (replicate 16 ping_request)"

definition pipelining_checks :: "(bool \<times> client_response) list \<Rightarrow> bool list" where
  "pipelining_checks out = concat (map (\<lambda>(ok, r). [ok, rp_body r = ''pong'']) out)"

definition keep_alive_checks :: "bool \<times> client_response \<Rightarrow> bool list" where
  "keep_alive_checks = (\<lambda>(ok, r). [ok, rp_status r = 200, rp_body r = ''pong''])"

definition payload :: string where
  "payload = map (\<lambda>i. char_of (97 + i mod 26)) [0..<512 * 1024]"

definition large_body_request :: string where
  "large_body_request = make_request ''POST'' ''/echo'' payload []"

definition large_body_checks :: "bool \<times> client_response \<Rightarrow> bool list" where
  "large_body_checks = (\<lambda>(ok, r). [ok, length (rp_body r) = length payload, rp_body r = payload])"

definition chunked_request :: string where
  "chunked_request =
     ''POST /echo HTTP/1.1'' @ crlf @ ''Host: localhost'' @ crlf @ ''Transfer-Encoding: chunked'' @ crlf @ crlf @
     ''4'' @ crlf @ ''Wiki'' @ crlf @ ''5'' @ crlf @ ''pedia'' @ crlf @
     ''E'' @ crlf @ '' in'' @ crlf @ crlf @ ''chunks.'' @ crlf @ ''0'' @ crlf @ crlf"

definition chunked_checks :: "bool \<times> client_response \<Rightarrow> bool list" where
  "chunked_checks = (\<lambda>(ok, r). [ok, rp_status r = 200, rp_body r = ''Wikipedia in'' @ crlf @ crlf @ ''chunks.''])"

definition file_full_checks :: "bool \<times> client_response \<Rightarrow> bool list" where
  "file_full_checks =
     (\<lambda>(ok, r). [ok, rp_status r = 200, has_header r ''accept-ranges: bytes'', rp_body r = g_file_content])"

definition range_request :: "string \<Rightarrow> string" where
  "range_request spec = make_request ''GET'' ''/file'' [] (''Range: bytes='' @ spec @ crlf)"

definition file_range_checks :: "bool \<times> client_response \<Rightarrow> bool list" where
  "file_range_checks =
     (\<lambda>(ok, r). [ok, rp_status r = 206, has_header r ''content-range: bytes 10-19/'',
        rp_body r = take 10 (drop 10 g_file_content)])"

definition file_suffix_checks :: "bool \<times> client_response \<Rightarrow> bool list" where
  "file_suffix_checks =
     (\<lambda>(ok, r). [ok, rp_status r = 206, rp_body r = drop (length g_file_content - 5) g_file_content])"

section \<open>The requests as the server reads them\<close>

definition it_head :: "HttpMethod \<Rightarrow> string \<Rightarrow> (string \<times> string) list \<Rightarrow> http_request" where
  "it_head m path hs = read_head m path ''HTTP/1.1'' ((''Host'', ''localhost'') # hs)"

lemma it_head_simps [simp]:
  "rq_method (it_head m path hs) = m"
  "CHR ''?'' \<notin> set path \<Longrightarrow> rq_path (it_head m path hs) = path"
  "header (it_head m path hs) k = map_of (rev ((''Host'', ''localhost'') # hs)) k"
proof -
  show "rq_path (it_head m path hs) = path" if "CHR ''?'' \<notin> set path"
    using find_sub_single_None [of "CHR ''?''" path] that
    by (simp add: it_head_def read_head_def parse_query_parameters_def add_headers_def)
qed (simp_all add: it_head_def read_head_def parse_query_parameters_def add_headers_def header_def request_init_def
    split: option.split)

definition it_path :: "string \<Rightarrow> bool" where
  "it_path path \<longleftrightarrow> path \<in> {''/ping'', ''/echo'', ''/file''}"

lemma it_wf:
  assumes "it_path path" "m \<in> {GET, POST}" "list_all valid_header hs" "length (render_headers hs) \<le> 1000"
  shows "well_formed_head m path ''HTTP/1.1'' ((''Host'', ''localhost'') # hs)"
  using assms
  by (auto simp: it_path_def well_formed_head_def valid_header_def request_head_def render_headers_def
      MAX_HEADER_BYTES_def isspace_def list_all_iff)

lemma header_body: "header (v\<lparr>rq_body := b\<rparr>) k = header v k"
  by (simp add: header_def)

text \<open>Each of them may be cut anywhere.\<close>

lemma it_divisible:
  assumes "raw = request_head m path ''HTTP/1.1'' ((''Host'', ''localhost'') # hs) @ crlf @ rest" "it_path path"
    "m \<in> {GET, POST}" "length (render_headers hs) \<le> 1000" "length raw \<le> READ_BUFFER_SIZE" "header v ''Expect'' = None"
  shows "divisible raw v"
  using assms(2-4)
  by (intro divisible_head [OF assms(1) _ assms(5,6)])
    (auto simp: it_path_def request_head_def render_headers_def MAX_HEADER_BYTES_def)

lemma it_get_text:
  assumes "it_path path" "list_all valid_header hs" "length (render_headers hs) \<le> 1000"
    "fst ` set hs \<inter> {''Transfer-Encoding'', ''Content-Length'', ''Expect''} = {}"
  shows "request_text (make_request ''GET'' path [] (render_headers hs)) (it_head GET path hs)"
    "divisible (make_request ''GET'' path [] (render_headers hs)) (it_head GET path hs)"
proof -
  have raw: "make_request ''GET'' path [] (render_headers hs) =
      request_head GET path ''HTTP/1.1'' ((''Host'', ''localhost'') # hs) @ crlf"
    by (simp add: make_request_def request_head_def render_headers_def)
  moreover have "well_formed_head GET path ''HTTP/1.1'' ((''Host'', ''localhost'') # hs)"
    using assms(1-3) by (intro it_wf) simp_all
  ultimately show "request_text (make_request ''GET'' path [] (render_headers hs)) (it_head GET path hs)"
    unfolding it_head_def using request_text_bodyless assms(4) by simp
  have "length (make_request ''GET'' path [] (render_headers hs)) \<le> READ_BUFFER_SIZE"
    using assms(1,3) by (auto simp: make_request_def it_path_def READ_BUFFER_SIZE_def)
  moreover have "header (it_head GET path hs) ''Expect'' = None"
    using assms(4) by (auto simp: map_of_eq_None_iff)
  ultimately show "divisible (make_request ''GET'' path [] (render_headers hs)) (it_head GET path hs)"
    using raw assms(1,3) by (intro it_divisible [of _ GET path hs "[]"]) simp_all
qed


lemma it_post_text:
  assumes "it_path path" "length body \<le> 1000000" "length (dec (length body)) \<le> 20"
    "v = (it_head POST path [(''Content-Length'', dec (length body)), (''Content-Type'', ''text/plain'')])\<lparr>rq_body := body\<rparr>"
  shows "request_text (make_request ''POST'' path body []) v" "divisible (make_request ''POST'' path body []) v"
proof -
  let ?hs = "[(''Content-Length'', dec (length body)), (''Content-Type'', ''text/plain'')]"
  have raw: "make_request ''POST'' path body [] =
      request_head POST path ''HTTP/1.1'' ((''Host'', ''localhost'') # ?hs) @ crlf @ body"
    by (simp add: make_request_def request_head_def render_headers_def)
  moreover have "is_digit (hd (dec (length body)))"
    using dec_digits [of "length body"] hd_in_set [OF dec_nonempty [of "length body"]] by blast
  then have "\<not> isspace (hd (dec (length body)))" by (auto simp: is_digit_def isspace_def)
  then have "list_all valid_header ?hs"
    by (simp add: valid_header_def dec_no_delim is_digit_def isspace_def)
  then have "well_formed_head POST path ''HTTP/1.1'' ((''Host'', ''localhost'') # ?hs)"
    using assms(1,3) by (intro it_wf) (simp_all add: render_headers_def)
  moreover have "header (it_head POST path ?hs) ''Content-Length'' = Some (dec (length body))" by simp
  moreover have "length body \<le> MAX_BODY_BYTES" using assms(2) by (simp add: MAX_BODY_BYTES_def)
  ultimately show "request_text (make_request ''POST'' path body []) v"
    unfolding it_head_def assms(4) using request_text_length by simp
  have "length (make_request ''POST'' path body []) \<le> READ_BUFFER_SIZE"
    using assms(1-3) by (auto simp: make_request_def it_path_def READ_BUFFER_SIZE_def)
  moreover have "header v ''Expect'' = None" by (simp add: assms(4) header_body)
  ultimately show "divisible (make_request ''POST'' path body []) v"
    using raw assms(1,3) by (intro it_divisible [of _ POST path ?hs body]) (simp_all add: render_headers_def)
qed

lemma chunked_text:
  assumes "v = (it_head POST ''/echo'' [(''Transfer-Encoding'', ''chunked'')])\<lparr>rq_body := ''Wikipedia in'' @ crlf @ crlf @ ''chunks.''\<rparr>"
  shows "request_text chunked_request v" "divisible chunked_request v"
proof -
  let ?hs = "[(''Host'', ''localhost''), (''Transfer-Encoding'', ''chunked'')]"
  let ?hcs = "[(''4'', ''Wiki''), (''5'', ''pedia''), (''E'', '' in'' @ crlf @ crlf @ ''chunks.'')]"
  have raw: "chunked_request = request_head POST ''/echo'' ''HTTP/1.1'' ?hs @ crlf @ render_chunks ?hcs ''0'' []"
    by (simp add: chunked_request_def request_head_def render_headers_def render_chunks_def)
  moreover have "chunks_ok ?hcs ''0'' []"
    by (simp add: chunks_ok_def spells_def parse_chunk_size_def hex_digit_def size_t_wrap_def Let_def)
  moreover have "well_formed_head POST ''/echo'' ''HTTP/1.1'' ?hs"
    by (rule it_wf) (simp_all add: it_path_def valid_header_def render_headers_def isspace_def)
  ultimately show "request_text chunked_request v"
    unfolding assms using request_text_chunked [of ?hs "[(''Host'', ''localhost'')]" POST "''/echo''" "''HTTP/1.1''" ?hcs "''0''" "[]"]
    by (simp add: it_head_def MAX_BODY_BYTES_def)
  have "header v ''Expect'' = None" by (simp add: assms header_body)
  then show "divisible chunked_request v"
    by (intro it_divisible [OF raw]) (simp_all add: it_path_def render_headers_def chunked_request_def READ_BUFFER_SIZE_def)
qed

section \<open>What the application answers\<close>

definition it_router :: "(string \<Rightarrow> nat option) \<Rightarrow> handler node" where
  "it_router file_size =
     build_router [((GET, [''ping'']), ping_handler), ((POST, [''echo'']), echo_handler),
       ((GET, [''file'']), file_handler file_size g_file_path)]"

lemma it_router_registered: "register (it_routes file_size) empty_node = Inr (it_router file_size)"
  by (simp add: it_routes_def it_router_def build_router_def add_route_def split_path_pieces path_segments_def)

lemma it_find:
  "find_route (it_router st) GET ''/ping'' Map.empty = Some (Some ping_handler, Map.empty)"
  "find_route (it_router st) POST ''/echo'' Map.empty = Some (Some echo_handler, Map.empty)"
  "find_route (it_router st) GET ''/file'' Map.empty = Some (Some (file_handler st g_file_path), Map.empty)"
  by (simp_all add: it_router_def find_route_def split_path_pieces path_segments_def build_router_def
      is_param_def empty_node_def)

definition pong :: http_response where
  "pong = res_text ''pong'' (res_status OK response_init)"

definition echo_response :: "string \<Rightarrow> http_response" where
  "echo_response body = res_body body (res_status OK response_init)"

definition file_response :: "(string \<Rightarrow> nat option) \<Rightarrow> http_response" where
  "file_response st = res_file st g_file_path ''application/octet-stream'' (res_status OK response_init)"

lemma request_params: "header (req\<lparr>rq_path_params := ps\<rparr>) n = header req n"
  "rq_method (req\<lparr>rq_path_params := ps\<rparr>) = rq_method req"
  by (simp_all add: header_def)

lemma semantics_params: "apply_http_semantics fs (req\<lparr>rq_path_params := ps\<rparr>) res = apply_http_semantics fs req res"
  unfolding apply_http_semantics_def not_modified_def request_params by (rule refl)

lemma it_answers:
  "rq_method req = GET \<Longrightarrow> rq_path req = ''/ping'' \<Longrightarrow>
     handle_request (it_app base fs (it_router st)) req = Some (Some pong)"
  "rq_method req = POST \<Longrightarrow> rq_path req = ''/echo'' \<Longrightarrow>
     handle_request (it_app base fs (it_router st)) req = Some (Some (echo_response (rq_body req)))"
  "rq_method req = GET \<Longrightarrow> rq_path req = ''/file'' \<Longrightarrow>
     handle_request (it_app base fs (it_router st)) req = Some (Some (apply_http_semantics fs req (file_response st)))"
  by (simp_all add: handle_request_def it_app_def it_find find_handler_def finish_response_def semantics_text
      semantics_params ping_handler_def echo_handler_def file_handler_def pong_def echo_response_def
      file_response_def res_text_def)

section \<open>The responses frame themselves\<close>

text \<open>The containers and the clock of the server; a date has a day of the week and a month.\<close>

definition os_ok :: "os \<Rightarrow> bool" where
  "os_ok os \<longleftrightarrow>
     (\<forall>m. finite (dom m) \<longrightarrow> iterates (os_map_iter os) m) \<and> CR \<notin> set (os_date os) \<and> \<not> announces_length (os_date os)"

text \<open>The file of the test, as \<open>stat\<close>, \<open>open\<close> and \<open>read\<close> show it.\<close>

definition file_there :: "os \<Rightarrow> file_sys \<Rightarrow> int \<Rightarrow> bool" where
  "file_there os fs mtime \<longleftrightarrow>
     fs_stat fs g_file_path = Some (length g_file_content, mtime) \<and> 0 \<le> os_open os g_file_path \<and>
     os_content os (os_open os g_file_path) = g_file_content \<and>
     tm_wday (fs_gmtime fs mtime) < 7 \<and> tm_mon (fs_gmtime fs mtime) < 12"

lemma find_sub_char_missing: "c \<in> set p \<Longrightarrow> c \<notin> set s \<Longrightarrow> find_sub p s = None"
proof (rule ccontr)
  assume c: "c \<in> set p" "c \<notin> set s" "find_sub p s \<noteq> None"
  then obtain i where "find_sub p s = Some i" by auto
  from find_sub_SomeD [OF this] have "starts_with p (drop i s)" by simp
  then have "set p \<subseteq> set s" by (auto simp: starts_with_iff) (metis in_set_dropD Un_iff set_append)
  with c show False by blast
qed

lemma no_announce: "CHR ''l'' \<notin> set (map to_lower l) \<Longrightarrow> \<not> announces_length l"
  using find_sub_char_missing [of "CHR ''l''" "''content-length:''"] by simp

definition plain_header :: "string \<times> string \<Rightarrow> bool" where
  "plain_header kv \<longleftrightarrow> CR \<notin> set (fst kv) \<and> CR \<notin> set (snd kv) \<and>
     (fst kv \<noteq> ''Content-Length'' \<longrightarrow> \<not> announces_length (fst kv @ '': '' @ snd kv))"

lemma framed_text:
  assumes "iterates (os_map_iter os) (map_of hs)" "CR \<notin> set (os_date os)" "\<not> announces_length (os_date os)"
    "rs_headers res = map_of hs" "length body < 2 ^ 63" "list_all plain_header hs"
    "map_of hs ''Content-Length'' = Some (dec (length body))"
    "response_bytes os res = build_headers_string (os_map_iter os) (os_date os) res @ body"
  shows "framed os res body"
proof -
  have "CR \<notin> set k \<and> CR \<notin> set v \<and> (k \<noteq> ''Content-Length'' \<longrightarrow> \<not> announces_length (k @ '': '' @ v))"
    if "rs_headers res k = Some v" for k v
  proof -
    have "plain_header (k, v)" using that assms(6) unfolding assms(4) list_all_iff by (blast dest: map_of_SomeD)
    then show ?thesis unfolding plain_header_def fst_conv snd_conv .
  qed
  with assms show ?thesis unfolding framed_def assms(4) by blast
qed

lemma framed_ok:
  assumes "os_ok os" "rs_headers res = map_of hs" "length body < 2 ^ 63" "list_all plain_header hs"
    "map_of hs ''Content-Length'' = Some (dec (length body))"
    "response_bytes os res = build_headers_string (os_map_iter os) (os_date os) res @ body"
  shows "framed os res body"
  by (rule framed_text [OF _ _ _ assms(2-6)]) (use assms(1) in \<open>simp_all add: os_ok_def finite_dom_map_of\<close>)

definition base_headers :: "(string \<times> string) list" where
  "base_headers = [(''Server'', ''Oreshnek/1.0.0''), (''Connection'', ''keep-alive'')]"

lemma plain_headers:
  "list_all plain_header base_headers" "plain_header (''Content-Type'', ''text/plain'')"
  "plain_header (''Content-Type'', ''application/octet-stream'')" "plain_header (''Accept-Ranges'', ''bytes'')"
  by code_simp+

lemma plain_length: "plain_header (''Content-Length'', dec n)"
  by (simp add: plain_header_def dec_no_delim is_digit_def)

definition pong_headers :: "(string \<times> string) list" where
  "pong_headers = (''Content-Type'', ''text/plain'') # (''Content-Length'', dec (length ''pong'')) # base_headers"

lemma pong_facts:
  "rs_headers pong = map_of pong_headers" "list_all plain_header pong_headers"
  "map_of pong_headers ''Content-Length'' = Some (dec (length ''pong''))"
  "response_bytes os pong = build_headers_string (os_map_iter os) (os_date os) pong @ ''pong''"
  by (simp_all add: pong_headers_def plain_headers plain_length)
    (simp_all add: pong_def res_text_def base_headers_def fun_eq_iff response_bytes_def text_of_def)

lemma pong_framed: "os_ok os \<Longrightarrow> framed os pong ''pong''"
  by (rule framed_ok [OF _ pong_facts(1) _ pong_facts(2-4)]) simp_all

lemma echo_framed: "os_ok os \<Longrightarrow> length body < 2 ^ 63 \<Longrightarrow> framed os (echo_response body) body"
  by (rule framed_ok [of _ _ "(''Content-Length'', dec (length body)) # base_headers"])
    (simp_all add: plain_headers plain_length, simp_all add: echo_response_def base_headers_def fun_eq_iff
      response_bytes_def text_of_def)

text \<open>The dates and tags of files.\<close>

lemma find_sub_tail: "find_sub (a @ b) s \<noteq> None \<Longrightarrow> find_sub b s \<noteq> None"
proof -
  assume "find_sub (a @ b) s \<noteq> None"
  then obtain i where "find_sub (a @ b) s = Some i" by auto
  from find_sub_SomeD [OF this] obtain t where "drop i s = (a @ b) @ t" by (auto simp: starts_with_iff)
  then have "drop (length a) (drop i s) = b @ t" by simp
  then have "starts_with b (drop (length a + i) s)" by (simp add: starts_with_iff)
  then show ?thesis using find_sub_None [of b s "length a + i"] by auto
qed

lemma pad0_digits: "c \<in> set (pad0 n v) \<Longrightarrow> is_digit c"
  using dec_digits [of v] by (auto simp: pad0_def is_digit_def)

lemma day_month_chars:
  "\<forall>d \<in> set kDays \<union> set kMonths. \<forall>c \<in> set d. c \<noteq> CR \<and> to_lower c \<noteq> CHR ''-''"
  by code_simp

lemma http_date_chars:
  assumes "tm_wday (fs_gmtime fs t) < 7" "tm_mon (fs_gmtime fs t) < 12" "c \<in> set (http_date fs t)"
  shows "c \<noteq> CR \<and> to_lower c \<noteq> CHR ''-''"
proof -
  let ?d = "fs_gmtime fs t"
  have "kDays ! tm_wday ?d \<in> set kDays" using assms(1) by (intro nth_mem) (simp add: kDays_def)
  moreover have "kMonths ! tm_mon ?d \<in> set kMonths" using assms(2) by (intro nth_mem) (simp add: kMonths_def)
  moreover have "is_digit c \<Longrightarrow> c \<noteq> CR \<and> to_lower c \<noteq> CHR ''-''" by (auto simp: is_digit_def to_lower_def)
  moreover have "\<forall>c \<in> set '', : GMT''. c \<noteq> CR \<and> to_lower c \<noteq> CHR ''-''" by code_simp
  moreover have "c \<in> set (kDays ! tm_wday ?d) \<or> c \<in> set (kMonths ! tm_mon ?d) \<or> is_digit c \<or> c \<in> set '', : GMT''"
    using assms(3) pad0_digits by (auto simp: http_date_def Let_def)
  ultimately show ?thesis using day_month_chars by blast
qed

lemma plain_date:
  assumes "tm_wday (fs_gmtime fs t) < 7" "tm_mon (fs_gmtime fs t) < 12"
  shows "plain_header (''Last-Modified'', http_date fs t)"
proof -
  let ?d = "map to_lower (http_date fs t)"
  have low: "map to_lower ''Last-Modified: '' = ''last'' @ ''-modified: ''" by code_simp
  have "CHR ''-'' \<notin> set ?d" using http_date_chars [OF assms] by (metis imageE set_map)
  then have "find_sub ''-length:'' (''-modified: '' @ ?d) = None"
    using find_sub_char_missing [of "CHR ''-''" "''-length:''" "''modified: '' @ ?d"] by simp
  then have "find_sub ''-length:'' (''last'' @ ''-modified: '' @ ?d) = None"
    by (subst find_sub_skip) simp_all
  then have "find_sub ''content-length:'' (map to_lower (''Last-Modified: '' @ http_date fs t)) = None"
    using find_sub_tail [of "''content''" "''-length:''"] unfolding map_append low by fastforce
  then show ?thesis using http_date_chars [OF assms] by (auto simp: plain_header_def)
qed

lemma plain_no_l:
  assumes "\<forall>c \<in> set k \<union> set v. c \<noteq> CR \<and> to_lower c \<noteq> CHR ''l''"
  shows "plain_header (k, v)"
proof -
  have "to_lower CHR '':'' \<noteq> CHR ''l''" "to_lower CHR '' '' \<noteq> CHR ''l''" by code_simp+
  then have "\<forall>c \<in> set (k @ '': '' @ v). to_lower c \<noteq> CHR ''l''" using assms by simp
  then have "CHR ''l'' \<notin> set (map to_lower (k @ '': '' @ v))" by (metis imageE set_map)
  from no_announce [OF this] assms show ?thesis unfolding plain_header_def fst_conv snd_conv by blast
qed

lemma hex_no_l: "c \<in> set (hex n) \<Longrightarrow> c \<noteq> CR \<and> to_lower c \<noteq> CHR ''l''"
  using hex_lower [of n] by (auto simp: is_hex_lower_def is_digit_def to_lower_def)

lemma dec_no_l: "c \<in> set (dec n) \<Longrightarrow> c \<noteq> CR \<and> to_lower c \<noteq> CHR ''l''"
  using dec_digits [of n] by (auto simp: is_digit_def to_lower_def)

lemma plain_etag: "plain_header (''ETag'', make_etag n t)"
proof (rule plain_no_l)
  have "\<forall>c \<in> set ''ETag-'' \<union> {DQ}. c \<noteq> CR \<and> to_lower c \<noteq> CHR ''l''" by code_simp
  then show "\<forall>c \<in> set ''ETag'' \<union> set (make_etag n t). c \<noteq> CR \<and> to_lower c \<noteq> CHR ''l''"
    using hex_no_l by (auto simp: make_etag_def)
qed

lemma plain_range: "plain_header (''Content-Range'', ''bytes '' @ dec a @ ''-'' @ dec b @ ''/'' @ dec n)"
proof (rule plain_no_l)
  have "\<forall>c \<in> set ''Content-Range'' \<union> set ''bytes -/''. c \<noteq> CR \<and> to_lower c \<noteq> CHR ''l''" by code_simp
  then show "\<forall>c \<in> set ''Content-Range'' \<union> set (''bytes '' @ dec a @ ''-'' @ dec b @ ''/'' @ dec n).
      c \<noteq> CR \<and> to_lower c \<noteq> CHR ''l''"
    using dec_no_l by auto
qed

text \<open>The answers for the file.\<close>

definition fs_size :: "file_sys \<Rightarrow> string \<Rightarrow> nat option" where
  "fs_size fs p = map_option fst (fs_stat fs p)"

definition file_headers :: "file_sys \<Rightarrow> int \<Rightarrow> nat \<Rightarrow> (string \<times> string) list" where
  "file_headers fs mtime n =
     [(''Last-Modified'', http_date fs mtime), (''ETag'', make_etag (length g_file_content) mtime),
      (''Accept-Ranges'', ''bytes''), (''Content-Length'', dec n),
      (''Content-Type'', ''application/octet-stream'')] @ base_headers"

lemma file_headers_plain:
  "file_there os fs mtime \<Longrightarrow> list_all plain_header (file_headers fs mtime n)"
  by (simp add: file_headers_def plain_headers plain_length plain_etag plain_date file_there_def)

definition file_base :: "file_sys \<Rightarrow> int \<Rightarrow> http_response" where
  "file_base fs mtime =
     res_header ''Last-Modified'' (http_date fs mtime)
       (res_header ''ETag'' (make_etag (length g_file_content) mtime)
         (res_header ''Accept-Ranges'' ''bytes'' (file_response (fs_size fs))))"

lemma file_base_facts:
  assumes "file_there os fs mtime"
  shows "rs_headers (file_base fs mtime) = map_of (file_headers fs mtime (length g_file_content))"
    "rs_is_file (file_base fs mtime)" "\<not> rs_head_only (file_base fs mtime)"
    "res_file_path (file_base fs mtime) = g_file_path"
  using assms
  by (simp_all add: file_base_def file_response_def fs_size_def file_there_def file_headers_def base_headers_def
      res_file_def Let_def fun_eq_iff res_file_path_def)

lemma file_answer:
  assumes "file_there os fs mtime" "rq_method req = GET" "header req ''If-None-Match'' = None"
    "header req ''If-Modified-Since'' = None"
  shows "apply_http_semantics fs req (file_response (fs_size fs)) =
     range_reply (length g_file_content) (header req ''Range'') (file_base fs mtime)"
proof -
  have "rs_is_file (file_response (fs_size fs))" "res_file_path (file_response (fs_size fs)) = g_file_path"
    using assms(1) by (simp_all add: file_response_def fs_size_def file_there_def res_file_def Let_def res_file_path_def)
  then show ?thesis
    using assms by (simp add: apply_http_semantics_def file_there_def not_modified_def Let_def file_base_def)
qed

lemma file_sent:
  assumes "file_there os fs mtime" "rs_is_file res" "\<not> rs_head_only res" "res_file_path res = g_file_path"
    "a + n \<le> length g_file_content"
  shows "response_bytes os (res_set_file_range (int a) (int n) res) =
      build_headers_string (os_map_iter os) (os_date os) (res_set_file_range (int a) (int n) res) @
        take n (drop a g_file_content)"
    "sendable os (res_set_file_range (int a) (int n) res)"
  using assms
  by (simp_all add: response_bytes_def file_there_def file_length_sent_def Let_def sendable_def file_whole_def
      set_response_content_def)

text \<open>The whole file, and the part from \<open>a\<close> to \<open>b\<close>.\<close>

lemma file_content_length: "length g_file_content = 100000"
  by (simp add: g_file_content_def)

definition whole_file :: "file_sys \<Rightarrow> int \<Rightarrow> http_response" where
  "whole_file fs mtime = res_set_file_range 0 (int (length g_file_content)) (file_base fs mtime)"

definition file_part :: "file_sys \<Rightarrow> int \<Rightarrow> nat \<Rightarrow> nat \<Rightarrow> http_response" where
  "file_part fs mtime a b =
     res_set_file_range (int a) (int (b - a + 1))
       (res_header ''Content-Length'' (dec (b - a + 1))
         (res_header ''Content-Range'' (''bytes '' @ dec a @ ''-'' @ dec b @ ''/'' @ dec (length g_file_content))
           (res_status PARTIAL_CONTENT (file_base fs mtime))))"

lemma whole_file_framed:
  assumes "os_ok os" "file_there os fs mtime"
  shows "framed os (whole_file fs mtime) g_file_content" "sendable os (whole_file fs mtime)"
proof -
  note f = file_base_facts [OF assms(2)]
  note sent = file_sent [OF assms(2) f(2-4), of 0 "length g_file_content"]
  show "sendable os (whole_file fs mtime)" using sent(2) by (simp add: whole_file_def)
  show "framed os (whole_file fs mtime) g_file_content"
  proof (rule framed_ok [OF assms(1) _ _ file_headers_plain [OF assms(2)]])
    show "rs_headers (whole_file fs mtime) = map_of (file_headers fs mtime (length g_file_content))"
      using f(1) by (simp add: whole_file_def)
    show "length g_file_content < 2 ^ 63" by (simp add: file_content_length)
    show "response_bytes os (whole_file fs mtime) =
        build_headers_string (os_map_iter os) (os_date os) (whole_file fs mtime) @ g_file_content"
      using sent(1) by (simp add: whole_file_def)
  qed (simp add: file_headers_def)
qed

lemma file_part_framed:
  assumes "os_ok os" "file_there os fs mtime" "a \<le> b" "b < length g_file_content"
  shows "framed os (file_part fs mtime a b) (take (b - a + 1) (drop a g_file_content))" "sendable os (file_part fs mtime a b)"
proof -
  let ?n = "b - a + 1" and ?cr = "''bytes '' @ dec a @ ''-'' @ dec b @ ''/'' @ dec (length g_file_content)"
  let ?part = "take ?n (drop a g_file_content)"
  let ?r = "res_header ''Content-Length'' (dec ?n) (res_header ''Content-Range'' ?cr
      (res_status PARTIAL_CONTENT (file_base fs mtime)))"
  note f = file_base_facts [OF assms(2)]
  have "rs_is_file ?r" "\<not> rs_head_only ?r" "res_file_path ?r = g_file_path" "a + ?n \<le> length g_file_content"
    using f assms(3,4) by simp_all
  note sent = file_sent [OF assms(2) this, folded file_part_def]
  show "sendable os (file_part fs mtime a b)" by (rule sent(2))
  show "framed os (file_part fs mtime a b) ?part"
  proof (rule framed_ok [OF assms(1)])
    show "rs_headers (file_part fs mtime a b) = map_of ((''Content-Range'', ?cr) # file_headers fs mtime ?n)"
      using f(1) by (simp add: file_part_def file_headers_def fun_eq_iff)
    show "list_all plain_header ((''Content-Range'', ?cr) # file_headers fs mtime ?n)"
      using plain_range file_headers_plain [OF assms(2)] by simp
    show "length ?part < 2 ^ 63" by (simp add: file_content_length)
    show "response_bytes os (file_part fs mtime a b) =
        build_headers_string (os_map_iter os) (os_date os) (file_part fs mtime a b) @ ?part" by (rule sent(1))
    have "length ?part = ?n" using assms(3,4) by simp
    then show "map_of ((''Content-Range'', ?cr) # file_headers fs mtime ?n) ''Content-Length'' =
        Some (dec (length ?part))" by (simp add: file_headers_def)
  qed
qed

lemma range_part:
  assumes "parse_range spec (int (length g_file_content)) = Bytes (int a) (int b)" "a \<le> b"
  shows "range_reply (length g_file_content) (Some spec) (file_base fs mtime) = file_part fs mtime a b"
proof -
  have d: "int b - int a + 1 = int (b - a + 1)" using assms(2) by simp
  have di: "dec_int (int n) = dec n" for n by (simp add: dec_int_def)
  show ?thesis
    unfolding range_reply_def option.case assms(1) byte_range.case d di file_part_def by (rule refl)
qed

lemma test_ranges:
  "parse_range ''bytes=10-19'' (int (length g_file_content)) = Bytes (int 10) (int 19)"
  "parse_range ''bytes=-5'' (int (length g_file_content)) = Bytes (int 99995) (int 99999)"
proof -
  have "dec 10 = ''10''" "dec 19 = ''19''" "dec 5 = ''5''" by code_simp+
  then show "parse_range ''bytes=10-19'' (int (length g_file_content)) = Bytes (int 10) (int 19)"
    "parse_range ''bytes=-5'' (int (length g_file_content)) = Bytes (int 99995) (int 99999)"
    using parse_range_forms [of 10 19 100000] parse_range_forms [of 10 5 100000]
    by (simp_all add: file_content_length)
qed

section \<open>The tests pass\<close>

text \<open>A line of the headers is found in them.\<close>

lemma has_header_line:
  assumes "framed os res body" "is_read os res body r" "rs_headers res k = Some v"
    "k @ '': '' @ v = line @ z" "map to_lower needle = map to_lower line"
  shows "has_header r needle"
proof -
  have it: "iterates (os_map_iter os) (rs_headers res)" using assms(1) by (simp add: framed_def)
  then have "(k, v) \<in> set (os_map_iter os (rs_headers res))" using assms(3) by (simp add: iterates_def map_of_SomeD)
  then obtain as bs where sp: "os_map_iter os (rs_headers res) = as @ (k, v) # bs" by (meson split_list)
  let ?pre = "lines (status_line res # (''Date: '' @ os_date os) # map header_line as)"
  have "build_headers_string (os_map_iter os) (os_date os) res =
      ?pre @ (k @ '': '' @ v) @ crlf @ lines (map header_line bs) @ crlf"
    by (simp add: build_headers_lines sp header_line_def)
  then have "(rp_headers r @ crlf) @ crlf @ body =
      (?pre @ line @ z @ crlf @ lines (map header_line bs)) @ crlf @ body"
    using assms(1,2,4) by (simp add: is_read_def framed_def)
  then have "rp_headers r @ crlf = ?pre @ line @ z @ crlf @ lines (map header_line bs)"
    by (metis append_same_eq append.assoc)
  moreover obtain t where "crlf @ lines (map header_line bs) = t @ crlf"
    by (cases bs rule: rev_cases) (auto simp: append_assoc [symmetric] simp del: append_assoc append.simps)
  ultimately have "rp_headers r = ?pre @ line @ (z @ t)"
    by (metis append_same_eq append.assoc)
  then have "map to_lower (rp_headers r) = map to_lower ?pre @ map to_lower needle @ map to_lower (z @ t)"
    using assms(5) by simp
  then show ?thesis unfolding has_header_def by (simp only: contains_middle)
qed

text \<open>
  What a test does on one connection: it sends some bytes, reads some responses and checks them, and
  so on. It passes if, however what it sends is cut into segments, there is a run in which the server
  reads exactly these.
\<close>

type_synonym exchanges = "(string \<times> nat \<times> ((bool \<times> client_response) list \<Rightarrow> bool list)) list"

fun passes_served :: "app \<Rightarrow> int \<Rightarrow> nat \<Rightarrow> exchanges \<Rightarrow> server \<Rightarrow> bool" where
  "passes_served app fd i [] s \<longleftrightarrow> waiting s fd i"
| "passes_served app fd i ((raw, n, checks) # es) s \<longleftrightarrow>
     (\<forall>ins. concat ins = raw \<and> [] \<notin> set ins \<longrightarrow>
       (\<exists>s' w. exchange app fd ins s s' \<and> sv_wire s' i = sv_wire s i @ w \<and>
        (\<forall>cs rs. concat cs = w \<longrightarrow> (\<forall>c \<in> set cs. c \<noteq> [] \<and> length c \<le> 65536) \<longrightarrow>
           (\<exists>out. read_responses n (map Received cs @ rs) [] = Some (out, rs, []) \<and> passes (checks out))) \<and>
        passes_served app fd i es s'))"

text \<open>A batch that is served, and checks that hold of what is read.\<close>

lemma batch_passes:
  assumes "length (concat (map fst qs)) \<le> READ_BUFFER_SIZE" "served app os resp body qs"
    "\<And>out. all_read os resp body qs out \<Longrightarrow> passes (checks out)"
    "\<And>s. server_ok s \<Longrightarrow> waiting s fd i \<Longrightarrow> passes_served app fd i es s" "server_ok s" "waiting s fd i"
  shows "passes_served app fd i ((concat (map fst qs), length qs, checks) # es) s"
proof -
  have "\<exists>s' w. exchange app fd ins s s' \<and> sv_wire s' i = sv_wire s i @ w \<and>
        (\<forall>cs rs. concat cs = w \<longrightarrow> (\<forall>c \<in> set cs. c \<noteq> [] \<and> length c \<le> 65536) \<longrightarrow>
           (\<exists>out. read_responses (length qs) (map Received cs @ rs) [] = Some (out, rs, []) \<and> passes (checks out))) \<and>
        passes_served app fd i es s'"
    if ins: "concat ins = concat (map fst qs)" "[] \<notin> set ins" for ins
  proof -
    have "buffer_fits 0 ins qs" by (rule buffer_fits_total) (simp add: ins(1) assms(1))
    from batch_steps [OF assms(5,6) ins this assms(2)] obtain s' w where
      s': "exchange app fd ins s s'" "waiting s' fd i" "sv_wire s' i = sv_wire s i @ w" and
      read: "\<And>cs rs. concat cs = w \<Longrightarrow> \<forall>c \<in> set cs. c \<noteq> [] \<and> length c \<le> 65536 \<Longrightarrow>
          \<exists>out. read_responses (length qs) (map Received cs @ rs) [] = Some (out, rs, []) \<and> all_read os resp body qs out"
      by blast
    have "passes_served app fd i es s'" using assms(4) exchange_ok [OF s'(1) assms(5)] s'(2) by blast
    with s' read assms(3) show ?thesis by (simp del: split_paired_Ex) meson
  qed
  then show ?thesis by simp
qed

lemma single_passes:
  assumes "request_text raw v" "divisible raw v"
    "handle_request app v = Some (Some res)" "sendable os res" "framed os res body"
    "length (response_bytes os res) < 2 ^ 64" "\<And>r. is_read os res body r \<Longrightarrow> passes (check (True, r))"
    "\<And>s. server_ok s \<Longrightarrow> waiting s fd i \<Longrightarrow> passes_served app fd i es s" "server_ok s" "waiting s fd i"
  shows "passes_served app fd i ((raw, 1, check \<circ> hd) # es) s"
proof -
  have "served app os (\<lambda>v. res) (\<lambda>v. body) [(raw, v)]" using assms by (simp add: served_def)
  moreover have "passes ((check \<circ> hd) out)" if "all_read os (\<lambda>v. res) (\<lambda>v. body) [(raw, v)] out" for out
    using that assms(7) by (auto simp: all_read_def list_all2_Cons2)
  ultimately show ?thesis
    using batch_passes [of "[(raw, v)]" app os "\<lambda>v. res" "\<lambda>v. body" "check \<circ> hd" fd i es s] assms(2,8-10)
    by (simp add: divisible_def)
qed

lemma sendable_text: "\<not> rs_is_file res \<Longrightarrow> 0 \<le> rs_file_offset res \<Longrightarrow> sendable os res"
  by (simp add: sendable_def file_whole_def set_response_content_def clear_response_state_def Let_def
      connection_init_def)

lemma it_sendable: "sendable os pong" "sendable os (echo_response body)"
  by (rule sendable_text; simp add: pong_def echo_response_def response_setters response_init_def)+

lemma ping_text: "request_text ping_request (it_head GET ''/ping'' [])" "divisible ping_request (it_head GET ''/ping'' [])"
  using it_get_text [of "''/ping''" "[]"] by (simp_all add: ping_request_def it_path_def render_headers_def)

lemma ping_length: "length ping_request \<le> 100"
  by (simp add: ping_request_def make_request_def)

text \<open>The premises of the tests: no response is longer than the address space.\<close>

abbreviation fits :: "os \<Rightarrow> http_response \<Rightarrow> bool" where
  "fits os res \<equiv> length (response_bytes os res) < 2 ^ 64"

lemma pong_served:
  assumes "os_ok os" "fits os pong"
  shows "served (it_app base fs (it_router st)) os (\<lambda>v. pong) (\<lambda>v. ''pong'') (replicate n (ping_request, it_head GET ''/ping'' []))"
  using assms it_answers(1) [of "it_head GET ''/ping'' []"] pong_framed it_sendable(1) ping_text
  by (auto simp: served_def)

lemma pong_status: "rs_status pong = OK"
  by (simp add: pong_def res_text_def)

lemma keep_alive_test:
  assumes "os_ok os" "fits os pong" "server_ok s" "waiting s fd i"
  shows "passes_served (it_app base fs (it_router st)) fd i (replicate n (ping_request, 1, keep_alive_checks \<circ> hd)) s"
  using assms(3,4)
proof (induction n arbitrary: s)
  case (Suc n)
  from single_passes [OF ping_text it_answers(1) it_sendable(1) pong_framed [OF assms(1)] assms(2) _ Suc.IH Suc.prems]
  show ?case by (simp add: keep_alive_checks_def is_read_def pong_status)
qed simp

lemma pipelining_all:
  assumes "os_ok os" "fits os pong" "server_ok s" "waiting s fd i" "n * 100 \<le> READ_BUFFER_SIZE"
  shows "passes_served (it_app base fs (it_router st)) fd i [(concat (replicate n ping_request), n, pipelining_checks)] s"
proof -
  let ?qs = "replicate n (ping_request, it_head GET ''/ping'' [])"
  have raw: "map fst ?qs = replicate n ping_request" by simp
  have len: "length (concat (replicate n ping_request)) = n * length ping_request"
    by (simp add: length_concat sum_list_replicate)
  have "n * length ping_request \<le> n * 100" using ping_length by simp
  then have fit: "length (concat (map fst ?qs)) \<le> READ_BUFFER_SIZE" unfolding raw len using assms(5) by (rule order_trans)
  have chk: "passes (pipelining_checks out)" if "all_read os (\<lambda>v. pong) (\<lambda>v. ''pong'') qs out" for out qs
    using that unfolding all_read_def
    by (induction rule: list_all2_induct) (auto simp: pipelining_checks_def is_read_def)
  have "passes_served (it_app base fs (it_router st)) fd i ((concat (map fst ?qs), length ?qs, pipelining_checks) # []) s"
    by (intro batch_passes [OF fit pong_served [OF assms(1,2)] chk _ assms(3,4)]) simp_all
  then show ?thesis unfolding raw by simp
qed

lemma pipelining_test:
  assumes "os_ok os" "fits os pong" "server_ok s" "waiting s fd i"
  shows "passes_served (it_app base fs (it_router st)) fd i [(pipelining_batch, 16, pipelining_checks)] s"
  unfolding pipelining_batch_def by (rule pipelining_all [OF assms]) (simp_all add: READ_BUFFER_SIZE_def)

lemma large_body_test:
  assumes "os_ok os" "fits os (echo_response payload)" "server_ok s" "waiting s fd i"
  shows "passes_served (it_app base fs (it_router st)) fd i [(large_body_request, 1, large_body_checks \<circ> hd)] s"
proof -
  define v where "v = (it_head POST ''/echo'' [(''Content-Length'', dec (length payload)), (''Content-Type'', ''text/plain'')])
      \<lparr>rq_body := payload\<rparr>"
  have n: "length payload = 524288" unfolding payload_def length_map length_upt by simp
  have "digit_char 2 = CHR ''2''" "digit_char 4 = CHR ''4''" "digit_char 5 = CHR ''5''" "digit_char 8 = CHR ''8''"
    by code_simp+
  then have d: "dec 524288 = ''524288''"
    by (simp add: dec.simps [of 524288] dec.simps [of 52428] dec.simps [of 5242] dec.simps [of 524] dec.simps [of 52] dec.simps [of 5])
  have "it_path ''/echo''" "length payload \<le> 1000000" "length (dec (length payload)) \<le> 20"
    using n d by (simp_all add: it_path_def)
  note rq = it_post_text [OF this v_def, folded large_body_request_def]
  have answer: "handle_request (it_app base fs (it_router st)) v = Some (Some (echo_response payload))"
    unfolding v_def by (subst it_answers(2)) simp_all
  have "framed os (echo_response payload) payload" using n by (intro echo_framed [OF assms(1)]) simp
  from single_passes [OF rq answer it_sendable(2) this assms(2), of "large_body_checks" fd i "[]" s] assms(3,4)
  show ?thesis by (simp add: large_body_checks_def is_read_def)
qed

lemma chunked_test:
  assumes "os_ok os" "fits os (echo_response (''Wikipedia in'' @ crlf @ crlf @ ''chunks.''))" "server_ok s" "waiting s fd i"
  shows "passes_served (it_app base fs (it_router st)) fd i [(chunked_request, 1, chunked_checks \<circ> hd)] s"
proof -
  let ?body = "''Wikipedia in'' @ crlf @ crlf @ ''chunks.''"
  define v where "v = (it_head POST ''/echo'' [(''Transfer-Encoding'', ''chunked'')])\<lparr>rq_body := ?body\<rparr>"
  have answer: "handle_request (it_app base fs (it_router st)) v = Some (Some (echo_response ?body))"
    unfolding v_def by (subst it_answers(2)) simp_all
  have "framed os (echo_response ?body) ?body" by (intro echo_framed [OF assms(1)]) simp
  from single_passes [OF chunked_text [OF v_def] answer it_sendable(2) this assms(2), of "chunked_checks" fd i "[]" s] assms(3,4)
  show ?thesis by (simp add: chunked_checks_def is_read_def echo_response_def)
qed

text \<open>The requests for the file: all of it, ten bytes of it, and its last five.\<close>

lemma file_text:
  "request_text (make_request ''GET'' ''/file'' [] []) (it_head GET ''/file'' [])"
  "divisible (make_request ''GET'' ''/file'' [] []) (it_head GET ''/file'' [])"
  using it_get_text [of "''/file''" "[]"] by (simp_all add: it_path_def render_headers_def)

lemma range_text:
  assumes "CR \<notin> set spec" "length spec \<le> 100"
  shows "request_text (range_request spec) (it_head GET ''/file'' [(''Range'', ''bytes='' @ spec)])"
    "divisible (range_request spec) (it_head GET ''/file'' [(''Range'', ''bytes='' @ spec)])"
  using it_get_text [of "''/file''" "[(''Range'', ''bytes='' @ spec)]"] assms
  by (simp_all add: it_path_def render_headers_def range_request_def valid_header_def isspace_def)

lemma file_answers:
  assumes "file_there os fs mtime"
  shows "handle_request (it_app base fs (it_router (fs_size fs))) (it_head GET ''/file'' []) =
      Some (Some (whole_file fs mtime))"
    "parse_range (''bytes='' @ spec) (int (length g_file_content)) = Bytes (int a) (int b) \<Longrightarrow> a \<le> b \<Longrightarrow>
     handle_request (it_app base fs (it_router (fs_size fs))) (it_head GET ''/file'' [(''Range'', ''bytes='' @ spec)]) =
      Some (Some (file_part fs mtime a b))"
  using file_answer [OF assms, of "it_head GET ''/file'' []"]
    file_answer [OF assms, of "it_head GET ''/file'' [(''Range'', ''bytes='' @ spec)]"] range_part [of "''bytes='' @ spec" a b]
  by (simp_all add: it_answers(3) range_reply_def [of _ None] whole_file_def del: append.simps)

lemma file_full_test:
  assumes "os_ok os" "file_there os fs mtime" "fits os (whole_file fs mtime)" "server_ok s" "waiting s fd i"
  shows "passes_served (it_app base fs (it_router (fs_size fs))) fd i
     [(make_request ''GET'' ''/file'' [] [], 1, file_full_checks \<circ> hd)] s"
proof -
  note framed = whole_file_framed [OF assms(1,2)]
  have hdr: "rs_headers (whole_file fs mtime) ''Accept-Ranges'' = Some ''bytes''" "rs_status (whole_file fs mtime) = OK"
    using file_base_facts(1) [OF assms(2)]
    by (simp_all add: whole_file_def file_headers_def) (simp add: file_base_def file_response_def res_file_def Let_def split: option.split)
  have "has_header r ''accept-ranges: bytes''" if "is_read os (whole_file fs mtime) g_file_content r" for r
    by (rule has_header_line [OF framed(1) that hdr(1), of _ "[]"]) (simp, code_simp)
  then show ?thesis
    using single_passes [OF file_text file_answers(1) [OF assms(2)] framed(2,1) assms(3), 
      where check = file_full_checks and fd = fd and i = i and es = "[]" and s = s]
      assms(4,5) hdr(2) by (simp add: file_full_checks_def is_read_def)
qed

lemma range_served:
  assumes "os_ok os" "file_there os fs mtime" "fits os (file_part fs mtime a b)" "server_ok s" "waiting s fd i"
    "CR \<notin> set spec" "length spec \<le> 100" "parse_range (''bytes='' @ spec) (int (length g_file_content)) = Bytes (int a) (int b)"
    "a \<le> b" "b < length g_file_content"
    "\<And>r. is_read os (file_part fs mtime a b) (take (b - a + 1) (drop a g_file_content)) r \<Longrightarrow> passes (check (True, r))"
  shows "passes_served (it_app base fs (it_router (fs_size fs))) fd i [(range_request spec, 1, check \<circ> hd)] s"
proof -
  note framed = file_part_framed [OF assms(1,2,9,10)]
  show ?thesis
    by (rule single_passes [where check = check, OF range_text [OF assms(6,7)] file_answers(2) [OF assms(2,8,9)] framed(2,1) assms(3,11) _ assms(4,5)])
      simp_all
qed

lemma file_part_status: "rs_status (file_part fs mtime a b) = PARTIAL_CONTENT"
  by (simp add: file_part_def)

lemma file_range_test:
  assumes "os_ok os" "file_there os fs mtime" "fits os (file_part fs mtime 10 19)" "fits os (file_part fs mtime 99995 99999)"
    "server_ok s" "waiting s fd i" "server_ok s2" "waiting s2 fd2 i2"
  shows "passes_served (it_app base fs (it_router (fs_size fs))) fd i [(range_request ''10-19'', 1, file_range_checks \<circ> hd)] s"
    "passes_served (it_app base fs (it_router (fs_size fs))) fd2 i2 [(range_request ''-5'', 1, file_suffix_checks \<circ> hd)] s2"
proof -
  have d: "dec 10 = ''10''" "dec 19 = ''19''" by code_simp+
  have "rs_headers (file_part fs mtime 10 19) ''Content-Range'' = Some (''bytes 10-19/'' @ dec (length g_file_content))"
    using d by (simp add: file_part_def)
  then have line: "has_header r ''content-range: bytes 10-19/''"
    if "is_read os (file_part fs mtime 10 19) body r" "framed os (file_part fs mtime 10 19) body" for r body
    by (rule has_header_line [OF that(2,1), where line = "''Content-Range: bytes 10-19/''"]) (simp, code_simp)
  have b: "19 < length g_file_content" "99999 < length g_file_content" "length g_file_content - 5 = 99995"
    by (simp_all add: file_content_length)
  have "file_range_checks (True, r) = [True, True, True, True]"
    if "is_read os (file_part fs mtime 10 19) (take (19 - 10 + 1) (drop 10 g_file_content)) r" for r
    using that line [OF that file_part_framed(1) [OF assms(1,2) _ b(1)]]
    by (simp add: file_range_checks_def is_read_def file_part_status)
  then show "passes_served (it_app base fs (it_router (fs_size fs))) fd i [(range_request ''10-19'', 1, file_range_checks \<circ> hd)] s"
    using test_ranges(1) b(1) by (intro range_served [OF assms(1-3,5,6)]) simp_all
  have "drop 99995 g_file_content = take (99999 - 99995 + 1) (drop 99995 g_file_content)"
    by (simp add: file_content_length)
  then have "file_suffix_checks (True, r) = [True, True, True]"
    if "is_read os (file_part fs mtime 99995 99999) (take (99999 - 99995 + 1) (drop 99995 g_file_content)) r" for r
    using that b(3) by (simp add: file_suffix_checks_def is_read_def file_part_status)
  then show "passes_served (it_app base fs (it_router (fs_size fs))) fd2 i2 [(range_request ''-5'', 1, file_suffix_checks \<circ> hd)] s2"
    using test_ranges(2) b(2) by (intro range_served [OF assms(1,2,4,7,8)]) simp_all
qed

section \<open>An instance\<close>

lemma pong_iter: "os_map_iter os_ordered (rs_headers pong) =
    [(''Server'', ''Oreshnek/1.0.0''), (''Connection'', ''keep-alive''), (''Content-Type'', ''text/plain''),
     (''Content-Length'', dec (length ''pong''))]"
  by (simp add: os_ordered_def header_names_def pong_def res_text_def)

lemma pong_example: "framed os_ordered pong ''pong''" "fits os_ordered pong"
proof -
  have "iterates (os_map_iter os_ordered) (map_of pong_headers)"
    unfolding pong_facts(1) [symmetric] iterates_def pong_iter
    by (simp add: pong_facts(1)) (simp add: pong_headers_def base_headers_def fun_eq_iff)
  moreover have "CR \<notin> set (os_date os_ordered)" "\<not> announces_length (os_date os_ordered)"
    unfolding os_ordered_def os_example_def os.simps by code_simp+
  ultimately show "framed os_ordered pong ''pong''" using framed_text [OF _ _ _ pong_facts(1) _ pong_facts(2-4)] by simp
  have "dec 200 = ''200''" "dec (length ''pong'') = ''4''" by code_simp+
  moreover have "os_date os_ordered = ''Thu, 01 Jan 1970 00:00:00 GMT''" by (simp add: os_ordered_def os_example_def)
  ultimately have "length (response_bytes os_ordered pong) \<le> 4096"
    unfolding pong_facts(4) build_headers_string_def pong_iter pong_status by (simp add: header_lines_def)
  then show "fits os_ordered pong" by simp
qed

text \<open>Two pings in two segments, the first of three bytes; the answers are read in segments of one byte.\<close>

lemma client_gets_answers_witness:
  "\<exists>s' w. exchange (it_app app_example fs_example (it_router (fs_size fs_example))) 5
       [take 3 ping_request, drop 3 ping_request @ ping_request] waiting_example s' \<and>
     waiting s' 5 0 \<and> sv_wire s' 0 = w \<and>
     (\<exists>out. read_responses 2 (map (\<lambda>c. Received [c]) w) [] = Some (out, [], []) \<and>
        map (\<lambda>(ok, r). (ok, rp_status r, rp_body r)) out = [(True, 200, ''pong''), (True, 200, ''pong'')])"
proof -
  let ?q = "(ping_request, it_head GET ''/ping'' [])" and ?ins = "[take 3 ping_request, drop 3 ping_request @ ping_request]"
  have ins: "concat ?ins = concat (map fst [?q, ?q])" "[] \<notin> set ?ins"
    by (simp_all add: ping_request_def make_request_def)
  have len: "0 + length (concat ?ins) \<le> READ_BUFFER_SIZE"
    unfolding ins(1) using ping_length by (simp add: READ_BUFFER_SIZE_def)
  have "\<forall>(raw, v) \<in> set [?q, ?q]. request_text raw v \<and> divisible raw v \<and>
      handle_request (it_app app_example fs_example (it_router (fs_size fs_example))) v = Some (Some pong) \<and>
      sendable os_ordered pong \<and> framed os_ordered pong ''pong'' \<and> fits os_ordered pong"
    using ping_text it_answers(1) [of "it_head GET ''/ping'' []"] pong_example it_sendable(1) by simp
  from client_gets_answers [OF waiting_example_reachable waiting_example_ready(1) ins buffer_fits_total [OF len],
      of _ "\<lambda>v. pong" os_ordered "\<lambda>v. ''pong''", OF this] obtain s' w where
    s': "exchange (it_app app_example fs_example (it_router (fs_size fs_example))) 5 ?ins waiting_example s'"
      "waiting s' 5 0" "sv_wire s' 0 = sv_wire waiting_example 0 @ w" and
    read: "\<forall>cs rs. concat cs = w \<longrightarrow> (\<forall>c \<in> set cs. c \<noteq> [] \<and> length c \<le> 65536) \<longrightarrow>
      (\<exists>out. read_responses (length [?q, ?q]) (map Received cs @ rs) [] = Some (out, rs, []) \<and>
        list_all2 (\<lambda>(ok, r) (raw, v). ok \<and> rp_status r = int (status_code (rs_status pong)) \<and>
          rp_body r = ''pong'' \<and> rp_headers r @ crlf @ crlf @ ''pong'' = response_bytes os_ordered pong) out [?q, ?q])"
    by (elim exE conjE) (rule that)
  let ?cs = "map (\<lambda>c. [c]) w"
  have cs: "concat ?cs = w" "\<forall>c \<in> set ?cs. c \<noteq> [] \<and> length c \<le> 65536" by (induction w) auto
  from read [THEN spec, THEN spec, THEN mp, OF cs(1), THEN mp, OF cs(2), of "[]"] obtain out where
    out: "read_responses (length [?q, ?q]) (map Received ?cs @ []) [] = Some (out, [], [])"
    "list_all2 (\<lambda>(ok, r) (raw, v). ok \<and> rp_status r = int (status_code (rs_status pong)) \<and>
          rp_body r = ''pong'' \<and> rp_headers r @ crlf @ crlf @ ''pong'' = response_bytes os_ordered pong) out [?q, ?q]"
    by (elim exE conjE) (rule that)
  have "length [?q, ?q] = 2" "map Received ?cs @ [] = map (\<lambda>c. Received [c]) w" by simp_all
  with out(1) have "read_responses 2 (map (\<lambda>c. Received [c]) w) [] = Some (out, [], [])" by metis
  moreover have "map (\<lambda>(ok, r). (ok, rp_status r, rp_body r)) out = [(True, 200, ''pong''), (True, 200, ''pong'')]"
    using out(2) by (auto simp: list_all2_Cons2 pong_status)
  moreover have "exchange (it_app app_example fs_example (it_router (fs_size fs_example))) 5 ?ins waiting_example s'"
    "sv_wire s' 0 = w" using s'(1,3) waiting_example_ready(2) by simp_all
  ultimately show ?thesis using s'(2) by (intro exI conjI)
qed

end
