(* ===== verification/Spec2Isabelle.thy ===== *)
theory Spec2Isabelle
  imports Prelude Http_Enums Http_Request Http_Response Http_Parser Http_Chunked
    Http_Parser_Correct Http_Parser_Props Router Router_Props Rate_Limiter Base64url Security
    Security_Props Middleware Multipart Request_Views Response_Semantics
    Connection Connection_Props Metrics Worker Server Server_Invariants Server_Props Server_Loop
    Server_Examples Thread_Pool Db_Pool Sql Config Application Logger
    Lifecycle Compression Http_Parser_Stream Intake Parser_Fuzz System Gateway Notes Users
    Video_Platform Gateway_Props Small_Examples Event_Loop Wakeup Machines
    Exchange Descriptor_Reuse Test_Client Unit_Tests Integration_Client Integration_Tests
begin

text \<open>
  Oreshnek, a C++ HTTP/1.1 framework (\<open>include/oreshnek\<close>, \<open>src\<close>): a model of its components
  and the properties that make them correct.

  The program. One thread runs the event loop (\<open>Server::run\<close>): it accepts connections, reads
  bytes into the buffer of each (\<open>Connection::read_data\<close>), parses requests off the buffer
  (\<open>HttpParser\<close>), detaches a complete request from the buffer (\<open>HttpRequest::make_owned\<close>) and
  hands it to a thread pool. A worker runs the middleware chain, finds the route (\<open>Router\<close>), calls
  the handler, compresses and adjusts the response, and queues the result; the loop takes the
  results, writes them (\<open>Connection::write_data\<close>) and goes on with the next request of the
  connection. The loop also sweeps timeouts, limits rates per address, sheds load and drains
  connections at shutdown.

  The theories.
  \<^item> \<open>Prelude\<close>: results that may be undefined (\<open>defined\<close>) or throw (\<open>throws\<close>), searching in
    strings, decimal printing and reading, the locale \<open>table\<close> of implementations of a map.
  \<^item> \<open>Http_Enums\<close>, \<open>Http_Request\<close>, \<open>Http_Response\<close>: the data of \<open>http/HttpEnums.h\<close>,
    \<open>http/HttpRequest.h\<close> and \<open>http/HttpResponse.h\<close> with their member functions.
  \<^item> \<open>Http_Parser\<close>: \<open>HttpParser.cpp\<close> with \<open>size_t\<close> written as naturals and \<open>size_t_wrap\<close> where
    the code adds; \<open>None\<close> is undefined behaviour. \<open>Http_Chunked\<close> specifies the chunked format and
    proves the in-place decoding against it, \<open>Http_Parser_Correct\<close> and \<open>Http_Parser_Props\<close> the
    parser as a whole.
  \<^item> \<open>Machines\<close>: reachable states, and two contracts as locales: an invariant (\<open>machine\<close>) and the
    refinement of one machine by another (\<open>refining\<close>). The event loop, its batches, the pool under
    it and the pipe that wakes it are interpretations.
  \<^item> \<open>Router\<close>, \<open>Router_Props\<close>: the trie of \<open>server/Router.cpp\<close>, which implements a table from
    patterns to handlers (an interpretation of \<open>table\<close>), and what its search finds.
  \<^item> \<open>Rate_Limiter\<close>: the token buckets of \<open>server/RateLimiter.cpp\<close>.
  \<^item> \<open>Base64url\<close>, \<open>Security\<close>, \<open>Security_Props\<close>: \<open>platform/SecurityUtils.cpp\<close>.
  \<^item> \<open>Middleware\<close>: \<open>server/Middleware.h\<close> and the chain runner of the worker.
  \<^item> \<open>Multipart\<close>: \<open>http/Multipart.cpp\<close>. \<open>Request_Views\<close>: the views of \<open>HttpRequest\<close> as
    addresses into a memory, for copying, moving and detaching.
  \<^item> \<open>Response_Semantics\<close>: conditional and range requests, HEAD and the choice of compression
    (the first part of \<open>server/Server.cpp\<close>).
  \<^item> \<open>Connection\<close>, \<open>Connection_Props\<close>: \<open>net/Connection.cpp\<close>, plain and TLS.
  \<^item> \<open>Metrics\<close>: \<open>server/Metrics.cpp\<close>. \<open>Worker\<close>: the task of \<open>Server::dispatch_next\<close>.
  \<^item> \<open>Server\<close>: the event handlers of \<open>server/Server.cpp\<close> and the step relation of the loop and the
    workers; \<open>Server_Invariants\<close> proves its invariant, one lemma for each operation,
    \<open>Server_Props\<close> and \<open>Server_Loop\<close> draw the properties from it, \<open>Server_Examples\<close> runs it;
    \<open>Descriptor_Reuse\<close> is a run in which a late result finds its descriptor with another connection.
    \<open>loop_teardown\<close> is what \<open>run\<close> does with the connections behind its loop.
  \<^item> \<open>Lifecycle\<close>: the descriptors of the server, from \<open>Server::listen\<close> to its destructor, and
    \<open>net/TlsContext.cpp\<close>. \<open>Compression\<close>: \<open>http/Compression.cpp\<close>.
  \<^item> \<open>Thread_Pool\<close>: \<open>server/ThreadPool.cpp\<close>, its workers as a step relation.
  \<^item> \<open>Db_Pool\<close>: \<open>platform/SqlitePool.cpp\<close> and \<open>platform/PgPool.cpp\<close>, two interpretations of one
    contract (\<open>checkout_pool\<close>). \<open>Sql\<close>: \<open>platform/SqlResult.h\<close> and the two backends.
  \<^item> \<open>Config\<close>: \<open>platform/Config.cpp\<close>. \<open>Application\<close>: \<open>main.cpp\<close>, which makes the server from the
    configuration, and \<open>platform/DatabaseManager.cpp\<close>. \<open>Logger\<close>: \<open>utils/Logger.cpp\<close>.
  \<^item> \<open>Gateway\<close>: handlers that speak to a database, as trees of statements, and the worker that runs
    them. \<open>Notes\<close>: the handlers of \<open>main.cpp\<close>. \<open>Users\<close>, \<open>Video_Platform\<close>, \<open>Small_Examples\<close>: the
    programs under \<open>examples\<close>. \<open>Gateway_Props\<close> draws what the programs promise.
  \<^item> \<open>Http_Parser_Stream\<close>: errors of the parser are stable, and what a whole stream holds. \<open>Intake\<close>:
    the connection that reads and parses it in pieces. \<open>Parser_Fuzz\<close>: the contract asserted by
    \<open>tests/fuzz/parser_fuzz_target.h\<close>.
  \<^item> \<open>Event_Loop\<close>: \<open>Server::run\<close> with its batches of events, which does only the steps of \<open>Server\<close>.
    \<open>Wakeup\<close>: the pipe and the queue by which workers wake the loop.
  \<^item> \<open>Exchange\<close>: requests, pipelined and cut into segments, from the first byte read to the last
    byte written.
  \<^item> \<open>Test_Client\<close>: the client of \<open>tests/middleware_test.cpp\<close>, which reads what the server writes.
  \<^item> \<open>Unit_Tests\<close>: the tests of forms, of the token bucket, of tokens and passwords and of the
    middleware, and the replay of the fuzz corpus, run on the model.
  \<^item> \<open>Integration_Client\<close>, \<open>Integration_Tests\<close>: the client of \<open>tests/integration_test.cpp\<close> and the
    tests of keep-alive, pipelining, bodies, files and ranges, whose exchanges the server serves.
  \<^item> \<open>System\<close>: the event loop over the thread pool, whose queue and workers hold the tasks that
    \<open>Server\<close> keeps in one list.

  State and operations. A class is a record with the fields of the class, a member function a
  definition on it that returns the record updated. The functions of the system (\<open>recv\<close>, \<open>send\<close>,
  \<open>sendfile\<close>, \<open>SSL_read\<close>, \<open>SSL_write\<close>, \<open>SSL_accept\<close>, \<open>epoll_ctl\<close>, the clock) are inputs: the
  result of each call is given to the operation, so the theorems hold for every behaviour of the
  peer and the kernel. A loop that calls the system once in each round recurses on the list of the
  results; when the list ends, the call would block. Files, \<open>stat\<close>, \<open>gmtime\<close>, the compressors,
  the hash functions and the JSON library are parameters. What \<open>connections_\<close>, the tasks and the
  queue of results share by \<open>shared_ptr\<close> are identities in one store of connections.

  What the lemmas show.
  \<^item> Parser: a request is parsed in the same way whatever arrives behind it, what is accepted is
    within the limits and framed in one way, rendered requests read back; the chunked decoding
    agrees with its specification except where \<open>size_t\<close> wraps, and a short body on which it does.
  \<^item> Router: the trie holds the registered table, the search finds the most specific route where no
    fallback is needed, and what goes wrong where one is.
  \<^item> Connection: the bytes written and those pending are the response, however the writes are cut;
    pipelined requests are taken off one by one.
  \<^item> Event loop: in every reachable state and for every interleaving with the workers, connections
    and objects correspond, at most one request of a connection is outstanding, results reach the
    connection they belong to, the cap on handlers holds and the counters balance up to the tasks
    that an escaping exception loses; the sweep closes what is overdue, a notion of its own apart from
    the code's \<open>timeout_of\<close>, and nothing else; a stop ends the loop within the grace period.
  \<^item> Life cycle: what \<open>listen\<close> opened, and each client that no worker holds, is closed exactly once,
    whatever ends the server; the gauge of the connections is not reset (\<open>teardown_clears\<close>).
  \<^item> Thread pool and connection pools: every accepted task runs once and a shutdown ends; no
    connection is lost or held twice.
  \<^item> Gateway, configuration, static files, logger: placeholders and the conninfo string mean what was
    written, every setting comes from its documented source, no file outside the directory is
    served, a rotation whose calls succeed drops only the oldest text, and whichever of them fail the
    files hold nothing twice or out of order.
  \<^item> Exchange: from every reachable state in which a plain connection waits, there is a run in
    which the server reads the requests it is sent, however they are framed and cut into segments,
    and answers them all, in order and with nothing in between, and the client of the tests reads
    those answers.
  \<^item> Composition: the loop with its batches refines the steps and no event of a batch is stale, no
    wakeup of a worker is lost, the requests taken from a client depend on its bytes alone, the thread pool
    implements the tasks the loop takes for granted, no input breaks the contract of the fuzz target.
  \<^item> Programs: only the statements in their text are issued, who reaches the protected handler, and
    the way from a registration to a token.
  \<^item> Limiter, tokens, passwords, forms, views, ranges, compression: bounds, round trips and the
    soundness of what is accepted.

  Bounds. Loops recurse on the input, on a measure (\<open>split_loop\<close>, \<open>match_route\<close>), or on the results of
  the system calls; the loop around \<open>deflate\<close> is a partial function that is proved to return. The
  only fuel is the guard of the fuzz target, which is in its source; \<open>guard_suffices\<close> shows that it
  cuts off no stream of up to 200000 rounds. Counters are 64-bit words, buffers have the
  size of the source, time is counted in nanoseconds, and \<open>double\<close> is replaced by the rationals.

  Not modelled. The macOS branches; OpenSSL, zlib, brotli, SQLite, libpq and the JSON library
  themselves; what is logged where; the tests that run a server over sockets or a database and
  compare single answers. Of the multiplexer, the model has which descriptors are armed and that an event spends
  its interest; of the pipe, the number of bytes in it; of the condition variables, that a waiting
  thread may go on when its predicate holds, so a missing \<open>notify\<close> would not be seen. A connection
  that a worker or a waiting result still holds behind the loop is closed when the last of them goes,
  which is not followed.
\<close>

end
